(* ===== verification/CK_Prelude.thy ===== *)
theory CK_Prelude
  imports Main "HOL-Library.Word"
begin

text \<open>
  Shared vocabulary of the development: the machine integer types, Rust's
  \<open>Result\<close> with panics as a third outcome, the early-return operator \<open>?\<close> on
  state-passing code, the integer operations of the Rust standard library that the
  sources call (\<open>checked_add\<close>, \<open>saturating_add\<close>, \<open>div_ceil\<close> and the rest), and
  the generic facts on words, lists and relations that the components share.
\<close>

unbundle bit_operations_syntax

named_theorems ck_defs \<open>definitions of the operations, unfolded in case analyses\<close>
named_theorems ck_inv \<open>preservation of the component invariants\<close>

section \<open>Machine integers\<close>

type_synonym u8 = "8 word"
type_synonym u16 = "16 word"
type_synonym u32 = "32 word"
type_synonym u64 = "64 word"
type_synonym bytes = "u8 list"

section \<open>Results, panics and early return\<close>

text \<open>
  \<open>Ok\<close> and \<open>Err\<close> are Rust's constructors; \<open>Panic\<close> is an arithmetic overflow check, a
  division by zero, a failed \<open>expect\<close> or an index out of range that stops the program.
\<close>

datatype ('a, 'e) result = Ok 'a | Err 'e | Panic

primrec and_then :: "('a, 'e) result \<Rightarrow> ('a \<Rightarrow> ('b, 'e) result) \<Rightarrow> ('b, 'e) result" where
  "and_then (Ok a) k = k a"
| "and_then (Err e) k = Err e"
| "and_then Panic k = Panic"

definition ok_or :: "'a option \<Rightarrow> 'e \<Rightarrow> ('a, 'e) result" where
  "ok_or x e = (case x of None \<Rightarrow> Err e | Some a \<Rightarrow> Ok a)"

primrec is_err :: "('a, 'e) result \<Rightarrow> bool" where
  "is_err (Ok a) = False"
| "is_err (Err e) = True"
| "is_err Panic = False"

text \<open>
  \<open>try_in res s k\<close> is \<open>let a = res?; k\<close> in a method whose state is \<open>s\<close> at that point:
  an error returns at once and the state stays as it is. \<open>try_st\<close> is the same for a call
  that has changed the state.
\<close>

definition try_in :: "('a, 'e) result \<Rightarrow> 's \<Rightarrow> ('a \<Rightarrow> ('b, 'e) result \<times> 's) \<Rightarrow> ('b, 'e) result \<times> 's"
  where "try_in res s k = (case res of Ok a \<Rightarrow> k a | Err e \<Rightarrow> (Err e, s) | Panic \<Rightarrow> (Panic, s))"

definition try_st :: "('a, 'e) result \<times> 's \<Rightarrow> ('a \<Rightarrow> 's \<Rightarrow> ('b, 'e) result \<times> 's) \<Rightarrow> ('b, 'e) result \<times> 's"
  where "try_st rs k = (case rs of (res, s) \<Rightarrow> try_in res s (\<lambda>a. k a s))"

lemma and_then_Ok_iff [simp]: "and_then r k = Ok b \<longleftrightarrow> (\<exists>a. r = Ok a \<and> k a = Ok b)"
  by (cases r) auto

lemma ok_or_simps [simp]: "ok_or None e = Err e" "ok_or (Some a) e = Ok a"
  by (simp_all add: ok_or_def)

lemma ok_or_Ok_iff [simp]: "ok_or x e = Ok a \<longleftrightarrow> x = Some a"
  by (cases x) auto

lemma ok_or_Err_iff [simp]: "ok_or x e = Err e' \<longleftrightarrow> x = None \<and> e = e'"
  by (cases x) auto

lemma ok_or_not_Panic [simp]: "ok_or x e \<noteq> Panic" "Panic \<noteq> ok_or x e"
  by (cases x; simp)+

lemma try_in_simps [simp]:
  "try_in (Ok a) s k = k a"
  "try_in (Err e) s k = (Err e, s)"
  "try_in Panic s k = (Panic, s)"
  by (simp_all add: try_in_def)

lemma try_st_simps [simp]:
  "try_st (Ok a, s) k = k a s"
  "try_st (Err e, s) k = (Err e, s)"
  "try_st (Panic, s) k = (Panic, s)"
  by (simp_all add: try_st_def)

lemma try_in_Ok_iff: "try_in res s k = (Ok b, s') \<longleftrightarrow> (\<exists>a. res = Ok a \<and> k a = (Ok b, s'))"
  by (cases res) auto

lemma try_st_Ok_iff: "try_st rs k = (Ok b, s') \<longleftrightarrow> (\<exists>a s. rs = (Ok a, s) \<and> k a s = (Ok b, s'))"
  by (cases rs; cases "fst rs") auto

lemma try_in_split:
  "P (try_in res s k) \<longleftrightarrow>
     (\<forall>a. res = Ok a \<longrightarrow> P (k a)) \<and> (\<forall>e. res = Err e \<longrightarrow> P (Err e, s)) \<and> (res = Panic \<longrightarrow> P (Panic, s))"
  by (cases res) auto

lemma try_in_split_asm:
  "P (try_in res s k) \<longleftrightarrow>
     \<not> ((\<exists>a. res = Ok a \<and> \<not> P (k a)) \<or> (\<exists>e. res = Err e \<and> \<not> P (Err e, s)) \<or> (res = Panic \<and> \<not> P (Panic, s)))"
  by (cases res) auto

lemma try_st_split:
  "P (try_st rs k) \<longleftrightarrow>
     (\<forall>a s. rs = (Ok a, s) \<longrightarrow> P (k a s)) \<and> (\<forall>e s. rs = (Err e, s) \<longrightarrow> P (Err e, s)) \<and>
     (\<forall>s. rs = (Panic, s) \<longrightarrow> P (Panic, s))"
  by (cases rs; cases "fst rs") auto

lemma try_st_split_asm:
  "P (try_st rs k) \<longleftrightarrow>
     \<not> ((\<exists>a s. rs = (Ok a, s) \<and> \<not> P (k a s)) \<or> (\<exists>e s. rs = (Err e, s) \<and> \<not> P (Err e, s)) \<or>
        (\<exists>s. rs = (Panic, s) \<and> \<not> P (Panic, s)))"
  by (cases rs; cases "fst rs") auto

lemmas try_splits = try_in_split try_in_split_asm try_st_split try_st_split_asm

section \<open>Integer operations of the Rust standard library\<close>

text \<open>\<open>x + y\<close> in the dev profile: overflow is a panic.\<close>

definition add_or_panic :: "'a::len word \<Rightarrow> 'a word \<Rightarrow> ('a word, 'e) result" where
  "add_or_panic x y = (if unat x + unat y < 2 ^ LENGTH('a) then Ok (x + y) else Panic)"

definition checked_add :: "'a::len word \<Rightarrow> 'a word \<Rightarrow> 'a word option" where
  "checked_add x y = (if unat x + unat y < 2 ^ LENGTH('a) then Some (x + y) else None)"

definition checked_mul :: "'a::len word \<Rightarrow> 'a word \<Rightarrow> 'a word option" where
  "checked_mul x y = (if unat x * unat y < 2 ^ LENGTH('a) then Some (x * y) else None)"

definition saturating_add :: "'a::len word \<Rightarrow> 'a word \<Rightarrow> 'a word" where
  "saturating_add x y = (if unat x + unat y < 2 ^ LENGTH('a) then x + y else - 1)"

definition saturating_sub :: "'a::len word \<Rightarrow> 'a word \<Rightarrow> 'a word" where
  "saturating_sub x y = (if x < y then 0 else x - y)"

definition div_ceil :: "'a::len word \<Rightarrow> 'a word \<Rightarrow> 'a word" where
  "div_ceil x y = (if x mod y = 0 then x div y else x div y + 1)"

lemma unat_bound: "unat x < 2 ^ LENGTH('a)"
  for x :: "'a::len word"
  by (rule unsigned_less)

lemma unat_of_nat_small: "n < 2 ^ LENGTH('a) \<Longrightarrow> unat (of_nat n :: 'a::len word) = n"
  by (simp add: unat_of_nat)

lemma unat_ucast_widen:
  assumes "LENGTH('a) \<le> LENGTH('b)"
  shows "unat (ucast (x :: 'a::len word) :: 'b::len word) = unat x"
proof -
  have "unat x < 2 ^ LENGTH('b)"
    by (rule less_le_trans [OF unat_bound power_increasing]) (use assms in simp_all)
  then show ?thesis by (simp add: unsigned_ucast_eq take_bit_nat_eq_self)
qed

lemma unat_ucast_32_64 [simp]: "unat (ucast (x :: u32) :: u64) = unat x"
  by (rule unat_ucast_widen) simp

lemma unat_add_no_overflow:
  fixes x y :: "'a::len word"
  shows "unat x + unat y < 2 ^ LENGTH('a) \<Longrightarrow> unat (x + y) = unat x + unat y"
  by (rule unat_add_lem [THEN iffD1])

lemma unat_mult_no_overflow:
  fixes x y :: "'a::len word"
  shows "unat x * unat y < 2 ^ LENGTH('a) \<Longrightarrow> unat (x * y) = unat x * unat y"
  by (rule unat_mult_lem [THEN iffD1])

lemma checked_add_Some:
  "checked_add x y = Some z \<longleftrightarrow> unat z = unat x + unat y"
  for x y z :: "'a::len word"
proof
  assume "checked_add x y = Some z"
  then show "unat z = unat x + unat y"
    by (auto simp: checked_add_def unat_add_no_overflow split: if_splits)
next
  assume z: "unat z = unat x + unat y"
  have "unat z < 2 ^ LENGTH('a)" by (rule unsigned_less)
  with z have lt: "unat x + unat y < 2 ^ LENGTH('a)" by simp
  with z have "z = x + y" by (simp add: word_unat_eq_iff unat_add_no_overflow)
  with lt show "checked_add x y = Some z" by (simp add: checked_add_def)
qed

lemma checked_mul_Some:
  "checked_mul x y = Some z \<longleftrightarrow> unat z = unat x * unat y"
  for x y z :: "'a::len word"
proof
  assume "checked_mul x y = Some z"
  then show "unat z = unat x * unat y"
    by (auto simp: checked_mul_def unat_mult_no_overflow split: if_splits)
next
  assume z: "unat z = unat x * unat y"
  have "unat z < 2 ^ LENGTH('a)" by (rule unsigned_less)
  with z have lt: "unat x * unat y < 2 ^ LENGTH('a)" by simp
  with z have "z = x * y" by (simp add: word_unat_eq_iff unat_mult_no_overflow)
  with lt show "checked_mul x y = Some z" by (simp add: checked_mul_def)
qed

lemma add_or_panic_Ok:
  "add_or_panic x y = Ok z \<longleftrightarrow> unat z = unat x + unat y"
  for x y z :: "'a::len word"
  using checked_add_Some [of x y z] by (auto simp: add_or_panic_def checked_add_def split: if_splits)

lemma add_or_panic_not_Err [simp]: "add_or_panic x y \<noteq> Err e"
  by (simp add: add_or_panic_def)

lemma unat_saturating_add:
  "unat (saturating_add x y) = min (unat x + unat y) (2 ^ LENGTH('a) - 1)"
  for x y :: "'a::len word"
  by (auto simp: saturating_add_def unat_add_no_overflow unsigned_minus_1_eq_mask mask_eq_exp_minus_1)

lemma unat_saturating_sub: "unat (saturating_sub x y) = unat x - unat y"
  by (auto simp: saturating_sub_def word_less_nat_alt unat_sub word_le_nat_alt)

section \<open>Words, masks and alignment\<close>

lemma unat_drop_bit_eq_div: "unat (drop_bit n x) = unat x div 2 ^ n"
  for x :: "'a::len word"
proof -
  have "unat (drop_bit n x) = drop_bit n (take_bit LENGTH('a) (unat x))"
    by (simp only: unsigned_drop_bit_eq)
  also have "\<dots> = drop_bit n (unat x)"
    by (simp add: take_bit_nat_eq_self)
  finally show ?thesis by (simp add: drop_bit_eq_div)
qed

text \<open>\<open>x & !(2^n - 1)\<close> rounds down to a multiple of \<open>2^n\<close>.\<close>

lemma unat_and_not_mask:
  "unat (x AND NOT (mask n)) = unat x div 2 ^ n * 2 ^ n"
  for x :: "'a::len word"
proof -
  have "x AND NOT (mask n) = push_bit n (drop_bit n x)"
    by (rule bit_word_eqI) (auto simp: bit_simps)
  moreover have "unat (push_bit n (drop_bit n x)) = unat x div 2 ^ n * 2 ^ n"
  proof -
    have "unat (drop_bit n x) = unat x div 2 ^ n"
      by (rule unat_drop_bit_eq_div)
    moreover have "unat (push_bit n (drop_bit n x)) = take_bit LENGTH('a) (push_bit n (unat (drop_bit n x)))"
      by (simp add: unsigned_push_bit_eq)
    moreover have "unat x div 2 ^ n * 2 ^ n < 2 ^ LENGTH('a)"
      by (metis div_times_less_eq_dividend le_less_trans unsigned_less)
    ultimately show ?thesis
      by (simp add: push_bit_eq_mult take_bit_nat_eq_self)
  qed
  ultimately show ?thesis by simp
qed

lemma unat_and_mask: "unat (x AND mask n) = unat x mod 2 ^ n"
  for x :: "'a::len word"
proof -
  have "unat (x AND mask n) = take_bit n (unat x)"
    by (simp only: take_bit_eq_mask [symmetric] unsigned_take_bit_eq)
  then show ?thesis by (simp add: take_bit_eq_mod)
qed

lemma word_bits_eq_iff: "x = y \<longleftrightarrow> (\<forall>n<LENGTH('a). bit x n \<longleftrightarrow> bit y n)"
  for x y :: "'a::len word"
  by (auto intro: bit_word_eqI)

section \<open>Lists as tables of slots\<close>

text \<open>\<open>iter().find(|slot| slot.is_none())\<close> and the write through the slot found.\<close>

primrec set_first :: "('a \<Rightarrow> bool) \<Rightarrow> 'a \<Rightarrow> 'a list \<Rightarrow> 'a list option" where
  "set_first p v [] = None"
| "set_first p v (x # xs) = (if p x then Some (v # xs) else map_option ((#) x) (set_first p v xs))"

lemma set_first_None_iff: "set_first p v xs = None \<longleftrightarrow> (\<forall>x\<in>set xs. \<not> p x)"
  by (induction xs) auto

lemma set_first_Some:
  "set_first p v xs = Some ys \<Longrightarrow> \<exists>as x bs. xs = as @ x # bs \<and> p x \<and> (\<forall>a\<in>set as. \<not> p a) \<and> ys = as @ v # bs"
proof (induction xs arbitrary: ys)
  case Nil
  then show ?case by simp
next
  case (Cons x xs)
  show ?case
  proof (cases "p x")
    case True
    with Cons.prems have "x # xs = [] @ x # xs \<and> p x \<and> (\<forall>a\<in>set []. \<not> p a) \<and> ys = [] @ v # xs" by simp
    then show ?thesis by blast
  next
    case False
    with Cons.prems obtain zs where zs: "set_first p v xs = Some zs" "ys = x # zs" by auto
    from Cons.IH [OF zs(1)] obtain as y bs
      where "xs = as @ y # bs" "p y" "\<forall>a\<in>set as. \<not> p a" "zs = as @ v # bs" by blast
    with False zs(2)
    have "x # xs = (x # as) @ y # bs \<and> p y \<and> (\<forall>a\<in>set (x # as). \<not> p a) \<and> ys = (x # as) @ v # bs"
      by simp
    then show ?thesis by blast
  qed
qed

lemma set_first_length: "set_first p v xs = Some ys \<Longrightarrow> length ys = length xs"
  by (auto dest!: set_first_Some)

lemma add_mod_distinct:
  fixes i j k n :: nat
  assumes "i < j" and "j - i < n"
  shows "(k + i) mod n \<noteq> (k + j) mod n"
proof
  assume "(k + i) mod n = (k + j) mod n"
  then have "n dvd (k + j) - (k + i)" using assms by (intro mod_eq_dvd_iff_nat [THEN iffD1]) simp_all
  with assms show False by (simp add: nat_dvd_not_less)
qed

section \<open>Formatting numbers\<close>

text \<open>\<^verbatim>\<open>{}\<close> and \<^verbatim>\<open>{:#x}\<close> of a non-negative number.\<close>

fun digits :: "nat \<Rightarrow> string" where
  "digits n = (if n < 10 then [char_of (48 + n)] else digits (n div 10) @ [char_of (48 + n mod 10)])"

fun hex_digits :: "nat \<Rightarrow> string" where
  "hex_digits n = (let d = n mod 16; c = char_of (if d < 10 then 48 + d else 87 + d) in
     if n < 16 then [c] else hex_digits (n div 16) @ [c])"

definition hex :: "nat \<Rightarrow> string" where
  "hex n = ''0x'' @ hex_digits n"

declare digits.simps [simp del] hex_digits.simps [simp del]

end
