(* ===== verification/Hosted_Types.thy ===== *)
theory Hosted_Types
  imports CK_Prelude
begin

text \<open>
  The data types of \<^verbatim>\<open>crates/court-hosted/src/lib.rs\<close>: errors, the three identifier
  newtypes, the rights bit set, courts, descriptors, trace events and capabilities.
  Newtypes over \<open>u64\<close> stay newtypes, so a capability id is never mistaken for an object
  id; the order derived by \<^verbatim>\<open>#[derive(PartialOrd, Ord)]\<close> is an instance of
  \<open>linorder\<close>.
\<close>

datatype CkError =
    BadCap
  | NoRight
  | Revoked
  | NotFound
  | InvalidObject
  | InvalidState
  | PeerDown
  | QueueFull
  | QueueEmpty

type_synonym 'a CkResult = "('a, CkError) result"

definition ck_error_display :: "CkError \<Rightarrow> string" where
  "ck_error_display e = (case e of
      BadCap \<Rightarrow> ''bad capability''
    | NoRight \<Rightarrow> ''missing right''
    | Revoked \<Rightarrow> ''capability revoked''
    | NotFound \<Rightarrow> ''not found''
    | InvalidObject \<Rightarrow> ''invalid object''
    | InvalidState \<Rightarrow> ''invalid state''
    | PeerDown \<Rightarrow> ''peer down''
    | QueueFull \<Rightarrow> ''queue full''
    | QueueEmpty \<Rightarrow> ''queue empty'')"

datatype CourtId = CourtId (court_raw: u64)
datatype CapId = CapId (cap_raw: u64)
datatype ObjectId = ObjectId (object_raw: u64)

instantiation CourtId :: linorder
begin
definition less_eq_CourtId :: "CourtId \<Rightarrow> CourtId \<Rightarrow> bool" where
  "a \<le> b \<longleftrightarrow> court_raw a \<le> court_raw b"
definition less_CourtId :: "CourtId \<Rightarrow> CourtId \<Rightarrow> bool" where
  "a < b \<longleftrightarrow> court_raw a < court_raw b"
instance
  by standard (auto simp: less_eq_CourtId_def less_CourtId_def intro: CourtId.expand)
end

instantiation CapId :: linorder
begin
definition less_eq_CapId :: "CapId \<Rightarrow> CapId \<Rightarrow> bool" where
  "a \<le> b \<longleftrightarrow> cap_raw a \<le> cap_raw b"
definition less_CapId :: "CapId \<Rightarrow> CapId \<Rightarrow> bool" where
  "a < b \<longleftrightarrow> cap_raw a < cap_raw b"
instance
  by standard (auto simp: less_eq_CapId_def less_CapId_def intro: CapId.expand)
end

instantiation ObjectId :: linorder
begin
definition less_eq_ObjectId :: "ObjectId \<Rightarrow> ObjectId \<Rightarrow> bool" where
  "a \<le> b \<longleftrightarrow> object_raw a \<le> object_raw b"
definition less_ObjectId :: "ObjectId \<Rightarrow> ObjectId \<Rightarrow> bool" where
  "a < b \<longleftrightarrow> object_raw a < object_raw b"
instance
  by standard (auto simp: less_eq_ObjectId_def less_ObjectId_def intro: ObjectId.expand)
end

datatype ObjectType = CorridorObject

lemma ObjectType_single: "ty = (ty' :: ObjectType)"
  by (cases ty; cases ty') simp

section \<open>Rights\<close>

datatype Rights = Rights (rights_raw: u64)

definition NONE :: Rights where "NONE = Rights 0"
definition READ :: Rights where "READ = Rights (push_bit 0 1)"
definition WRITE :: Rights where "WRITE = Rights (push_bit 1 1)"
definition SEND :: Rights where "SEND = Rights (push_bit 2 1)"
definition RECV :: Rights where "RECV = Rights (push_bit 3 1)"
definition DELEGATE :: Rights where "DELEGATE = Rights (push_bit 4 1)"
definition REVOKE :: Rights where "REVOKE = Rights (push_bit 5 1)"
definition OBSERVE :: Rights where "OBSERVE = Rights (push_bit 6 1)"

definition contains :: "Rights \<Rightarrow> Rights \<Rightarrow> bool" where
  "contains self required \<longleftrightarrow> rights_raw self AND rights_raw required = rights_raw required"

definition bitor :: "Rights \<Rightarrow> Rights \<Rightarrow> Rights" where
  "bitor self rhs = Rights (rights_raw self OR rights_raw rhs)"

lemmas rights_defs = NONE_def READ_def WRITE_def SEND_def RECV_def DELEGATE_def REVOKE_def OBSERVE_def

lemma contains_iff_bits:
  "contains a b \<longleftrightarrow> (\<forall>n. bit (rights_raw b) n \<longrightarrow> bit (rights_raw a) n)"
proof
  assume "contains a b"
  then have "\<And>n. bit (rights_raw a AND rights_raw b) n = bit (rights_raw b) n"
    by (simp add: contains_def)
  then show "\<forall>n. bit (rights_raw b) n \<longrightarrow> bit (rights_raw a) n"
    by (simp only: bit_and_iff) blast
next
  assume "\<forall>n. bit (rights_raw b) n \<longrightarrow> bit (rights_raw a) n"
  then show "contains a b"
    unfolding contains_def by (intro bit_eqI) (auto simp: bit_and_iff)
qed

lemma contains_refl [simp]: "contains a a"
  by (simp add: contains_def)

lemma contains_trans: "contains a b \<Longrightarrow> contains b c \<Longrightarrow> contains a c"
  by (simp add: contains_iff_bits)

lemma contains_antisym: "contains a b \<Longrightarrow> contains b a \<Longrightarrow> a = b"
  by (intro Rights.expand bit_eqI) (auto simp: contains_iff_bits)

lemma contains_NONE [simp]: "contains a NONE"
  by (simp add: contains_def NONE_def)

lemma contains_bitor: "contains a (bitor b c) \<longleftrightarrow> contains a b \<and> contains a c"
  by (auto simp: contains_iff_bits bitor_def bit_simps)

lemma bitor_contains [simp]: "contains (bitor a b) a" "contains (bitor a b) b"
  by (auto simp: contains_iff_bits bitor_def bit_simps)

section \<open>Courts, descriptors, events, capabilities\<close>

datatype CourtState = Running | Faulted

record Court =
  court_id :: CourtId
  court_name :: string
  court_state :: CourtState

datatype CorridorTransport = ControlChannel | SharedRingTransport

record Descriptor =
  desc_path :: string
  desc_object :: ObjectId
  desc_object_type :: ObjectType
  desc_transport :: CorridorTransport

datatype TraceEvent =
    EvCourtCreated CourtId string
  | EvCorridorCreated string ObjectId CorridorTransport
  | EvNamespaceLookup CourtId string bool
  | EvCapGranted CourtId CapId ObjectId Rights
  | EvOpenDenied CourtId string CkError
  | EvOpened CourtId string CapId Rights
  | EvSent CourtId ObjectId nat
  | EvReceived CourtId ObjectId nat
  | EvCapRevoked CapId
  | EvCourtFaulted CourtId
  | EvPeerDown CourtId ObjectId

record Capability =
  cap_object :: ObjectId
  cap_object_type :: ObjectType
  cap_rights :: Rights
  cap_parent :: "CapId option"
  cap_revoked :: bool
  cap_delegable :: bool

end
