(* ===== verification/Cap_Registry.thy ===== *)
theory Cap_Registry
  imports Hosted_Types
begin

text \<open>
  The capability registry of \<^verbatim>\<open>crates/court-hosted/src/lib.rs\<close> (\<^verbatim>\<open>CapRegistry\<close>): minting,
  delegation with attenuation, revocation down the derivation tree, authorization. The
  worklist loop of \<^verbatim>\<open>revoke\<close> is a \<^theory_text>\<open>partial_function\<close>, since on an arbitrary children
  map it need not stop; under the registry invariant it does, and it revokes exactly the
  descendants of the capability it is called on.
\<close>

section \<open>State and operations\<close>

record CapRegistry =
  next_cap :: u64
  caps :: "CapId \<rightharpoonup> Capability"
  children :: "CapId \<rightharpoonup> CapId list"

definition empty_registry :: CapRegistry where
  "empty_registry = \<lparr>next_cap = 0, caps = Map.empty, children = Map.empty\<rparr>"

definition alloc_cap :: "CapRegistry \<Rightarrow> CapId CkResult \<times> CapRegistry" where
  "alloc_cap reg = try_in (add_or_panic (next_cap reg) 1) reg (\<lambda>n.
     (Ok (CapId n), reg\<lparr>next_cap := n\<rparr>))"

definition mint_root ::
  "ObjectId \<Rightarrow> ObjectType \<Rightarrow> Rights \<Rightarrow> CapRegistry \<Rightarrow> CapId CkResult \<times> CapRegistry" where
  "mint_root object object_type rights reg = try_st (alloc_cap reg) (\<lambda>cap reg.
     (Ok cap, reg\<lparr>caps := (caps reg)(cap \<mapsto>
        \<lparr>cap_object = object, cap_object_type = object_type, cap_rights = rights,
         cap_parent = None, cap_revoked = False, cap_delegable = True\<rparr>)\<rparr>))"

definition push_child :: "CapId \<Rightarrow> CapId \<Rightarrow> (CapId \<rightharpoonup> CapId list) \<Rightarrow> (CapId \<rightharpoonup> CapId list)" where
  "push_child parent cap m = m(parent \<mapsto> (case m parent of None \<Rightarrow> [] | Some cs \<Rightarrow> cs) @ [cap])"

definition delegate :: "CapId \<Rightarrow> Rights \<Rightarrow> CapRegistry \<Rightarrow> CapId CkResult \<times> CapRegistry" where
  "delegate parent rights reg = try_in (ok_or (caps reg parent) BadCap) reg (\<lambda>parent_cap.
     if cap_revoked parent_cap then (Err Revoked, reg)
     else if \<not> cap_delegable parent_cap \<or> \<not> contains (cap_rights parent_cap) DELEGATE
     then (Err NoRight, reg)
     else if \<not> contains (cap_rights parent_cap) rights then (Err NoRight, reg)
     else try_st (alloc_cap reg) (\<lambda>cap reg.
       (Ok cap, reg\<lparr>caps := (caps reg)(cap \<mapsto>
           \<lparr>cap_object = cap_object parent_cap, cap_object_type = cap_object_type parent_cap,
            cap_rights = rights, cap_parent = Some parent, cap_revoked = False,
            cap_delegable = contains rights DELEGATE\<rparr>),
         children := push_child parent cap (children reg)\<rparr>)))"

definition mark_revoked :: "CapId \<Rightarrow> (CapId \<rightharpoonup> Capability) \<Rightarrow> (CapId \<rightharpoonup> Capability)" where
  "mark_revoked cap m = (case m cap of None \<Rightarrow> m | Some c \<Rightarrow> m(cap \<mapsto> c\<lparr>cap_revoked := True\<rparr>))"

text \<open>
  The loop \<^verbatim>\<open>while let Some(next) = stack.pop()\<close>. The stack is kept with its top first, so
  \<^verbatim>\<open>stack.extend(children)\<close> puts the reversed list in front.
\<close>

partial_function (option) revoke_loop :: "CapId list \<Rightarrow> CapRegistry \<Rightarrow> CapRegistry option" where
  "revoke_loop stack reg = (case stack of
      [] \<Rightarrow> Some reg
    | next # rest \<Rightarrow>
        revoke_loop (case children reg next of None \<Rightarrow> rest | Some cs \<Rightarrow> rev cs @ rest)
          (reg\<lparr>caps := mark_revoked next (caps reg)\<rparr>))"

definition revoke_cap :: "CapId \<Rightarrow> CapRegistry \<Rightarrow> (unit CkResult \<times> CapRegistry) option" where
  "revoke_cap cap reg = (if caps reg cap = None then Some (Err BadCap, reg)
     else map_option (\<lambda>reg'. (Ok (), reg')) (revoke_loop [cap] reg))"

definition authorize :: "CapId \<Rightarrow> ObjectType \<Rightarrow> Rights \<Rightarrow> CapRegistry \<Rightarrow> ObjectId CkResult" where
  "authorize cap object_type rights reg = and_then (ok_or (caps reg cap) BadCap) (\<lambda>capability.
     if cap_revoked capability then Err Revoked
     else if cap_object_type capability \<noteq> object_type then Err InvalidObject
     else if \<not> contains (cap_rights capability) rights then Err NoRight
     else Ok (cap_object capability))"

definition parent_of :: "CapRegistry \<Rightarrow> CapId \<Rightarrow> CapId option" where
  "parent_of reg cap = Option.bind (caps reg cap) cap_parent"

section \<open>The derivation tree and the registry invariant\<close>

definition child_of :: "CapRegistry \<Rightarrow> CapId \<Rightarrow> CapId \<Rightarrow> bool" where
  "child_of reg p c \<longleftrightarrow> (case children reg p of None \<Rightarrow> False | Some cs \<Rightarrow> c \<in> set cs)"

abbreviation descends :: "CapRegistry \<Rightarrow> CapId \<Rightarrow> CapId \<Rightarrow> bool" where
  "descends reg \<equiv> (child_of reg)\<^sup>*\<^sup>*"

text \<open>What a capability inherits from the one it was delegated from.\<close>

definition derived_from :: "Capability \<Rightarrow> Capability \<Rightarrow> bool" where
  "derived_from k pk \<longleftrightarrow> cap_object k = cap_object pk \<and> cap_object_type k = cap_object_type pk \<and>
     contains (cap_rights pk) (cap_rights k) \<and> contains (cap_rights pk) DELEGATE \<and>
     (cap_revoked pk \<longrightarrow> cap_revoked k)"

definition ids_bounded :: "CapRegistry \<Rightarrow> bool" where
  "ids_bounded reg \<longleftrightarrow> (\<forall>c\<in>dom (caps reg). 0 < cap_raw c \<and> cap_raw c \<le> next_cap reg)"

definition links_agree :: "CapRegistry \<Rightarrow> bool" where
  "links_agree reg \<longleftrightarrow> (\<forall>p cs. children reg p = Some cs \<longrightarrow> distinct cs) \<and>
     (\<forall>p c. child_of reg p c \<longleftrightarrow> parent_of reg c = Some p)"

definition derivations_ok :: "CapRegistry \<Rightarrow> bool" where
  "derivations_ok reg \<longleftrightarrow> (\<forall>c k p. caps reg c = Some k \<and> cap_parent k = Some p \<longrightarrow>
     p < c \<and> (\<exists>pk. caps reg p = Some pk \<and> derived_from k pk))"

definition cap_inv :: "CapRegistry \<Rightarrow> bool" where
  "cap_inv reg \<longleftrightarrow> ids_bounded reg \<and> links_agree reg \<and> derivations_ok reg"

lemma cap_inv_empty: "cap_inv empty_registry"
  by (simp add: cap_inv_def empty_registry_def ids_bounded_def links_agree_def derivations_ok_def
      child_of_def parent_of_def)

lemma parent_of_Some_iff: "parent_of reg c = Some p \<longleftrightarrow> (\<exists>k. caps reg c = Some k \<and> cap_parent k = Some p)"
  by (auto simp: parent_of_def bind_eq_Some_conv)

lemma cap_inv_boundD:
  "cap_inv reg \<Longrightarrow> caps reg c = Some k \<Longrightarrow> 0 < cap_raw c \<and> cap_raw c \<le> next_cap reg"
  by (auto simp: cap_inv_def ids_bounded_def)

lemma cap_inv_parentD:
  "cap_inv reg \<Longrightarrow> caps reg c = Some k \<Longrightarrow> cap_parent k = Some p \<Longrightarrow>
     p < c \<and> (\<exists>pk. caps reg p = Some pk \<and> derived_from k pk)"
  by (auto simp: cap_inv_def derivations_ok_def)

lemma cap_inv_childD:
  assumes "cap_inv reg" and "child_of reg p c"
  obtains k pk where "caps reg c = Some k" "cap_parent k = Some p" "caps reg p = Some pk"
    "p < c" "derived_from k pk"
proof -
  from assms have "parent_of reg c = Some p" by (simp add: cap_inv_def links_agree_def)
  then obtain k where k: "caps reg c = Some k" "cap_parent k = Some p"
    by (auto simp: parent_of_Some_iff)
  with cap_inv_parentD [OF assms(1) k] that show thesis by blast
qed

lemma next_id_fresh:
  assumes "cap_inv reg" and "add_or_panic (next_cap reg) 1 = (Ok n :: u64 CkResult)"
  shows "caps reg (CapId n) = None" and "next_cap reg < n" and "0 < n"
proof -
  from assms(2) have n: "unat n = unat (next_cap reg) + 1" by (simp add: add_or_panic_Ok)
  then show lt: "next_cap reg < n" and "0 < n" by (simp_all add: word_less_nat_alt)
  with assms(1) show "caps reg (CapId n) = None"
    by (metis CapId.sel cap_inv_boundD leD not_None_eq)
qed

section \<open>Minting and delegation\<close>

lemma alloc_cap_cases:
  assumes "alloc_cap reg = (res, reg')"
  obtains (ok) n where "add_or_panic (next_cap reg) 1 = (Ok n :: u64 CkResult)" "res = Ok (CapId n)"
      "reg' = reg\<lparr>next_cap := n\<rparr>"
  | (panic) "res = Panic" "reg' = reg"
  using assms by (auto simp: alloc_cap_def split: try_splits)

lemma mint_root_inv [ck_inv]:
  assumes inv: "cap_inv reg" and mint: "mint_root ob ty rights reg = (Ok cap, reg')"
  shows "cap_inv reg'"
proof -
  from mint obtain n where n: "add_or_panic (next_cap reg) 1 = (Ok n :: u64 CkResult)"
    and cap: "cap = CapId n"
    and reg': "reg' = reg\<lparr>next_cap := n, caps := (caps reg)(CapId n \<mapsto>
        \<lparr>cap_object = ob, cap_object_type = ty, cap_rights = rights,
         cap_parent = None, cap_revoked = False, cap_delegable = True\<rparr>)\<rparr>"
    by (auto simp: mint_root_def split: try_splits elim!: alloc_cap_cases)
  note fresh = next_id_fresh [OF inv n]
  have "ids_bounded reg'"
    using inv fresh by (force simp: reg' cap_inv_def ids_bounded_def)
  moreover have "links_agree reg'"
    using inv fresh by (auto simp: reg' cap_inv_def links_agree_def child_of_def parent_of_def)
  moreover have "derivations_ok reg'"
    unfolding derivations_ok_def
  proof (intro allI impI)
    fix c k p
    assume c: "caps reg' c = Some k \<and> cap_parent k = Some p"
    then have "c \<noteq> CapId n" by (auto simp: reg')
    with c have "caps reg c = Some k" "cap_parent k = Some p" by (auto simp: reg')
    from cap_inv_parentD [OF inv this] fresh(1)
    show "p < c \<and> (\<exists>pk. caps reg' p = Some pk \<and> derived_from k pk)" by (auto simp: reg')
  qed
  ultimately show ?thesis by (simp add: cap_inv_def)
qed

lemma delegate_Ok:
  assumes "delegate parent rights reg = (Ok cap, reg')"
  obtains n pk where "caps reg parent = Some pk" "\<not> cap_revoked pk" "cap_delegable pk"
    "contains (cap_rights pk) DELEGATE" "contains (cap_rights pk) rights"
    "add_or_panic (next_cap reg) 1 = (Ok n :: u64 CkResult)" "cap = CapId n"
    "reg' = reg\<lparr>next_cap := n, caps := (caps reg)(CapId n \<mapsto>
         \<lparr>cap_object = cap_object pk, cap_object_type = cap_object_type pk,
          cap_rights = rights, cap_parent = Some parent, cap_revoked = False,
          cap_delegable = contains rights DELEGATE\<rparr>),
       children := push_child parent (CapId n) (children reg)\<rparr>"
  using assms by (auto simp: delegate_def split: try_splits if_splits elim!: alloc_cap_cases)

lemma delegate_not_Ok_unchanged:
  "delegate parent rights reg = (res, reg') \<Longrightarrow> (\<And>cap. res \<noteq> Ok cap) \<Longrightarrow> reg' = reg"
  by (auto simp: delegate_def split: try_splits if_splits elim!: alloc_cap_cases)

lemma delegate_inv [ck_inv]:
  assumes inv: "cap_inv reg" and del: "delegate parent rights reg = (Ok cap, reg')"
  shows "cap_inv reg'"
proof -
  from del obtain n pk where pk: "caps reg parent = Some pk" "\<not> cap_revoked pk"
    "contains (cap_rights pk) DELEGATE" "contains (cap_rights pk) rights"
    and n: "add_or_panic (next_cap reg) 1 = (Ok n :: u64 CkResult)"
    and reg': "reg' = reg\<lparr>next_cap := n, caps := (caps reg)(CapId n \<mapsto>
         \<lparr>cap_object = cap_object pk, cap_object_type = cap_object_type pk,
          cap_rights = rights, cap_parent = Some parent, cap_revoked = False,
          cap_delegable = contains rights DELEGATE\<rparr>),
       children := push_child parent (CapId n) (children reg)\<rparr>"
    by (rule delegate_Ok)
  note fresh = next_id_fresh [OF inv n]
  have lt: "parent < CapId n"
    using cap_inv_boundD [OF inv pk(1)] fresh(2) by (auto simp: less_CapId_def intro: le_less_trans)
  have new: "\<not> child_of reg p (CapId n)" for p
    using inv fresh(1) by (auto simp: cap_inv_def links_agree_def parent_of_def)
  have "ids_bounded reg'"
    using inv fresh by (force simp: reg' cap_inv_def ids_bounded_def)
  moreover have "links_agree reg'"
    unfolding links_agree_def
  proof (intro conjI allI impI)
    fix p cs
    assume "children reg' p = Some cs"
    then show "distinct cs"
      using inv new [of p]
      by (auto simp: reg' push_child_def cap_inv_def links_agree_def child_of_def split: if_splits option.splits)
  next
    fix p c
    have "child_of reg' p c \<longleftrightarrow> child_of reg p c \<or> p = parent \<and> c = CapId n"
      by (auto simp: reg' push_child_def child_of_def split: option.splits)
    moreover have "parent_of reg' c = Some p \<longleftrightarrow> parent_of reg c = Some p \<or> p = parent \<and> c = CapId n"
      using fresh(1) by (auto simp: reg' parent_of_def)
    ultimately show "child_of reg' p c \<longleftrightarrow> parent_of reg' c = Some p"
      using inv by (simp add: cap_inv_def links_agree_def)
  qed
  moreover have "derivations_ok reg'"
    unfolding derivations_ok_def
  proof (intro allI impI)
    fix c k p
    assume c: "caps reg' c = Some k \<and> cap_parent k = Some p"
    show "p < c \<and> (\<exists>pk. caps reg' p = Some pk \<and> derived_from k pk)"
    proof (cases "c = CapId n")
      case True
      with c lt pk fresh(1) show ?thesis by (auto simp: reg' derived_from_def)
    next
      case False
      with c have "caps reg c = Some k" "cap_parent k = Some p" by (auto simp: reg')
      from cap_inv_parentD [OF inv this] fresh(1) show ?thesis by (auto simp: reg')
    qed
  qed
  ultimately show ?thesis by (simp add: cap_inv_def)
qed

section \<open>Revocation\<close>

text \<open>The specification of the worklist: mark every capability reachable from the roots.\<close>

definition revoke_tree :: "CapId set \<Rightarrow> CapRegistry \<Rightarrow> CapRegistry" where
  "revoke_tree roots reg = reg\<lparr>caps := (\<lambda>c. map_option
     (\<lambda>k. if \<exists>r\<in>roots. descends reg r c then k\<lparr>cap_revoked := True\<rparr> else k) (caps reg c))\<rparr>"

definition loop_ok :: "CapRegistry \<Rightarrow> bool" where
  "loop_ok reg \<longleftrightarrow> (\<forall>p cs. children reg p = Some cs \<longrightarrow>
     distinct cs \<and> (\<forall>c\<in>set cs. p < c \<and> cap_raw c \<le> next_cap reg))"

lemma cap_inv_loop_ok: "cap_inv reg \<Longrightarrow> loop_ok reg"
  unfolding loop_ok_def
proof (intro allI impI conjI ballI)
  fix p cs
  assume inv: "cap_inv reg" and cs: "children reg p = Some cs"
  from inv cs show "distinct cs" by (auto simp: cap_inv_def links_agree_def)
  fix c
  assume "c \<in> set cs"
  with cs have "child_of reg p c" by (simp add: child_of_def)
  with inv obtain k where "p < c" "caps reg c = Some k" by (rule cap_inv_childD)
  with inv show "p < c" and "cap_raw c \<le> next_cap reg" by (auto dest: cap_inv_boundD)
qed

text \<open>
  Why the loop stops: with \<open>weight c = 2 ^ (next_cap - c)\<close> the children of a capability, which
  all have larger ids, together weigh less than the capability that is popped.
\<close>

definition weight :: "CapRegistry \<Rightarrow> CapId \<Rightarrow> nat" where
  "weight reg c = 2 ^ (unat (next_cap reg) - unat (cap_raw c))"

lemma sum_powers_above:
  assumes "A \<subseteq> {m<..N}"
  shows "(\<Sum>k\<in>A. 2 ^ (N - k)) < (2 :: nat) ^ (N - m)"
proof -
  have inj: "inj_on (\<lambda>k. N - k) A"
  proof (rule inj_onI)
    fix x y
    assume "x \<in> A" "y \<in> A" "N - x = N - y"
    moreover from this assms have "x \<le> N" "y \<le> N" by auto
    ultimately show "x = y" by simp
  qed
  have "(\<Sum>k\<in>A. 2 ^ (N - k)) = (\<Sum>j\<in>(\<lambda>k. N - k) ` A. (2 :: nat) ^ j)"
    by (simp add: sum.reindex [OF inj])
  also have "\<dots> \<le> (\<Sum>j\<in>{0..<N - m}. 2 ^ j)"
  proof (rule sum_mono2)
    show "(\<lambda>k. N - k) ` A \<subseteq> {0..<N - m}"
    proof (rule image_subsetI)
      fix k
      assume "k \<in> A"
      with assms have "m < k" "k \<le> N" by auto
      then show "N - k \<in> {0..<N - m}" by simp
    qed
  qed simp_all
  also have "\<dots> = 2 ^ (N - m) - 1" by (rule sum_power2)
  finally have "(\<Sum>k\<in>A. 2 ^ (N - k)) \<le> (2 :: nat) ^ (N - m) - 1" .
  moreover have "(0 :: nat) < 2 ^ (N - m)" by simp
  ultimately show ?thesis by linarith
qed

lemma children_weigh_less:
  assumes ok: "loop_ok reg" and cs: "children reg p = Some cs"
  shows "sum_list (map (weight reg) cs) < weight reg p"
proof -
  let ?raw = "\<lambda>c. unat (cap_raw c)"
  from ok cs have dist: "distinct cs"
    and bound: "\<And>c. c \<in> set cs \<Longrightarrow> p < c \<and> cap_raw c \<le> next_cap reg"
    by (auto simp: loop_ok_def)
  have inj: "inj_on ?raw (set cs)"
    by (intro inj_onI CapId.expand) (simp add: word_unat_eq_iff)
  have "sum_list (map (weight reg) cs) = (\<Sum>c\<in>set cs. 2 ^ (unat (next_cap reg) - ?raw c))"
    using dist by (simp add: sum_list_distinct_conv_sum_set weight_def)
  also have "\<dots> = (\<Sum>k\<in>?raw ` set cs. 2 ^ (unat (next_cap reg) - k))"
    by (simp add: sum.reindex [OF inj])
  also have "\<dots> < 2 ^ (unat (next_cap reg) - ?raw p)"
    using bound by (intro sum_powers_above)
      (auto simp: less_CapId_def word_less_nat_alt word_le_nat_alt)
  finally show ?thesis by (simp add: weight_def)
qed

lemma child_of_caps_update [simp]: "child_of (reg\<lparr>caps := m\<rparr>) = child_of reg"
  by (simp add: child_of_def fun_eq_iff)

lemma loop_ok_caps_update [simp]: "loop_ok (reg\<lparr>caps := m\<rparr>) = loop_ok reg"
  by (simp add: loop_ok_def)

lemma weight_caps_update [simp]: "weight (reg\<lparr>caps := m\<rparr>) = weight reg"
  by (simp add: weight_def fun_eq_iff)

lemma descends_unfold:
  "descends reg p c \<longleftrightarrow> c = p \<or> (\<exists>q. child_of reg p q \<and> descends reg q c)"
  by (metis converse_rtranclpE converse_rtranclp_into_rtranclp rtranclp.rtrancl_refl)

lemma caps_revoke_tree:
  "caps (revoke_tree roots reg) c = map_option (\<lambda>k. if \<exists>r\<in>roots. descends reg r c
     then k\<lparr>cap_revoked := True\<rparr> else k) (caps reg c)"
  by (simp add: revoke_tree_def)

lemma revoke_tree_pop:
  assumes "\<And>q. child_of reg next q \<longleftrightarrow> q \<in> set cs"
  shows "revoke_tree (set (rev cs @ rest)) (reg\<lparr>caps := mark_revoked next (caps reg)\<rparr>) =
    revoke_tree (set (next # rest)) reg" (is "?lhs = ?rhs")
proof -
  define reached where "reached c \<longleftrightarrow> (\<exists>r\<in>set (rev cs @ rest). descends reg r c)" for c
  have reach: "(\<exists>r\<in>set (next # rest). descends reg r c) \<longleftrightarrow> c = next \<or> reached c" for c
    using descends_unfold [of reg "next" c] assms by (auto simp: reached_def)
  have "caps ?lhs c = caps ?rhs c" for c
    unfolding caps_revoke_tree reach child_of_caps_update reached_def [symmetric]
    by (cases "caps reg c"; cases "c = next") (auto simp: mark_revoked_def split: option.splits)
  then have "caps ?lhs = caps ?rhs" by (rule ext)
  moreover have "next_cap ?lhs = next_cap ?rhs" "children ?lhs = children ?rhs"
    by (simp_all add: revoke_tree_def)
  ultimately show ?thesis by (intro CapRegistry.equality) simp_all
qed

lemma revoke_loop_Nil [simp]: "revoke_loop [] reg = Some reg"
  by (subst revoke_loop.simps) simp

lemma revoke_loop_Cons:
  "revoke_loop (next # rest) reg =
     revoke_loop (rev (case children reg next of None \<Rightarrow> [] | Some cs \<Rightarrow> cs) @ rest)
       (reg\<lparr>caps := mark_revoked next (caps reg)\<rparr>)"
  by (subst revoke_loop.simps) (simp split: option.splits)

lemma revoke_loop_eq:
  assumes "loop_ok reg"
  shows "revoke_loop stack reg = Some (revoke_tree (set stack) reg)"
  using assms
proof (induction "sum_list (map (weight reg) stack)" arbitrary: stack reg rule: less_induct)
  case less
  show ?case
  proof (cases stack)
    case Nil
    have "revoke_tree {} reg = reg" by (simp add: revoke_tree_def option.map_ident)
    with Nil show ?thesis by simp
  next
    case (Cons "next" rest)
    let ?cs = "case children reg next of None \<Rightarrow> [] | Some cs \<Rightarrow> cs"
    let ?reg = "reg\<lparr>caps := mark_revoked next (caps reg)\<rparr>"
    have step: "revoke_loop stack reg = revoke_loop (rev ?cs @ rest) ?reg"
      by (simp only: Cons revoke_loop_Cons)
    have "sum_list (map (weight reg) ?cs) < weight reg next"
      using children_weigh_less [OF less.prems] by (auto simp: weight_def split: option.splits)
    then have "sum_list (map (weight ?reg) (rev ?cs @ rest)) < sum_list (map (weight reg) stack)"
      by (simp add: Cons rev_map [symmetric])
    from less.hyps [OF this] less.prems
    have "revoke_loop (rev ?cs @ rest) ?reg = Some (revoke_tree (set (rev ?cs @ rest)) ?reg)" by simp
    also have "revoke_tree (set (rev ?cs @ rest)) ?reg = revoke_tree (set (next # rest)) reg"
      by (rule revoke_tree_pop) (simp add: child_of_def split: option.splits)
    finally have "revoke_loop (rev ?cs @ rest) ?reg = Some (revoke_tree (set (next # rest)) reg)" .
    with step show ?thesis unfolding Cons by (rule trans)
  qed
qed

lemma revoke_cap_eq:
  assumes "cap_inv reg"
  shows "revoke_cap cap reg = Some (if caps reg cap = None then (Err BadCap, reg)
    else (Ok (), revoke_tree {cap} reg))"
  using revoke_loop_eq [OF cap_inv_loop_ok [OF assms], of "[cap]"] by (simp add: revoke_cap_def)

lemma child_of_revoke_tree [simp]: "child_of (revoke_tree roots reg) = child_of reg"
  by (simp add: revoke_tree_def)

lemma next_cap_revoke_tree [simp]: "next_cap (revoke_tree roots reg) = next_cap reg"
  by (simp add: revoke_tree_def)

lemma children_revoke_tree [simp]: "children (revoke_tree roots reg) = children reg"
  by (simp add: revoke_tree_def)

lemma dom_caps_revoke_tree [simp]: "dom (caps (revoke_tree roots reg)) = dom (caps reg)"
  by (auto simp: caps_revoke_tree)

lemma parent_of_revoke_tree [simp]: "parent_of (revoke_tree roots reg) = parent_of reg"
  by (rule ext, rename_tac c, case_tac "caps reg c") (auto simp: parent_of_def caps_revoke_tree)

lemma revoke_tree_inv [ck_inv]:
  assumes inv: "cap_inv reg"
  shows "cap_inv (revoke_tree roots reg)"
proof -
  have "derivations_ok (revoke_tree roots reg)"
    unfolding derivations_ok_def
  proof (intro allI impI)
    fix c k' p
    assume c: "caps (revoke_tree roots reg) c = Some k' \<and> cap_parent k' = Some p"
    then obtain k where k: "caps reg c = Some k" "cap_parent k = Some p"
      and k': "k' = (if \<exists>r\<in>roots. descends reg r c then k\<lparr>cap_revoked := True\<rparr> else k)"
      by (cases "caps reg c") (auto simp: caps_revoke_tree split: if_splits)
    from cap_inv_parentD [OF inv k] obtain pk where pk: "p < c" "caps reg p = Some pk" "derived_from k pk"
      by blast
    have "child_of reg p c" using inv k by (auto simp: cap_inv_def links_agree_def parent_of_Some_iff)
    then have "\<And>r. descends reg r p \<Longrightarrow> descends reg r c" by (auto intro: rtranclp.rtrancl_into_rtrancl)
    with pk show "p < c \<and> (\<exists>pk. caps (revoke_tree roots reg) p = Some pk \<and> derived_from k' pk)"
      by (auto simp: caps_revoke_tree k' derived_from_def)
  qed
  with inv show ?thesis
    by (simp add: cap_inv_def ids_bounded_def links_agree_def)
qed

lemma revoke_cap_inv [ck_inv]:
  "cap_inv reg \<Longrightarrow> revoke_cap cap reg = Some (res, reg') \<Longrightarrow> cap_inv reg'"
  by (auto simp: revoke_cap_eq revoke_tree_inv split: if_splits)

text \<open>Authority only shrinks along the derivation tree, and revocation is inherited.\<close>

lemma descends_attenuates:
  assumes inv: "cap_inv reg" and desc: "descends reg a c" and a: "caps reg a = Some ak"
  shows "\<exists>k. caps reg c = Some k \<and> cap_object k = cap_object ak \<and>
    contains (cap_rights ak) (cap_rights k) \<and> (cap_revoked ak \<longrightarrow> cap_revoked k) \<and> a \<le> c"
  using desc
proof (induction rule: rtranclp_induct)
  case base
  show ?case using a by simp
next
  case (step b c)
  then obtain k where k: "caps reg b = Some k" "cap_object k = cap_object ak"
    "contains (cap_rights ak) (cap_rights k)" "cap_revoked ak \<longrightarrow> cap_revoked k" "a \<le> b" by blast
  from inv \<open>child_of reg b c\<close> obtain k' pk where "caps reg c = Some k'" "caps reg b = Some pk"
    "b < c" "derived_from k' pk" by (rule cap_inv_childD)
  with k show ?case by (auto simp: derived_from_def intro: contains_trans)
qed

lemma ancestor_known:
  assumes inv: "cap_inv reg" and desc: "descends reg a c" and c: "caps reg c \<noteq> None"
  shows "caps reg a \<noteq> None"
  using desc
proof (cases rule: converse_rtranclpE)
  case base
  with c show ?thesis by simp
next
  case (step b)
  with inv show ?thesis by (auto elim: cap_inv_childD)
qed

lemma authorize_Ok_iff:
  "authorize cap ty rights reg = Ok ob \<longleftrightarrow> (\<exists>k. caps reg cap = Some k \<and> \<not> cap_revoked k \<and>
     cap_object_type k = ty \<and> contains (cap_rights k) rights \<and> cap_object k = ob)"
  by (auto simp: authorize_def split: if_splits)

lemma authorize_not_Panic [simp]: "authorize cap ty rights reg \<noteq> Panic"
  by (cases "caps reg cap") (auto simp: authorize_def)

lemma authorize_revoke_tree:
  assumes "descends reg r c" and "r \<in> roots" and "caps reg c \<noteq> None"
  shows "authorize c ty rights (revoke_tree roots reg) = Err Revoked"
  using assms by (auto simp: authorize_def caps_revoke_tree)

lemma authorize_revoke_tree_other:
  assumes "\<And>r. r \<in> roots \<Longrightarrow> \<not> descends reg r c"
  shows "authorize c ty rights (revoke_tree roots reg) = authorize c ty rights reg"
  using assms by (cases "caps reg c") (auto simp: authorize_def caps_revoke_tree)

end
