(* ===== verification/Hosted_Root.thy ===== *)
theory Hosted_Root
  imports Cap_Registry
begin

text \<open>
  \<^verbatim>\<open>HostedRoot\<close> of \<^verbatim>\<open>crates/court-hosted/src/lib.rs\<close>: the namespace, the corridors and the
  public operations of the in-process Root Court, each with every early return and every
  trace event of the source. A method on \<^verbatim>\<open>&mut self\<close> is a function from the state to the
  result and the new state, so an error path that has already recorded an event keeps it.
  Counters follow the dev profile the README builds with: an overflow of \<^verbatim>\<open>+= 1\<close> is a panic.
  \<^verbatim>\<open>usize\<close> lengths and capacities, which are only compared, are \<open>nat\<close>.
\<close>

section \<open>Namespace and corridors\<close>

record Namespace =
  entries :: "string \<rightharpoonup> Descriptor"

definition ns_bind :: "string \<Rightarrow> Descriptor \<Rightarrow> Namespace \<Rightarrow> Namespace" where
  "ns_bind path descriptor ns = ns\<lparr>entries := (entries ns)(path \<mapsto> descriptor)\<rparr>"

definition ns_lookup :: "Namespace \<Rightarrow> string \<Rightarrow> Descriptor option" where
  "ns_lookup ns path = entries ns path"

record Corridor =
  endpoints :: "CourtId \<times> CourtId"
  queue :: "bytes list"
  capacity :: nat

definition corridor_new :: "CourtId \<times> CourtId \<Rightarrow> nat \<Rightarrow> Corridor" where
  "corridor_new eps cap = \<lparr>endpoints = eps, queue = [], capacity = cap\<rparr>"

definition has_peer_down :: "Corridor \<Rightarrow> CourtId \<Rightarrow> (CourtId \<rightharpoonup> Court) \<Rightarrow> bool" where
  "has_peer_down corridor caller cs \<longleftrightarrow>
     list_ex (\<lambda>court. case cs court of None \<Rightarrow> True | Some c \<Rightarrow> court_state c \<noteq> Running)
       (filter (\<lambda>court. court \<noteq> caller) [fst (endpoints corridor), snd (endpoints corridor)])"

section \<open>The root's state\<close>

record HostedRoot =
  next_court :: u64
  next_object :: u64
  courts :: "CourtId \<rightharpoonup> Court"
  cspaces :: "CourtId \<rightharpoonup> CapId set"
  cap_registry :: CapRegistry
  namespace :: Namespace
  corridors :: "ObjectId \<rightharpoonup> Corridor"
  root_caps :: "ObjectId \<rightharpoonup> CapId"
  trace :: "TraceEvent list"

definition hosted_new :: HostedRoot where
  "hosted_new = \<lparr>next_court = 0, next_object = 0, courts = Map.empty, cspaces = Map.empty,
     cap_registry = empty_registry, namespace = \<lparr>entries = Map.empty\<rparr>, corridors = Map.empty,
     root_caps = Map.empty, trace = []\<rparr>"

definition push_trace :: "TraceEvent \<Rightarrow> HostedRoot \<Rightarrow> HostedRoot" where
  "push_trace ev r = r\<lparr>trace := trace r @ [ev]\<rparr>"

definition in_registry ::
  "(CapRegistry \<Rightarrow> 'a CkResult \<times> CapRegistry) \<Rightarrow> HostedRoot \<Rightarrow> 'a CkResult \<times> HostedRoot" where
  "in_registry m r = (case m (cap_registry r) of (res, reg) \<Rightarrow> (res, r\<lparr>cap_registry := reg\<rparr>))"

definition require_running_court :: "HostedRoot \<Rightarrow> CourtId \<Rightarrow> unit CkResult" where
  "require_running_court r court = and_then (ok_or (courts r court) InvalidState) (\<lambda>c.
     if court_state c \<noteq> Running then Err InvalidState else Ok ())"

definition cspace_contains :: "HostedRoot \<Rightarrow> CourtId \<Rightarrow> CapId \<Rightarrow> bool" where
  "cspace_contains r court cap \<longleftrightarrow>
     (case cspaces r court of None \<Rightarrow> False | Some cspace \<Rightarrow> cap \<in> cspace)"

section \<open>Operations\<close>

definition create_court :: "string \<Rightarrow> HostedRoot \<Rightarrow> CourtId CkResult \<times> HostedRoot" where
  "create_court name r = try_in (add_or_panic (next_court r) 1) r (\<lambda>n.
     let court = CourtId n in
     (Ok court, push_trace (EvCourtCreated court name)
        (r\<lparr>next_court := n,
           courts := (courts r)(court \<mapsto> \<lparr>court_id = court, court_name = name, court_state = Running\<rparr>),
           cspaces := (cspaces r)(court \<mapsto> {})\<rparr>)))"

definition corridor_rights :: Rights where
  "corridor_rights = bitor (bitor (bitor (bitor SEND RECV) OBSERVE) DELEGATE) REVOKE"

definition create_corridor ::
  "string \<Rightarrow> CourtId \<Rightarrow> CourtId \<Rightarrow> CorridorTransport \<Rightarrow> nat \<Rightarrow> HostedRoot \<Rightarrow> ObjectId CkResult \<times> HostedRoot"
  where
  "create_corridor path first second transport cap r =
     try_in (require_running_court r first) r (\<lambda>_.
     try_in (require_running_court r second) r (\<lambda>_.
     try_in (add_or_panic (next_object r) 1) r (\<lambda>n.
     let object = ObjectId n in
     try_st (in_registry (mint_root object CorridorObject corridor_rights)
        (r\<lparr>next_object := n,
           corridors := (corridors r)(object \<mapsto> corridor_new (first, second) cap)\<rparr>)) (\<lambda>root_cap r.
     (Ok object, push_trace (EvCorridorCreated path object transport)
        (r\<lparr>root_caps := (root_caps r)(object \<mapsto> root_cap),
           namespace := ns_bind path \<lparr>desc_path = path, desc_object = object,
             desc_object_type = CorridorObject, desc_transport = transport\<rparr> (namespace r)\<rparr>))))))"

definition hosted_lookup :: "CourtId \<Rightarrow> string \<Rightarrow> HostedRoot \<Rightarrow> Descriptor CkResult \<times> HostedRoot" where
  "hosted_lookup court path r = try_in (require_running_court r court) r (\<lambda>_.
     let descriptor = ns_lookup (namespace r) path in
     (ok_or descriptor NotFound,
      push_trace (EvNamespaceLookup court path (descriptor \<noteq> None)) r))"

definition cspace_insert :: "CourtId \<Rightarrow> CapId \<Rightarrow> (CourtId \<rightharpoonup> CapId set) \<Rightarrow> (CourtId \<rightharpoonup> CapId set)" where
  "cspace_insert court cap m =
     m(court \<mapsto> insert cap (case m court of None \<Rightarrow> {} | Some cspace \<Rightarrow> cspace))"

definition grant_corridor_cap ::
  "CourtId \<Rightarrow> Descriptor \<Rightarrow> Rights \<Rightarrow> HostedRoot \<Rightarrow> CapId CkResult \<times> HostedRoot" where
  "grant_corridor_cap court descriptor rights r =
     try_in (require_running_court r court) r (\<lambda>_.
     if desc_object_type descriptor \<noteq> CorridorObject then (Err InvalidObject, r)
     else try_in (ok_or (root_caps r (desc_object descriptor)) InvalidObject) r (\<lambda>root_cap.
     try_st (in_registry (delegate root_cap rights) r) (\<lambda>cap r.
     (Ok cap, push_trace (EvCapGranted court cap (desc_object descriptor) rights)
        (r\<lparr>cspaces := cspace_insert court cap (cspaces r)\<rparr>)))))"

definition deny_open :: "CourtId \<Rightarrow> Descriptor \<Rightarrow> CkError \<Rightarrow> HostedRoot \<Rightarrow> CapId CkResult \<times> HostedRoot" where
  "deny_open court descriptor reason r =
     (Err reason, push_trace (EvOpenDenied court (desc_path descriptor) reason) r)"

definition hosted_open ::
  "CourtId \<Rightarrow> Descriptor \<Rightarrow> CapId option \<Rightarrow> Rights \<Rightarrow> HostedRoot \<Rightarrow> CapId CkResult \<times> HostedRoot" where
  "hosted_open court descriptor cap requested_rights r =
     try_in (require_running_court r court) r (\<lambda>_.
     case cap of
       None \<Rightarrow> deny_open court descriptor NoRight r
     | Some cap \<Rightarrow>
         if \<not> cspace_contains r court cap then deny_open court descriptor BadCap r
         else (case authorize cap (desc_object_type descriptor) requested_rights (cap_registry r) of
             Ok object \<Rightarrow>
               if object = desc_object descriptor
               then (Ok cap, push_trace (EvOpened court (desc_path descriptor) cap requested_rights) r)
               else deny_open court descriptor InvalidObject r
           | Err reason \<Rightarrow> deny_open court descriptor reason r
           | Panic \<Rightarrow> (Panic, r)))"

definition hosted_send :: "CourtId \<Rightarrow> CapId \<Rightarrow> bytes \<Rightarrow> HostedRoot \<Rightarrow> unit CkResult \<times> HostedRoot" where
  "hosted_send court cap payload r =
     try_in (require_running_court r court) r (\<lambda>_.
     if \<not> cspace_contains r court cap then (Err BadCap, r)
     else try_in (authorize cap CorridorObject SEND (cap_registry r)) r (\<lambda>object.
     try_in (ok_or (corridors r object) InvalidObject) r (\<lambda>corridor.
     if has_peer_down corridor court (courts r)
     then (Err PeerDown, push_trace (EvPeerDown court object) r)
     else if capacity corridor \<le> length (queue corridor) then (Err QueueFull, r)
     else (Ok (), push_trace (EvSent court object (length payload))
       (r\<lparr>corridors := (corridors r)(object \<mapsto> corridor\<lparr>queue := queue corridor @ [payload]\<rparr>)\<rparr>)))))"

definition hosted_recv :: "CourtId \<Rightarrow> CapId \<Rightarrow> HostedRoot \<Rightarrow> bytes CkResult \<times> HostedRoot" where
  "hosted_recv court cap r =
     try_in (require_running_court r court) r (\<lambda>_.
     if \<not> cspace_contains r court cap then (Err BadCap, r)
     else try_in (authorize cap CorridorObject RECV (cap_registry r)) r (\<lambda>object.
     try_in (ok_or (corridors r object) InvalidObject) r (\<lambda>corridor.
     case queue corridor of
       [] \<Rightarrow> (Err QueueEmpty, r)
     | payload # rest \<Rightarrow> (Ok payload, push_trace (EvReceived court object (length payload))
         (r\<lparr>corridors := (corridors r)(object \<mapsto> corridor\<lparr>queue := rest\<rparr>)\<rparr>)))))"

definition hosted_revoke :: "CapId \<Rightarrow> HostedRoot \<Rightarrow> (unit CkResult \<times> HostedRoot) option" where
  "hosted_revoke cap r = map_option (\<lambda>(res, reg).
     try_in res (r\<lparr>cap_registry := reg\<rparr>) (\<lambda>_.
       (Ok (), push_trace (EvCapRevoked cap) (r\<lparr>cap_registry := reg\<rparr>))))
     (revoke_cap cap (cap_registry r))"

definition fault_court :: "CourtId \<Rightarrow> HostedRoot \<Rightarrow> unit CkResult \<times> HostedRoot" where
  "fault_court court r = try_in (ok_or (courts r court) InvalidState) r (\<lambda>c.
     (Ok (), push_trace (EvCourtFaulted court)
       (r\<lparr>courts := (courts r)(court \<mapsto> c\<lparr>court_state := Faulted\<rparr>)\<rparr>)))"

definition hosted_cap_parent :: "HostedRoot \<Rightarrow> CapId \<Rightarrow> CapId option" where
  "hosted_cap_parent r cap = parent_of (cap_registry r) cap"

lemmas hosted_op_defs = create_court_def create_corridor_def hosted_lookup_def
  grant_corridor_cap_def hosted_open_def hosted_send_def hosted_recv_def hosted_revoke_def
  fault_court_def deny_open_def

end
