(* ===== verification/CK_Interfaces.thy ===== *)
theory CK_Interfaces
  imports CK_Prelude
begin

text \<open>
  The contracts that several components share, as locales: labelled transition systems with
  an invariant and a monotone relation, and the bounded first-in-first-out channel that the
  in-process corridor, the memory-mapped ring and the ring of the Court Images implement.
\<close>

section \<open>Runs of a labelled transition system\<close>

inductive run :: "('s \<Rightarrow> 'l \<Rightarrow> 's \<Rightarrow> bool) \<Rightarrow> 's \<Rightarrow> 'l list \<Rightarrow> 's \<Rightarrow> bool"
  for step :: "'s \<Rightarrow> 'l \<Rightarrow> 's \<Rightarrow> bool" where
  run_nil: "run step s [] s"
| run_snoc: "run step s ls t \<Longrightarrow> step t l u \<Longrightarrow> run step s (ls @ [l]) u"

inductive_cases run_nilE: "run step s [] t"

lemma run_trans: "run step t ms u \<Longrightarrow> run step s ls t \<Longrightarrow> run step s (ls @ ms) u"
  by (induction rule: run.induct) (auto simp: append_assoc [symmetric] intro: run.intros simp del: append_assoc)

lemma run_cons: "step s l t \<Longrightarrow> run step t ls u \<Longrightarrow> run step s (l # ls) u"
  using run_trans [of step t ls u s "[l]"] run_snoc [OF run_nil, of step s l t] by simp

text \<open>
  A system with an invariant, and a preorder that every step from an invariant state climbs
  (what one step never undoes, no run undoes).
\<close>

locale monotone_system =
  fixes step :: "'s \<Rightarrow> 'l \<Rightarrow> 's \<Rightarrow> bool"
    and invar :: "'s \<Rightarrow> bool"
    and grows :: "'s \<Rightarrow> 's \<Rightarrow> bool"
  assumes invar_step: "invar s \<Longrightarrow> step s l t \<Longrightarrow> invar t"
    and grows_refl: "grows s s"
    and grows_trans: "grows s t \<Longrightarrow> grows t u \<Longrightarrow> grows s u"
    and grows_step: "invar s \<Longrightarrow> step s l t \<Longrightarrow> grows s t"
begin

lemma invar_run: "run step s ls t \<Longrightarrow> invar s \<Longrightarrow> invar t"
  by (induction rule: run.induct) (auto intro: invar_step)

lemma grows_run: "run step s ls t \<Longrightarrow> invar s \<Longrightarrow> grows s t"
  by (induction rule: run.induct) (auto intro: grows_refl grows_trans grows_step invar_run)

end

section \<open>Bounded channels\<close>

text \<open>
  \<open>content\<close> abstracts a channel state to the list of messages in it. \<open>put\<close> and \<open>take_msg\<close> are
  partial: \<open>None\<close> is the refusal of a full or an empty channel, with the state unchanged.
\<close>

locale bounded_channel =
  fixes invar :: "'s \<Rightarrow> bool"
    and content :: "'s \<Rightarrow> 'm list"
    and bound :: "'s \<Rightarrow> nat"
    and fits :: "'s \<Rightarrow> 'm \<Rightarrow> bool"
    and put :: "'m \<Rightarrow> 's \<Rightarrow> 's option"
    and take_msg :: "'s \<Rightarrow> ('m \<times> 's) option"
  assumes bounded: "invar s \<Longrightarrow> length (content s) \<le> bound s"
    and put_full: "invar s \<Longrightarrow> bound s \<le> length (content s) \<Longrightarrow> put m s = None"
    and put_ok: "invar s \<Longrightarrow> fits s m \<Longrightarrow> length (content s) < bound s \<Longrightarrow>
      \<exists>s'. put m s = Some s'"
    and put_content: "invar s \<Longrightarrow> put m s = Some s' \<Longrightarrow>
      invar s' \<and> content s' = content s @ [m] \<and> bound s' = bound s \<and> (\<forall>x. fits s' x = fits s x)"
    and take_empty: "invar s \<Longrightarrow> content s = [] \<Longrightarrow> take_msg s = None"
    and take_content: "invar s \<Longrightarrow> content s = m # ms \<Longrightarrow>
      \<exists>s'. take_msg s = Some (m, s') \<and> invar s' \<and> content s' = ms \<and> bound s' = bound s \<and>
        (\<forall>x. fits s' x = fits s x)"

text \<open>One client action on a channel; a refused action leaves the state as it is.\<close>

datatype 'm chan_act = Put 'm | Take

fun chan_exec ::
  "('m \<Rightarrow> 's \<Rightarrow> 's option) \<Rightarrow> ('s \<Rightarrow> ('m \<times> 's) option) \<Rightarrow> 'm chan_act list \<Rightarrow> 's \<Rightarrow> 'm list \<times> 'm list \<times> 's"
  where
  "chan_exec put take_msg [] s = ([], [], s)"
| "chan_exec put take_msg (Put m # acts) s = (case put m s of
      None \<Rightarrow> chan_exec put take_msg acts s
    | Some s' \<Rightarrow> (case chan_exec put take_msg acts s' of (snt, rcv, t) \<Rightarrow> (m # snt, rcv, t)))"
| "chan_exec put take_msg (Take # acts) s = (case take_msg s of
      None \<Rightarrow> chan_exec put take_msg acts s
    | Some (m, s') \<Rightarrow> (case chan_exec put take_msg acts s' of (snt, rcv, t) \<Rightarrow> (snt, m # rcv, t)))"

context bounded_channel
begin

lemma take_cases:
  assumes "invar s"
  obtains (empty) "content s = []" "take_msg s = None"
  | (msg) m ms s' where "content s = m # ms" "take_msg s = Some (m, s')" "invar s'" "content s' = ms"
      "bound s' = bound s"
proof (cases "content s")
  case Nil
  with take_empty [OF assms] empty show thesis by blast
next
  case (Cons m ms)
  with take_content [OF assms] msg show thesis by blast
qed

text \<open>
  No message is lost, invented, duplicated or reordered: over any sequence of actions the
  messages accepted are the messages delivered followed by what is still in the channel.
\<close>

lemma exec_fifo:
  "invar s \<Longrightarrow> chan_exec put take_msg acts s = (snt, rcv, t) \<Longrightarrow>
     invar t \<and> bound t = bound s \<and> content s @ snt = rcv @ content t"
proof (induction acts arbitrary: s snt rcv)
  case Nil
  then show ?case by simp
next
  case (Cons a acts)
  show ?case
  proof (cases a)
    case (Put m)
    show ?thesis
    proof (cases "put m s")
      case None
      with Cons Put show ?thesis by simp
    next
      case (Some s')
      with put_content [OF Cons.prems(1)] have s': "invar s'" "content s' = content s @ [m]" "bound s' = bound s"
        by blast+
      obtain snt' where "chan_exec put take_msg acts s' = (snt', rcv, t)" "snt = m # snt'"
        using Cons.prems(2) Put Some by (auto split: prod.splits)
      with Cons.IH [OF s'(1)] s' show ?thesis by auto
    qed
  next
    case Take
    from Cons.prems(1) show ?thesis
    proof (cases rule: take_cases)
      case empty
      with Cons.prems(2) Take have "chan_exec put take_msg acts s = (snt, rcv, t)" by simp
      with Cons.IH [OF Cons.prems(1)] show ?thesis by blast
    next
      case (msg m ms s')
      obtain rcv' where "chan_exec put take_msg acts s' = (snt, rcv', t)" "rcv = m # rcv'"
        using Cons.prems(2) Take msg by (auto split: prod.splits)
      with Cons.IH [OF msg(3)] msg show ?thesis by auto
    qed
  qed
qed

lemma exec_in_flight_bound:
  assumes "invar s" and "chan_exec put take_msg acts s = (snt, rcv, t)"
  shows "length (content s) + length snt \<le> length rcv + bound s"
proof -
  from exec_fifo [OF assms] have t: "invar t" "bound t = bound s" "content s @ snt = rcv @ content t"
    by auto
  from arg_cong [OF t(3), of length] have "length (content s) + length snt = length rcv + length (content t)"
    by simp
  with bounded [OF t(1)] t(2) show ?thesis by simp
qed

end

section \<open>Sources of memory pages\<close>

text \<open>
  What page tables, stacks and image segments rely on when they take pages from an allocator:
  blocks are page-aligned, inside the pool, and never overlap what was handed out before.
\<close>

definition block :: "u64 \<Rightarrow> u64 \<Rightarrow> nat set" where
  "block phys pages = {unat phys ..< unat phys + unat pages * 4096}"

locale page_source =
  fixes invar :: "'s \<Rightarrow> bool"
    and pool :: "'s \<Rightarrow> nat set"
    and owned :: "'s \<Rightarrow> nat set"
    and alloc :: "u64 \<Rightarrow> 's \<Rightarrow> (u64 \<times> 's) option"
  assumes alloc_invar: "invar s \<Longrightarrow> alloc n s = Some (p, s') \<Longrightarrow> invar s'"
    and alloc_aligned: "invar s \<Longrightarrow> alloc n s = Some (p, s') \<Longrightarrow> 4096 dvd unat p"
    and alloc_in_pool: "invar s \<Longrightarrow> alloc n s = Some (p, s') \<Longrightarrow> block p n \<subseteq> pool s"
    and alloc_fresh: "invar s \<Longrightarrow> alloc n s = Some (p, s') \<Longrightarrow> block p n \<inter> owned s = {}"
    and alloc_owned: "invar s \<Longrightarrow> alloc n s = Some (p, s') \<Longrightarrow> owned s' = owned s \<union> block p n"
    and alloc_pool: "invar s \<Longrightarrow> alloc n s = Some (p, s') \<Longrightarrow> pool s' = pool s"

text \<open>A sequence of requests; a refused request leaves the source as it is.\<close>

fun alloc_run :: "(u64 \<Rightarrow> 's \<Rightarrow> (u64 \<times> 's) option) \<Rightarrow> u64 list \<Rightarrow> 's \<Rightarrow> (u64 \<times> u64) list \<times> 's" where
  "alloc_run alloc [] s = ([], s)"
| "alloc_run alloc (n # ns) s = (case alloc n s of
      None \<Rightarrow> alloc_run alloc ns s
    | Some (p, s') \<Rightarrow> (case alloc_run alloc ns s' of (bs, t) \<Rightarrow> ((p, n) # bs, t)))"

fun disjoint_blocks :: "(u64 \<times> u64) list \<Rightarrow> bool" where
  "disjoint_blocks [] \<longleftrightarrow> True"
| "disjoint_blocks ((p, n) # bs) \<longleftrightarrow>
     (\<forall>(q, m)\<in>set bs. block p n \<inter> block q m = {}) \<and> disjoint_blocks bs"

context page_source
begin

lemma run_blocks:
  "invar s \<Longrightarrow> alloc_run alloc ns s = (bs, t) \<Longrightarrow>
     invar t \<and> pool t = pool s \<and> owned s \<subseteq> owned t \<and> disjoint_blocks bs \<and>
     (\<forall>(p, n)\<in>set bs. 4096 dvd unat p \<and> block p n \<subseteq> pool s \<and> block p n \<inter> owned s = {} \<and> block p n \<subseteq> owned t)"
proof (induction ns arbitrary: s bs)
  case Nil
  then show ?case by simp
next
  case (Cons n ns)
  show ?case
  proof (cases "alloc n s")
    case None
    with Cons show ?thesis by simp
  next
    case (Some r)
    obtain p s' where r: "r = (p, s')" by (cases r)
    obtain bs' where bs': "alloc_run alloc ns s' = (bs', t)" "bs = (p, n) # bs'"
      using Cons.prems(2) Some r by (auto split: prod.splits)
    note one = Some [unfolded r]
    note laws = alloc_invar [OF Cons.prems(1) one] alloc_aligned [OF Cons.prems(1) one]
      alloc_in_pool [OF Cons.prems(1) one] alloc_fresh [OF Cons.prems(1) one]
      alloc_owned [OF Cons.prems(1) one] alloc_pool [OF Cons.prems(1) one]
    from Cons.IH [OF laws(1) bs'(1)] have rest: "invar t" "pool t = pool s'" "owned s' \<subseteq> owned t" "disjoint_blocks bs'"
      and each: "\<And>q m. (q, m) \<in> set bs' \<Longrightarrow> 4096 dvd unat q \<and> block q m \<subseteq> pool s' \<and>
        block q m \<inter> owned s' = {} \<and> block q m \<subseteq> owned t" by blast+
    have "block p n \<inter> block q m = {}" if "(q, m) \<in> set bs'" for q m
      using each [OF that] laws(5) by blast
    then have "disjoint_blocks bs" using rest(4) by (auto simp: bs'(2))
    moreover have "4096 dvd unat q \<and> block q m \<subseteq> pool s \<and> block q m \<inter> owned s = {} \<and> block q m \<subseteq> owned t"
      if "(q, m) \<in> set bs" for q m
    proof (cases "(q, m) = (p, n)")
      case True
      with laws rest(3) show ?thesis by blast
    next
      case False
      with that have "(q, m) \<in> set bs'" by (auto simp: bs'(2))
      from each [OF this] laws(5,6) show ?thesis by blast
    qed
    ultimately show ?thesis using rest(1-3) laws(5,6) by blast
  qed
qed

end

end
