(* ===== verification/Hosted_Invariant.thy ===== *)
theory Hosted_Invariant
  imports Hosted_Root CK_Interfaces
begin

text \<open>
  The well-formedness invariant of the hosted Root Court, its preservation by every
  operation, and the transition system whose steps are the public operations.
\<close>

section \<open>The invariant\<close>

definition courts_ok :: "HostedRoot \<Rightarrow> bool" where
  "courts_ok r \<longleftrightarrow> dom (cspaces r) = dom (courts r) \<and>
     (\<forall>c k. courts r c = Some k \<longrightarrow> court_id k = c \<and> court_raw c \<le> next_court r)"

definition cspaces_ok :: "HostedRoot \<Rightarrow> bool" where
  "cspaces_ok r \<longleftrightarrow>
     (\<forall>court cap. cspace_contains r court cap \<longrightarrow>
        (\<exists>k. caps (cap_registry r) cap = Some k \<and> cap_parent k = root_caps r (cap_object k) \<and>
          cap_parent k \<noteq> None)) \<and>
     (\<forall>c1 c2 cap. cspace_contains r c1 cap \<and> cspace_contains r c2 cap \<longrightarrow> c1 = c2)"

definition corridors_ok :: "HostedRoot \<Rightarrow> bool" where
  "corridors_ok r \<longleftrightarrow>
     (\<forall>ob k. corridors r ob = Some k \<longrightarrow> object_raw ob \<le> next_object r \<and>
        length (queue k) \<le> capacity k \<and>
        fst (endpoints k) \<in> dom (courts r) \<and> snd (endpoints k) \<in> dom (courts r))"

definition objects_ok :: "HostedRoot \<Rightarrow> bool" where
  "objects_ok r \<longleftrightarrow> dom (root_caps r) = dom (corridors r) \<and>
     (\<forall>ob c. root_caps r ob = Some c \<longrightarrow>
        (\<exists>k. caps (cap_registry r) c = Some k \<and> cap_object k = ob \<and> cap_parent k = None \<and>
          cap_rights k = corridor_rights \<and> cap_delegable k)) \<and>
     (\<forall>c k. caps (cap_registry r) c = Some k \<longrightarrow> cap_object k \<in> dom (corridors r))"

definition names_ok :: "HostedRoot \<Rightarrow> bool" where
  "names_ok r \<longleftrightarrow> (\<forall>path d. ns_lookup (namespace r) path = Some d \<longrightarrow>
     desc_path d = path \<and> desc_object d \<in> dom (corridors r))"

definition hosted_inv :: "HostedRoot \<Rightarrow> bool" where
  "hosted_inv r \<longleftrightarrow> cap_inv (cap_registry r) \<and> courts_ok r \<and> cspaces_ok r \<and> corridors_ok r \<and>
     objects_ok r \<and> names_ok r"

lemmas hosted_inv_defs = hosted_inv_def courts_ok_def cspaces_ok_def corridors_ok_def
  objects_ok_def names_ok_def

lemma hosted_inv_new: "hosted_inv hosted_new"
  by (simp add: hosted_inv_defs hosted_new_def cap_inv_empty cspace_contains_def ns_lookup_def)
    (simp add: empty_registry_def)

lemma push_trace_sel [simp]:
  "courts (push_trace ev r) = courts r"
  "cspaces (push_trace ev r) = cspaces r"
  "cap_registry (push_trace ev r) = cap_registry r"
  "namespace (push_trace ev r) = namespace r"
  "corridors (push_trace ev r) = corridors r"
  "root_caps (push_trace ev r) = root_caps r"
  "next_court (push_trace ev r) = next_court r"
  "next_object (push_trace ev r) = next_object r"
  "trace (push_trace ev r) = trace r @ [ev]"
  by (simp_all add: push_trace_def)

lemma cspace_contains_push_trace [simp]: "cspace_contains (push_trace ev r) = cspace_contains r"
  by (simp add: cspace_contains_def fun_eq_iff)

lemma cspace_contains_cap_registry [simp]: "cspace_contains (r\<lparr>cap_registry := reg\<rparr>) = cspace_contains r"
  by (simp add: cspace_contains_def fun_eq_iff)

lemma hosted_inv_push_trace [simp]: "hosted_inv (push_trace ev r) = hosted_inv r"
  by (simp add: hosted_inv_defs)

lemma require_running_court_Ok_iff:
  "require_running_court r court = Ok u \<longleftrightarrow> (\<exists>k. courts r court = Some k \<and> court_state k = Running)"
  by (auto simp: require_running_court_def split: if_splits)

lemma require_running_court_not_Ok:
  "\<not> (\<exists>k. courts r court = Some k \<and> court_state k = Running) \<Longrightarrow>
     require_running_court r court = Err InvalidState"
  by (cases "courts r court") (auto simp: require_running_court_def)

lemma require_running_court_not_Panic [simp]: "require_running_court r court \<noteq> Panic"
  by (cases "courts r court") (auto simp: require_running_court_def)

section \<open>Preservation\<close>

text \<open>Changing one corridor's queue within its bound, or one court's state, keeps the invariant.\<close>

lemma hosted_inv_queue:
  assumes "hosted_inv r" and "corridors r ob = Some k" and "length q \<le> capacity k"
  shows "hosted_inv (r\<lparr>corridors := (corridors r)(ob \<mapsto> k\<lparr>queue := q\<rparr>)\<rparr>)"
  using assms by (auto simp: hosted_inv_defs cspace_contains_def split: if_splits; force)

lemma hosted_inv_court_state:
  assumes "hosted_inv r" and "courts r court = Some k"
  shows "hosted_inv (r\<lparr>courts := (courts r)(court \<mapsto> k\<lparr>court_state := st\<rparr>)\<rparr>)"
  using assms by (auto simp: hosted_inv_defs cspace_contains_def split: if_splits)

lemma cspaces_ok_mono:
  assumes ok: "cspaces_ok r"
    and sub: "\<And>c cap. cspace_contains r' c cap \<Longrightarrow> cspace_contains r c cap"
    and keep: "\<And>cap k. caps (cap_registry r) cap = Some k \<Longrightarrow>
      \<exists>k'. caps (cap_registry r') cap = Some k' \<and> cap_parent k' = cap_parent k \<and> cap_object k' = cap_object k"
    and roots: "root_caps r \<subseteq>\<^sub>m root_caps r'"
  shows "cspaces_ok r'"
  unfolding cspaces_ok_def
proof (intro conjI allI impI)
  fix court cap
  assume "cspace_contains r' court cap"
  from sub [OF this] ok obtain k c where k: "caps (cap_registry r) cap = Some k"
    "cap_parent k = root_caps r (cap_object k)" "cap_parent k = Some c"
    unfolding cspaces_ok_def by blast
  from keep [OF k(1)] obtain k' where k': "caps (cap_registry r') cap = Some k'"
    "cap_parent k' = cap_parent k" "cap_object k' = cap_object k" by blast
  from k have "root_caps r (cap_object k) = Some c" by simp
  with roots have "root_caps r' (cap_object k) = Some c" by (metis domI map_le_def)
  with k(3) k' show "\<exists>k. caps (cap_registry r') cap = Some k \<and>
      cap_parent k = root_caps r' (cap_object k) \<and> cap_parent k \<noteq> None" by simp
next
  fix c1 c2 cap
  assume "cspace_contains r' c1 cap \<and> cspace_contains r' c2 cap"
  with sub have "cspace_contains r c1 cap" "cspace_contains r c2 cap" by blast+
  with ok show "c1 = c2" unfolding cspaces_ok_def by blast
qed

lemma hosted_inv_rootD:
  assumes "hosted_inv r" and "root_caps r ob = Some c"
  obtains k where "caps (cap_registry r) c = Some k" "cap_object k = ob" "cap_parent k = None"
    "cap_rights k = corridor_rights" "cap_delegable k"
proof -
  from assms have "\<exists>k. caps (cap_registry r) c = Some k \<and> cap_object k = ob \<and> cap_parent k = None \<and>
      cap_rights k = corridor_rights \<and> cap_delegable k"
    unfolding hosted_inv_def objects_ok_def by blast
  with that show thesis by blast
qed

lemma hosted_inv_capD:
  "hosted_inv r \<Longrightarrow> caps (cap_registry r) c = Some k \<Longrightarrow> \<exists>q. corridors r (cap_object k) = Some q"
  unfolding hosted_inv_def objects_ok_def by blast

lemma hosted_inv_corridorD:
  "hosted_inv r \<Longrightarrow> corridors r ob = Some q \<Longrightarrow> object_raw ob \<le> next_object r \<and>
     length (queue q) \<le> capacity q \<and> fst (endpoints q) \<in> dom (courts r) \<and> snd (endpoints q) \<in> dom (courts r)"
  unfolding hosted_inv_def corridors_ok_def by blast

lemma hosted_inv_cspaceD:
  "hosted_inv r \<Longrightarrow> cspace_contains r court cap \<Longrightarrow> \<exists>k c. caps (cap_registry r) cap = Some k \<and>
     cap_parent k = Some c \<and> root_caps r (cap_object k) = Some c"
  unfolding hosted_inv_def cspaces_ok_def by fastforce

lemma hosted_inv_cspace_unique:
  "hosted_inv r \<Longrightarrow> cspace_contains r c1 cap \<Longrightarrow> cspace_contains r c2 cap \<Longrightarrow> c1 = c2"
  unfolding hosted_inv_def cspaces_ok_def by blast

lemma objects_ok_ext:
  assumes ok: "objects_ok r" and same: "root_caps r' = root_caps r" "dom (corridors r') = dom (corridors r)"
    and keep: "\<And>c k. caps (cap_registry r) c = Some k \<Longrightarrow> \<exists>k'. caps (cap_registry r') c = Some k' \<and>
      cap_object k' = cap_object k \<and> cap_parent k' = cap_parent k \<and> cap_rights k' = cap_rights k \<and>
      cap_delegable k' = cap_delegable k"
    and new: "\<And>c k. caps (cap_registry r') c = Some k \<Longrightarrow> cap_object k \<in> dom (corridors r)"
  shows "objects_ok r'"
  unfolding objects_ok_def same
proof (intro conjI allI impI)
  show "dom (root_caps r) = dom (corridors r)" using ok by (simp add: objects_ok_def)
next
  fix ob c
  assume "root_caps r ob = Some c"
  with ok obtain k where "caps (cap_registry r) c = Some k" "cap_object k = ob" "cap_parent k = None"
    "cap_rights k = corridor_rights" "cap_delegable k" unfolding objects_ok_def by blast
  with keep [OF this(1)] show "\<exists>k. caps (cap_registry r') c = Some k \<and> cap_object k = ob \<and>
      cap_parent k = None \<and> cap_rights k = corridor_rights \<and> cap_delegable k" by auto
next
  fix c k
  assume "caps (cap_registry r') c = Some k"
  then show "cap_object k \<in> dom (corridors r)" by (rule new)
qed

lemma fresh_raw:
  assumes "add_or_panic m 1 = (Ok n :: u64 CkResult)"
  shows "m < n" and "x \<le> m \<Longrightarrow> x \<noteq> n" and "x \<le> m \<Longrightarrow> x \<le> n"
  using assms by (auto simp: add_or_panic_Ok word_less_nat_alt word_le_nat_alt)

lemma create_court_Ok:
  assumes "create_court name r = (Ok court, r')"
  obtains n where "add_or_panic (next_court r) 1 = (Ok n :: u64 CkResult)" "court = CourtId n"
    "r' = push_trace (EvCourtCreated (CourtId n) name)
        (r\<lparr>next_court := n,
           courts := (courts r)(CourtId n \<mapsto> \<lparr>court_id = CourtId n, court_name = name, court_state = Running\<rparr>),
           cspaces := (cspaces r)(CourtId n \<mapsto> {})\<rparr>)"
  using assms by (auto simp: create_court_def Let_def split: try_splits)

lemma create_court_inv:
  assumes inv: "hosted_inv r" and op: "create_court name r = (Ok court, r')"
  shows "hosted_inv r'"
proof -
  from op obtain n where n: "add_or_panic (next_court r) 1 = (Ok n :: u64 CkResult)"
    and r': "r' = push_trace (EvCourtCreated (CourtId n) name)
        (r\<lparr>next_court := n,
           courts := (courts r)(CourtId n \<mapsto> \<lparr>court_id = CourtId n, court_name = name, court_state = Running\<rparr>),
           cspaces := (cspaces r)(CourtId n \<mapsto> {})\<rparr>)" (is "_ = push_trace _ ?r")
    by (rule create_court_Ok)
  have contains: "cspace_contains ?r c cap \<Longrightarrow> cspace_contains r c cap" for c cap
    by (auto simp: cspace_contains_def split: if_splits)
  have "courts_ok ?r"
    using inv fresh_raw [OF n] by (auto simp: hosted_inv_def courts_ok_def)
  moreover have "cspaces_ok ?r"
    by (rule cspaces_ok_mono [of r]) (use inv contains in \<open>auto simp: hosted_inv_def\<close>)
  moreover have "corridors_ok ?r"
    using inv by (auto simp: hosted_inv_def corridors_ok_def)
  ultimately have "hosted_inv ?r"
    using inv by (simp add: hosted_inv_def objects_ok_def names_ok_def)
  then show ?thesis by (simp add: r')
qed

lemma mint_root_Ok:
  assumes "mint_root ob ty rights reg = (Ok cap, reg')"
  obtains n where "add_or_panic (next_cap reg) 1 = (Ok n :: u64 CkResult)" "cap = CapId n"
    "reg' = reg\<lparr>next_cap := n, caps := (caps reg)(CapId n \<mapsto>
        \<lparr>cap_object = ob, cap_object_type = ty, cap_rights = rights,
         cap_parent = None, cap_revoked = False, cap_delegable = True\<rparr>)\<rparr>"
  using assms by (auto simp: mint_root_def split: try_splits elim!: alloc_cap_cases)

lemma mint_root_not_Err [simp]: "fst (mint_root ob ty rights reg) \<noteq> Err e"
  by (auto simp: mint_root_def split: try_splits elim!: alloc_cap_cases)

lemma in_registry_Ok_iff:
  "in_registry m r = (Ok a, r') \<longleftrightarrow> (\<exists>reg. m (cap_registry r) = (Ok a, reg) \<and> r' = r\<lparr>cap_registry := reg\<rparr>)"
  by (auto simp: in_registry_def split: prod.splits)

definition root_capability :: "ObjectId \<Rightarrow> Capability" where
  "root_capability ob = \<lparr>cap_object = ob, cap_object_type = CorridorObject, cap_rights = corridor_rights,
     cap_parent = None, cap_revoked = False, cap_delegable = True\<rparr>"

lemma create_corridor_Ok:
  assumes op: "create_corridor path first second transport cp r = (Ok ob, r')"
  obtains n m reg where "first \<in> dom (courts r)" "second \<in> dom (courts r)"
    "add_or_panic (next_object r) 1 = (Ok n :: u64 CkResult)"
    "add_or_panic (next_cap (cap_registry r)) 1 = (Ok m :: u64 CkResult)"
    "mint_root (ObjectId n) CorridorObject corridor_rights (cap_registry r) = (Ok (CapId m), reg)"
    "caps reg = (caps (cap_registry r))(CapId m \<mapsto> root_capability (ObjectId n))"
    "ob = ObjectId n"
    "r' = push_trace (EvCorridorCreated path (ObjectId n) transport)
        (r\<lparr>next_object := n,
           corridors := (corridors r)(ObjectId n \<mapsto> corridor_new (first, second) cp),
           cap_registry := reg,
           root_caps := (root_caps r)(ObjectId n \<mapsto> CapId m),
           namespace := ns_bind path \<lparr>desc_path = path, desc_object = ObjectId n,
             desc_object_type = CorridorObject, desc_transport = transport\<rparr> (namespace r)\<rparr>)"
proof -
  from op obtain n reg c where *: "first \<in> dom (courts r)" "second \<in> dom (courts r)"
    "add_or_panic (next_object r) 1 = (Ok n :: u64 CkResult)"
    and mint: "mint_root (ObjectId n) CorridorObject corridor_rights (cap_registry r) = (Ok c, reg)"
    and r': "ob = ObjectId n" "r' = push_trace (EvCorridorCreated path (ObjectId n) transport)
        (r\<lparr>next_object := n,
           corridors := (corridors r)(ObjectId n \<mapsto> corridor_new (first, second) cp),
           cap_registry := reg,
           root_caps := (root_caps r)(ObjectId n \<mapsto> c),
           namespace := ns_bind path \<lparr>desc_path = path, desc_object = ObjectId n,
             desc_object_type = CorridorObject, desc_transport = transport\<rparr> (namespace r)\<rparr>)"
    by (fastforce simp: create_corridor_def Let_def require_running_court_Ok_iff in_registry_Ok_iff
        split: try_splits)
  from mint obtain m where "add_or_panic (next_cap (cap_registry r)) 1 = (Ok m :: u64 CkResult)"
    and "c = CapId m" and "caps reg = (caps (cap_registry r))(CapId m \<mapsto> root_capability (ObjectId n))"
    by (auto simp: root_capability_def elim!: mint_root_Ok)
  with * mint r' that show thesis by blast
qed

lemma create_corridor_inv:
  assumes inv: "hosted_inv r"
    and op: "create_corridor path first second transport cp r = (Ok ob, r')"
  shows "hosted_inv r'"
proof -
  from op obtain n m reg where running: "first \<in> dom (courts r)" "second \<in> dom (courts r)"
    and n: "add_or_panic (next_object r) 1 = (Ok n :: u64 CkResult)"
    and m: "add_or_panic (next_cap (cap_registry r)) 1 = (Ok m :: u64 CkResult)"
    and mint: "mint_root (ObjectId n) CorridorObject corridor_rights (cap_registry r) = (Ok (CapId m), reg)"
    and caps: "caps reg = (caps (cap_registry r))(CapId m \<mapsto> root_capability (ObjectId n))"
    and r': "r' = push_trace (EvCorridorCreated path (ObjectId n) transport)
        (r\<lparr>next_object := n,
           corridors := (corridors r)(ObjectId n \<mapsto> corridor_new (first, second) cp),
           cap_registry := reg,
           root_caps := (root_caps r)(ObjectId n \<mapsto> CapId m),
           namespace := ns_bind path \<lparr>desc_path = path, desc_object = ObjectId n,
             desc_object_type = CorridorObject, desc_transport = transport\<rparr> (namespace r)\<rparr>)"
        (is "_ = push_trace _ ?r")
    by (rule create_corridor_Ok)
  from inv have capinv: "cap_inv (cap_registry r)" by (simp add: hosted_inv_def)
  note fresh = next_id_fresh [OF capinv m]
  have new_ob: "corridors r (ObjectId n) = None" "root_caps r (ObjectId n) = None"
    using inv fresh_raw(2) [OF n]
    by (auto simp: hosted_inv_def corridors_ok_def objects_ok_def domIff) (metis ObjectId.sel domIff not_None_eq)+
  have "cap_inv reg" using capinv mint by (rule mint_root_inv)
  moreover have "cspaces_ok ?r"
  proof (rule cspaces_ok_mono [of r])
    show "root_caps r \<subseteq>\<^sub>m root_caps ?r" using new_ob by (auto simp: map_le_def)
  qed (use inv fresh(1) in \<open>auto simp: hosted_inv_def caps cspace_contains_def\<close>)
  moreover have "corridors_ok ?r"
    using inv running fresh_raw(3) [OF n]
    by (auto simp: hosted_inv_def corridors_ok_def corridor_new_def split: if_splits)
  moreover have "objects_ok ?r"
    using inv fresh(1) by (auto simp: hosted_inv_def objects_ok_def caps root_capability_def split: if_splits) force+
  moreover have "names_ok ?r"
    using inv by (auto simp: hosted_inv_def names_ok_def ns_lookup_def ns_bind_def split: if_splits)
  ultimately have "hosted_inv ?r"
    using inv by (simp add: hosted_inv_def courts_ok_def)
  then show ?thesis by (simp add: r')
qed

lemma grant_Ok:
  assumes "grant_corridor_cap court d rights r = (Ok cap, r')"
  obtains root_cap reg where "require_running_court r court = Ok ()"
    "desc_object_type d = CorridorObject" "root_caps r (desc_object d) = Some root_cap"
    "delegate root_cap rights (cap_registry r) = (Ok cap, reg)"
    "r' = push_trace (EvCapGranted court cap (desc_object d) rights)
        (r\<lparr>cap_registry := reg, cspaces := cspace_insert court cap (cspaces r)\<rparr>)"
  using assms
  by (fastforce simp: grant_corridor_cap_def in_registry_Ok_iff split: try_splits if_splits)

lemma cspace_contains_insert:
  "cspace_contains (r\<lparr>cap_registry := reg, cspaces := cspace_insert court cap (cspaces r)\<rparr>) c x \<longleftrightarrow>
     cspace_contains r c x \<or> c = court \<and> x = cap"
  by (auto simp: cspace_contains_def cspace_insert_def split: option.splits)

lemma grant_inv:
  assumes inv: "hosted_inv r" and op: "grant_corridor_cap court d rights r = (Ok cap, r')"
  shows "hosted_inv r'"
proof -
  from op obtain rc reg where running: "require_running_court r court = Ok ()"
    and rc: "root_caps r (desc_object d) = Some rc"
    and del: "delegate rc rights (cap_registry r) = (Ok cap, reg)"
    and r': "r' = push_trace (EvCapGranted court cap (desc_object d) rights)
        (r\<lparr>cap_registry := reg, cspaces := cspace_insert court cap (cspaces r)\<rparr>)" (is "_ = push_trace _ ?r")
    by (rule grant_Ok)
  from del obtain n pk where pk: "caps (cap_registry r) rc = Some pk"
    and n: "add_or_panic (next_cap (cap_registry r)) 1 = (Ok n :: u64 CkResult)" and cap: "cap = CapId n"
    and caps: "caps reg = (caps (cap_registry r))(CapId n \<mapsto>
         \<lparr>cap_object = cap_object pk, cap_object_type = cap_object_type pk,
          cap_rights = rights, cap_parent = Some rc, cap_revoked = False,
          cap_delegable = contains rights DELEGATE\<rparr>)"
    by (auto elim!: delegate_Ok)
  from inv have capinv: "cap_inv (cap_registry r)" by (simp add: hosted_inv_def)
  note fresh = next_id_fresh [OF capinv n]
  from inv rc pk have ob: "cap_object pk = desc_object d"
    by (auto elim: hosted_inv_rootD)
  have not_in: "\<not> cspace_contains r c (CapId n)" for c
    using hosted_inv_cspaceD [OF inv] fresh(1) by fastforce
  have mid: "cspaces_ok (r\<lparr>cap_registry := reg\<rparr>)"
    by (rule cspaces_ok_mono [of r])
      (use inv fresh(1) in \<open>auto simp: hosted_inv_def caps cspace_contains_def\<close>)
  have "cap_inv reg" using capinv del by (rule delegate_inv)
  moreover have "courts_ok ?r"
    using inv running
    by (auto simp: hosted_inv_def courts_ok_def require_running_court_Ok_iff cspace_insert_def)
  moreover have "cspaces_ok ?r"
    unfolding cspaces_ok_def cspace_contains_insert
  proof (intro conjI allI impI)
    fix c x
    assume "cspace_contains r c x \<or> c = court \<and> x = cap"
    then show "\<exists>k. CapRegistry.caps (cap_registry ?r) x = Some k \<and>
        cap_parent k = root_caps ?r (cap_object k) \<and> cap_parent k \<noteq> None"
    proof
      assume "cspace_contains r c x"
      then have "cspace_contains (r\<lparr>cap_registry := reg\<rparr>) c x" by (simp add: cspace_contains_def)
      with mid show ?thesis unfolding cspaces_ok_def by fastforce
    next
      assume "c = court \<and> x = cap"
      then show ?thesis by (simp add: caps cap ob rc)
    qed
  next
    fix c1 c2 x
    assume "(cspace_contains r c1 x \<or> c1 = court \<and> x = cap) \<and> (cspace_contains r c2 x \<or> c2 = court \<and> x = cap)"
    with not_in hosted_inv_cspace_unique [OF inv] show "c1 = c2" unfolding cap by blast
  qed
  moreover have "objects_ok ?r"
  proof (rule objects_ok_ext [of r])
    fix c k
    assume "CapRegistry.caps (cap_registry ?r) c = Some k"
    then show "cap_object k \<in> dom (corridors r)"
      using hosted_inv_capD [OF inv] pk by (auto simp: caps split: if_splits)
  qed (use inv fresh(1) in \<open>auto simp: hosted_inv_def caps\<close>)
  ultimately have "hosted_inv ?r"
    using inv by (simp add: hosted_inv_def corridors_ok_def names_ok_def)
  then show ?thesis by (simp add: r')
qed

lemma hosted_inv_revoke_tree:
  assumes inv: "hosted_inv r"
  shows "hosted_inv (r\<lparr>cap_registry := revoke_tree roots (cap_registry r)\<rparr>)" (is "hosted_inv ?r")
proof -
  have "cap_inv (cap_registry ?r)" using inv by (simp add: hosted_inv_def revoke_tree_inv)
  moreover have "cspaces_ok ?r"
    by (rule cspaces_ok_mono [of r])
      (use inv in \<open>auto simp: hosted_inv_def caps_revoke_tree cspace_contains_def\<close>)
  moreover have "objects_ok ?r"
    by (rule objects_ok_ext [of r])
      (use inv hosted_inv_capD [OF inv] in \<open>auto simp: hosted_inv_def caps_revoke_tree split: if_splits\<close>)
  ultimately show ?thesis
    using inv by (simp add: hosted_inv_def courts_ok_def corridors_ok_def names_ok_def)
qed

lemma hosted_revoke_eq:
  assumes "hosted_inv r"
  shows "hosted_revoke cap r = Some (if caps (cap_registry r) cap = None then (Err BadCap, r)
    else (Ok (), push_trace (EvCapRevoked cap) (r\<lparr>cap_registry := revoke_tree {cap} (cap_registry r)\<rparr>)))"
  using assms by (simp add: hosted_revoke_def hosted_inv_def revoke_cap_eq)

section \<open>The transition system of the public operations\<close>

text \<open>
  A label is a call with its arguments and the result the caller sees. A panic stops the
  process, so it is not a step.
\<close>

datatype HostedOp =
    OpCreateCourt string "CourtId CkResult"
  | OpCreateCorridor string CourtId CourtId CorridorTransport nat "ObjectId CkResult"
  | OpLookup CourtId string "Descriptor CkResult"
  | OpGrant CourtId Descriptor Rights "CapId CkResult"
  | OpOpen CourtId Descriptor "CapId option" Rights "CapId CkResult"
  | OpSend CourtId CapId bytes "unit CkResult"
  | OpRecv CourtId CapId "bytes CkResult"
  | OpRevoke CapId "unit CkResult"
  | OpFault CourtId "unit CkResult"

inductive hosted_step :: "HostedRoot \<Rightarrow> HostedOp \<Rightarrow> HostedRoot \<Rightarrow> bool" where
  step_create_court: "create_court name r = (res, r') \<Longrightarrow> res \<noteq> Panic \<Longrightarrow>
    hosted_step r (OpCreateCourt name res) r'"
| step_create_corridor: "create_corridor path a b transport cp r = (res, r') \<Longrightarrow> res \<noteq> Panic \<Longrightarrow>
    hosted_step r (OpCreateCorridor path a b transport cp res) r'"
| step_lookup: "hosted_lookup court path r = (res, r') \<Longrightarrow> res \<noteq> Panic \<Longrightarrow>
    hosted_step r (OpLookup court path res) r'"
| step_grant: "grant_corridor_cap court d rights r = (res, r') \<Longrightarrow> res \<noteq> Panic \<Longrightarrow>
    hosted_step r (OpGrant court d rights res) r'"
| step_open: "hosted_open court d cap rights r = (res, r') \<Longrightarrow> res \<noteq> Panic \<Longrightarrow>
    hosted_step r (OpOpen court d cap rights res) r'"
| step_send: "hosted_send court cap payload r = (res, r') \<Longrightarrow> res \<noteq> Panic \<Longrightarrow>
    hosted_step r (OpSend court cap payload res) r'"
| step_recv: "hosted_recv court cap r = (res, r') \<Longrightarrow> res \<noteq> Panic \<Longrightarrow>
    hosted_step r (OpRecv court cap res) r'"
| step_revoke: "hosted_revoke cap r = Some (res, r') \<Longrightarrow> res \<noteq> Panic \<Longrightarrow>
    hosted_step r (OpRevoke cap res) r'"
| step_fault: "fault_court court r = (res, r') \<Longrightarrow> res \<noteq> Panic \<Longrightarrow>
    hosted_step r (OpFault court res) r'"

inductive_cases step_sendE: "hosted_step r (OpSend court cap payload res) r'"
inductive_cases step_recvE: "hosted_step r (OpRecv court cap res) r'"
inductive_cases step_openE: "hosted_step r (OpOpen court d cap rights res) r'"
inductive_cases step_grantE: "hosted_step r (OpGrant court d rights res) r'"

abbreviation hosted_run :: "HostedRoot \<Rightarrow> HostedOp list \<Rightarrow> HostedRoot \<Rightarrow> bool" where
  "hosted_run \<equiv> run hosted_step"

section \<open>What each operation does to the state\<close>

text \<open>The only states an operation can leave behind, by the kind of change it makes.\<close>

inductive hosted_effect :: "HostedRoot \<Rightarrow> HostedRoot \<Rightarrow> bool" where
  eff_none: "hosted_effect r r"
| eff_trace: "hosted_effect r (push_trace ev r)"
| eff_court: "create_court name r = (Ok court, r') \<Longrightarrow> hosted_effect r r'"
| eff_corridor: "create_corridor path a b transport cp r = (Ok ob, r') \<Longrightarrow> hosted_effect r r'"
| eff_grant: "grant_corridor_cap court d rights r = (Ok cap, r') \<Longrightarrow> hosted_effect r r'"
| eff_queue: "corridors r ob = Some k \<Longrightarrow> length q \<le> capacity k \<Longrightarrow>
    hosted_effect r (push_trace ev (r\<lparr>corridors := (corridors r)(ob \<mapsto> k\<lparr>queue := q\<rparr>)\<rparr>))"
| eff_revoke: "caps (cap_registry r) cap = Some k \<Longrightarrow>
    hosted_effect r (push_trace (EvCapRevoked cap) (r\<lparr>cap_registry := revoke_tree {cap} (cap_registry r)\<rparr>))"
| eff_fault: "courts r court = Some k \<Longrightarrow>
    hosted_effect r (push_trace (EvCourtFaulted court)
      (r\<lparr>courts := (courts r)(court \<mapsto> k\<lparr>court_state := Faulted\<rparr>)\<rparr>))"

lemma create_court_Err: "create_court name r \<noteq> (Err e, r')"
  by (auto simp: create_court_def Let_def split: try_splits)

lemma create_corridor_Err: "create_corridor path a b transport cp r = (Err e, r') \<Longrightarrow> r' = r"
  by (auto simp: create_corridor_def Let_def in_registry_def split: try_splits prod.splits)
    (metis fst_conv mint_root_not_Err)

lemma grant_Err: "grant_corridor_cap court d rights r = (Err e, r') \<Longrightarrow> r' = r"
  by (auto simp: grant_corridor_cap_def in_registry_def split: try_splits prod.splits if_splits
      dest!: delegate_not_Ok_unchanged)

lemma hosted_open_effect:
  "hosted_open court d cap rights r = (res, r') \<Longrightarrow> r' = r \<or> (\<exists>ev. r' = push_trace ev r)"
  by (auto simp: hosted_open_def deny_open_def split: try_splits option.splits if_splits result.splits)

lemma hosted_lookup_effect:
  "hosted_lookup court path r = (res, r') \<Longrightarrow> r' = r \<or> (\<exists>ev. r' = push_trace ev r)"
  by (auto simp: hosted_lookup_def Let_def split: try_splits)

lemma hosted_send_Ok:
  assumes "hosted_send court cap payload r = (Ok u, r')"
  obtains k q where "require_running_court r court = Ok ()" "cspace_contains r court cap"
    "caps (cap_registry r) cap = Some k" "\<not> cap_revoked k" "contains (cap_rights k) SEND"
    "corridors r (cap_object k) = Some q" "\<not> has_peer_down q court (courts r)"
    "length (queue q) < capacity q"
    "r' = push_trace (EvSent court (cap_object k) (length payload))
       (r\<lparr>corridors := (corridors r)(cap_object k \<mapsto> q\<lparr>queue := queue q @ [payload]\<rparr>)\<rparr>)"
  using assms
  by (auto simp: hosted_send_def authorize_Ok_iff not_le split: try_splits if_splits)

lemma hosted_send_not_Ok:
  "hosted_send court cap payload r = (res, r') \<Longrightarrow> res \<noteq> Ok () \<Longrightarrow> r' = r \<or> (\<exists>ev. r' = push_trace ev r)"
  by (auto simp: hosted_send_def split: try_splits if_splits)

lemma hosted_recv_Ok:
  assumes "hosted_recv court cap r = (Ok payload, r')"
  obtains k q rest where "require_running_court r court = Ok ()" "cspace_contains r court cap"
    "caps (cap_registry r) cap = Some k" "\<not> cap_revoked k" "contains (cap_rights k) RECV"
    "corridors r (cap_object k) = Some q" "queue q = payload # rest"
    "r' = push_trace (EvReceived court (cap_object k) (length payload))
       (r\<lparr>corridors := (corridors r)(cap_object k \<mapsto> q\<lparr>queue := rest\<rparr>)\<rparr>)"
  using assms
  by (auto simp: hosted_recv_def authorize_Ok_iff split: try_splits if_splits list.splits)

lemma hosted_recv_not_Ok:
  "hosted_recv court cap r = (res, r') \<Longrightarrow> (\<And>p. res \<noteq> Ok p) \<Longrightarrow> r' = r"
  by (auto simp: hosted_recv_def split: try_splits if_splits list.splits)

lemma fault_court_cases:
  assumes "fault_court court r = (res, r')"
  obtains (unknown) "courts r court = None" "res = Err InvalidState" "r' = r"
  | (known) k where "courts r court = Some k" "res = Ok ()"
      "r' = push_trace (EvCourtFaulted court)
        (r\<lparr>courts := (courts r)(court \<mapsto> k\<lparr>court_state := Faulted\<rparr>)\<rparr>)"
  using assms by (cases "courts r court") (auto simp: fault_court_def)

lemma hosted_step_effect:
  assumes "hosted_step r l r'" and inv: "hosted_inv r"
  shows "hosted_effect r r'"
  using assms(1)
proof cases
  case (step_create_court name res)
  then show ?thesis by (cases res) (auto simp: create_court_Err intro: eff_court)
next
  case (step_create_corridor path a b transport cp res)
  then show ?thesis by (cases res) (auto dest: create_corridor_Err intro: eff_corridor eff_none)
next
  case (step_lookup court path res)
  then show ?thesis by (auto dest!: hosted_lookup_effect intro: eff_none eff_trace)
next
  case (step_grant court d rights res)
  then show ?thesis by (cases res) (auto dest: grant_Err intro: eff_grant eff_none)
next
  case (step_open court d cap rights res)
  then show ?thesis by (auto dest!: hosted_open_effect intro: eff_none eff_trace)
next
  case (step_send court cap payload res)
  show ?thesis
  proof (cases "res = Ok ()")
    case True
    with step_send have "hosted_send court cap payload r = (Ok (), r')" by simp
    then show ?thesis by (rule hosted_send_Ok) (auto intro: eff_queue)
  next
    case False
    with step_send show ?thesis by (auto dest!: hosted_send_not_Ok intro: eff_none eff_trace)
  qed
next
  case (step_recv court cap res)
  show ?thesis
  proof (cases res)
    case (Ok payload)
    with step_recv have "hosted_recv court cap r = (Ok payload, r')" by simp
    then show ?thesis
    proof (rule hosted_recv_Ok)
      fix k q rest
      assume *: "corridors r (cap_object k) = Some q" "queue q = payload # rest"
        "r' = push_trace (EvReceived court (cap_object k) (length payload))
         (r\<lparr>corridors := (corridors r)(cap_object k \<mapsto> q\<lparr>queue := rest\<rparr>)\<rparr>)"
      with hosted_inv_corridorD [OF inv *(1)] have "length rest \<le> capacity q" by simp
      with * show ?thesis by (auto intro: eff_queue)
    qed
  qed (use step_recv in \<open>auto dest!: hosted_recv_not_Ok intro: eff_none\<close>)
next
  case (step_revoke cap res)
  with inv show ?thesis by (auto simp: hosted_revoke_eq split: if_splits intro: eff_none eff_revoke)
next
  case (step_fault court res)
  then show ?thesis by (elim fault_court_cases) (auto intro: eff_none eff_fault)
qed

lemma hosted_effect_inv: "hosted_effect r r' \<Longrightarrow> hosted_inv r \<Longrightarrow> hosted_inv r'"
  by (induction rule: hosted_effect.induct)
    (auto intro: create_court_inv create_corridor_inv grant_inv hosted_inv_queue hosted_inv_revoke_tree
      hosted_inv_court_state)

lemma hosted_step_inv: "hosted_inv r \<Longrightarrow> hosted_step r l r' \<Longrightarrow> hosted_inv r'"
  using hosted_step_effect hosted_effect_inv by blast

section \<open>What no operation undoes\<close>

text \<open>
  Capabilities keep their object, rights and parent for ever and never become live again;
  a court never leaves the faulted state; ownership of a capability never moves; the trace
  only grows.
\<close>

definition hosted_grows :: "HostedRoot \<Rightarrow> HostedRoot \<Rightarrow> bool" where
  "hosted_grows r r' \<longleftrightarrow>
     (\<forall>c k. caps (cap_registry r) c = Some k \<longrightarrow> (\<exists>k'. caps (cap_registry r') c = Some k' \<and>
        cap_object k' = cap_object k \<and> cap_rights k' = cap_rights k \<and> cap_parent k' = cap_parent k \<and>
        (cap_revoked k \<longrightarrow> cap_revoked k'))) \<and>
     (\<forall>c k. courts r c = Some k \<longrightarrow> (\<exists>k'. courts r' c = Some k' \<and> court_name k' = court_name k \<and>
        (court_state k = Faulted \<longrightarrow> court_state k' = Faulted))) \<and>
     (\<forall>c cap. cspace_contains r c cap \<longrightarrow> cspace_contains r' c cap) \<and>
     (\<exists>evs. trace r' = trace r @ evs)"

lemma hosted_grows_refl: "hosted_grows r r"
  by (simp add: hosted_grows_def)

lemma hosted_grows_capD:
  "hosted_grows r r' \<Longrightarrow> caps (cap_registry r) c = Some k \<Longrightarrow>
     \<exists>k'. caps (cap_registry r') c = Some k' \<and> cap_object k' = cap_object k \<and>
       cap_rights k' = cap_rights k \<and> cap_parent k' = cap_parent k \<and> (cap_revoked k \<longrightarrow> cap_revoked k')"
  unfolding hosted_grows_def by blast

lemma hosted_grows_courtD:
  "hosted_grows r r' \<Longrightarrow> courts r c = Some k \<Longrightarrow>
     \<exists>k'. courts r' c = Some k' \<and> court_name k' = court_name k \<and>
       (court_state k = Faulted \<longrightarrow> court_state k' = Faulted)"
  unfolding hosted_grows_def by blast

lemma hosted_grows_trans:
  assumes ab: "hosted_grows a b" and bc: "hosted_grows b c"
  shows "hosted_grows a c"
proof -
  have "\<exists>k'. caps (cap_registry c) x = Some k' \<and> cap_object k' = cap_object k \<and>
      cap_rights k' = cap_rights k \<and> cap_parent k' = cap_parent k \<and> (cap_revoked k \<longrightarrow> cap_revoked k')"
    if "caps (cap_registry a) x = Some k" for x k
    using hosted_grows_capD [OF ab that] hosted_grows_capD [OF bc] by fastforce
  moreover have "\<exists>k'. courts c x = Some k' \<and> court_name k' = court_name k \<and>
      (court_state k = Faulted \<longrightarrow> court_state k' = Faulted)" if "courts a x = Some k" for x k
    using hosted_grows_courtD [OF ab that] hosted_grows_courtD [OF bc] by fastforce
  moreover have "\<exists>evs. trace c = trace a @ evs"
    using ab bc unfolding hosted_grows_def by (metis append_assoc)
  ultimately show ?thesis using ab bc unfolding hosted_grows_def by blast
qed

lemma hosted_grows_push_trace [simp]: "hosted_grows r r' \<Longrightarrow> hosted_grows r (push_trace ev r')"
  by (auto simp: hosted_grows_def)

lemma create_court_grows:
  assumes inv: "hosted_inv r" and op: "create_court name r = (Ok court, r')"
  shows "hosted_grows r r'"
proof -
  from op obtain n where n: "add_or_panic (next_court r) 1 = (Ok n :: u64 CkResult)"
    and r': "r' = push_trace (EvCourtCreated (CourtId n) name)
        (r\<lparr>next_court := n,
           courts := (courts r)(CourtId n \<mapsto> \<lparr>court_id = CourtId n, court_name = name, court_state = Running\<rparr>),
           cspaces := (cspaces r)(CourtId n \<mapsto> {})\<rparr>)"
    by (rule create_court_Ok)
  have new: "courts r (CourtId n) = None"
    using inv fresh_raw(2) [OF n] by (metis CourtId.sel courts_ok_def hosted_inv_def not_None_eq)
  then have "cspaces r (CourtId n) = None"
    using inv by (auto simp: hosted_inv_def courts_ok_def domIff)
  with new show ?thesis
    by (auto simp: r' hosted_grows_def cspace_contains_def split: option.splits)
qed

lemma create_corridor_grows:
  assumes inv: "hosted_inv r" and op: "create_corridor path a b transport cp r = (Ok ob, r')"
  shows "hosted_grows r r'"
proof -
  from inv have "cap_inv (cap_registry r)" by (simp add: hosted_inv_def)
  with op show ?thesis
    by (elim create_corridor_Ok) (auto simp: hosted_grows_def cspace_contains_def dest: next_id_fresh(1))
qed

lemma grant_grows:
  assumes inv: "hosted_inv r" and op: "grant_corridor_cap court d rights r = (Ok cap, r')"
  shows "hosted_grows r r'"
proof -
  from op obtain rc reg where del: "delegate rc rights (cap_registry r) = (Ok cap, reg)"
    and r': "r' = push_trace (EvCapGranted court cap (desc_object d) rights)
        (r\<lparr>cap_registry := reg, cspaces := cspace_insert court cap (cspaces r)\<rparr>)"
    by (rule grant_Ok)
  from del obtain n and pk :: Capability where n: "add_or_panic (next_cap (cap_registry r)) 1 = (Ok n :: u64 CkResult)"
    and reg: "reg = (cap_registry r)\<lparr>next_cap := n, caps := (caps (cap_registry r))(CapId n \<mapsto>
         \<lparr>cap_object = cap_object pk, cap_object_type = cap_object_type pk,
          cap_rights = rights, cap_parent = Some rc, cap_revoked = False,
          cap_delegable = contains rights DELEGATE\<rparr>),
       children := push_child rc (CapId n) (children (cap_registry r))\<rparr>"
    by (rule delegate_Ok)
  from inv have "cap_inv (cap_registry r)" by (simp add: hosted_inv_def)
  from next_id_fresh(1) [OF this n] show ?thesis
    by (auto simp: r' hosted_grows_def reg cspace_contains_insert)
qed

lemma hosted_effect_grows: "hosted_effect r r' \<Longrightarrow> hosted_inv r \<Longrightarrow> hosted_grows r r'"
proof (induction rule: hosted_effect.induct)
  case (eff_queue r ob k q ev)
  then show ?case by (auto simp: hosted_grows_def cspace_contains_def)
next
  case (eff_revoke r cap k)
  then show ?case by (auto simp: hosted_grows_def cspace_contains_def caps_revoke_tree)
next
  case (eff_fault r court k)
  then show ?case by (auto simp: hosted_grows_def cspace_contains_def)
qed (auto simp: hosted_grows_refl intro: create_court_grows create_corridor_grows grant_grows)

lemma hosted_step_grows: "hosted_inv r \<Longrightarrow> hosted_step r l r' \<Longrightarrow> hosted_grows r r'"
  using hosted_step_effect hosted_effect_grows by blast

interpretation hosted_sys: monotone_system hosted_step hosted_inv hosted_grows
  by unfold_locales
    (auto intro: hosted_step_inv hosted_grows_refl hosted_grows_trans hosted_step_grows)

lemma hosted_reachable_inv: "hosted_run hosted_new ops r \<Longrightarrow> hosted_inv r"
  by (rule hosted_sys.invar_run [OF _ hosted_inv_new])

end
