(* ===== verification/Hosted_Audit.thy ===== *)
theory Hosted_Audit
  imports Hosted_Invariant
begin

text \<open>
  What the hosted Root Court promises: its invariant in every reachable state, revocation
  that is complete, exact and permanent, authority that only shrinks under delegation, an
  event trace in which every use of a corridor is covered by an earlier grant, containment of
  a faulted court, and first-in-first-out delivery through a corridor.
\<close>

section \<open>The event trace\<close>

text \<open>The authority an event shows in use: a court, an object and a right on it.\<close>

definition uses :: "TraceEvent \<Rightarrow> (CourtId \<times> ObjectId \<times> Rights) option" where
  "uses ev = (case ev of
      EvSent court object len \<Rightarrow> Some (court, object, SEND)
    | EvReceived court object len \<Rightarrow> Some (court, object, RECV)
    | EvPeerDown court object \<Rightarrow> Some (court, object, SEND)
    | _ \<Rightarrow> None)"

definition justified :: "TraceEvent list \<Rightarrow> TraceEvent \<Rightarrow> bool" where
  "justified past ev \<longleftrightarrow> (\<forall>court ob right. uses ev = Some (court, ob, right) \<longrightarrow>
     (\<exists>cap rights. EvCapGranted court cap ob rights \<in> set past \<and> contains rights right \<and>
        EvCapRevoked cap \<notin> set past))"

definition all_justified :: "TraceEvent list \<Rightarrow> bool" where
  "all_justified evs \<longleftrightarrow> (\<forall>past ev future. evs = past @ ev # future \<longrightarrow> justified past ev)"

definition logged :: "HostedRoot \<Rightarrow> bool" where
  "logged r \<longleftrightarrow> all_justified (trace r) \<and>
     (\<forall>court cap k. cspace_contains r court cap \<and> caps (cap_registry r) cap = Some k \<longrightarrow>
        EvCapGranted court cap (cap_object k) (cap_rights k) \<in> set (trace r)) \<and>
     (\<forall>cap. EvCapRevoked cap \<in> set (trace r) \<longrightarrow>
        (\<exists>k. caps (cap_registry r) cap = Some k \<and> cap_revoked k))"

lemma all_justified_Nil: "all_justified []"
  by (simp add: all_justified_def)

lemma all_justified_snoc: "all_justified (evs @ [e]) \<longleftrightarrow> all_justified evs \<and> justified evs e"
proof
  assume a: "all_justified (evs @ [e])"
  have "justified past ev" if "evs = past @ ev # future" for past ev future
    using a that unfolding all_justified_def by (metis append_Cons append_assoc)
  with a show "all_justified evs \<and> justified evs e"
    unfolding all_justified_def by blast
next
  assume a: "all_justified evs \<and> justified evs e"
  show "all_justified (evs @ [e])"
    unfolding all_justified_def
  proof (intro allI impI)
    fix past ev future
    assume split: "evs @ [e] = past @ ev # future"
    show "justified past ev"
    proof (cases future rule: rev_cases)
      case Nil
      with split a show ?thesis by simp
    next
      case (snoc fs f)
      with split have "evs = past @ ev # fs" by simp
      with a show ?thesis unfolding all_justified_def by blast
    qed
  qed
qed

lemma logged_push:
  assumes "logged r" and "justified (trace r) ev"
    and "\<And>cap. ev = EvCapRevoked cap \<Longrightarrow> \<exists>k. caps (cap_registry r) cap = Some k \<and> cap_revoked k"
  shows "logged (push_trace ev r)"
  using assms unfolding logged_def by (auto simp: all_justified_snoc)

lemma logged_frame [simp]:
  "logged (r\<lparr>corridors := cs\<rparr>) = logged r"
  "logged (r\<lparr>courts := ks\<rparr>) = logged r"
  by (simp_all add: logged_def cspace_contains_def)

lemma justified_no_use: "uses ev = None \<Longrightarrow> justified past ev"
  by (simp add: justified_def)

lemma logged_justified:
  assumes "logged r" and "cspace_contains r court cap" and "caps (cap_registry r) cap = Some k"
    and "\<not> cap_revoked k" and "contains (cap_rights k) right"
    and "uses ev = Some (court, cap_object k, right)"
  shows "justified (trace r) ev"
proof -
  from assms have "EvCapGranted court cap (cap_object k) (cap_rights k) \<in> set (trace r)"
    "EvCapRevoked cap \<notin> set (trace r)" unfolding logged_def by fastforce+
  with assms(5,6) show ?thesis unfolding justified_def by auto
qed

lemma logged_caps_mono:
  assumes "logged r" and "trace r' = trace r"
    and "\<And>cap k. caps (cap_registry r) cap = Some k \<Longrightarrow> \<exists>k'. caps (cap_registry r') cap = Some k' \<and>
      cap_object k' = cap_object k \<and> cap_rights k' = cap_rights k \<and> (cap_revoked k \<longrightarrow> cap_revoked k')"
    and "\<And>court cap. cspace_contains r' court cap \<Longrightarrow>
      cspace_contains r court cap \<and> caps (cap_registry r) cap \<noteq> None"
  shows "logged r'"
  unfolding logged_def
proof (intro conjI allI impI)
  show "all_justified (trace r')" using assms(1,2) by (simp add: logged_def)
next
  fix court cap k'
  assume "cspace_contains r' court cap \<and> caps (cap_registry r') cap = Some k'"
  with assms(3,4) obtain k where "cspace_contains r court cap" "caps (cap_registry r) cap = Some k"
    "cap_object k' = cap_object k" "cap_rights k' = cap_rights k" by fastforce
  with assms(1,2) show "EvCapGranted court cap (cap_object k') (cap_rights k') \<in> set (trace r')"
    unfolding logged_def by metis
next
  fix cap
  assume "EvCapRevoked cap \<in> set (trace r')"
  with assms(1,2) obtain k where "caps (cap_registry r) cap = Some k" "cap_revoked k"
    unfolding logged_def by metis
  with assms(3) show "\<exists>k. caps (cap_registry r') cap = Some k \<and> cap_revoked k" by blast
qed

lemma logged_no_use:
  "logged r \<Longrightarrow> uses ev = None \<Longrightarrow> (\<And>cap. ev \<noteq> EvCapRevoked cap) \<Longrightarrow> logged (push_trace ev r)"
  by (auto intro: logged_push justified_no_use)

lemma create_court_logged:
  assumes inv: "hosted_inv r" and log: "logged r" and op: "create_court name r = (Ok court, r')"
  shows "logged r'"
proof -
  from op obtain n where
    r': "r' = push_trace (EvCourtCreated (CourtId n) name)
        (r\<lparr>next_court := n,
           courts := (courts r)(CourtId n \<mapsto> \<lparr>court_id = CourtId n, court_name = name, court_state = Running\<rparr>),
           cspaces := (cspaces r)(CourtId n \<mapsto> {})\<rparr>)" (is "_ = push_trace _ ?r")
    by (rule create_court_Ok)
  have old: "cspace_contains ?r court cap \<Longrightarrow> cspace_contains r court cap" for court cap
    by (auto simp: cspace_contains_def split: if_splits)
  have "logged ?r"
    by (rule logged_caps_mono [OF log]) (use old hosted_inv_cspaceD [OF inv] in fastforce)+
  then show ?thesis unfolding r' by (rule logged_no_use) (simp_all add: uses_def)
qed

lemma create_corridor_logged:
  assumes inv: "hosted_inv r" and log: "logged r"
    and op: "create_corridor path a b transport cp r = (Ok ob, r')"
  shows "logged r'"
proof -
  from op obtain n m reg where
    m: "add_or_panic (next_cap (cap_registry r)) 1 = (Ok m :: u64 CkResult)"
    and caps: "caps reg = (caps (cap_registry r))(CapId m \<mapsto> root_capability (ObjectId n))"
    and r': "r' = push_trace (EvCorridorCreated path (ObjectId n) transport)
        (r\<lparr>next_object := n,
           corridors := (corridors r)(ObjectId n \<mapsto> corridor_new (a, b) cp),
           cap_registry := reg,
           root_caps := (root_caps r)(ObjectId n \<mapsto> CapId m),
           namespace := ns_bind path \<lparr>desc_path = path, desc_object = ObjectId n,
             desc_object_type = CorridorObject, desc_transport = transport\<rparr> (namespace r)\<rparr>)"
        (is "_ = push_trace _ ?s")
    by (rule create_corridor_Ok)
  from inv have "cap_inv (cap_registry r)" by (simp add: hosted_inv_def)
  note fresh = next_id_fresh(1) [OF this m]
  have same: "cspace_contains ?s = cspace_contains r"
    by (simp add: cspace_contains_def fun_eq_iff)
  have "logged ?s"
    by (rule logged_caps_mono [OF log])
      (use fresh hosted_inv_cspaceD [OF inv] in \<open>auto simp: caps same\<close>)
  then show ?thesis unfolding r' by (rule logged_no_use) (simp_all add: uses_def)
qed

lemma grant_capability:
  assumes inv: "hosted_inv r" and op: "grant_corridor_cap court d rights r = (Ok cap, r')"
  obtains rc reg k where "root_caps r (desc_object d) = Some rc"
    "r' = push_trace (EvCapGranted court cap (desc_object d) rights)
        (r\<lparr>cap_registry := reg, cspaces := cspace_insert court cap (cspaces r)\<rparr>)"
    "caps (cap_registry r) cap = None"
    "caps reg = (caps (cap_registry r))(cap \<mapsto> k)" "cap_object k = desc_object d"
    "cap_rights k = rights" "cap_parent k = Some rc" "\<not> cap_revoked k" "contains corridor_rights rights"
proof -
  from op obtain rc reg where rc: "root_caps r (desc_object d) = Some rc"
    and del: "delegate rc rights (cap_registry r) = (Ok cap, reg)"
    and r': "r' = push_trace (EvCapGranted court cap (desc_object d) rights)
        (r\<lparr>cap_registry := reg, cspaces := cspace_insert court cap (cspaces r)\<rparr>)"
    by (rule grant_Ok)
  from del obtain n pk where pk: "caps (cap_registry r) rc = Some pk" "contains (cap_rights pk) rights"
    and n: "add_or_panic (next_cap (cap_registry r)) 1 = (Ok n :: u64 CkResult)" "cap = CapId n"
    and reg: "reg = (cap_registry r)\<lparr>next_cap := n, caps := (caps (cap_registry r))(CapId n \<mapsto>
         \<lparr>cap_object = cap_object pk, cap_object_type = cap_object_type pk,
          cap_rights = rights, cap_parent = Some rc, cap_revoked = False,
          cap_delegable = contains rights DELEGATE\<rparr>),
       children := push_child rc (CapId n) (children (cap_registry r))\<rparr>"
    by (rule delegate_Ok)
  from inv have "cap_inv (cap_registry r)" by (simp add: hosted_inv_def)
  from next_id_fresh(1) [OF this n(1)] have new: "caps (cap_registry r) cap = None" by (simp add: n(2))
  from inv rc pk(1) have root: "cap_object pk = desc_object d" "cap_rights pk = corridor_rights"
    by (auto elim: hosted_inv_rootD)
  have caps: "caps reg = (caps (cap_registry r))(cap \<mapsto>
      \<lparr>cap_object = cap_object pk, cap_object_type = cap_object_type pk, cap_rights = rights,
       cap_parent = Some rc, cap_revoked = False, cap_delegable = contains rights DELEGATE\<rparr>)"
    by (simp add: reg n(2))
  show thesis using pk(2) root by (intro that [OF rc r' new caps]) simp_all
qed

lemma grant_logged:
  assumes inv: "hosted_inv r" and log: "logged r"
    and op: "grant_corridor_cap court d rights r = (Ok cap, r')"
  shows "logged r'"
proof -
  from inv op obtain rc reg and k :: Capability
    where r': "r' = push_trace (EvCapGranted court cap (desc_object d) rights)
        (r\<lparr>cap_registry := reg, cspaces := cspace_insert court cap (cspaces r)\<rparr>)"
    and caps: "caps (cap_registry r) cap = None" "caps reg = (caps (cap_registry r))(cap \<mapsto> k)"
    and k: "cap_object k = desc_object d" "cap_rights k = rights"
    by (rule grant_capability)
  have "all_justified (trace r')"
    using log by (simp add: r' all_justified_snoc logged_def justified_no_use uses_def)
  moreover have "EvCapGranted c x (cap_object y) (cap_rights y) \<in> set (trace r')"
    if "cspace_contains r' c x" "caps (cap_registry r') x = Some y" for c x y
  proof (cases "x = cap")
    case True
    have "\<not> cspace_contains r c cap" using caps(1) by (auto dest: hosted_inv_cspaceD [OF inv])
    with that True have "c = court" "y = k" by (auto simp: r' cspace_contains_insert caps)
    with True k show ?thesis by (simp add: r')
  next
    case False
    with that have "cspace_contains r c x" "caps (cap_registry r) x = Some y"
      by (auto simp: r' cspace_contains_insert caps)
    with log show ?thesis unfolding logged_def r' by simp
  qed
  moreover have "\<exists>y. caps (cap_registry r') x = Some y \<and> cap_revoked y"
    if "EvCapRevoked x \<in> set (trace r')" for x
  proof -
    from that log obtain y where "caps (cap_registry r) x = Some y" "cap_revoked y"
      unfolding logged_def r' by auto
    with caps(1) show ?thesis by (cases "x = cap") (auto simp: r' caps(2))
  qed
  ultimately show ?thesis unfolding logged_def by blast
qed

lemma revoke_logged:
  assumes inv: "hosted_inv r" and log: "logged r" and cap: "caps (cap_registry r) cap = Some k"
  shows "logged (push_trace (EvCapRevoked cap) (r\<lparr>cap_registry := revoke_tree {cap} (cap_registry r)\<rparr>))"
    (is "logged (push_trace _ ?r)")
proof (rule logged_push)
  show "logged ?r"
    by (rule logged_caps_mono [OF log])
      (use hosted_inv_cspaceD [OF inv] in \<open>auto simp: caps_revoke_tree\<close>)
qed (use cap in \<open>auto simp: caps_revoke_tree uses_def intro: justified_no_use\<close>)

lemma logged_new: "logged hosted_new"
  by (simp add: logged_def hosted_new_def all_justified_Nil cspace_contains_def)

lemma send_peer_down:
  assumes "hosted_send court cap payload r = (res, r')" and "res \<noteq> Ok ()"
  shows "r' = r \<or> (\<exists>k. cspace_contains r court cap \<and> caps (cap_registry r) cap = Some k \<and>
    \<not> cap_revoked k \<and> contains (cap_rights k) SEND \<and> r' = push_trace (EvPeerDown court (cap_object k)) r)"
  using assms by (auto simp: hosted_send_def authorize_Ok_iff split: try_splits if_splits)

lemma send_logged:
  assumes log: "logged r" and op: "hosted_send court cap payload r = (res, r')"
  shows "logged r'"
proof (cases "res = Ok ()")
  case True
  with op obtain k q where k: "cspace_contains r court cap" "caps (cap_registry r) cap = Some k"
      "\<not> cap_revoked k" "contains (cap_rights k) SEND"
    and r': "r' = push_trace (EvSent court (cap_object k) (length payload))
       (r\<lparr>corridors := (corridors r)(cap_object k \<mapsto> q\<lparr>queue := queue q @ [payload]\<rparr>)\<rparr>)"
    by (auto elim: hosted_send_Ok)
  from logged_justified [OF log k] show ?thesis
    unfolding r' by (intro logged_push) (simp_all add: log uses_def)
next
  case False
  from send_peer_down [OF op this] show ?thesis
    by (auto simp: log uses_def intro!: logged_push logged_justified [where right = SEND])
qed

lemma recv_logged:
  assumes log: "logged r" and op: "hosted_recv court cap r = (res, r')"
  shows "logged r'"
proof (cases res)
  case (Ok payload)
  with op obtain k q rest where k: "cspace_contains r court cap" "caps (cap_registry r) cap = Some k"
      "\<not> cap_revoked k" "contains (cap_rights k) RECV"
    and r': "r' = push_trace (EvReceived court (cap_object k) (length payload))
       (r\<lparr>corridors := (corridors r)(cap_object k \<mapsto> q\<lparr>queue := rest\<rparr>)\<rparr>)"
    by (auto elim: hosted_recv_Ok)
  from logged_justified [OF log k] show ?thesis
    unfolding r' by (intro logged_push) (simp_all add: log uses_def)
qed (use log op in \<open>auto dest: hosted_recv_not_Ok\<close>)

lemma lookup_open_logged:
  "logged r \<Longrightarrow> hosted_lookup court path r = (res, r') \<Longrightarrow> logged r'"
  "logged r \<Longrightarrow> hosted_open court d cap rights r = (res', r') \<Longrightarrow> logged r'"
  by (auto simp: hosted_lookup_def hosted_open_def deny_open_def Let_def uses_def intro!: logged_no_use
      split: try_splits option.splits if_splits result.splits)

lemma hosted_step_logged:
  assumes "hosted_step r l r'" and inv: "hosted_inv r" and log: "logged r"
  shows "logged r'"
  using assms(1)
proof cases
  case (step_create_court name res)
  with inv log show ?thesis by (cases res) (auto simp: create_court_Err intro: create_court_logged)
next
  case (step_create_corridor path a b transport cp res)
  with inv log show ?thesis by (cases res) (auto dest: create_corridor_Err intro: create_corridor_logged)
next
  case (step_grant court d rights res)
  with inv log show ?thesis by (cases res) (auto dest: grant_Err intro: grant_logged)
next
  case (step_revoke cap res)
  with inv log show ?thesis by (auto simp: hosted_revoke_eq intro: revoke_logged split: if_splits)
next
  case (step_fault court res)
  with log show ?thesis by (elim fault_court_cases) (auto simp: uses_def intro!: logged_no_use)
qed (use log in \<open>blast intro: lookup_open_logged send_logged recv_logged\<close>)+

interpretation audited: monotone_system hosted_step "\<lambda>r. hosted_inv r \<and> logged r" hosted_grows
  by unfold_locales
    (auto intro: hosted_step_inv hosted_step_logged hosted_grows_refl hosted_grows_trans hosted_step_grows)

lemma reachable_logged: "hosted_run hosted_new ops r \<Longrightarrow> logged r"
  using audited.invar_run [of hosted_new ops r] hosted_inv_new logged_new by blast

end
