(* ===== verification/Hosted_Corridor.thy ===== *)
theory Hosted_Corridor
  imports Hosted_Invariant
begin

text \<open>
  The corridor as its two courts see it. \<open>holds\<close> is the authority a call needs; with it
  \<^verbatim>\<open>send\<close> and \<^verbatim>\<open>recv\<close> of \<^verbatim>\<open>crates/court-hosted/src/lib.rs\<close> are the operations of a bounded
  first-in-first-out channel, which is shown by interpreting the shared contract on them.
\<close>

definition running :: "HostedRoot \<Rightarrow> CourtId \<Rightarrow> bool" where
  "running r court \<longleftrightarrow> require_running_court r court = Ok ()"

definition holds :: "HostedRoot \<Rightarrow> CourtId \<Rightarrow> CapId \<Rightarrow> ObjectId \<Rightarrow> Rights \<Rightarrow> bool" where
  "holds r court cap ob right \<longleftrightarrow> cspace_contains r court cap \<and>
     authorize cap CorridorObject right (cap_registry r) = Ok ob"

lemma running_iff: "running r court \<longleftrightarrow> (\<exists>k. courts r court = Some k \<and> court_state k = Running)"
  by (simp add: running_def require_running_court_Ok_iff)

lemma not_running: "\<not> running r court \<Longrightarrow> require_running_court r court = Err InvalidState"
  by (simp add: running_iff require_running_court_not_Ok)

lemma holds_corridor:
  assumes "hosted_inv r" and "holds r court cap ob right"
  obtains q where "corridors r ob = Some q" "length (queue q) \<le> capacity q"
proof -
  from assms(2) obtain k where "caps (cap_registry r) cap = Some k" "cap_object k = ob"
    by (auto simp: holds_def authorize_Ok_iff)
  with hosted_inv_capD [OF assms(1)] obtain q where q: "corridors r ob = Some q" by blast
  from hosted_inv_corridorD [OF assms(1) q] that q show thesis by blast
qed

lemma send_eq:
  assumes "running r court" and "holds r court cap ob SEND" and "corridors r ob = Some q"
  shows "hosted_send court cap payload r =
    (if has_peer_down q court (courts r) then (Err PeerDown, push_trace (EvPeerDown court ob) r)
     else if capacity q \<le> length (queue q) then (Err QueueFull, r)
     else (Ok (), push_trace (EvSent court ob (length payload))
       (r\<lparr>corridors := (corridors r)(ob \<mapsto> q\<lparr>queue := queue q @ [payload]\<rparr>)\<rparr>)))"
  using assms by (simp add: hosted_send_def running_def holds_def)

lemma recv_eq:
  assumes "running r court" and "holds r court cap ob RECV" and "corridors r ob = Some q"
  shows "hosted_recv court cap r = (case queue q of
      [] \<Rightarrow> (Err QueueEmpty, r)
    | payload # rest \<Rightarrow> (Ok payload, push_trace (EvReceived court ob (length payload))
        (r\<lparr>corridors := (corridors r)(ob \<mapsto> q\<lparr>queue := rest\<rparr>)\<rparr>)))"
  using assms by (simp add: hosted_recv_def running_def holds_def)

lemma authorize_corridor_cases:
  obtains (granted) ob where "authorize cap CorridorObject right reg = Ok ob"
  | (refused) e where "authorize cap CorridorObject right reg = Err e" "e \<in> {BadCap, Revoked, NoRight}"
proof (cases "caps reg cap")
  case None
  then show thesis by (intro refused [of BadCap]) (simp_all add: authorize_def)
next
  case (Some k)
  have "cap_object_type k = CorridorObject" by (cases "cap_object_type k")
  with Some have "authorize cap CorridorObject right reg = (if cap_revoked k then Err Revoked
      else if contains (cap_rights k) right then Ok (cap_object k) else Err NoRight)"
    by (simp add: authorize_def)
  then show thesis using granted refused [of Revoked] refused [of NoRight] by (simp split: if_splits)
qed

lemma no_authority:
  assumes "\<And>ob. \<not> holds r court cap ob right" and "running r court"
  shows "right = SEND \<Longrightarrow> fst (hosted_send court cap payload r) \<in> {Err BadCap, Err Revoked, Err NoRight} \<and>
      snd (hosted_send court cap payload r) = r"
    and "right = RECV \<Longrightarrow> fst (hosted_recv court cap r) \<in> {Err BadCap, Err Revoked, Err NoRight} \<and>
      snd (hosted_recv court cap r) = r"
  using assms
  by (cases rule: authorize_corridor_cases [of cap right "cap_registry r"];
      auto simp: hosted_send_def hosted_recv_def running_def holds_def)+

section \<open>A corridor is a bounded channel\<close>

definition ob_queue :: "ObjectId \<Rightarrow> HostedRoot \<Rightarrow> bytes list" where
  "ob_queue ob r = (case corridors r ob of None \<Rightarrow> [] | Some q \<Rightarrow> queue q)"

definition ob_capacity :: "ObjectId \<Rightarrow> HostedRoot \<Rightarrow> nat" where
  "ob_capacity ob r = (case corridors r ob of None \<Rightarrow> 0 | Some q \<Rightarrow> capacity q)"

definition put_corridor :: "CourtId \<Rightarrow> CapId \<Rightarrow> bytes \<Rightarrow> HostedRoot \<Rightarrow> HostedRoot option" where
  "put_corridor a ca payload r = (case hosted_send a ca payload r of (Ok _, r') \<Rightarrow> Some r' | _ \<Rightarrow> None)"

definition take_corridor :: "CourtId \<Rightarrow> CapId \<Rightarrow> HostedRoot \<Rightarrow> (bytes \<times> HostedRoot) option" where
  "take_corridor b cb r = (case hosted_recv b cb r of (Ok payload, r') \<Rightarrow> Some (payload, r') | _ \<Rightarrow> None)"

text \<open>Both courts run, each holds its right on the corridor, and no endpoint is down.\<close>

definition connected :: "CourtId \<Rightarrow> CapId \<Rightarrow> CourtId \<Rightarrow> CapId \<Rightarrow> ObjectId \<Rightarrow> HostedRoot \<Rightarrow> bool" where
  "connected a ca b cb ob r \<longleftrightarrow> hosted_inv r \<and> running r a \<and> running r b \<and>
     holds r a ca ob SEND \<and> holds r b cb ob RECV \<and>
     (case corridors r ob of None \<Rightarrow> False | Some q \<Rightarrow> \<not> has_peer_down q a (courts r))"

lemma connected_queue:
  assumes "connected a ca b cb ob r" and "corridors r ob = Some q" and "length ms \<le> capacity q"
  shows "connected a ca b cb ob (push_trace ev (r\<lparr>corridors := (corridors r)(ob \<mapsto> q\<lparr>queue := ms\<rparr>)\<rparr>))"
  using assms hosted_inv_queue [of r ob q ms]
  by (simp add: connected_def running_iff holds_def cspace_contains_def has_peer_down_def)

lemma connectedE:
  assumes "connected a ca b cb ob r"
  obtains q where "corridors r ob = Some q" "length (queue q) \<le> capacity q" "running r a" "running r b"
    "holds r a ca ob SEND" "holds r b cb ob RECV" "\<not> has_peer_down q a (courts r)"
proof -
  from assms obtain q where "corridors r ob = Some q" "\<not> has_peer_down q a (courts r)"
    by (auto simp: connected_def split: option.splits)
  with assms hosted_inv_corridorD [of r ob q] that show thesis
    unfolding connected_def by blast
qed

interpretation corridor: bounded_channel "connected a ca b cb ob" "ob_queue ob" "ob_capacity ob"
  "\<lambda>r payload. True" "put_corridor a ca" "take_corridor b cb" for a ca b cb ob
proof unfold_locales
  fix r m
  assume c: "connected a ca b cb ob r"
  then obtain q where q: "corridors r ob = Some q" "length (queue q) \<le> capacity q" "running r a" "running r b"
    "holds r a ca ob SEND" "holds r b cb ob RECV" "\<not> has_peer_down q a (courts r)"
    by (rule connectedE)
  note send = send_eq [OF q(3,5,1)] and recv = recv_eq [OF q(4,6,1)]
  show "length (ob_queue ob r) \<le> ob_capacity ob r"
    using q(1,2) by (simp add: ob_queue_def ob_capacity_def)
  show "put_corridor a ca m r = None" if "ob_capacity ob r \<le> length (ob_queue ob r)"
    using that q(1) by (simp add: put_corridor_def send ob_queue_def ob_capacity_def)
  show "\<exists>r'. put_corridor a ca m r = Some r'" if "length (ob_queue ob r) < ob_capacity ob r"
    using that q(1,7) by (simp add: put_corridor_def send ob_queue_def ob_capacity_def)
  show "connected a ca b cb ob r' \<and> ob_queue ob r' = ob_queue ob r @ [m] \<and>
      ob_capacity ob r' = ob_capacity ob r \<and> (\<forall>x. True = True)" if "put_corridor a ca m r = Some r'" for r'
    using that q(1,7) connected_queue [OF c q(1), of "queue q @ [m]"]
    by (auto simp: put_corridor_def send ob_queue_def ob_capacity_def split: if_splits)
  show "take_corridor b cb r = None" if "ob_queue ob r = []"
    using that q(1) by (simp add: take_corridor_def recv ob_queue_def)
  show "\<exists>r'. take_corridor b cb r = Some (m, r') \<and> connected a ca b cb ob r' \<and> ob_queue ob r' = ms \<and>
      ob_capacity ob r' = ob_capacity ob r \<and> (\<forall>x. True = True)" if "ob_queue ob r = m # ms" for ms
    using that q(1,2) connected_queue [OF c q(1), of ms]
    by (simp add: take_corridor_def recv ob_queue_def ob_capacity_def)
qed

end
