(* ===== verification/Hosted_Demo.thy ===== *)
theory Hosted_Demo
  imports Hosted_Invariant
begin

text \<open>
  The packet-receive scenario of the unit tests of
  \<^verbatim>\<open>crates/court-hosted\<close>, run on the model: two courts, a corridor between them, a
  capability for each. The concrete states are the inputs on which the properties of the
  hosted Root Court are instantiated.
\<close>

definition rx_path :: string where
  "rx_path = ''/court/net0/packet/rx''"

definition rx_desc :: Descriptor where
  "rx_desc = \<lparr>desc_path = rx_path, desc_object = ObjectId 1, desc_object_type = CorridorObject,
     desc_transport = SharedRingTransport\<rparr>"

definition app_court :: CourtId where "app_court = CourtId 1"
definition net_court :: CourtId where "net_court = CourtId 2"
definition net_cap :: CapId where "net_cap = CapId 2"
definition app_cap :: CapId where "app_cap = CapId 3"

lemmas rx_defs = rx_path_def rx_desc_def app_court_def net_court_def net_cap_def app_cap_def

definition rx_s1 :: HostedRoot where "rx_s1 = snd (create_court ''app'' hosted_new)"
definition rx_s2 :: HostedRoot where "rx_s2 = snd (create_court ''net0'' rx_s1)"
definition rx_s3 :: HostedRoot where
  "rx_s3 = snd (create_corridor rx_path net_court app_court SharedRingTransport 64 rx_s2)"
definition rx_s4 :: HostedRoot where
  "rx_s4 = snd (grant_corridor_cap net_court rx_desc (bitor RECV OBSERVE) rx_s3)"
definition rx_root :: HostedRoot where
  "rx_root = snd (grant_corridor_cap app_court rx_desc (bitor SEND OBSERVE) rx_s4)"

definition rx_courts :: "CourtId \<rightharpoonup> Court" where
  "rx_courts = [CourtId 1 \<mapsto> \<lparr>court_id = CourtId 1, court_name = ''app'', court_state = Running\<rparr>,
     CourtId 2 \<mapsto> \<lparr>court_id = CourtId 2, court_name = ''net0'', court_state = Running\<rparr>]"

definition rx_queue :: Corridor where
  "rx_queue = \<lparr>endpoints = (CourtId 2, CourtId 1), queue = [], capacity = 64\<rparr>"

lemma rx_add [simp]:
  "add_or_panic 0 1 = (Ok 1 :: u64 CkResult)" "add_or_panic 1 1 = (Ok 2 :: u64 CkResult)"
  "add_or_panic 2 1 = (Ok 3 :: u64 CkResult)" "add_or_panic 3 1 = (Ok 4 :: u64 CkResult)"
  by (simp_all add: add_or_panic_def)

lemma rx_contains [simp]:
  "contains corridor_rights DELEGATE" "contains corridor_rights (bitor RECV OBSERVE)"
  "contains corridor_rights (bitor SEND OBSERVE)"
  "\<not> contains (bitor RECV OBSERVE) DELEGATE" "\<not> contains (bitor SEND OBSERVE) DELEGATE"
  "contains (bitor SEND OBSERVE) SEND" "contains (bitor RECV OBSERVE) RECV"
  by (simp_all add: contains_def bitor_def corridor_rights_def rights_defs)

lemma rx_s1_step: "create_court ''app'' hosted_new = (Ok app_court, rx_s1)"
  by (simp add: rx_s1_def create_court_def hosted_new_def rx_defs Let_def)

lemma rx_s2_step: "create_court ''net0'' rx_s1 = (Ok net_court, rx_s2)"
  by (simp add: rx_s2_def rx_s1_def create_court_def hosted_new_def rx_defs Let_def push_trace_def)

lemma rx_s2_eq: "rx_s2 = \<lparr>next_court = 2, next_object = 0, courts = rx_courts,
    cspaces = [CourtId 1 \<mapsto> {}, CourtId 2 \<mapsto> {}], cap_registry = empty_registry,
    namespace = \<lparr>entries = Map.empty\<rparr>, corridors = Map.empty, root_caps = Map.empty,
    trace = [EvCourtCreated (CourtId 1) ''app'', EvCourtCreated (CourtId 2) ''net0'']\<rparr>"
  by (simp add: rx_s2_def rx_s1_def create_court_def hosted_new_def Let_def push_trace_def rx_courts_def)

lemma rx_running [simp]:
  "require_running_court \<lparr>next_court = n, next_object = ob, courts = rx_courts, cspaces = cs,
     cap_registry = reg, namespace = ns, corridors = ks, root_caps = rc, trace = evs\<rparr> (CourtId 1) = Ok ()"
  "require_running_court \<lparr>next_court = n, next_object = ob, courts = rx_courts, cspaces = cs,
     cap_registry = reg, namespace = ns, corridors = ks, root_caps = rc, trace = evs\<rparr> (CourtId 2) = Ok ()"
  by (simp_all add: require_running_court_def rx_courts_def)

definition rx_granted :: "Rights \<Rightarrow> Capability" where
  "rx_granted rights = \<lparr>cap_object = ObjectId 1, cap_object_type = CorridorObject, cap_rights = rights,
     cap_parent = Some (CapId 1), cap_revoked = False, cap_delegable = False\<rparr>"

definition rx_ns :: Namespace where
  "rx_ns = \<lparr>entries = [rx_path \<mapsto> rx_desc]\<rparr>"

definition rx_trace :: "TraceEvent list" where
  "rx_trace = [EvCourtCreated (CourtId 1) ''app'', EvCourtCreated (CourtId 2) ''net0'',
     EvCorridorCreated rx_path (ObjectId 1) SharedRingTransport]"

lemma rx_s3_eq: "rx_s3 = \<lparr>next_court = 2, next_object = 1, courts = rx_courts,
    cspaces = [CourtId 1 \<mapsto> {}, CourtId 2 \<mapsto> {}],
    cap_registry = \<lparr>next_cap = 1, caps = [CapId 1 \<mapsto> root_capability (ObjectId 1)], children = Map.empty\<rparr>,
    namespace = rx_ns, corridors = [ObjectId 1 \<mapsto> rx_queue],
    root_caps = [ObjectId 1 \<mapsto> CapId 1], trace = rx_trace\<rparr>"
  by (simp add: rx_s3_def rx_s2_eq create_corridor_def rx_defs Let_def in_registry_def mint_root_def
      alloc_cap_def empty_registry_def root_capability_def rx_ns_def ns_bind_def corridor_new_def
      rx_queue_def push_trace_def rx_trace_def)

lemma rx_s3_step:
  "create_corridor rx_path net_court app_court SharedRingTransport 64 rx_s2 = (Ok (ObjectId 1), rx_s3)"
  by (simp add: rx_s3_def rx_s2_eq create_corridor_def rx_defs Let_def in_registry_def mint_root_def
      alloc_cap_def empty_registry_def)

lemmas rx_grant_defs = grant_corridor_cap_def rx_defs in_registry_def delegate_def alloc_cap_def
  root_capability_def cspace_insert_def push_child_def

lemma rx_s4_step:
  "grant_corridor_cap net_court rx_desc (bitor RECV OBSERVE) rx_s3 = (Ok net_cap, rx_s4)"
  by (simp add: rx_s4_def rx_s3_eq rx_grant_defs)

lemma rx_s4_eq: "rx_s4 = \<lparr>next_court = 2, next_object = 1, courts = rx_courts,
    cspaces = [CourtId 1 \<mapsto> {}, CourtId 2 \<mapsto> {CapId 2}],
    cap_registry = \<lparr>next_cap = 2, caps = [CapId 1 \<mapsto> root_capability (ObjectId 1),
        CapId 2 \<mapsto> rx_granted (bitor RECV OBSERVE)], children = [CapId 1 \<mapsto> [CapId 2]]\<rparr>,
    namespace = rx_ns, corridors = [ObjectId 1 \<mapsto> rx_queue],
    root_caps = [ObjectId 1 \<mapsto> CapId 1],
    trace = rx_trace @ [EvCapGranted (CourtId 2) (CapId 2) (ObjectId 1) (bitor RECV OBSERVE)]\<rparr>"
  by (simp add: rx_s4_def rx_s3_eq rx_grant_defs rx_granted_def push_trace_def)

lemma rx_root_step:
  "grant_corridor_cap app_court rx_desc (bitor SEND OBSERVE) rx_s4 = (Ok app_cap, rx_root)"
  by (simp add: rx_root_def rx_s4_eq rx_grant_defs)

lemma rx_root_eq: "rx_root = \<lparr>next_court = 2, next_object = 1, courts = rx_courts,
    cspaces = [CourtId 1 \<mapsto> {CapId 3}, CourtId 2 \<mapsto> {CapId 2}],
    cap_registry = \<lparr>next_cap = 3, caps = [CapId 1 \<mapsto> root_capability (ObjectId 1),
        CapId 2 \<mapsto> rx_granted (bitor RECV OBSERVE), CapId 3 \<mapsto> rx_granted (bitor SEND OBSERVE)],
      children = [CapId 1 \<mapsto> [CapId 2, CapId 3]]\<rparr>,
    namespace = rx_ns, corridors = [ObjectId 1 \<mapsto> rx_queue],
    root_caps = [ObjectId 1 \<mapsto> CapId 1],
    trace = rx_trace @ [EvCapGranted (CourtId 2) (CapId 2) (ObjectId 1) (bitor RECV OBSERVE),
      EvCapGranted (CourtId 1) (CapId 3) (ObjectId 1) (bitor SEND OBSERVE)]\<rparr>"
  by (simp add: rx_root_def rx_s4_eq rx_grant_defs rx_granted_def push_trace_def fun_upd_twist)

definition rx_setup :: "HostedOp list" where
  "rx_setup = [OpCreateCourt ''app'' (Ok app_court), OpCreateCourt ''net0'' (Ok net_court),
     OpCreateCorridor rx_path net_court app_court SharedRingTransport 64 (Ok (ObjectId 1)),
     OpGrant net_court rx_desc (bitor RECV OBSERVE) (Ok net_cap),
     OpGrant app_court rx_desc (bitor SEND OBSERVE) (Ok app_cap)]"

lemmas rx_steps = step_create_court [OF rx_s1_step result.distinct(3)]
  step_create_court [OF rx_s2_step result.distinct(3)]
  step_create_corridor [OF rx_s3_step result.distinct(3)]
  step_grant [OF rx_s4_step result.distinct(3)] step_grant [OF rx_root_step result.distinct(3)]

lemmas hosted_run_cons = run_cons [where step = hosted_step]

lemma rx_setup_run: "hosted_run hosted_new rx_setup rx_root"
  unfolding rx_setup_def
  by (rule hosted_run_cons, rule rx_steps(1), rule hosted_run_cons, rule rx_steps(2),
      rule hosted_run_cons, rule rx_steps(3), rule hosted_run_cons, rule rx_steps(4),
      rule hosted_run_cons, rule rx_steps(5), rule run_nil)

lemma rx_root_inv: "hosted_inv rx_root"
  using rx_setup_run by (rule hosted_reachable_inv)

lemma rx_revoke_returns: "\<exists>r1. hosted_revoke app_cap rx_root = Some (Ok (), r1)"
proof -
  have "caps (cap_registry rx_root) app_cap \<noteq> None" by (simp add: rx_root_eq app_cap_def)
  then show ?thesis by (simp add: hosted_revoke_eq [OF rx_root_inv])
qed

definition rx_sent :: HostedRoot where
  "rx_sent = snd (hosted_send app_court app_cap [112, 107, 116] rx_root)"

lemma rx_send_step: "hosted_send app_court app_cap [112, 107, 116] rx_root = (Ok (), rx_sent)"
  by (simp add: rx_sent_def rx_root_eq hosted_send_def app_court_def app_cap_def cspace_contains_def
      authorize_def rx_granted_def rx_queue_def has_peer_down_def rx_courts_def require_running_court_def)

lemma rx_sent_run: "hosted_run hosted_new (rx_setup @ [OpSend app_court app_cap [112, 107, 116] (Ok ())]) rx_sent"
  using rx_setup_run step_send [OF rx_send_step] by (rule run_snoc) simp

lemma rx_sent_eq: "rx_sent = push_trace (EvSent (CourtId 1) (ObjectId 1) 3)
    (rx_root\<lparr>corridors := [ObjectId 1 \<mapsto> rx_queue\<lparr>queue := [[112, 107, 116]]\<rparr>]\<rparr>)"
  by (simp add: rx_sent_def rx_root_eq hosted_send_def app_court_def app_cap_def cspace_contains_def
      authorize_def rx_granted_def rx_queue_def has_peer_down_def rx_courts_def require_running_court_def)

end
