(* ===== verification/Hosted_Properties.thy ===== *)
theory Hosted_Properties
  imports Hosted_Audit Hosted_Corridor Hosted_Demo
begin

text \<open>
  The properties of the in-process Root Court (\<^verbatim>\<open>crates/court-hosted\<close>), each instantiated on
  the packet-receive scenario where it has hypotheses.
\<close>

section \<open>Revocation\<close>

lemma revoke_step: "hosted_revoke cap r = Some (Ok (), r1) \<Longrightarrow> hosted_step r (OpRevoke cap (Ok ())) r1"
  by (rule step_revoke) simp_all

definition refused :: "CapId \<Rightarrow> HostedRoot \<Rightarrow> bool" where
  "refused c r \<longleftrightarrow> (\<forall>court payload d rights.
     fst (hosted_send court c payload r) \<in> {Err InvalidState, Err BadCap, Err Revoked} \<and>
     snd (hosted_send court c payload r) = r \<and>
     fst (hosted_recv court c r) \<in> {Err InvalidState, Err BadCap, Err Revoked} \<and>
     snd (hosted_recv court c r) = r \<and>
     fst (hosted_open court d (Some c) rights r) \<in> {Err InvalidState, Err BadCap, Err Revoked} \<and>
     delegate c rights (cap_registry r) = (Err Revoked, cap_registry r))"

lemma revoked_cap_refused:
  assumes "caps (cap_registry r) c = Some k" and "cap_revoked k"
  shows "refused c r"
proof -
  have auth: "authorize c ty rights (cap_registry r) = Err Revoked" for ty rights
    using assms by (simp add: authorize_def)
  have del: "delegate c rights (cap_registry r) = (Err Revoked, cap_registry r)" for rights
    using assms by (simp add: delegate_def)
  show ?thesis
    unfolding refused_def
  proof (intro allI)
    fix court payload d rights
    show "fst (hosted_send court c payload r) \<in> {Err InvalidState, Err BadCap, Err Revoked} \<and>
       snd (hosted_send court c payload r) = r \<and>
       fst (hosted_recv court c r) \<in> {Err InvalidState, Err BadCap, Err Revoked} \<and>
       snd (hosted_recv court c r) = r \<and>
       fst (hosted_open court d (Some c) rights r) \<in> {Err InvalidState, Err BadCap, Err Revoked} \<and>
       delegate c rights (cap_registry r) = (Err Revoked, cap_registry r)"
      using auth del not_running [of r court]
      by (cases "running r court") (simp_all add: hosted_send_def hosted_recv_def hosted_open_def deny_open_def
          running_def)
  qed
qed

text \<open>
  C1. \<^verbatim>\<open>HostedRoot::revoke\<close> always returns on a state the public operations can reach. On an
  unknown capability it is \<^verbatim>\<open>BadCap\<close> and nothing changes. Otherwise it succeeds, every
  capability derived from the one revoked (itself included) is refused as \<^verbatim>\<open>Revoked\<close> from
  then on, the authorization of every other capability is what it was, and courts, capability
  spaces, corridors and the namespace are untouched.
\<close>

theorem revoke_exact:
  assumes "hosted_run hosted_new ops r"
  shows "\<exists>res r'. hosted_revoke cap r = Some (res, r') \<and>
    (if caps (cap_registry r) cap = None then res = Err BadCap \<and> r' = r
     else res = Ok () \<and>
       (\<forall>c ty rights. authorize c ty rights (cap_registry r') =
          (if descends (cap_registry r) cap c then Err Revoked
           else authorize c ty rights (cap_registry r))) \<and>
       courts r' = courts r \<and> cspaces r' = cspaces r \<and> corridors r' = corridors r \<and>
       namespace r' = namespace r \<and> trace r' = trace r @ [EvCapRevoked cap])"
proof -
  from assms have inv: "hosted_inv r" by (rule hosted_reachable_inv)
  then have reg: "cap_inv (cap_registry r)" by (simp add: hosted_inv_def)
  have known: "caps (cap_registry r) c \<noteq> None"
    if "descends (cap_registry r) cap c" "caps (cap_registry r) cap = Some k" for c k
    using descends_attenuates [OF reg that] by auto
  have "authorize c ty rights (revoke_tree {cap} (cap_registry r)) =
      (if descends (cap_registry r) cap c then Err Revoked else authorize c ty rights (cap_registry r))"
    if "caps (cap_registry r) cap = Some k" for c ty rights k
    using authorize_revoke_tree [of "cap_registry r" cap c "{cap}"]
      authorize_revoke_tree_other [of "{cap}" "cap_registry r" c] known [OF _ that] by auto
  then show ?thesis by (auto simp: hosted_revoke_eq [OF inv])
qed

theorem revoke_exact_witness:
  "\<exists>res r'. hosted_revoke (CapId 1) rx_root = Some (res, r') \<and> res = Ok () \<and>
     authorize (CapId 1) CorridorObject SEND (cap_registry r') = Err Revoked"
  using revoke_exact [OF rx_setup_run, of "CapId 1"] by (auto simp: rx_root_eq)

text \<open>
  C2. Revocation is permanent. Once a capability has been revoked, no later sequence of
  operations by anyone makes it or a capability derived from it usable again: every send,
  receive, open and delegation with it is refused, and a refused send or receive leaves the
  corridors as they are.
\<close>

theorem revocation_permanent:
  assumes "hosted_run hosted_new ops r" and "hosted_revoke cap r = Some (Ok (), r1)"
    and "descends (cap_registry r) cap c" and "hosted_run r1 ops' r2"
  shows "refused c r2"
proof -
  from assms(1) have inv: "hosted_inv r" by (rule hosted_reachable_inv)
  then have reg: "cap_inv (cap_registry r)" by (simp add: hosted_inv_def)
  from inv assms(2) obtain k0 where k0: "caps (cap_registry r) cap = Some k0"
    and r1: "cap_registry r1 = revoke_tree {cap} (cap_registry r)"
    by (auto simp: hosted_revoke_eq split: if_splits)
  then obtain k where "caps (cap_registry r) c = Some k"
    using descends_attenuates [OF reg assms(3) k0] by auto
  with assms(3) r1 have k1: "caps (cap_registry r1) c = Some (k\<lparr>cap_revoked := True\<rparr>)"
    by (simp add: caps_revoke_tree)
  have "hosted_inv r1"
    using hosted_step_inv [OF inv revoke_step [OF assms(2)]] .
  from hosted_grows_capD [OF hosted_sys.grows_run [OF assms(4) this] k1]
  show ?thesis by (auto intro: revoked_cap_refused)
qed

theorem revocation_permanent_witness:
  "\<exists>r1. hosted_revoke app_cap rx_root = Some (Ok (), r1) \<and> refused app_cap r1"
  using rx_revoke_returns revocation_permanent [OF rx_setup_run _ rtranclp.rtrancl_refl run_nil] by blast

section \<open>Authority\<close>

text \<open>
  C3. Delegation never enlarges authority: in every reachable state, whatever a capability is
  authorized for, each capability it was derived from, however far up, is authorized for too,
  on the same object. In particular a live capability has no revoked ancestor.
\<close>

theorem delegation_attenuates:
  assumes "hosted_run hosted_new ops r" and "descends (cap_registry r) a c"
    and "authorize c ty rights (cap_registry r) = Ok ob"
  shows "authorize a ty rights (cap_registry r) = Ok ob"
proof -
  from assms(1) have reg: "cap_inv (cap_registry r)"
    using hosted_reachable_inv by (auto simp: hosted_inv_def)
  from assms(3) obtain k where k: "caps (cap_registry r) c = Some k" "\<not> cap_revoked k" "cap_object_type k = ty"
    "contains (cap_rights k) rights" "cap_object k = ob" by (auto simp: authorize_Ok_iff)
  from ancestor_known [OF reg assms(2)] k(1) obtain ak where ak: "caps (cap_registry r) a = Some ak" by auto
  from descends_attenuates [OF reg assms(2) ak] k ak show ?thesis
    by (auto simp: authorize_Ok_iff intro: contains_trans ObjectType_single)
qed

theorem delegation_attenuates_witness:
  "authorize (CapId 1) CorridorObject SEND (cap_registry rx_root) = Ok (ObjectId 1)"
proof (rule delegation_attenuates [OF rx_setup_run])
  show "descends (cap_registry rx_root) (CapId 1) (CapId 3)"
    by (rule r_into_rtranclp) (simp add: child_of_def rx_root_eq)
  show "authorize (CapId 3) CorridorObject SEND (cap_registry rx_root) = Ok (ObjectId 1)"
    by (simp add: authorize_def rx_root_eq rx_granted_def)
qed

text \<open>
  C4. The trace is an audit log. In every reachable state, each recorded use of a corridor (a
  send, a receive, or a send answered with \<^verbatim>\<open>PeerDown\<close>) by a court is preceded by the grant,
  to that court, of a capability on that corridor with the right used, and that capability
  had not been revoked before the use.
\<close>

theorem uses_were_granted:
  assumes "hosted_run hosted_new ops r" and "trace r = past @ ev # future"
    and "uses ev = Some (court, ob, right)"
  shows "\<exists>cap rights. EvCapGranted court cap ob rights \<in> set past \<and> contains rights right \<and>
    EvCapRevoked cap \<notin> set past"
  using reachable_logged [OF assms(1)] assms(2,3)
  unfolding logged_def all_justified_def justified_def by blast

theorem uses_were_granted_witness:
  "\<exists>cap rights. EvCapGranted (CourtId 1) cap (ObjectId 1) rights \<in> set (trace rx_root) \<and>
     contains rights SEND \<and> EvCapRevoked cap \<notin> set (trace rx_root)"
  by (rule uses_were_granted [OF rx_sent_run, where future = "[]" and ev = "EvSent (CourtId 1) (ObjectId 1) 3"])
    (simp_all add: rx_sent_eq uses_def)

text \<open>
  C5. The contract of \<^verbatim>\<open>send\<close> in every reachable state. It succeeds exactly when the court is
  running, holds a live capability with \<^verbatim>\<open>SEND\<close> on some corridor, every other endpoint of the
  corridor is running and the queue is below its capacity; then the payload is appended to
  that queue and no other corridor changes. It never panics, never reports a dangling object,
  and a refused send leaves every queue, capability and court as it was.
\<close>

theorem send_contract:
  assumes "hosted_run hosted_new ops r" and "hosted_send court cap payload r = (res, r')"
  shows "(res = Ok () \<longleftrightarrow> running r court \<and> (\<exists>ob q. holds r court cap ob SEND \<and> corridors r ob = Some q \<and>
      \<not> has_peer_down q court (courts r) \<and> length (queue q) < capacity q)) \<and>
    res \<in> {Ok (), Err InvalidState, Err BadCap, Err Revoked, Err NoRight, Err PeerDown, Err QueueFull} \<and>
    courts r' = courts r \<and> cspaces r' = cspaces r \<and> cap_registry r' = cap_registry r \<and>
    (if res = Ok () then \<exists>ob. holds r court cap ob SEND \<and> ob_queue ob r' = ob_queue ob r @ [payload] \<and>
       (\<forall>x. x \<noteq> ob \<longrightarrow> corridors r' x = corridors r x)
     else corridors r' = corridors r)"
proof -
  from assms(1) have inv: "hosted_inv r" by (rule hosted_reachable_inv)
  consider (stopped) "\<not> running r court"
    | (none) "running r court" "\<And>ob. \<not> holds r court cap ob SEND"
    | (auth) ob q where "running r court" "holds r court cap ob SEND" "corridors r ob = Some q"
    using holds_corridor [OF inv] by metis
  then show ?thesis
  proof cases
    case stopped
    with assms(2) show ?thesis by (auto simp: hosted_send_def not_running)
  next
    case none
    from no_authority(1) [OF none(2,1) refl, of payload] assms(2) none show ?thesis by auto
  next
    case auth
    have unique: "holds r court cap ob' SEND \<longleftrightarrow> ob' = ob" for ob'
      using auth(2) by (auto simp: holds_def)
    from send_eq [OF auth, of payload] assms(2) auth show ?thesis
      by (auto simp: unique ob_queue_def split: if_splits)
  qed
qed

theorem send_contract_witness:
  "ob_queue (ObjectId 1) rx_sent = [[112, 107, 116]] \<and>
   (\<exists>ob q. holds rx_root app_court app_cap ob SEND \<and> corridors rx_root ob = Some q \<and>
      length (queue q) < capacity q)"
  using send_contract [OF rx_setup_run rx_send_step]
  by (auto simp: ob_queue_def rx_sent_eq rx_queue_def)

section \<open>Corridors\<close>

text \<open>
  C6. A corridor between two connected courts is a bounded first-in-first-out channel: for any
  sequence of sends by one court and receives by the other, the payloads already queued
  followed by the payloads accepted are the payloads delivered, in order, followed by what is
  still queued. No payload is lost, invented, duplicated or reordered, and at most the
  corridor's capacity is ever in flight.
\<close>

theorem corridor_fifo:
  assumes "connected a ca b cb ob r"
    and "chan_exec (put_corridor a ca) (take_corridor b cb) acts r = (accepted, delivered, r')"
  shows "connected a ca b cb ob r' \<and> ob_queue ob r @ accepted = delivered @ ob_queue ob r' \<and>
    length (ob_queue ob r) + length accepted \<le> length delivered + ob_capacity ob r"
  using corridor.exec_fifo [OF assms] corridor.exec_in_flight_bound [OF assms] by blast

lemma rx_connected: "connected app_court app_cap net_court net_cap (ObjectId 1) rx_root"
  using rx_root_inv
  by (simp add: connected_def running_def holds_def rx_root_eq rx_defs cspace_contains_def authorize_def
      rx_granted_def has_peer_down_def rx_queue_def rx_courts_def require_running_court_def)

theorem corridor_fifo_witness:
  "case chan_exec (put_corridor app_court app_cap) (take_corridor net_court net_cap)
       [Put [112], Take, Take, Put [113], Put [114]] rx_root of (accepted, delivered, r') \<Rightarrow>
     accepted = delivered @ ob_queue (ObjectId 1) r'"
proof -
  obtain accepted delivered r' where run: "chan_exec (put_corridor app_court app_cap)
      (take_corridor net_court net_cap) [Put [112], Take, Take, Put [113], Put [114]] rx_root =
      (accepted, delivered, r')"
    using prod_cases3 by blast
  from corridor_fifo [OF rx_connected run] have "ob_queue (ObjectId 1) rx_root @ accepted =
      delivered @ ob_queue (ObjectId 1) r'" by blast
  with run show ?thesis by (simp add: ob_queue_def rx_root_eq rx_queue_def)
qed

section \<open>Faults\<close>

lemma faulted_later:
  assumes "hosted_run hosted_new ops r" and "fault_court f r = (Ok (), r1)" and "hosted_run r1 ops' r2"
  shows "hosted_inv r2" and "\<exists>k. courts r2 f = Some k \<and> court_state k = Faulted"
proof -
  from assms(1) have inv: "hosted_inv r" by (rule hosted_reachable_inv)
  have "hosted_step r (OpFault f (Ok ())) r1" using assms(2) by (rule step_fault) simp
  with inv have inv1: "hosted_inv r1" by (rule hosted_step_inv)
  with assms(3) show "hosted_inv r2" by (rule hosted_sys.invar_run)
  from assms(2) obtain k where "courts r1 f = Some k" "court_state k = Faulted"
    by (auto elim: fault_court_cases)
  with hosted_grows_courtD [OF hosted_sys.grows_run [OF assms(3) inv1]]
  show "\<exists>k. courts r2 f = Some k \<and> court_state k = Faulted" by blast
qed

text \<open>
  C7. A faulted court is out for good, and its peers are told. After \<^verbatim>\<open>fault_court\<close> and any
  further operations, every call of the faulted court and every grant to it is
  \<^verbatim>\<open>InvalidState\<close> without effect, and an authorized send by another running court on a corridor
  with the faulted court at one end is \<^verbatim>\<open>PeerDown\<close>, recorded in the trace, with nothing queued.
\<close>

theorem fault_is_final:
  assumes "hosted_run hosted_new ops r" and "fault_court f r = (Ok (), r1)" and "hosted_run r1 ops' r2"
  shows "hosted_send f cap payload r2 = (Err InvalidState, r2) \<and>
    hosted_recv f cap r2 = (Err InvalidState, r2) \<and>
    hosted_open f d cap' rights r2 = (Err InvalidState, r2) \<and>
    hosted_lookup f path r2 = (Err InvalidState, r2) \<and>
    grant_corridor_cap f d rights r2 = (Err InvalidState, r2) \<and>
    (\<forall>court c ob q. court \<noteq> f \<and> running r2 court \<and> holds r2 court c ob SEND \<and> corridors r2 ob = Some q \<and>
       f \<in> {fst (endpoints q), snd (endpoints q)} \<longrightarrow>
       hosted_send court c payload r2 = (Err PeerDown, push_trace (EvPeerDown court ob) r2))"
proof -
  obtain k where k: "courts r2 f = Some k" "court_state k = Faulted"
    using faulted_later(2) [OF assms] by blast
  then have "\<not> running r2 f" by (simp add: running_iff)
  note down = not_running [OF this]
  have peer: "has_peer_down q court (courts r2)"
    if "court \<noteq> f" "f \<in> {fst (endpoints q), snd (endpoints q)}" for court q
    using that k by (auto simp: has_peer_down_def)
  have "hosted_send court c payload r2 = (Err PeerDown, push_trace (EvPeerDown court ob) r2)"
    if "court \<noteq> f" "running r2 court" "holds r2 court c ob SEND" "corridors r2 ob = Some q"
      "f \<in> {fst (endpoints q), snd (endpoints q)}" for court c ob q
    using send_eq [OF that(2-4)] peer [OF that(1,5)] by simp
  moreover have "hosted_send f cap payload r2 = (Err InvalidState, r2)"
    "hosted_recv f cap r2 = (Err InvalidState, r2)" "hosted_open f d cap' rights r2 = (Err InvalidState, r2)"
    "hosted_lookup f path r2 = (Err InvalidState, r2)" "grant_corridor_cap f d rights r2 = (Err InvalidState, r2)"
    by (simp_all add: down hosted_send_def hosted_recv_def hosted_open_def hosted_lookup_def grant_corridor_cap_def)
  ultimately show ?thesis by blast
qed

definition rx_down :: HostedRoot where
  "rx_down = snd (fault_court net_court rx_root)"

lemma rx_fault_step: "fault_court net_court rx_root = (Ok (), rx_down)"
  by (simp add: rx_down_def fault_court_def rx_root_eq net_court_def rx_courts_def)

lemma rx_down_eq: "rx_down = push_trace (EvCourtFaulted (CourtId 2)) (rx_root\<lparr>courts := rx_courts(CourtId 2 \<mapsto>
    \<lparr>court_id = CourtId 2, court_name = ''net0'', court_state = Faulted\<rparr>)\<rparr>)"
  by (simp add: rx_down_def fault_court_def rx_root_eq net_court_def rx_courts_def)

theorem fault_is_final_witness:
  "hosted_send net_court net_cap [1] rx_down = (Err InvalidState, rx_down) \<and>
   hosted_send app_court app_cap [1] rx_down =
     (Err PeerDown, push_trace (EvPeerDown app_court (ObjectId 1)) rx_down)"
proof -
  have "running rx_down app_court" "holds rx_down app_court app_cap (ObjectId 1) SEND"
    "corridors rx_down (ObjectId 1) = Some rx_queue"
    by (simp_all add: running_def holds_def rx_down_eq rx_root_eq rx_defs cspace_contains_def authorize_def
      rx_granted_def rx_courts_def require_running_court_def)
  moreover have "app_court \<noteq> net_court" "net_court \<in> {fst (endpoints rx_queue), snd (endpoints rx_queue)}"
    by (simp_all add: rx_defs rx_queue_def)
  ultimately show ?thesis
    using fault_is_final [OF rx_setup_run rx_fault_step run_nil] by blast
qed

text \<open>
  C8. A fault is contained. Faulting one court changes no other court's results: what another
  court gets from a receive, an open or a lookup is what it got before, and so is the result
  of a send on every corridor that does not end at the faulted court.
\<close>

theorem fault_is_contained:
  assumes "fault_court f r = (Ok (), r1)" and "court \<noteq> f"
  shows "fst (hosted_recv court cap r1) = fst (hosted_recv court cap r) \<and>
    fst (hosted_open court d cap' rights r1) = fst (hosted_open court d cap' rights r) \<and>
    fst (hosted_lookup court path r1) = fst (hosted_lookup court path r) \<and>
    ((\<forall>ob q. holds r court cap ob SEND \<and> corridors r ob = Some q \<longrightarrow>
        f \<notin> {fst (endpoints q), snd (endpoints q)}) \<longrightarrow>
      fst (hosted_send court cap payload r1) = fst (hosted_send court cap payload r))"
proof -
  from assms(1) obtain k where r1: "r1 = push_trace (EvCourtFaulted f)
      (r\<lparr>courts := (courts r)(f \<mapsto> k\<lparr>court_state := Faulted\<rparr>)\<rparr>)"
    by (auto elim: fault_court_cases)
  have req: "require_running_court r1 court = require_running_court r court"
    using assms(2) by (simp add: r1 require_running_court_def)
  have same: "cspace_contains r1 = cspace_contains r" "cap_registry r1 = cap_registry r"
    "corridors r1 = corridors r" "namespace r1 = namespace r"
    by (simp_all add: r1 cspace_contains_def fun_eq_iff)
  have peer: "has_peer_down q court (courts r1) = has_peer_down q court (courts r)"
    if "f \<notin> {fst (endpoints q), snd (endpoints q)}" for q
    using that by (auto simp: r1 has_peer_down_def)
  show ?thesis
    using peer
    by (auto simp: hosted_recv_def hosted_open_def hosted_lookup_def hosted_send_def deny_open_def req same
        holds_def Let_def split: try_splits option.splits list.splits result.splits)
qed

theorem fault_is_contained_witness:
  "fst (hosted_recv app_court app_cap rx_down) = fst (hosted_recv app_court app_cap rx_root)"
  using fault_is_contained [OF rx_fault_step, of app_court app_cap] by (simp add: rx_defs)

section \<open>Names and grants\<close>

lemma checks_trace_irrelevant:
  "require_running_court (r\<lparr>trace := evs\<rparr>) court = require_running_court r court"
  "cspace_contains (r\<lparr>trace := evs\<rparr>) court cap = cspace_contains r court cap"
  by (simp_all add: require_running_court_def cspace_contains_def)

lemma send_trace_irrelevant:
  "fst (hosted_send court cap payload (r\<lparr>trace := evs\<rparr>)) = fst (hosted_send court cap payload r)"
  by (simp add: hosted_send_def checks_trace_irrelevant try_in_def split: result.split)

lemma recv_trace_irrelevant: "fst (hosted_recv court cap (r\<lparr>trace := evs\<rparr>)) = fst (hosted_recv court cap r)"
  by (simp add: hosted_recv_def checks_trace_irrelevant try_in_def split: result.split list.split)

text \<open>
  C32. A name is not authority. Looking a name up and opening it, whatever the answer, change
  nothing but the trace; so no sequence of lookups and opens changes the result of any later
  send or receive by any court.
\<close>

theorem names_carry_no_authority:
  assumes "hosted_run r ops r'"
    and "\<forall>l \<in> set ops. (\<exists>court path res. l = OpLookup court path res) \<or>
      (\<exists>court d cap rights res. l = OpOpen court d cap rights res)"
  shows "r'\<lparr>trace := trace r\<rparr> = r \<and>
    fst (hosted_send court cap payload r') = fst (hosted_send court cap payload r) \<and>
    fst (hosted_recv court cap r') = fst (hosted_recv court cap r)"
proof -
  have same: "r'\<lparr>trace := trace r\<rparr> = r"
    using assms
  proof (induction rule: run.induct)
    case (run_snoc s ls t l u)
    then have "t\<lparr>trace := trace s\<rparr> = s" by simp
    moreover from run_snoc have "u = t \<or> (\<exists>ev. u = push_trace ev t)"
      by (auto elim!: hosted_step.cases dest: hosted_lookup_effect hosted_open_effect)
    ultimately show ?case by (auto simp: push_trace_def)
  qed simp
  then obtain evs where r': "r' = r\<lparr>trace := evs\<rparr>"
    by (metis HostedRoot.surjective HostedRoot.update_convs(9))
  show ?thesis using same by (simp add: r' send_trace_irrelevant recv_trace_irrelevant)
qed

definition rx_looked :: HostedRoot where
  "rx_looked = snd (hosted_lookup app_court rx_path rx_s3)"

theorem names_carry_no_authority_witness:
  "fst (hosted_lookup app_court rx_path rx_s3) = Ok rx_desc \<and>
   fst (hosted_send app_court app_cap [1] rx_looked) = fst (hosted_send app_court app_cap [1] rx_s3)"
proof -
  have found: "fst (hosted_lookup app_court rx_path rx_s3) = Ok rx_desc"
    by (simp add: hosted_lookup_def rx_s3_eq app_court_def ns_lookup_def rx_ns_def)
  then have "hosted_lookup app_court rx_path rx_s3 = (Ok rx_desc, rx_looked)"
    by (simp add: rx_looked_def prod_eq_iff)
  then have "hosted_step rx_s3 (OpLookup app_court rx_path (Ok rx_desc)) rx_looked"
    by (rule step_lookup) simp
  from hosted_run_cons [OF this run_nil] have "hosted_run rx_s3 [OpLookup app_court rx_path (Ok rx_desc)] rx_looked" .
  from names_carry_no_authority [OF this] found show ?thesis by auto
qed

text \<open>
  C33. A grant is enough. In any reachable state where a named corridor's root capability has
  not been revoked, its endpoints run and its queue has room, granting a running court rights
  that include \<^verbatim>\<open>SEND\<close> (and only rights a corridor has) succeeds, the court can open the
  descriptor with the new capability, and its next send is queued.
\<close>

theorem grant_enables_send:
  assumes "hosted_run hosted_new ops r" and "running r court"
    and "ns_lookup (namespace r) path = Some d" and "corridors r (desc_object d) = Some q"
    and "\<not> has_peer_down q court (courts r)" and "length (queue q) < capacity q"
    and "root_caps r (desc_object d) = Some rc" and "authorize rc CorridorObject NONE (cap_registry r) = Ok (desc_object d)"
    and "next_cap (cap_registry r) < - 1" and "contains corridor_rights rights" and "contains rights SEND"
  shows "\<exists>cap r1 r2 r3. grant_corridor_cap court d rights r = (Ok cap, r1) \<and>
    hosted_open court d (Some cap) SEND r1 = (Ok cap, r2) \<and>
    hosted_send court cap payload r2 = (Ok (), r3) \<and>
    ob_queue (desc_object d) r3 = ob_queue (desc_object d) r @ [payload]"
proof -
  from assms(1) have inv: "hosted_inv r" by (rule hosted_reachable_inv)
  obtain rk where rk: "caps (cap_registry r) rc = Some rk" "cap_object rk = desc_object d"
    "cap_rights rk = corridor_rights" "cap_delegable rk"
    using inv assms(7) by (rule hosted_inv_rootD)
  with assms(8) have live: "\<not> cap_revoked rk" by (auto simp: authorize_Ok_iff)
  have "unat (next_cap (cap_registry r)) + 1 < 2 ^ 64"
    using assms(9) by (simp add: word_less_nat_alt unsigned_minus_1_eq_mask mask_eq_exp_minus_1)
  then obtain n where n: "add_or_panic (next_cap (cap_registry r)) 1 = (Ok n :: u64 CkResult)"
    by (simp add: add_or_panic_def)
  have ty: "desc_object_type d = CorridorObject" "cap_object_type rk = CorridorObject" by (rule ObjectType_single)+
  obtain r1 where grant: "grant_corridor_cap court d rights r = (Ok (CapId n), r1)"
    using assms(2,7,10) rk live n ty
    by (simp add: grant_corridor_cap_def running_def in_registry_def delegate_def alloc_cap_def)
  from inv grant obtain reg and k :: Capability where
    r1: "r1 = push_trace (EvCapGranted court (CapId n) (desc_object d) rights)
        (r\<lparr>cap_registry := reg, cspaces := cspace_insert court (CapId n) (cspaces r)\<rparr>)"
    and k: "caps reg = (caps (cap_registry r))(CapId n \<mapsto> k)" "cap_object k = desc_object d"
      "cap_rights k = rights" "\<not> cap_revoked k"
    by (rule grant_capability)
  have kt: "cap_object_type k = CorridorObject" by (rule ObjectType_single)
  have auth: "holds r1 court (CapId n) (desc_object d) SEND"
    using k kt assms(11) by (simp add: r1 holds_def cspace_contains_insert authorize_def)
  define r2 where "r2 = push_trace (EvOpened court (desc_path d) (CapId n) SEND) r1"
  have run1: "running r1 court" "running r2 court"
    using assms(2) by (simp_all add: r2_def r1 running_iff)
  have "hosted_open court d (Some (CapId n)) SEND r1 = (Ok (CapId n), r2)"
    using auth run1 ty by (simp add: hosted_open_def r2_def holds_def running_def)
  moreover have "holds r2 court (CapId n) (desc_object d) SEND" "corridors r2 (desc_object d) = Some q"
    "\<not> has_peer_down q court (courts r2)"
    using auth assms(4,5) by (simp_all add: r2_def holds_def r1)
  ultimately show ?thesis
    using grant send_eq [OF run1(2), of "CapId n" "desc_object d" q payload] assms(4,6)
    by (auto simp: ob_queue_def r2_def r1)
qed

theorem grant_enables_send_witness:
  "\<exists>cap r1 r2 r3. grant_corridor_cap app_court rx_desc (bitor SEND OBSERVE) rx_root = (Ok cap, r1) \<and>
    hosted_open app_court rx_desc (Some cap) SEND r1 = (Ok cap, r2) \<and>
    hosted_send app_court cap [7] r2 = (Ok (), r3) \<and> ob_queue (ObjectId 1) r3 = [[7]]"
  using grant_enables_send [OF rx_setup_run, of app_court rx_path rx_desc rx_queue "CapId 1" "bitor SEND OBSERVE" "[7]"]
  by (simp add: running_def rx_root_eq rx_defs ns_lookup_def rx_ns_def has_peer_down_def rx_queue_def rx_courts_def
      authorize_def root_capability_def ob_queue_def require_running_court_def)

end
