(* ===== verification/Byte_Buffer.thy ===== *)
theory Byte_Buffer
  imports CK_Prelude
begin

text \<open>
  Byte buffers with little-endian integer fields: what \<^verbatim>\<open>ptr.cast::<u32>().read_unaligned()\<close>, a
  field of a \<^verbatim>\<open>#[repr(C)]\<close> header behind a reference, or \<^verbatim>\<open>copy_nonoverlapping\<close> do to a mapped
  region. An access outside the buffer, undefined behaviour in the source, is \<open>None\<close>. The
  byte order is that of the x86-64 targets the sources build for.
\<close>

section \<open>Little-endian integers\<close>

primrec le_bytes :: "nat \<Rightarrow> nat \<Rightarrow> bytes" where
  "le_bytes 0 v = []"
| "le_bytes (Suc n) v = of_nat v # le_bytes n (v div 256)"

primrec le_value :: "bytes \<Rightarrow> nat" where
  "le_value [] = 0"
| "le_value (b # bs) = unat b + 256 * le_value bs"

lemma length_le_bytes [simp]: "length (le_bytes n v) = n"
  by (induction n arbitrary: v) simp_all

lemma le_value_bound: "le_value bs < 256 ^ length bs"
proof (induction bs)
  case (Cons b bs)
  have "unat b < 256" using unsigned_less [of b] by simp
  moreover from Cons have "256 * le_value bs + 256 \<le> 256 * 256 ^ length bs" by simp
  ultimately show ?case by simp
qed simp

lemma le_value_le_bytes: "le_value (le_bytes n v) = v mod 256 ^ n"
proof (induction n arbitrary: v)
  case (Suc n)
  have "unat (of_nat v :: u8) = v mod 256" by (simp add: unat_of_nat)
  with Suc show ?case by (simp add: mod_mult2_eq)
qed simp

section \<open>Reading and writing a range\<close>

definition read_at :: "nat \<Rightarrow> nat \<Rightarrow> bytes \<Rightarrow> bytes option" where
  "read_at off n m = (if off + n \<le> length m then Some (take n (drop off m)) else None)"

definition write_at :: "nat \<Rightarrow> bytes \<Rightarrow> bytes \<Rightarrow> bytes option" where
  "write_at off bs m = (if off + length bs \<le> length m
     then Some (take off m @ bs @ drop (off + length bs) m) else None)"

lemma write_at_length: "write_at off bs m = Some m' \<Longrightarrow> length m' = length m"
  by (auto simp: write_at_def split: if_splits)

lemma write_at_total: "off + length bs \<le> length m \<Longrightarrow> \<exists>m'. write_at off bs m = Some m'"
  by (simp add: write_at_def)

lemma read_at_total: "off + n \<le> length m \<Longrightarrow> \<exists>bs. read_at off n m = Some bs \<and> length bs = n"
  by (simp add: read_at_def)

lemma read_write_same: "write_at off bs m = Some m' \<Longrightarrow> read_at off (length bs) m' = Some bs"
  by (auto simp: write_at_def read_at_def split: if_splits)

lemma write_at_nth:
  assumes "write_at off bs m = Some m'" and "k < length m"
  shows "m' ! k = (if off \<le> k \<and> k < off + length bs then bs ! (k - off) else m ! k)"
proof -
  from assms have len: "off + length bs \<le> length m"
    and m': "m' = take off m @ bs @ drop (off + length bs) m"
    by (auto simp: write_at_def split: if_splits)
  consider "k < off" | j where "k = off + j" "j < length bs" | j where "k = off + length bs + j"
    by (metis add_less_cancel_left le_Suc_ex not_less)
  then show ?thesis using len by cases (simp_all add: m' nth_append)
qed

lemma read_write_disjoint:
  assumes w: "write_at off bs m = Some m'" and "a + n \<le> off \<or> off + length bs \<le> a"
  shows "read_at a n m' = read_at a n m"
proof -
  have same: "length m' = length m" using w by (rule write_at_length)
  have "take n (drop a m') = take n (drop a m)"
  proof (rule nth_equalityI)
    show "length (take n (drop a m')) = length (take n (drop a m))" by (simp add: same)
  next
    fix i
    assume "i < length (take n (drop a m'))"
    then have i: "i < n" "a + i < length m" by (simp_all add: same less_diff_conv add.commute)
    have "\<not> (off \<le> a + i \<and> a + i < off + length bs)" using assms(2) i(1) by linarith
    with write_at_nth [OF w i(2)] i same show "take n (drop a m') ! i = take n (drop a m) ! i" by simp
  qed
  with same show ?thesis by (simp add: read_at_def)
qed

section \<open>Integer fields\<close>

definition load_u32 :: "nat \<Rightarrow> bytes \<Rightarrow> u32 option" where
  "load_u32 off m = map_option (\<lambda>bs. of_nat (le_value bs)) (read_at off 4 m)"

definition load_u16 :: "nat \<Rightarrow> bytes \<Rightarrow> u16 option" where
  "load_u16 off m = map_option (\<lambda>bs. of_nat (le_value bs)) (read_at off 2 m)"

definition load_u64 :: "nat \<Rightarrow> bytes \<Rightarrow> u64 option" where
  "load_u64 off m = map_option (\<lambda>bs. of_nat (le_value bs)) (read_at off 8 m)"

definition store_u32 :: "nat \<Rightarrow> u32 \<Rightarrow> bytes \<Rightarrow> bytes option" where
  "store_u32 off v m = write_at off (le_bytes 4 (unat v)) m"

definition store_u16 :: "nat \<Rightarrow> u16 \<Rightarrow> bytes \<Rightarrow> bytes option" where
  "store_u16 off v m = write_at off (le_bytes 2 (unat v)) m"

definition store_u64 :: "nat \<Rightarrow> u64 \<Rightarrow> bytes \<Rightarrow> bytes option" where
  "store_u64 off v m = write_at off (le_bytes 8 (unat v)) m"

lemma le_round_trip:
  "of_nat (le_value (le_bytes 4 (unat v))) = (v :: u32)"
  "of_nat (le_value (le_bytes 2 (unat w))) = (w :: u16)"
  "of_nat (le_value (le_bytes 8 (unat x))) = (x :: u64)"
  using unat_bound [of v] unat_bound [of w] unat_bound [of x] by (simp_all add: le_value_le_bytes)

lemma load_store_same:
  "store_u32 off v m = Some m' \<Longrightarrow> load_u32 off m' = Some v"
  "store_u16 off w m = Some m' \<Longrightarrow> load_u16 off m' = Some w"
  "store_u64 off x m = Some m' \<Longrightarrow> load_u64 off m' = Some x"
  using read_write_same [of off "le_bytes 4 (unat v)" m m'] read_write_same [of off "le_bytes 2 (unat w)" m m']
    read_write_same [of off "le_bytes 8 (unat x)" m m']
  by (simp_all add: store_u32_def load_u32_def store_u16_def load_u16_def store_u64_def load_u64_def le_round_trip)

lemma load_total:
  "off + 4 \<le> length m \<Longrightarrow> \<exists>v. load_u32 off m = Some v"
  "off + 2 \<le> length m \<Longrightarrow> \<exists>v. load_u16 off m = Some v"
  "off + 8 \<le> length m \<Longrightarrow> \<exists>v. load_u64 off m = Some v"
  by (simp_all add: load_u32_def load_u16_def load_u64_def read_at_def)

lemma load_write_disjoint:
  assumes "write_at off bs m = Some m'"
  shows "a + 4 \<le> off \<or> off + length bs \<le> a \<Longrightarrow> load_u32 a m' = load_u32 a m"
    and "a + 2 \<le> off \<or> off + length bs \<le> a \<Longrightarrow> load_u16 a m' = load_u16 a m"
    and "a + 8 \<le> off \<or> off + length bs \<le> a \<Longrightarrow> load_u64 a m' = load_u64 a m"
  using read_write_disjoint [OF assms] by (simp_all add: load_u32_def load_u16_def load_u64_def)

section \<open>Writes inside the buffer\<close>

text \<open>What \<^const>\<open>write_at\<close> leaves when the range is inside, and a 64-bit counter read where it is.\<close>

definition poke :: "nat \<Rightarrow> bytes \<Rightarrow> bytes \<Rightarrow> bytes" where
  "poke off bs m = take off m @ bs @ drop (off + length bs) m"

lemma write_at_poke: "off + length bs \<le> length m \<Longrightarrow> write_at off bs m = Some (poke off bs m)"
  by (simp add: write_at_def poke_def)

lemma length_poke [simp]: "off + length bs \<le> length m \<Longrightarrow> length (poke off bs m) = length m"
  by (simp add: poke_def)

definition counter :: "nat \<Rightarrow> bytes \<Rightarrow> u64" where
  "counter off m = (case load_u64 off m of None \<Rightarrow> 0 | Some x \<Rightarrow> x)"

lemma read_at_Some: "off + n \<le> length m \<Longrightarrow> read_at off n m = Some (take n (drop off m))"
  by (simp add: read_at_def)

lemma drop_poke_same:
  assumes "off + length bs \<le> length m"
  shows "take (length bs) (drop off (poke off bs m)) = bs"
  using assms by (simp add: poke_def)

lemma take_drop_poke_other:
  assumes "off + length bs \<le> length m" and "a + n \<le> length m" and "a + n \<le> off \<or> off + length bs \<le> a"
  shows "take n (drop a (poke off bs m)) = take n (drop a m)"
  using read_write_disjoint [OF write_at_poke [OF assms(1)] assms(3)] assms by (simp add: read_at_Some)

lemma counter_poke_other:
  assumes "off + length bs \<le> length m" and "a + 8 \<le> off \<or> off + length bs \<le> a"
  shows "counter a (poke off bs m) = counter a m"
  using load_write_disjoint(3) [OF write_at_poke [OF assms(1)] assms(2)] by (simp add: counter_def)

lemma counter_poke_same:
  assumes "off + 8 \<le> length m"
  shows "counter off (poke off (le_bytes 8 (unat x)) m) = x"
  using load_store_same(3) [of off x m "poke off (le_bytes 8 (unat x)) m"] assms
  by (simp add: counter_def store_u64_def write_at_poke)

end
