(* ===== verification/Phys_Memory.thy ===== *)
theory Phys_Memory
  imports Byte_Buffer
begin

text \<open>
  Physical memory as the bare-metal Root Court reaches it. The sources turn a physical address
  into a pointer by adding the offset of the higher-half direct map (\<^verbatim>\<open>BumpAllocator::virt\<close>),
  which is a linear window onto physical memory, so a pointer made from the physical address
  \<open>a\<close> accesses the byte \<open>a\<close> here. Addresses are 64-bit words and wrap.
\<close>

type_synonym pmem = "u64 \<Rightarrow> u8"

definition mem_bytes :: "pmem \<Rightarrow> u64 \<Rightarrow> nat \<Rightarrow> bytes" where
  "mem_bytes m a n = map (\<lambda>i. m (a + of_nat i)) [0..<n]"

text \<open>\<^verbatim>\<open>ptr.copy_from_nonoverlapping\<close>, \<^verbatim>\<open>ptr.write_bytes(0, n)\<close>, and reads and writes of a \<^verbatim>\<open>*mut u64\<close>.\<close>

definition mem_write :: "u64 \<Rightarrow> bytes \<Rightarrow> pmem \<Rightarrow> pmem" where
  "mem_write a bs m = (\<lambda>x. if unat (x - a) < length bs then bs ! unat (x - a) else m x)"

definition mem_zero :: "u64 \<Rightarrow> nat \<Rightarrow> pmem \<Rightarrow> pmem" where
  "mem_zero a n m = (\<lambda>x. if unat (x - a) < n then 0 else m x)"

definition mem_load64 :: "pmem \<Rightarrow> u64 \<Rightarrow> u64" where
  "mem_load64 m a = of_nat (le_value (mem_bytes m a 8))"

definition mem_store64 :: "u64 \<Rightarrow> u64 \<Rightarrow> pmem \<Rightarrow> pmem" where
  "mem_store64 a v = mem_write a (le_bytes 8 (unat v))"

section \<open>Ranges of addresses\<close>

definition span :: "u64 \<Rightarrow> nat \<Rightarrow> u64 set" where
  "span a n = {x. unat (x - a) < n}"

lemma mem_write_out: "x \<notin> span a (length bs) \<Longrightarrow> mem_write a bs m x = m x"
  by (simp add: mem_write_def span_def)

lemma mem_store64_out: "x \<notin> span a 8 \<Longrightarrow> mem_store64 a v m x = m x"
  by (simp add: mem_store64_def mem_write_def span_def)

lemma mem_zero_out: "x \<notin> span a n \<Longrightarrow> mem_zero a n m x = m x"
  by (simp add: mem_zero_def span_def)

lemma unat_offset: "n < 2 ^ 64 \<Longrightarrow> unat (a + of_nat n - a :: u64) = n"
  by (simp add: unat_of_nat_small)

lemma span_offset: "i < n \<Longrightarrow> n \<le> 2 ^ 64 \<Longrightarrow> a + of_nat i \<in> span a n"
  by (simp add: span_def unat_of_nat_small)

lemma span_iff_offset: "x \<in> span a n \<longleftrightarrow> (\<exists>i. i < n \<and> i < 2 ^ 64 \<and> x = a + of_nat i)"
proof
  assume "x \<in> span a n"
  then have "unat (x - a) < n \<and> unat (x - a) < 2 ^ 64 \<and> x = a + of_nat (unat (x - a))"
    using unat_bound [of "x - a"] by (simp add: span_def)
  then show "\<exists>i. i < n \<and> i < 2 ^ 64 \<and> x = a + of_nat i" by blast
qed (auto simp: span_def unat_of_nat_small)

lemma mem_bytes_cong:
  assumes "n \<le> 2 ^ 64" and "\<And>x. x \<in> span a n \<Longrightarrow> m' x = m x"
  shows "mem_bytes m' a n = mem_bytes m a n"
  using assms by (simp add: mem_bytes_def span_offset)

lemma mem_load64_cong: "(\<And>x. x \<in> span a 8 \<Longrightarrow> m' x = m x) \<Longrightarrow> mem_load64 m' a = mem_load64 m a"
  using mem_bytes_cong [of 8 a m' m] by (simp add: mem_load64_def)

lemma mem_bytes_write:
  assumes "length bs \<le> 2 ^ 64"
  shows "mem_bytes (mem_write a bs m) a (length bs) = bs"
  by (rule nth_equalityI) (use assms in \<open>simp_all add: mem_bytes_def mem_write_def unat_of_nat_small\<close>)

lemma length_mem_bytes [simp]: "length (mem_bytes m a n) = n"
  by (simp add: mem_bytes_def)

lemma mem_load64_store: "mem_load64 (mem_store64 a v m) a = v"
  using mem_bytes_write [of "le_bytes 8 (unat v)" a m]
  by (simp add: mem_load64_def mem_store64_def le_round_trip)

lemma le_value_zeros: "\<forall>b\<in>set bs. b = 0 \<Longrightarrow> le_value bs = 0"
  by (induction bs) simp_all

lemma mem_load64_zero: "(\<And>x. x \<in> span a 8 \<Longrightarrow> m x = 0) \<Longrightarrow> mem_load64 m a = 0"
  by (simp add: mem_load64_def mem_bytes_def le_value_zeros span_offset)

section \<open>Pages\<close>

abbreviation page_at :: "u64 \<Rightarrow> u64 set" where
  "page_at a \<equiv> span a 4096"

abbreviation aligned :: "u64 \<Rightarrow> bool" where
  "aligned a \<equiv> 4096 dvd unat a"

lemma aligned_room: "aligned a \<Longrightarrow> unat a + 4096 \<le> 2 ^ 64"
proof -
  assume "aligned a"
  then obtain k where k: "unat a = 4096 * k" by (rule dvdE)
  with unat_bound [of a] have "k < 2 ^ 52" by simp
  with k show ?thesis by simp
qed

lemma aligned_offset: "aligned a \<Longrightarrow> i < 4096 \<Longrightarrow> unat (a + of_nat i) = unat a + i"
  using aligned_room [of a] by (subst unat_add_no_overflow) (simp_all add: unat_of_nat_small)

lemma page_at_iff: "aligned a \<Longrightarrow> x \<in> page_at a \<longleftrightarrow> unat x div 4096 = unat a div 4096"
proof
  assume a: "aligned a"
  show "unat x div 4096 = unat a div 4096" if "x \<in> page_at a"
  proof -
    from that obtain i where "i < 4096" "x = a + of_nat i" by (auto simp: span_iff_offset)
    with a aligned_offset [OF a] show ?thesis by (auto elim!: dvdE)
  qed
  assume eq: "unat x div 4096 = unat a div 4096"
  from a obtain k where k: "unat a = 4096 * k" by (rule dvdE)
  with eq have "unat a \<le> unat x" "unat x < unat a + 4096" by simp_all
  then have "unat (x - a) = unat x - unat a" by (simp add: unat_sub word_le_nat_alt)
  with \<open>unat x < unat a + 4096\<close> \<open>unat a \<le> unat x\<close> show "x \<in> page_at a" by (simp add: span_def)
qed

lemma pages_disjoint: "aligned a \<Longrightarrow> aligned b \<Longrightarrow> a \<noteq> b \<Longrightarrow> page_at a \<inter> page_at b = {}"
  by (auto simp: page_at_iff word_unat_eq_iff elim!: dvdE)

end
