(* ===== verification/Bump_Allocator.thy ===== *)
theory Bump_Allocator
  imports CK_Interfaces
begin

text \<open>
  The physical page allocator of the bare-metal Root Court, \<^verbatim>\<open>crates/root-court/src/mm.rs\<close>, and
  the memory-map records it starts from (\<^verbatim>\<open>limine_abi.rs\<close>). Arithmetic is on \<^verbatim>\<open>u64\<close> words with
  the checked and saturating operations the source uses.
\<close>

section \<open>The memory map\<close>

definition MEMMAP_USABLE :: u64 where "MEMMAP_USABLE = 0"
definition MEMMAP_BOOTLOADER_RECLAIMABLE :: u64 where "MEMMAP_BOOTLOADER_RECLAIMABLE = 5"
definition MEMMAP_EXECUTABLE_AND_MODULES :: u64 where "MEMMAP_EXECUTABLE_AND_MODULES = 6"
definition MEMMAP_FRAMEBUFFER :: u64 where "MEMMAP_FRAMEBUFFER = 7"

record MemmapEntry =
  me_base :: u64
  me_length :: u64
  me_kind :: u64

definition hhdm_mapped_rev3 :: "u64 \<Rightarrow> bool" where
  "hhdm_mapped_rev3 kind \<longleftrightarrow> kind \<in> {MEMMAP_USABLE, MEMMAP_BOOTLOADER_RECLAIMABLE,
     MEMMAP_EXECUTABLE_AND_MODULES, MEMMAP_FRAMEBUFFER}"

section \<open>The allocator\<close>

definition PAGE :: u64 where "PAGE = 0x1000"
definition MIN_REGION :: u64 where "MIN_REGION = 64 * 1024"

record BumpAllocator =
  ba_hhdm :: u64
  ba_start :: u64
  ba_cursor :: u64
  ba_end :: u64

definition page_up :: "u64 \<Rightarrow> u64" where
  "page_up x = saturating_add x (PAGE - 1) AND NOT (PAGE - 1)"

text \<open>The loop over the entries keeps the first of the longest usable ones.\<close>

fun best_usable :: "MemmapEntry option \<Rightarrow> MemmapEntry list \<Rightarrow> MemmapEntry option" where
  "best_usable best [] = best"
| "best_usable best (e # es) =
     (if me_kind e \<noteq> MEMMAP_USABLE then best_usable best es
      else if (case best of None \<Rightarrow> True | Some current \<Rightarrow> me_length current < me_length e)
        then best_usable (Some e) es
      else best_usable best es)"

definition from_memmap :: "u64 \<Rightarrow> MemmapEntry list \<Rightarrow> BumpAllocator option" where
  "from_memmap hhdm es = Option.bind (best_usable None es) (\<lambda>e.
     let s0 = page_up (me_base e);
         s = (if s0 < PAGE then PAGE else s0);
         end = saturating_add (me_base e) (me_length e)
     in if saturating_sub end s < MIN_REGION then None
        else Some \<lparr>ba_hhdm = hhdm, ba_start = s, ba_cursor = s, ba_end = end\<rparr>)"

definition start_phys :: "BumpAllocator \<Rightarrow> u64" where "start_phys b = ba_start b"
definition end_phys :: "BumpAllocator \<Rightarrow> u64" where "end_phys b = ba_end b"

definition remaining :: "BumpAllocator \<Rightarrow> u64" where
  "remaining b = saturating_sub (ba_end b) (ba_cursor b)"

definition bump_virt :: "BumpAllocator \<Rightarrow> u64 \<Rightarrow> u64" where
  "bump_virt b phys = ba_hhdm b + phys"

definition alloc_pages :: "u64 \<Rightarrow> BumpAllocator \<Rightarrow> ((u64 \<times> u64) \<times> BumpAllocator) option" where
  "alloc_pages pages b = Option.bind (checked_mul pages PAGE) (\<lambda>size.
     let cursor = page_up (ba_cursor b)
     in Option.bind (checked_add cursor size) (\<lambda>next.
       if ba_end b < next then None
       else Some ((cursor, bump_virt b cursor), b\<lparr>ba_cursor := next\<rparr>)))"

section \<open>Alignment\<close>

lemma unat_PAGE: "unat PAGE = 4096"
  by (simp add: PAGE_def)

lemma page_mask: "PAGE - 1 = mask 12"
  by (simp add: PAGE_def mask_eq_exp_minus_1)

lemma unat_page_up: "unat (page_up x) = min (unat x + 4095) (2 ^ 64 - 1) div 4096 * 4096"
  unfolding page_up_def page_mask unat_and_not_mask unat_saturating_add
  by (simp add: mask_eq_exp_minus_1)

lemma page_up_aligned: "4096 dvd unat (page_up x)"
  by (simp add: unat_page_up)

lemma page_up_id:
  assumes "4096 dvd unat x"
  shows "page_up x = x"
proof -
  from assms obtain k where k: "unat x = 4096 * k" by (rule dvdE)
  with unat_bound [of x] have "k < 2 ^ 52" by simp
  then have "min (unat x + 4095) (2 ^ 64 - 1) div 4096 * 4096 = unat x" by (simp add: k)
  then show ?thesis by (simp add: word_unat_eq_iff unat_page_up)
qed

lemma page_up_ge: "unat x \<le> 2 ^ 64 - 4096 \<Longrightarrow> unat x \<le> unat (page_up x)"
  by (simp add: unat_page_up)

section \<open>The allocator as a source of pages\<close>

definition bump_ok :: "BumpAllocator \<Rightarrow> bool" where
  "bump_ok b \<longleftrightarrow> 4096 dvd unat (ba_start b) \<and> 4096 dvd unat (ba_cursor b) \<and>
     ba_start b \<le> ba_cursor b \<and> ba_cursor b \<le> ba_end b"

definition bump_pool :: "BumpAllocator \<Rightarrow> nat set" where
  "bump_pool b = {unat (ba_start b) ..< unat (ba_end b)}"

definition bump_owned :: "BumpAllocator \<Rightarrow> nat set" where
  "bump_owned b = {unat (ba_start b) ..< unat (ba_cursor b)}"

definition alloc_phys :: "u64 \<Rightarrow> BumpAllocator \<Rightarrow> (u64 \<times> BumpAllocator) option" where
  "alloc_phys n b = map_option (\<lambda>((p, v), b'). (p, b')) (alloc_pages n b)"

lemma alloc_pages_eq:
  assumes "bump_ok b"
  shows "alloc_pages n b = (if unat n * 4096 \<le> unat (ba_end b) - unat (ba_cursor b)
    then Some ((ba_cursor b, bump_virt b (ba_cursor b)), b\<lparr>ba_cursor := ba_cursor b + n * PAGE\<rparr>) else None)"
proof -
  let ?size = "unat n * 4096"
  from assms have up: "page_up (ba_cursor b) = ba_cursor b" and le: "unat (ba_cursor b) \<le> unat (ba_end b)"
    by (auto simp: bump_ok_def page_up_id word_le_nat_alt)
  note bound = unat_bound [of "ba_end b"]
  show ?thesis
  proof (cases "?size \<le> unat (ba_end b) - unat (ba_cursor b)")
    case True
    with bound le have fits: "?size < 2 ^ 64" "unat (ba_cursor b) + ?size < 2 ^ 64" by simp_all
    then have mul: "checked_mul n PAGE = Some (n * PAGE)" and size: "unat (n * PAGE) = ?size"
      by (simp_all add: checked_mul_def unat_PAGE unat_mult_no_overflow)
    with fits have add: "checked_add (ba_cursor b) (n * PAGE) = Some (ba_cursor b + n * PAGE)"
      and nxt: "unat (ba_cursor b + n * PAGE) = unat (ba_cursor b) + ?size"
      by (simp_all add: checked_add_def unat_add_no_overflow)
    from True le have "\<not> ba_end b < ba_cursor b + n * PAGE" by (simp add: word_less_nat_alt nxt)
    with True show ?thesis by (simp add: alloc_pages_def mul up add Let_def)
  next
    case False
    have "ba_end b < nxt" if "checked_mul n PAGE = Some size" "checked_add (ba_cursor b) size = Some nxt" for size nxt
      using that False le by (simp add: checked_mul_Some checked_add_Some unat_PAGE word_less_nat_alt)
    with False show ?thesis
      by (cases "checked_mul n PAGE"; cases "checked_add (ba_cursor b) (the (checked_mul n PAGE))")
        (auto simp: alloc_pages_def up Let_def)
  qed
qed

lemma alloc_pages_Some:
  assumes ok: "bump_ok b" and alloc: "alloc_pages n b = Some ((p, v), b')"
  shows "p = ba_cursor b" and "v = bump_virt b p" and "bump_ok b'" and "ba_start b' = ba_start b"
    and "ba_end b' = ba_end b" and "ba_hhdm b' = ba_hhdm b" and "unat (ba_cursor b') = unat p + unat n * 4096"
    and "unat p + unat n * 4096 \<le> unat (ba_end b)"
proof -
  from ok have le: "unat (ba_start b) \<le> unat (ba_cursor b)" "unat (ba_cursor b) \<le> unat (ba_end b)"
    and al: "4096 dvd unat (ba_start b)" "4096 dvd unat (ba_cursor b)"
    by (auto simp: bump_ok_def word_le_nat_alt)
  from alloc have fits: "unat n * 4096 \<le> unat (ba_end b) - unat (ba_cursor b)"
    and p: "p = ba_cursor b" and v: "v = bump_virt b p" and b': "b' = b\<lparr>ba_cursor := ba_cursor b + n * PAGE\<rparr>"
    by (auto simp: alloc_pages_eq [OF ok] split: if_splits)
  have size: "unat (n * PAGE) = unat n * 4096"
    using fits unat_bound [of "ba_end b"] unat_mult_no_overflow [of n PAGE] by (simp add: unat_PAGE)
  have cur: "unat (ba_cursor b + n * PAGE) = unat (ba_cursor b) + unat n * 4096"
    using fits le unat_bound [of "ba_end b"] unat_add_no_overflow [of "ba_cursor b" "n * PAGE"] by (simp add: size)
  show "p = ba_cursor b" "v = bump_virt b p" by (fact p v)+
  show "unat (ba_cursor b') = unat p + unat n * 4096" by (simp add: b' p cur)
  show "unat p + unat n * 4096 \<le> unat (ba_end b)" using fits le by (simp add: p)
  show "ba_start b' = ba_start b" "ba_end b' = ba_end b" "ba_hhdm b' = ba_hhdm b" by (simp_all add: b')
  show "bump_ok b'"
    using le al fits by (auto simp: bump_ok_def b' cur word_le_nat_alt)
qed

interpretation bump: page_source bump_ok bump_pool bump_owned alloc_phys
proof unfold_locales
  fix n b p b'
  assume ok: "bump_ok b" and "alloc_phys n b = Some (p, b')"
  then obtain v where alloc: "alloc_pages n b = Some ((p, v), b')" by (auto simp: alloc_phys_def)
  note facts = alloc_pages_Some [OF ok alloc]
  from ok have le: "unat (ba_start b) \<le> unat (ba_cursor b)" and al: "4096 dvd unat (ba_cursor b)"
    by (auto simp: bump_ok_def word_le_nat_alt)
  show "bump_ok b'" by (rule facts(3))
  show "4096 dvd unat p" using al facts(1) by simp
  show "block p n \<subseteq> bump_pool b" using facts le by (auto simp: block_def bump_pool_def)
  show "block p n \<inter> bump_owned b = {}" using facts by (auto simp: block_def bump_owned_def)
  show "bump_owned b' = bump_owned b \<union> block p n" using facts le by (auto simp: block_def bump_owned_def)
  show "bump_pool b' = bump_pool b" using facts by (simp add: bump_pool_def)
qed

section \<open>Choosing the region\<close>

lemma best_usable_Some:
  assumes "best_usable best es = Some e"
  shows "(e \<in> set es \<and> me_kind e = MEMMAP_USABLE \<or> best = Some e) \<and>
    (\<forall>x\<in>set es. me_kind x = MEMMAP_USABLE \<longrightarrow> me_length x \<le> me_length e) \<and>
    (\<forall>x. best = Some x \<longrightarrow> me_length x \<le> me_length e)"
  using assms
proof (induction best es rule: best_usable.induct)
  case (2 best x xs)
  show ?case
  proof (cases "me_kind x \<noteq> MEMMAP_USABLE")
    case True
    with 2 show ?thesis by auto
  next
    case usable: False
    show ?thesis
    proof (cases "case best of None \<Rightarrow> True | Some current \<Rightarrow> me_length current < me_length x")
      case True
      with 2 usable have "best_usable (Some x) xs = Some e" by simp
      from "2.IH"(2) [OF usable True this] usable True show ?thesis
        by (auto split: option.splits intro: order.trans less_imp_le)
    next
      case False
      with 2 usable have "best_usable best xs = Some e" by simp
      from "2.IH"(3) [OF usable False this] usable False show ?thesis
        by (auto split: option.splits simp: not_less intro: order.trans)
    qed
  qed
qed simp

lemma from_memmap_Some:
  assumes "from_memmap hhdm es = Some b"
  obtains e where "e \<in> set es" "me_kind e = MEMMAP_USABLE" "bump_ok b" "bump_owned b = {}"
    "bump_pool b \<subseteq> {unat (me_base e) ..< unat (me_base e) + unat (me_length e)}"
    "4096 \<le> unat (ba_start b)" "2 ^ 16 \<le> card (bump_pool b)"
    "\<And>x. x \<in> set es \<Longrightarrow> me_kind x = MEMMAP_USABLE \<Longrightarrow> me_length x \<le> me_length e"
proof -
  from assms obtain e where best: "best_usable None es = Some e"
    and b: "b = \<lparr>ba_hhdm = hhdm, ba_start = (if page_up (me_base e) < PAGE then PAGE else page_up (me_base e)),
      ba_cursor = (if page_up (me_base e) < PAGE then PAGE else page_up (me_base e)),
      ba_end = saturating_add (me_base e) (me_length e)\<rparr>"
    and big: "\<not> saturating_sub (ba_end b) (ba_start b) < MIN_REGION"
    by (auto simp: from_memmap_def Let_def bind_eq_Some_conv split: if_splits)
  have size: "unat (ba_start b) + 2 ^ 16 \<le> unat (ba_end b)"
    using big by (simp add: word_less_nat_alt unat_saturating_sub MIN_REGION_def)
  have start: "unat (ba_start b) = max 4096 (unat (page_up (me_base e)))"
    by (auto simp: b word_less_nat_alt unat_PAGE)
  have base: "unat (me_base e) \<le> unat (page_up (me_base e))"
  proof (cases "unat (me_base e) \<le> 2 ^ 64 - 4096")
    case True
    then show ?thesis by (rule page_up_ge)
  next
    case False
    then have "2 ^ 64 - 4096 \<le> unat (page_up (me_base e))" by (simp add: unat_page_up)
    with size start unat_bound [of "ba_end b"] show ?thesis by simp
  qed
  have "4096 dvd unat (ba_start b)" by (simp add: start page_up_aligned max_def)
  moreover have "ba_cursor b = ba_start b" by (simp add: b)
  ultimately have "bump_ok b" "bump_owned b = {}"
    using size by (simp_all add: bump_ok_def bump_owned_def word_le_nat_alt)
  moreover have "bump_pool b \<subseteq> {unat (me_base e) ..< unat (me_base e) + unat (me_length e)}"
    using start base by (auto simp: bump_pool_def) (simp add: b unat_saturating_add)
  moreover have "2 ^ 16 \<le> card (bump_pool b)" using size by (simp add: bump_pool_def)
  ultimately show thesis
    using best_usable_Some [OF best] start by (intro that [of e]) auto
qed

text \<open>
  C36. The page allocator is sound. Whatever sequence of requests is made of an allocator built
  from a memory map, the blocks it hands out are page-aligned, pairwise disjoint, never at
  physical address zero, and inside one usable entry of the map.
\<close>

theorem bump_blocks_sound:
  assumes "from_memmap hhdm es = Some b" and "alloc_run alloc_phys ns b = (bs, b')"
  shows "disjoint_blocks bs \<and> (\<exists>e\<in>set es. me_kind e = MEMMAP_USABLE \<and>
    (\<forall>(p, n)\<in>set bs. 4096 dvd unat p \<and> (n \<noteq> 0 \<longrightarrow> 4096 \<le> unat p) \<and>
      block p n \<subseteq> {unat (me_base e) ..< unat (me_base e) + unat (me_length e)}))"
proof -
  from assms(1) obtain e where e: "e \<in> set es" "me_kind e = MEMMAP_USABLE" "bump_ok b"
    "bump_pool b \<subseteq> {unat (me_base e) ..< unat (me_base e) + unat (me_length e)}" "4096 \<le> unat (ba_start b)"
    by (rule from_memmap_Some)
  have run: "disjoint_blocks bs" "\<And>p n. (p, n) \<in> set bs \<Longrightarrow> 4096 dvd unat p \<and> block p n \<subseteq> bump_pool b"
    using bump.run_blocks [OF e(3) assms(2)] by blast+
  have "4096 \<le> unat p" if "(p, n) \<in> set bs" "n \<noteq> 0" for p n
  proof -
    have "unat p \<in> block p n" using that(2) by (simp add: block_def unat_gt_0)
    with run(2) [OF that(1)] e(5) show ?thesis by (auto simp: bump_pool_def)
  qed
  with run e show ?thesis by blast
qed

definition demo_map :: "MemmapEntry list" where
  "demo_map = [\<lparr>me_base = 0, me_length = 0x9000, me_kind = 1\<rparr>,
     \<lparr>me_base = 0x100000, me_length = 0x80000, me_kind = MEMMAP_USABLE\<rparr>]"

definition demo_bump :: BumpAllocator where
  "demo_bump = \<lparr>ba_hhdm = 0xffff800000000000, ba_start = 0x100000, ba_cursor = 0x100000, ba_end = 0x180000\<rparr>"

lemma demo_bump_eq: "from_memmap 0xffff800000000000 demo_map = Some demo_bump"
proof -
  have "page_up 0x100000 = 0x100000" by (rule page_up_id) simp
  then show ?thesis
    by (simp add: from_memmap_def demo_map_def demo_bump_def MEMMAP_USABLE_def saturating_add_def saturating_sub_def
        PAGE_def MIN_REGION_def)
qed

theorem bump_blocks_sound_witness:
  "alloc_run alloc_phys [2, 1] demo_bump = ([(0x100000, 2), (0x102000, 1)], demo_bump\<lparr>ba_cursor := 0x103000\<rparr>) \<and>
   disjoint_blocks [(0x100000, 2), (0x102000, 1)]"
proof -
  from demo_bump_eq have ok: "bump_ok demo_bump" by (rule from_memmap_Some)
  then have ok': "bump_ok (demo_bump\<lparr>ba_cursor := 0x102000\<rparr>)"
    by (simp add: bump_ok_def demo_bump_def)
  have run: "alloc_run alloc_phys [2, 1] demo_bump =
      ([(0x100000, 2), (0x102000, 1)], demo_bump\<lparr>ba_cursor := 0x103000\<rparr>)"
    using alloc_pages_eq [OF ok, of 2] alloc_pages_eq [OF ok', of 1]
    by (simp add: alloc_phys_def demo_bump_def PAGE_def)
  with bump_blocks_sound [OF demo_bump_eq run] show ?thesis by blast
qed

end
