(* ===== verification/Paging.thy ===== *)
theory Paging
  imports Phys_Memory Bump_Allocator
begin

text \<open>
  The page-table code of the bare-metal Root Court, \<^verbatim>\<open>crates/root-court/src/paging.rs\<close>: the
  mapper, the kernel address space and the cloned address spaces of the Courtlets. Tables are
  words in physical memory. The two statics, the control registers and the memory are one
  machine state; \<^verbatim>\<open>&'static str\<close> errors are strings. Root Court is a release build: \<^verbatim>\<open>+\<close> wraps.
\<close>

section \<open>Constants and indices\<close>

definition HUGE_2M :: u64 where "HUGE_2M = 0x200000"
definition PRESENT :: u64 where "PRESENT = push_bit 0 1"
definition PTE_WRITE :: u64 where "PTE_WRITE = push_bit 1 1"
definition HUGE :: u64 where "HUGE = push_bit 7 1"
definition PHYS_MASK :: u64 where "PHYS_MASK = 0x000ffffffffff000"
definition TABLE_FLAGS :: u64 where "TABLE_FLAGS = PRESENT OR PTE_WRITE"
definition PAGE_FLAGS :: u64 where "PAGE_FLAGS = PRESENT OR PTE_WRITE"
definition CR4_LA57 :: u64 where "CR4_LA57 = push_bit 12 1"

definition pml4_index :: "u64 \<Rightarrow> nat" where "pml4_index va = unat (drop_bit 39 va AND 0x1ff)"
definition pdpt_index :: "u64 \<Rightarrow> nat" where "pdpt_index va = unat (drop_bit 30 va AND 0x1ff)"
definition pd_index :: "u64 \<Rightarrow> nat" where "pd_index va = unat (drop_bit 21 va AND 0x1ff)"
definition pt_index :: "u64 \<Rightarrow> nat" where "pt_index va = unat (drop_bit 12 va AND 0x1ff)"

definition align_up :: "u64 \<Rightarrow> u64 \<Rightarrow> u64" where
  "align_up val align = saturating_add val (align - 1) AND NOT (align - 1)"

definition align_down :: "u64 \<Rightarrow> u64 \<Rightarrow> u64" where
  "align_down val align = val AND NOT (align - 1)"

section \<open>The mapper\<close>

record Mapper =
  mp_bump :: BumpAllocator
  mp_pml4 :: u64
  mp_table_pages :: u64
  mp_mem :: pmem

type_synonym 'a mapping_result = "('a, string) result \<times> Mapper"

definition alloc_table :: "Mapper \<Rightarrow> u64 mapping_result" where
  "alloc_table mp = (case alloc_pages 1 (mp_bump mp) of
      None \<Rightarrow> (Err ''out of page-table pages'', mp)
    | Some ((phys, virt), b) \<Rightarrow> (Ok phys, mp\<lparr>mp_bump := b, mp_mem := mem_zero phys (unat PAGE) (mp_mem mp),
        mp_table_pages := mp_table_pages mp + 1\<rparr>))"

definition entry_ptr :: "u64 \<Rightarrow> nat \<Rightarrow> u64" where
  "entry_ptr table_phys index = table_phys + of_nat (8 * index)"

definition ensure_table :: "u64 \<Rightarrow> nat \<Rightarrow> Mapper \<Rightarrow> u64 mapping_result" where
  "ensure_table table_phys index mp =
     (let slot = entry_ptr table_phys index; current = mem_load64 (mp_mem mp) slot
      in if current AND PRESENT \<noteq> 0 then
           (if current AND HUGE \<noteq> 0 then (Err ''huge/4k page collision'', mp)
            else (Ok (current AND PHYS_MASK), mp))
         else try_st (alloc_table mp) (\<lambda>new mp.
           (Ok new, mp\<lparr>mp_mem := mem_store64 slot (new OR TABLE_FLAGS) (mp_mem mp)\<rparr>)))"

definition map_4k :: "u64 \<Rightarrow> u64 \<Rightarrow> Mapper \<Rightarrow> unit mapping_result" where
  "map_4k virt phys mp =
     try_st (ensure_table (mp_pml4 mp) (pml4_index virt) mp) (\<lambda>pdpt mp.
     try_st (ensure_table pdpt (pdpt_index virt) mp) (\<lambda>pd mp.
     try_st (ensure_table pd (pd_index virt) mp) (\<lambda>pt mp.
       let slot = entry_ptr pt (pt_index virt);
           current = mem_load64 (mp_mem mp) slot;
           want = (phys AND PHYS_MASK) OR PAGE_FLAGS
       in if current AND PRESENT \<noteq> 0 then
            (if current AND PHYS_MASK \<noteq> phys AND PHYS_MASK then (Err ''4k map conflict'', mp) else (Ok (), mp))
          else (Ok (), mp\<lparr>mp_mem := mem_store64 slot want (mp_mem mp)\<rparr>))))"

definition map_2m :: "u64 \<Rightarrow> u64 \<Rightarrow> Mapper \<Rightarrow> unit mapping_result" where
  "map_2m virt phys mp =
     try_st (ensure_table (mp_pml4 mp) (pml4_index virt) mp) (\<lambda>pdpt mp.
     try_st (ensure_table pdpt (pdpt_index virt) mp) (\<lambda>pd mp.
       let slot = entry_ptr pd (pd_index virt);
           current = mem_load64 (mp_mem mp) slot;
           want = (phys AND PHYS_MASK) OR PAGE_FLAGS OR HUGE
       in if current AND PRESENT \<noteq> 0 then
            (if current AND HUGE = 0 then (Err ''huge/4k page collision'', mp)
             else if current AND PHYS_MASK \<noteq> phys AND PHYS_MASK then (Err ''2m map conflict'', mp)
             else (Ok (), mp))
          else (Ok (), mp\<lparr>mp_mem := mem_store64 slot want (mp_mem mp)\<rparr>)))"

text \<open>The loop of \<^verbatim>\<open>map_range\<close>; every pass takes a page or 2 MiB off \<^verbatim>\<open>len\<close>.\<close>

function map_loop :: "u64 \<Rightarrow> u64 \<Rightarrow> u64 \<Rightarrow> Mapper \<Rightarrow> unit mapping_result" where
  "map_loop virt phys len mp =
     (if len < PAGE then (Ok (), mp)
      else if HUGE_2M \<le> len \<and> (virt OR phys) AND (HUGE_2M - 1) = 0 then
        try_st (map_2m virt phys mp) (\<lambda>_ mp. map_loop (virt + HUGE_2M) (phys + HUGE_2M) (len - HUGE_2M) mp)
      else
        try_st (map_4k virt phys mp) (\<lambda>_ mp. map_loop (virt + PAGE) (phys + PAGE) (len - PAGE) mp))"
  by pat_completeness auto

lemma unat_shrink: "k \<le> len \<Longrightarrow> 0 < k \<Longrightarrow> unat (len - k) < unat len"
  for k len :: u64
  by (simp add: unat_sub word_le_nat_alt word_less_nat_alt)

termination map_loop
  by (relation "measure (\<lambda>(virt, phys, len, mp). unat len)") (simp_all add: unat_shrink not_less HUGE_2M_def PAGE_def)

declare map_loop.simps [simp del]

definition map_range :: "u64 \<Rightarrow> u64 \<Rightarrow> u64 \<Rightarrow> Mapper \<Rightarrow> unit mapping_result" where
  "map_range virt phys len mp =
     (if virt AND (PAGE - 1) \<noteq> 0 \<or> phys AND (PAGE - 1) \<noteq> 0 then (Err ''map_range not 4k aligned'', mp)
      else map_loop virt phys (len AND NOT (PAGE - 1)) mp)"

definition wrap_la57 :: "u64 \<Rightarrow> Mapper \<Rightarrow> u64 mapping_result" where
  "wrap_la57 pml4_phys mp =
     try_st (alloc_table mp) (\<lambda>pml5_phys mp.
       (Ok pml5_phys, mp\<lparr>mp_mem := mem_store64 (entry_ptr pml5_phys 511) (pml4_phys OR TABLE_FLAGS) (mp_mem mp)\<rparr>))"

section \<open>The kernel address space\<close>

text \<open>
  The machine: the allocator, physical memory, the statics \<^verbatim>\<open>KERNEL_PML4_PHYS\<close> and \<^verbatim>\<open>ROOT_CR3\<close>, and
  the registers \<^verbatim>\<open>CR3\<close> and \<^verbatim>\<open>CR4\<close>.
\<close>

record Machine =
  mc_bump :: BumpAllocator
  mc_mem :: pmem
  mc_kernel_pml4 :: u64
  mc_root_cr3 :: u64
  mc_cr3 :: u64
  mc_cr4 :: u64

record PageMap =
  pm_pml4_phys :: u64
  pm_kernel_virt :: u64
  pm_kernel_phys :: u64
  pm_kernel_len :: u64
  pm_hhdm_bytes :: u64
  pm_hhdm_spans :: u64
  pm_table_pages :: u64

text \<open>A \<^verbatim>\<open>Mapper\<close> borrows the allocator; what it did is put back when the borrow ends.\<close>

definition mapper :: "u64 \<Rightarrow> u64 \<Rightarrow> Machine \<Rightarrow> Mapper" where
  "mapper pml4 table_pages mc = \<lparr>mp_bump = mc_bump mc, mp_pml4 = pml4, mp_table_pages = table_pages,
     mp_mem = mc_mem mc\<rparr>"

definition put_back :: "Machine \<Rightarrow> ('a, string) result \<times> Mapper \<Rightarrow> ('a, string) result \<times> Machine" where
  "put_back mc rs = (fst rs, mc\<lparr>mc_bump := mp_bump (snd rs), mc_mem := mp_mem (snd rs)\<rparr>)"

text \<open>The loop over the memory map: the modules at their kernel address, the rest in the direct map.\<close>

fun map_entries ::
  "u64 \<Rightarrow> u64 \<Rightarrow> u64 \<Rightarrow> MemmapEntry list \<Rightarrow> u64 \<times> u64 \<Rightarrow> Mapper \<Rightarrow> (u64 \<times> u64) mapping_result" where
  "map_entries hhdm kphys kvirt [] acc mp = (Ok acc, mp)"
| "map_entries hhdm kphys kvirt (e # es) (hhdm_bytes, hhdm_spans) mp =
     (if me_length e = 0 then map_entries hhdm kphys kvirt es (hhdm_bytes, hhdm_spans) mp
      else let s = align_up (me_base e) PAGE;
               f = align_down (saturating_add (me_base e) (me_length e)) PAGE
      in if f \<le> s then map_entries hhdm kphys kvirt es (hhdm_bytes, hhdm_spans) mp
         else let len = f - s in
           try_st (if me_kind e = MEMMAP_EXECUTABLE_AND_MODULES \<and> kphys \<le> s
                   then map_range (kvirt + (s - kphys)) s len mp else (Ok (), mp)) (\<lambda>_ mp.
           if \<not> hhdm_mapped_rev3 (me_kind e) then map_entries hhdm kphys kvirt es (hhdm_bytes, hhdm_spans) mp
           else try_st (map_range (hhdm + s) s len mp) (\<lambda>_ mp.
             map_entries hhdm kphys kvirt es (saturating_add hhdm_bytes len, hhdm_spans + 1) mp)))"

text \<open>\<^verbatim>\<open>build\<close>; \<open>kstart\<close> and \<open>kend\<close> are the linker symbols of \<^verbatim>\<open>kernel_virt_bounds\<close>.\<close>

definition build ::
  "u64 \<times> u64 \<Rightarrow> u64 \<Rightarrow> u64 \<Rightarrow> u64 \<Rightarrow> MemmapEntry list \<Rightarrow> Machine \<Rightarrow> (PageMap, string) result \<times> Machine" where
  "build bounds hhdm kphys_base kvirt_base entries mc =
     (let (kstart, kend) = bounds in
      if kend \<le> kstart then (Err ''kernel image has zero size'', mc)
      else if kstart < kvirt_base then (Err ''kernel start is below executable virtual_base'', mc)
      else let kernel_phys = kphys_base + (kstart - kvirt_base); kernel_len = align_up (kend - kstart) PAGE in
      try_st (put_back mc (alloc_table (mapper 0 0 mc))) (\<lambda>pml4_phys mc.
      let mc = mc\<lparr>mc_kernel_pml4 := pml4_phys\<rparr> in
      put_back mc (
        try_st (map_range kstart kernel_phys kernel_len (mapper pml4_phys 1 mc)) (\<lambda>_ mp.
        try_st (map_entries hhdm kphys_base kvirt_base entries (0, 0) mp) (\<lambda>(hhdm_bytes, hhdm_spans) mp.
        try_st (if mc_cr4 mc AND CR4_LA57 \<noteq> 0 then wrap_la57 pml4_phys mp else (Ok pml4_phys, mp)) (\<lambda>cr3_phys mp.
          (Ok \<lparr>pm_pml4_phys = cr3_phys, pm_kernel_virt = kstart, pm_kernel_phys = kernel_phys,
             pm_kernel_len = kernel_len, pm_hhdm_bytes = hhdm_bytes, pm_hhdm_spans = hhdm_spans,
             pm_table_pages = mp_table_pages mp\<rparr>, mp)))))))"

definition publish :: "u64 \<Rightarrow> Machine \<Rightarrow> Machine" where
  "publish pml4_phys mc = mc\<lparr>mc_root_cr3 := pml4_phys\<rparr>"

definition activate :: "u64 \<Rightarrow> Machine \<Rightarrow> Machine" where
  "activate pml4_phys mc = (publish pml4_phys mc)\<lparr>mc_cr3 := pml4_phys\<rparr>"

definition load_published :: "Machine \<Rightarrow> (unit, string) result \<times> Machine" where
  "load_published mc = (if mc_root_cr3 mc = 0 then (Err ''root CR3 not published'', mc)
     else (Ok (), mc\<lparr>mc_cr3 := mc_root_cr3 mc\<rparr>))"

section \<open>Address spaces of the Courtlets\<close>

record AddressSpace =
  as_cr3 :: u64
  as_pml4_phys :: u64

text \<open>The copy loop over the 512 slots of the top-level table.\<close>

definition copy_slot :: "u64 \<Rightarrow> u64 \<Rightarrow> nat \<Rightarrow> pmem \<Rightarrow> pmem" where
  "copy_slot src dst index m = mem_store64 (entry_ptr dst index) (mem_load64 m (entry_ptr src index)) m"

definition clone_kernel :: "Machine \<Rightarrow> (AddressSpace, string) result \<times> Machine" where
  "clone_kernel mc =
     (if mc_kernel_pml4 mc = 0 then (Err ''kernel PML4 not published'', mc)
      else put_back mc (
        try_st (alloc_table (mapper 0 0 mc)) (\<lambda>new_pml4 mp.
        let mp = mp\<lparr>mp_pml4 := new_pml4, mp_mem := fold (copy_slot (mc_kernel_pml4 mc) new_pml4) [0..<512] (mp_mem mp)\<rparr> in
        try_st (if mc_cr4 mc AND CR4_LA57 \<noteq> 0 then wrap_la57 new_pml4 mp else (Ok new_pml4, mp)) (\<lambda>cr3 mp.
          (Ok \<lparr>as_cr3 = cr3, as_pml4_phys = new_pml4\<rparr>, mp)))))"

definition space_map :: "AddressSpace \<Rightarrow> u64 \<Rightarrow> u64 \<Rightarrow> u64 \<Rightarrow> Machine \<Rightarrow> (unit, string) result \<times> Machine" where
  "space_map space virt phys len mc =
     (if 0x0000800000000000 \<le> virt then (Err ''courtlet map must be lower-half'', mc)
      else put_back mc (map_range virt phys len (mapper (as_pml4_phys space) 0 mc)))"

end
