(* ===== verification/Page_Entries.thy ===== *)
theory Page_Entries
  imports Paging
begin

text \<open>
  Page-table entries as words, the four indices of a virtual address, and the slots of table
  pages in physical memory: what a slot holds after another slot, or another page, is written.
\<close>

section \<open>Entries as words\<close>

lemma bit_PHYS_MASK: "bit PHYS_MASK n \<longleftrightarrow> 12 \<le> n \<and> n < 52"
proof -
  have eq: "PHYS_MASK = mask 52 AND NOT (mask 12)" by (simp add: PHYS_MASK_def mask_eq_exp_minus_1)
  show ?thesis unfolding eq by (simp only: bit_simps) (auto simp: not_less)
qed

lemma bit_single: "bit (push_bit k 1 :: u64) n \<longleftrightarrow> n = k \<and> k < 64"
  by (auto simp only: bit_push_bit_iff bit_1_iff) simp_all

lemma bit_flags:
  "bit PRESENT n \<longleftrightarrow> n = 0" "bit HUGE n \<longleftrightarrow> n = 7" "bit TABLE_FLAGS n \<longleftrightarrow> n = 0 \<or> n = 1"
  "bit PAGE_FLAGS n \<longleftrightarrow> n = 0 \<or> n = 1"
  unfolding PRESENT_def HUGE_def TABLE_FLAGS_def PAGE_FLAGS_def PTE_WRITE_def bit_or_iff bit_single by auto

lemma and_single_zero: "x AND PRESENT = 0 \<longleftrightarrow> \<not> bit x 0" "x AND HUGE = 0 \<longleftrightarrow> \<not> bit x 7"
  for x :: u64
  unfolding word_bits_eq_iff bit_and_iff bit_flags by (auto intro: gr0I dest: spec [of _ 0] spec [of _ 7])

lemma aligned_bits: "aligned a \<Longrightarrow> n < 12 \<Longrightarrow> \<not> bit a n"
proof
  assume "aligned a" and n: "n < 12" and b: "bit a n"
  then have "unat (a AND mask 12) = 0" by (simp add: unat_and_mask)
  then have "a AND mask 12 = 0" by (simp add: unat_eq_zero)
  then have "bit (a AND mask 12) n = bit (0 :: u64) n" by (rule arg_cong)
  with n b show False by (simp add: bit_and_iff bit_mask_iff)
qed

lemma small_bits: "unat a < 2 ^ k \<Longrightarrow> k \<le> n \<Longrightarrow> \<not> bit a n"
  for a :: u64
proof -
  assume "unat a < 2 ^ k" "k \<le> n"
  then have "unat a < 2 ^ n" by (meson less_le_trans one_le_numeral power_increasing)
  then have "drop_bit n a = 0" by (simp add: word_unat_eq_iff unat_drop_bit_eq_div)
  then show ?thesis by (simp add: bit_iff_odd_drop_bit)
qed

lemma table_entry:
  assumes "aligned a" and "unat a < 2 ^ 52"
  shows "(a OR TABLE_FLAGS) AND PHYS_MASK = a" and "bit (a OR TABLE_FLAGS) 0" and "\<not> bit (a OR TABLE_FLAGS) 7"
proof -
  have "12 \<le> n \<and> n < 52" if "bit a n" for n
    using that aligned_bits [OF assms(1)] small_bits [OF assms(2)] by (meson not_less)
  then show "(a OR TABLE_FLAGS) AND PHYS_MASK = a" "bit (a OR TABLE_FLAGS) 0" "\<not> bit (a OR TABLE_FLAGS) 7"
    by (auto simp: bit_or_iff bit_and_iff bit_flags bit_PHYS_MASK word_bits_eq_iff aligned_bits [OF assms(1)])
qed

text \<open>A leaf entry: what it points to, for a frame address of at most 52 bits.\<close>

definition leaf_4k :: "u64 \<Rightarrow> u64" where "leaf_4k phys = (phys AND PHYS_MASK) OR PAGE_FLAGS"
definition leaf_2m :: "u64 \<Rightarrow> u64" where "leaf_2m phys = (phys AND PHYS_MASK) OR PAGE_FLAGS OR HUGE"

lemma leaf_bits:
  "bit (leaf_4k phys) 0" "bit (leaf_2m phys) 0" "bit (leaf_2m phys) 7"
  "leaf_4k phys AND PHYS_MASK = phys AND PHYS_MASK" "leaf_2m phys AND PHYS_MASK = phys AND PHYS_MASK"
  by (auto simp: leaf_4k_def leaf_2m_def bit_or_iff bit_and_iff bit_flags bit_PHYS_MASK word_bits_eq_iff)

lemma or_offset:
  fixes p v :: u64
  assumes "2 ^ k dvd unat p"
  shows "p OR (v AND mask k) = p + (v AND mask k)"
proof (rule disjunctive_add [symmetric])
  fix n
  have "p AND mask k = 0" using assms by (simp add: word_unat_eq_iff unat_and_mask)
  then have "bit (p AND mask k) n = bit (0 :: u64) n" by (rule arg_cong)
  then show "\<not> bit p n \<or> \<not> bit (v AND mask k) n" by (auto simp: bit_and_iff)
qed

lemma frame_id: "aligned p \<Longrightarrow> unat p < 2 ^ 52 \<Longrightarrow> p AND PHYS_MASK = p"
proof -
  assume "aligned p" "unat p < 2 ^ 52"
  then have "12 \<le> n \<and> n < 52" if "bit p n" for n
    using that aligned_bits small_bits by (meson not_less)
  then show ?thesis by (auto simp: word_bits_eq_iff bit_and_iff bit_PHYS_MASK)
qed

section \<open>Indices\<close>

text \<open>The four indices of a virtual address, top level first, and the page number they spell.\<close>

definition indices :: "u64 \<Rightarrow> nat list" where
  "indices va = [pml4_index va, pdpt_index va, pd_index va, pt_index va]"

definition vpn :: "u64 \<Rightarrow> nat" where
  "vpn va = unat va div 4096 mod 2 ^ 36"

lemma index_bound [simp]: "pml4_index va < 512" "pdpt_index va < 512" "pd_index va < 512" "pt_index va < 512"
proof -
  have "unat (x AND 0x1ff) < 512" for x :: u64
    using unat_and_mask [of x 9] by (simp add: mask_eq_exp_minus_1)
  then show "pml4_index va < 512" "pdpt_index va < 512" "pd_index va < 512" "pt_index va < 512"
    by (simp_all add: pml4_index_def pdpt_index_def pd_index_def pt_index_def)
qed

lemma mod_then_div: "n mod (a * b) div a = n div a mod b" if "0 < a" for n a b :: nat
  using that by (simp add: mod_mult2_eq)

lemma digit_of_mod:
  fixes n j k :: nat
  assumes "j < k"
  shows "n mod 512 ^ k div 512 ^ j mod 512 = n div 512 ^ j mod 512"
proof -
  have "(512::nat) ^ k = 512 ^ j * 512 ^ (k - j)" using assms by (simp flip: power_add)
  then have "n mod 512 ^ k div 512 ^ j mod 512 = n div 512 ^ j mod 512 ^ (k - j) mod 512"
    by (simp add: mod_then_div)
  also have "\<dots> = n div 512 ^ j mod 512" using assms by (intro mod_mod_cancel) simp
  finally show ?thesis .
qed

lemma index_digits:
  "pt_index va = vpn va mod 512" "pd_index va = vpn va div 512 mod 512"
  "pdpt_index va = vpn va div 512 ^ 2 mod 512" "pml4_index va = vpn va div 512 ^ 3"
proof -
  have idx: "unat (drop_bit k va AND 0x1ff) = unat va div 2 ^ k mod 512" for k
    using unat_and_mask [of "drop_bit k va" 9] by (simp add: mask_eq_exp_minus_1 unat_drop_bit_eq_div)
  have word: "unat va div 2 ^ (12 + 9 * j) mod 512 = unat va div 4096 div 512 ^ j mod 512" for j
    by (simp add: power_add power_mult div_mult2_eq)
  have vpn: "vpn va = unat va div 4096 mod 512 ^ 4" by (simp add: vpn_def)
  have dig: "unat va div 2 ^ (12 + 9 * j) mod 512 = vpn va div 512 ^ j mod 512" if "j < 4" for j
    using digit_of_mod [OF that] by (simp only: word vpn)
  have top: "vpn va div 512 ^ 3 < 512" by (simp add: vpn less_mult_imp_div_less)
  show "pt_index va = vpn va mod 512" "pd_index va = vpn va div 512 mod 512"
    "pdpt_index va = vpn va div 512 ^ 2 mod 512" "pml4_index va = vpn va div 512 ^ 3"
    using dig [of 0] dig [of 1] dig [of 2] dig [of 3] top
    by (simp_all add: pt_index_def pd_index_def pdpt_index_def pml4_index_def idx)
qed

lemma indices_eq_iff: "indices va = indices vb \<longleftrightarrow> vpn va = vpn vb"
proof
  assume "indices va = indices vb"
  then have d: "vpn va mod 512 = vpn vb mod 512" "vpn va div 512 mod 512 = vpn vb div 512 mod 512"
    "vpn va div 512 div 512 mod 512 = vpn vb div 512 div 512 mod 512"
    "vpn va div 512 div 512 div 512 = vpn vb div 512 div 512 div 512"
    by (simp_all add: indices_def index_digits div_mult2_eq [symmetric])
  from d(3,4) have "vpn va div 512 div 512 = vpn vb div 512 div 512" by (metis div_mult_mod_eq)
  with d(2) have "vpn va div 512 = vpn vb div 512" by (metis div_mult_mod_eq)
  with d(1) show "vpn va = vpn vb" by (metis div_mult_mod_eq)
qed (simp add: indices_def index_digits)

lemma indices3_eq_iff: "take 3 (indices va) = take 3 (indices vb) \<longleftrightarrow> vpn va div 512 = vpn vb div 512"
proof
  assume "take 3 (indices va) = take 3 (indices vb)"
  then have d: "vpn va div 512 mod 512 = vpn vb div 512 mod 512"
    "vpn va div 512 div 512 mod 512 = vpn vb div 512 div 512 mod 512"
    "vpn va div 512 div 512 div 512 = vpn vb div 512 div 512 div 512"
    by (simp_all add: indices_def index_digits div_mult2_eq [symmetric])
  from d(2,3) have "vpn va div 512 div 512 = vpn vb div 512 div 512" by (metis div_mult_mod_eq)
  with d(1) show "vpn va div 512 = vpn vb div 512" by (metis div_mult_mod_eq)
next
  assume eq: "vpn va div 512 = vpn vb div 512"
  have "vpn x div 512 ^ 2 = vpn x div 512 div 512" "vpn x div 512 ^ 3 = vpn x div 512 div 512 div 512" for x
    by (simp_all add: div_mult2_eq [symmetric])
  with eq show "take 3 (indices va) = take 3 (indices vb)"
    by (simp only: indices_def index_digits) simp
qed

section \<open>Slots of tables\<close>

lemma entry_span:
  assumes "aligned t" and "i < 512"
  shows "span (entry_ptr t i) 8 = {x. unat t + 8 * i \<le> unat x \<and> unat x < unat t + 8 * i + 8}"
    and "span (entry_ptr t i) 8 \<subseteq> page_at t"
proof -
  have slot: "unat (entry_ptr t i) = unat t + 8 * i"
    using aligned_offset [OF assms(1), of "8 * i"] assms(2) by (simp add: entry_ptr_def)
  have room: "unat t + 4096 \<le> 2 ^ 64" using assms(1) by (rule aligned_room)
  show eq: "span (entry_ptr t i) 8 = {x. unat t + 8 * i \<le> unat x \<and> unat x < unat t + 8 * i + 8}"
  proof (intro set_eqI iffI)
    fix x :: u64
    assume "x \<in> span (entry_ptr t i) 8"
    then obtain k where k: "k < 8" "x = entry_ptr t i + of_nat k" by (auto simp: span_iff_offset)
    then have "x = t + of_nat (8 * i + k)" by (simp add: entry_ptr_def)
    with aligned_offset [OF assms(1), of "8 * i + k"] assms(2) k(1)
    show "x \<in> {x. unat t + 8 * i \<le> unat x \<and> unat x < unat t + 8 * i + 8}" by simp
  next
    fix x :: u64
    assume x: "x \<in> {x. unat t + 8 * i \<le> unat x \<and> unat x < unat t + 8 * i + 8}"
    then have "unat (x - entry_ptr t i) = unat x - (unat t + 8 * i)"
      by (simp add: unat_sub word_le_nat_alt slot)
    with x show "x \<in> span (entry_ptr t i) 8" by (auto simp: span_def)
  qed
  show "span (entry_ptr t i) 8 \<subseteq> page_at t"
    using assms by (auto simp: eq page_at_iff elim!: dvdE)
qed

lemma entry_store:
  assumes "aligned t" "aligned u" "i < 512" "j < 512"
  shows "mem_load64 (mem_store64 (entry_ptr u j) v m) (entry_ptr t i) =
    (if t = u \<and> i = j then v else mem_load64 m (entry_ptr t i))"
proof (cases "t = u \<and> i = j")
  case True
  then show ?thesis by (simp add: mem_load64_store)
next
  case False
  have "span (entry_ptr t i) 8 \<inter> span (entry_ptr u j) 8 = {}"
  proof (cases "t = u")
    case True
    with False show ?thesis using assms by (auto simp: entry_span)
  next
    case False
    with pages_disjoint [OF assms(1,2)] entry_span(2) [OF assms(1,3)] entry_span(2) [OF assms(2,4)]
    show ?thesis by blast
  qed
  then have "mem_load64 (mem_store64 (entry_ptr u j) v m) (entry_ptr t i) = mem_load64 m (entry_ptr t i)"
    by (intro mem_load64_cong mem_store64_out) auto
  with False show ?thesis by (simp only: if_False)
qed

lemma entry_cong:
  assumes "aligned t" "i < 512" "\<And>x. x \<in> page_at t \<Longrightarrow> m' x = m x"
  shows "mem_load64 m' (entry_ptr t i) = mem_load64 m (entry_ptr t i)"
  using assms entry_span(2) [OF assms(1,2)] by (intro mem_load64_cong) blast

end
