(* ===== verification/Paging_Walk.thy ===== *)
theory Paging_Walk
  imports Page_Entries "HOL-Library.Sublist"
begin

text \<open>
  What a hierarchy of page tables means: the walk that the processor does on four levels, the
  shape every hierarchy of Root Court has (each table is a page of the allocator and is reached
  by one path only), and what writing one entry does to both.
\<close>

section \<open>Walks\<close>

text \<open>The table reached from table \<open>t\<close> along a path of indices, through present entries that are not leaves.\<close>

fun walk :: "pmem \<Rightarrow> u64 \<Rightarrow> nat list \<Rightarrow> u64 option" where
  "walk m t [] = Some t"
| "walk m t (i # p) = (let e = mem_load64 m (entry_ptr t i)
     in if bit e 0 \<and> \<not> bit e 7 then walk m (e AND PHYS_MASK) p else None)"

lemma walk_append: "walk m t (p @ q) = Option.bind (walk m t p) (\<lambda>u. walk m u q)"
  by (induction m t p rule: walk.induct) (simp_all add: Let_def)

definition path_ok :: "nat list \<Rightarrow> bool" where
  "path_ok p \<longleftrightarrow> length p \<le> 3 \<and> (\<forall>i\<in>set p. i < 512)"

lemma path_ok_simps [simp]:
  "path_ok []" "path_ok [pml4_index va]" "path_ok [pml4_index va, pdpt_index va]"
  "path_ok [pml4_index va, pdpt_index va, pd_index va]"
  by (simp_all add: path_ok_def)

lemma path_ok_snoc: "path_ok (p @ [i]) \<longleftrightarrow> path_ok p \<and> length p < 3 \<and> i < 512"
  by (auto simp: path_ok_def)

text \<open>The entry that slot \<open>i\<close> of the table at a path holds; where there is no table, no entry.\<close>

definition entry_at :: "pmem \<Rightarrow> u64 \<Rightarrow> nat list \<Rightarrow> nat \<Rightarrow> u64" where
  "entry_at m root p i = (case walk m root p of None \<Rightarrow> 0 | Some t \<Rightarrow> mem_load64 m (entry_ptr t i))"

lemma walk_snoc:
  "walk m root (p @ [i]) =
     (let e = entry_at m root p i in if bit e 0 \<and> \<not> bit e 7 then Some (e AND PHYS_MASK) else None)"
  by (auto simp: walk_append entry_at_def Let_def split: option.split)

section \<open>Translation\<close>

text \<open>
  The walk of a processor with 4-level paging: the physical address a virtual address stands
  for, or \<open>None\<close> for a page fault. \<open>HUGE\<close> in the second and third level makes a leaf of 1 GiB or
  2 MiB and is reserved in the first. Only the low 48 bits of the address select entries.
\<close>

definition translate :: "pmem \<Rightarrow> u64 \<Rightarrow> u64 \<Rightarrow> u64 option" where
  "translate m root va =
     (let e1 = mem_load64 m (entry_ptr root (pml4_index va))
      in if \<not> bit e1 0 \<or> bit e1 7 then None else
      let e2 = mem_load64 m (entry_ptr (e1 AND PHYS_MASK) (pdpt_index va))
      in if \<not> bit e2 0 then None
      else if bit e2 7 then Some ((e2 AND PHYS_MASK AND NOT (mask 30)) OR (va AND mask 30)) else
      let e3 = mem_load64 m (entry_ptr (e2 AND PHYS_MASK) (pd_index va))
      in if \<not> bit e3 0 then None
      else if bit e3 7 then Some ((e3 AND PHYS_MASK AND NOT (mask 21)) OR (va AND mask 21)) else
      let e4 = mem_load64 m (entry_ptr (e3 AND PHYS_MASK) (pt_index va))
      in if \<not> bit e4 0 then None else Some ((e4 AND PHYS_MASK) OR (va AND mask 12)))"

text \<open>The same by the entries at the three paths an address has.\<close>

lemma translate_entries:
  "translate m root va =
     (let e2 = entry_at m root [pml4_index va] (pdpt_index va);
          e3 = entry_at m root [pml4_index va, pdpt_index va] (pd_index va);
          e4 = entry_at m root [pml4_index va, pdpt_index va, pd_index va] (pt_index va)
      in if bit e2 0 \<and> bit e2 7 then Some ((e2 AND PHYS_MASK AND NOT (mask 30)) OR (va AND mask 30))
         else if bit e3 0 \<and> bit e3 7 then Some ((e3 AND PHYS_MASK AND NOT (mask 21)) OR (va AND mask 21))
         else if bit e4 0 then Some ((e4 AND PHYS_MASK) OR (va AND mask 12)) else None)"
  by (simp add: translate_def entry_at_def Let_def)

section \<open>Hierarchies in the allocator's memory\<close>

text \<open>
  Every table is a page that the allocator has handed out, at most 52 bits of address, is reached
  by one path only, and there are no leaves in the two upper levels.
\<close>

definition owned_mem :: "BumpAllocator \<Rightarrow> u64 set" where
  "owned_mem b = {x. unat x \<in> bump_owned b}"

definition tree :: "BumpAllocator \<Rightarrow> pmem \<Rightarrow> u64 \<Rightarrow> bool" where
  "tree b m root \<longleftrightarrow> bump_ok b \<and> unat (ba_end b) \<le> 2 ^ 52 \<and>
     (\<forall>p t. path_ok p \<and> walk m root p = Some t \<longrightarrow> aligned t \<and> page_at t \<subseteq> owned_mem b) \<and>
     (\<forall>p q t. path_ok p \<and> path_ok q \<and> walk m root p = Some t \<and> walk m root q = Some t \<longrightarrow> p = q) \<and>
     (\<forall>p i. path_ok p \<and> length p < 2 \<and> i < 512 \<longrightarrow> \<not> bit (entry_at m root p i) 7)"

lemma treeD:
  assumes "tree b m root"
  shows "bump_ok b" and "unat (ba_end b) \<le> 2 ^ 52"
    and "path_ok p \<Longrightarrow> walk m root p = Some t \<Longrightarrow> aligned t"
    and "path_ok p \<Longrightarrow> walk m root p = Some t \<Longrightarrow> page_at t \<subseteq> owned_mem b"
    and "path_ok p \<Longrightarrow> path_ok q \<Longrightarrow> walk m root p = Some t \<Longrightarrow> walk m root q = Some t \<Longrightarrow> p = q"
    and "path_ok p \<Longrightarrow> length p < 2 \<Longrightarrow> i < 512 \<Longrightarrow> \<not> bit (entry_at m root p i) 7"
  using assms unfolding tree_def by blast+

lemma treeI:
  assumes "bump_ok b" and "unat (ba_end b) \<le> 2 ^ 52"
    and "\<And>p t. path_ok p \<Longrightarrow> walk m root p = Some t \<Longrightarrow> aligned t \<and> page_at t \<subseteq> owned_mem b"
    and "\<And>p q t. path_ok p \<Longrightarrow> path_ok q \<Longrightarrow> walk m root p = Some t \<Longrightarrow> walk m root q = Some t \<Longrightarrow> p = q"
    and "\<And>p i. path_ok p \<Longrightarrow> length p < 2 \<Longrightarrow> i < 512 \<Longrightarrow> \<not> bit (entry_at m root p i) 7"
  shows "tree b m root"
  using assms unfolding tree_def by blast

text \<open>
  Memory that differs from \<open>m\<close>, as far as the tables of the hierarchy are concerned, in slot
  \<open>i0\<close> of table \<open>t0\<close> only.
\<close>

definition same_but :: "pmem \<Rightarrow> u64 \<Rightarrow> u64 \<Rightarrow> nat \<Rightarrow> pmem \<Rightarrow> bool" where
  "same_but m root t0 i0 m' \<longleftrightarrow> (\<forall>p t i. path_ok p \<and> walk m root p = Some t \<and> i < 512 \<and> (t, i) \<noteq> (t0, i0) \<longrightarrow>
     mem_load64 m' (entry_ptr t i) = mem_load64 m (entry_ptr t i))"

lemma same_butD:
  "same_but m root t0 i0 m' \<Longrightarrow> path_ok p \<Longrightarrow> walk m root p = Some t \<Longrightarrow> i < 512 \<Longrightarrow> (t, i) \<noteq> (t0, i0) \<Longrightarrow>
     mem_load64 m' (entry_ptr t i) = mem_load64 m (entry_ptr t i)"
  unfolding same_but_def by blast

lemma walk_same_but:
  assumes tree: "tree b m root" and p0: "path_ok p0" "walk m root p0 = Some t0" and same: "same_but m root t0 i0 m'"
    and p: "path_ok p" "\<not> prefix (p0 @ [i0]) p"
  shows "walk m' root p = walk m root p"
  using p
proof (induction p rule: rev_induct)
  case (snoc i p)
  from snoc.prems have p: "path_ok p" "\<not> prefix (p0 @ [i0]) p" and i: "i < 512"
    by (auto simp: path_ok_snoc)
  note IH = snoc.IH [OF p]
  show ?case
  proof (cases "walk m root p")
    case None
    with IH show ?thesis by (simp add: walk_append)
  next
    case (Some t)
    have "(t, i) \<noteq> (t0, i0)"
      using treeD(5) [OF tree p(1) p0(1) Some] p0(2) snoc.prems(2) by auto
    from same_butD [OF same p(1) Some i this] Some IH show ?thesis by (simp add: walk_append Let_def)
  qed
qed simp

lemma entry_same_but:
  assumes tree: "tree b m root" and p0: "path_ok p0" "walk m root p0 = Some t0" and same: "same_but m root t0 i0 m'"
    and p: "path_ok p" "\<not> prefix (p0 @ [i0]) p" "i < 512" "(p, i) \<noteq> (p0, i0)"
  shows "entry_at m' root p i = entry_at m root p i"
proof (cases "walk m root p")
  case None
  with walk_same_but [OF tree p0 same p(1,2)] show ?thesis by (simp add: entry_at_def)
next
  case (Some t)
  have "(t, i) \<noteq> (t0, i0)" using treeD(5) [OF tree p(1) p0(1) Some] p0(2) p(4) by auto
  from same_butD [OF same p(1) Some p(3) this] Some walk_same_but [OF tree p0 same p(1,2)]
  show ?thesis by (simp add: entry_at_def)
qed

text \<open>A path below an entry that is not present has no table.\<close>

lemma walk_below:
  assumes "prefix (p0 @ [i0]) p" and "\<not> bit (entry_at m root p0 i0) 0 \<or> bit (entry_at m root p0 i0) 7"
  shows "walk m root p = None"
proof -
  from assms(1) obtain q where "p = (p0 @ [i0]) @ q" by (auto simp: prefix_def)
  moreover have "walk m root (p0 @ [i0]) = None" using assms(2) by (auto simp: walk_snoc Let_def)
  ultimately show ?thesis by (simp only: walk_append [of m root "p0 @ [i0]"] bind.simps)
qed

section \<open>Writing one entry\<close>

text \<open>A leaf written to an empty slot: the tables are the same, the slot has the leaf.\<close>

lemma leaf_write:
  assumes tree: "tree b m root" and p0: "path_ok p0" "walk m root p0 = Some t0" and i0: "i0 < 512"
    and leaf: "length p0 = 3 \<or> bit v 7" and free: "\<not> bit (mem_load64 m (entry_ptr t0 i0)) 0"
  defines "m' \<equiv> mem_store64 (entry_ptr t0 i0) v m"
  shows "path_ok p \<Longrightarrow> walk m' root p = walk m root p"
    and "path_ok p \<Longrightarrow> i < 512 \<Longrightarrow> entry_at m' root p i = (if p = p0 \<and> i = i0 then v else entry_at m root p i)"
proof -
  note al = treeD(3) [OF tree]
  have load: "mem_load64 m' (entry_ptr t i) = (if t = t0 \<and> i = i0 then v else mem_load64 m (entry_ptr t i))"
    if "path_ok p" "walk m root p = Some t" "i < 512" for p t i
    unfolding m'_def using al [OF that(1,2)] al [OF p0] that(3) i0 by (rule entry_store)
  have same: "same_but m root t0 i0 m'"
    unfolding same_but_def using load by auto
  have self: "\<not> prefix (p0 @ [i0]) p0" by (auto simp: prefix_def)
  have e0: "entry_at m' root p0 i0 = v"
    using walk_same_but [OF tree p0 same p0(1) self] load [OF p0 i0] p0(2) by (simp add: entry_at_def)
  have walk: "walk m' root p = walk m root p" if p: "path_ok p" for p
  proof (cases "prefix (p0 @ [i0]) p")
    case True
    then have "length p0 < length p" by (auto dest: prefix_length_le)
    with p leaf have "bit v 7" by (auto simp: path_ok_def)
    with True e0 have "walk m' root p = None" by (intro walk_below) auto
    moreover have "walk m root p = None" using True free p0(2) by (intro walk_below) (auto simp: entry_at_def)
    ultimately show ?thesis by simp
  next
    case False
    with walk_same_but [OF tree p0 same p] show ?thesis by simp
  qed
  then show "path_ok p \<Longrightarrow> walk m' root p = walk m root p" .
  assume p: "path_ok p" "i < 512"
  show "entry_at m' root p i = (if p = p0 \<and> i = i0 then v else entry_at m root p i)"
  proof (cases "p = p0 \<and> i = i0")
    case True
    with e0 show ?thesis by simp
  next
    case False
    have "mem_load64 m' (entry_ptr t i) = mem_load64 m (entry_ptr t i)" if "walk m root p = Some t" for t
      using load [OF p(1) that p(2)] treeD(5) [OF tree p(1) p0(1) that] p0(2) False by auto
    with False walk [OF p(1)] show ?thesis by (auto simp: entry_at_def split: option.split)
  qed
qed

text \<open>A fresh, zeroed page linked from an empty slot: one more table, with no entries.\<close>

lemma table_write:
  assumes tree: "tree b m root" and p0: "path_ok (p0 @ [i0])" "walk m root p0 = Some t0"
    and free: "\<not> bit (mem_load64 m (entry_ptr t0 i0)) 0"
    and new: "aligned new" "unat new < 2 ^ 52" "page_at new \<inter> owned_mem b = {}"
  defines "m' \<equiv> mem_store64 (entry_ptr t0 i0) (new OR TABLE_FLAGS) (mem_zero new 4096 m)"
  shows "path_ok p \<Longrightarrow> walk m' root p = (if p = p0 @ [i0] then Some new else walk m root p)"
    and "path_ok p \<Longrightarrow> i < 512 \<Longrightarrow>
      entry_at m' root p i = (if p = p0 \<and> i = i0 then new OR TABLE_FLAGS else entry_at m root p i)"
proof -
  from p0(1) have p0': "path_ok p0" and i0: "i0 < 512" by (simp_all add: path_ok_snoc)
  note al = treeD(3) [OF tree]
  have other: "t \<noteq> new" "page_at t \<inter> page_at new = {}" if "path_ok p" "walk m root p = Some t" for p t
  proof -
    have "t \<in> page_at t" by (simp add: span_def)
    with treeD(4) [OF tree that] new(3) show "t \<noteq> new" "page_at t \<inter> page_at new = {}" by auto
  qed
  have load: "mem_load64 m' (entry_ptr t i) = (if t = t0 \<and> i = i0 then new OR TABLE_FLAGS else mem_load64 m (entry_ptr t i))"
    if "path_ok p" "walk m root p = Some t" "i < 512" for p t i
  proof -
    have "mem_load64 (mem_zero new 4096 m) (entry_ptr t i) = mem_load64 m (entry_ptr t i)"
      using al [OF that(1,2)] that(3) other(2) [OF that(1,2)] by (intro entry_cong mem_zero_out) auto
    with entry_store [OF al [OF that(1,2)] al [OF p0' p0(2)] that(3) i0] show ?thesis by (simp add: m'_def)
  qed
  have zero: "mem_load64 m' (entry_ptr new i) = 0" if "i < 512" for i
  proof -
    have "mem_load64 (mem_zero new 4096 m) (entry_ptr new i) = 0"
      using entry_span(2) [OF new(1) that] by (intro mem_load64_zero) (auto simp: mem_zero_def span_def)
    with entry_store [OF new(1) al [OF p0' p0(2)] that i0] other(1) [OF p0' p0(2)] show ?thesis by (simp add: m'_def)
  qed
  have same: "same_but m root t0 i0 m'"
    unfolding same_but_def using load by auto
  have self: "\<not> prefix (p0 @ [i0]) p0" by (auto simp: prefix_def)
  have e0: "entry_at m' root p0 i0 = new OR TABLE_FLAGS"
    using walk_same_but [OF tree p0' p0(2) same p0' self] load [OF p0' p0(2) i0] p0(2) by (simp add: entry_at_def)
  have linked: "walk m' root (p0 @ [i0]) = Some new"
    using table_entry [OF new(1,2)] by (simp add: walk_snoc e0)
  have old: "walk m root p = None" if "prefix (p0 @ [i0]) p" for p
    using that free p0(2) by (intro walk_below) (auto simp: entry_at_def)
  have walk: "walk m' root p = (if p = p0 @ [i0] then Some new else walk m root p)" if p: "path_ok p" for p
  proof (cases "prefix (p0 @ [i0]) p")
    case True
    then obtain q where q: "p = (p0 @ [i0]) @ q" by (auto simp: prefix_def)
    show ?thesis
    proof (cases q)
      case Nil
      with q linked show ?thesis by simp
    next
      case (Cons j q')
      with p q have "j < 512" by (simp add: path_ok_def)
      then have "walk m' new q = None" using Cons zero by (simp add: Let_def)
      then have "walk m' root p = None" unfolding q walk_append [of m' root "p0 @ [i0]"] linked by simp
      with old [OF True] q Cons show ?thesis by simp
    qed
  next
    case False
    with walk_same_but [OF tree p0' p0(2) same p] show ?thesis by auto
  qed
  then show "path_ok p \<Longrightarrow> walk m' root p = (if p = p0 @ [i0] then Some new else walk m root p)" .
  assume p: "path_ok p" "i < 512"
  consider "p = p0 \<and> i = i0" | "p = p0 @ [i0]" | "\<not> (p = p0 \<and> i = i0)" "p \<noteq> p0 @ [i0]" by blast
  then show "entry_at m' root p i = (if p = p0 \<and> i = i0 then new OR TABLE_FLAGS else entry_at m root p i)"
  proof cases
    case 1
    with e0 show ?thesis by simp
  next
    case 2
    with linked zero [OF p(2)] old [of p] show ?thesis by (simp add: entry_at_def)
  next
    case 3
    have "mem_load64 m' (entry_ptr t i) = mem_load64 m (entry_ptr t i)" if "walk m root p = Some t" for t
      using load [OF p(1) that p(2)] treeD(5) [OF tree p(1) p0' that] p0(2) 3(1) by auto
    with 3 walk [OF p(1)] show ?thesis by (auto simp: entry_at_def split: option.split)
  qed
qed

end
