(* ===== verification/Paging_Map.thy ===== *)
theory Paging_Map
  imports Paging_Walk CK_Interfaces
begin

text \<open>
  The mapper implements translation: what \<^verbatim>\<open>ensure_table\<close>, \<^verbatim>\<open>map_4k\<close>, \<^verbatim>\<open>map_2m\<close> and \<^verbatim>\<open>map_range\<close> do
  to the walk of the processor, to the shape of the hierarchy and to the rest of memory.
\<close>

section \<open>How a hierarchy grows\<close>

abbreviation mp_tree :: "Mapper \<Rightarrow> bool" where
  "mp_tree mp \<equiv> tree (mp_bump mp) (mp_mem mp) (mp_pml4 mp)"

abbreviation mp_walk :: "Mapper \<Rightarrow> nat list \<Rightarrow> u64 option" where
  "mp_walk mp \<equiv> walk (mp_mem mp) (mp_pml4 mp)"

abbreviation mp_translate :: "Mapper \<Rightarrow> u64 \<Rightarrow> u64 option" where
  "mp_translate mp \<equiv> translate (mp_mem mp) (mp_pml4 mp)"

abbreviation mp_owned :: "Mapper \<Rightarrow> u64 set" where
  "mp_owned mp \<equiv> owned_mem (mp_bump mp)"

text \<open>
  From \<open>mp\<close> to \<open>mp'\<close> tables were added in fresh pages below the top-level slots \<open>tops\<close>, addresses of \<open>D\<close> may have become mapped,
  and bytes were written in fresh pages and in tables of \<open>mp\<close> below these slots.
\<close>

definition same_pool :: "BumpAllocator \<Rightarrow> BumpAllocator \<Rightarrow> bool" where
  "same_pool b b' \<longleftrightarrow> ba_hhdm b' = ba_hhdm b \<and> ba_start b' = ba_start b \<and> ba_end b' = ba_end b \<and>
     ba_cursor b \<le> ba_cursor b'"

definition table_under :: "nat set \<Rightarrow> Mapper \<Rightarrow> u64 \<Rightarrow> bool" where
  "table_under tops mp x \<longleftrightarrow>
     (\<exists>p t. path_ok p \<and> (p = [] \<or> hd p \<in> tops) \<and> mp_walk mp p = Some t \<and> x \<in> page_at t)"

definition grow :: "nat set \<Rightarrow> u64 set \<Rightarrow> Mapper \<Rightarrow> Mapper \<Rightarrow> bool" where
  "grow tops D mp mp' \<longleftrightarrow> mp_tree mp' \<and> mp_pml4 mp' = mp_pml4 mp \<and> same_pool (mp_bump mp) (mp_bump mp') \<and>
     (\<forall>p t. path_ok p \<and> mp_walk mp p = Some t \<longrightarrow> mp_walk mp' p = Some t) \<and>
     (\<forall>p t. path_ok p \<and> mp_walk mp' p = Some t \<longrightarrow> mp_walk mp p = Some t \<or> p \<noteq> [] \<and> hd p \<in> tops \<and> page_at t \<inter> mp_owned mp = {}) \<and>
     (\<forall>va. mp_translate mp' va = mp_translate mp va \<or> va \<in> D \<and> mp_translate mp va = None) \<and>
     (\<forall>x. mp_mem mp' x \<noteq> mp_mem mp x \<longrightarrow> x \<in> mp_owned mp' - mp_owned mp \<or> table_under tops mp x)"

lemma growD:
  assumes "grow tops D mp mp'"
  shows "mp_tree mp'" and "mp_pml4 mp' = mp_pml4 mp" and "same_pool (mp_bump mp) (mp_bump mp')"
    and "path_ok p \<Longrightarrow> mp_walk mp p = Some t \<Longrightarrow> mp_walk mp' p = Some t"
    and "path_ok p \<Longrightarrow> mp_walk mp' p = Some t \<Longrightarrow> mp_walk mp p = Some t \<or> p \<noteq> [] \<and> hd p \<in> tops \<and> page_at t \<inter> mp_owned mp = {}"
    and "mp_translate mp' va = mp_translate mp va \<or> va \<in> D \<and> mp_translate mp va = None"
    and "mp_mem mp' x \<noteq> mp_mem mp x \<Longrightarrow> x \<in> mp_owned mp' - mp_owned mp \<or> table_under tops mp x"
  using assms unfolding grow_def by blast+

lemma growI:
  assumes "mp_tree mp'" and "mp_pml4 mp' = mp_pml4 mp" and "same_pool (mp_bump mp) (mp_bump mp')"
    and "\<And>p t. path_ok p \<Longrightarrow> mp_walk mp p = Some t \<Longrightarrow> mp_walk mp' p = Some t"
    and "\<And>p t. path_ok p \<Longrightarrow> mp_walk mp' p = Some t \<Longrightarrow> mp_walk mp p = Some t \<or> p \<noteq> [] \<and> hd p \<in> tops \<and> page_at t \<inter> mp_owned mp = {}"
    and "\<And>va. mp_translate mp' va = mp_translate mp va \<or> va \<in> D \<and> mp_translate mp va = None"
    and "\<And>x. mp_mem mp' x \<noteq> mp_mem mp x \<Longrightarrow> x \<in> mp_owned mp' - mp_owned mp \<or> table_under tops mp x"
  shows "grow tops D mp mp'"
  using assms unfolding grow_def by blast

lemma same_pool_refl [simp]: "same_pool b b"
  by (simp add: same_pool_def)

lemma same_pool_trans: "same_pool b b' \<Longrightarrow> same_pool b' b'' \<Longrightarrow> same_pool b b''"
  by (auto simp: same_pool_def)

lemma same_pool_owned: "same_pool b b' \<Longrightarrow> owned_mem b \<subseteq> owned_mem b'"
  by (auto simp: same_pool_def owned_mem_def bump_owned_def word_le_nat_alt)

lemma grow_refl: "mp_tree mp \<Longrightarrow> grow tops D mp mp"
  by (rule growI) auto

lemma grow_mono: "grow tops D mp mp' \<Longrightarrow> tops \<subseteq> tops' \<Longrightarrow> D \<subseteq> D' \<Longrightarrow> grow tops' D' mp mp'"
  unfolding grow_def table_under_def by blast

lemma grow_trans:
  assumes 1: "grow tops D mp mp'" and 2: "grow tops D mp' mp''"
  shows "grow tops D mp mp''"
proof (rule growI)
  note d1 = growD [OF 1] and d2 = growD [OF 2]
  note own = same_pool_owned [OF d1(3)] and own' = same_pool_owned [OF d2(3)]
  show "mp_tree mp''" by (rule d2(1))
  show "mp_pml4 mp'' = mp_pml4 mp" using d1(2) d2(2) by simp
  show "same_pool (mp_bump mp) (mp_bump mp'')" using d1(3) d2(3) by (rule same_pool_trans)
  show "mp_walk mp'' p = Some t" if "path_ok p" "mp_walk mp p = Some t" for p t
    using d2(4) [OF that(1) d1(4) [OF that]] .
  show "mp_walk mp p = Some t \<or> p \<noteq> [] \<and> hd p \<in> tops \<and> page_at t \<inter> mp_owned mp = {}" if "path_ok p" "mp_walk mp'' p = Some t" for p t
    using d2(5) [OF that] d1(5) [OF that(1)] own by blast
  show "mp_translate mp'' va = mp_translate mp va \<or> va \<in> D \<and> mp_translate mp va = None" for va
    using d1(6) [of va] d2(6) [of va] by auto
  show "x \<in> mp_owned mp'' - mp_owned mp \<or> table_under tops mp x" if "mp_mem mp'' x \<noteq> mp_mem mp x" for x
  proof (cases "mp_mem mp' x = mp_mem mp x")
    case False
    with d1(7) own' show ?thesis by blast
  next
    case True
    with that d2(7) [of x] consider "x \<in> mp_owned mp'' - mp_owned mp'" | "table_under tops mp' x" by auto
    then show ?thesis
    proof cases
      case 1
      with own show ?thesis by blast
    next
      case 2
      then obtain p t where pt: "path_ok p" "p = [] \<or> hd p \<in> tops" "mp_walk mp' p = Some t" "x \<in> page_at t"
        by (auto simp: table_under_def)
      from treeD(4) [OF d1(1) pt(1,3)] pt(4) own' have "x \<in> mp_owned mp''" by blast
      with d1(5) [OF pt(1,3)] pt show ?thesis by (auto simp: table_under_def)
    qed
  qed
qed

section \<open>Adding a table\<close>

lemma alloc_table_Ok:
  assumes ok: "bump_ok (mp_bump mp)" and end_le: "unat (ba_end (mp_bump mp)) \<le> 2 ^ 52"
    and alloc: "alloc_table mp = (Ok new, mp')"
  shows "aligned new" and "unat new < 2 ^ 52" and "page_at new \<inter> mp_owned mp = {}"
    and "page_at new \<subseteq> mp_owned mp'" and "mp_mem mp' = mem_zero new 4096 (mp_mem mp)"
    and "same_pool (mp_bump mp) (mp_bump mp')" and "mp_pml4 mp' = mp_pml4 mp" and "bump_ok (mp_bump mp')"
proof -
  from alloc obtain v b' where a: "alloc_pages 1 (mp_bump mp) = Some ((new, v), b')"
    and mp': "mp' = mp\<lparr>mp_bump := b', mp_mem := mem_zero new (unat PAGE) (mp_mem mp), mp_table_pages := mp_table_pages mp + 1\<rparr>"
    by (auto simp: alloc_table_def split: option.splits)
  note f = alloc_pages_Some [OF ok a]
  from ok have le: "unat (ba_start (mp_bump mp)) \<le> unat (ba_cursor (mp_bump mp))" and al: "aligned (ba_cursor (mp_bump mp))"
    by (auto simp: bump_ok_def word_le_nat_alt)
  show new: "aligned new" using al f(1) by simp
  show "unat new < 2 ^ 52" using f(8) end_le by simp
  have page: "x \<in> page_at new \<Longrightarrow> unat new \<le> unat x \<and> unat x < unat new + 4096" for x
    using aligned_offset [OF new] by (auto simp: span_iff_offset)
  show "page_at new \<inter> mp_owned mp = {}" using page [unfolded f(1)] by (fastforce simp: owned_mem_def bump_owned_def f(1))
  show "page_at new \<subseteq> mp_owned mp'"
    using f(4,7) le page [unfolded f(1)] by (fastforce simp: owned_mem_def bump_owned_def mp' f(1))
  show "mp_mem mp' = mem_zero new 4096 (mp_mem mp)" by (simp add: mp' unat_PAGE)
  show "same_pool (mp_bump mp) (mp_bump mp')" using f by (simp add: same_pool_def mp' word_le_nat_alt)
  show "mp_pml4 mp' = mp_pml4 mp" "bump_ok (mp_bump mp')" using f(3) by (simp_all add: mp')
qed

lemma alloc_table_cases:
  obtains (ok) new mp' where "alloc_table mp = (Ok new, mp')" | (err) e where "alloc_table mp = (Err e, mp)"
  by (cases "alloc_pages 1 (mp_bump mp)") (auto simp: alloc_table_def split: prod.splits)

lemma translate_cong:
  assumes "\<And>p i. path_ok p \<Longrightarrow> i < 512 \<Longrightarrow>
      entry_at m' root p i = entry_at m root p i \<or>
      length p < 3 \<and> \<not> bit (entry_at m root p i) 0 \<and> \<not> bit (entry_at m' root p i) 7"
  shows "translate m' root va = translate m root va"
  using assms [of "[pml4_index va]" "pdpt_index va"] assms [of "[pml4_index va, pdpt_index va]" "pd_index va"]
    assms [of "[pml4_index va, pdpt_index va, pd_index va]" "pt_index va"]
  by (auto simp: translate_entries Let_def)

lemma ensure_table_grows:
  assumes tree: "mp_tree mp" and p: "path_ok (p @ [i])" "mp_walk mp p = Some t" and tops: "hd (p @ [i]) \<in> tops"
    and res: "ensure_table t i mp = (res, mp')"
  shows "grow tops D mp mp' \<and> res \<noteq> Panic \<and> (\<forall>new. res = Ok new \<longrightarrow> mp_walk mp' (p @ [i]) = Some new)"
proof -
  let ?e = "mem_load64 (mp_mem mp) (entry_ptr t i)"
  have e: "entry_at (mp_mem mp) (mp_pml4 mp) p i = ?e" using p(2) by (simp add: entry_at_def)
  show ?thesis
  proof (cases "bit ?e 0")
    case True
    with res have "mp' = mp" and "res = (if bit ?e 7 then Err ''huge/4k page collision'' else Ok (?e AND PHYS_MASK))"
      by (auto simp: ensure_table_def Let_def and_single_zero split: if_splits)
    with True grow_refl [OF tree] show ?thesis by (auto simp: walk_snoc e)
  next
    case free: False
    show ?thesis
    proof (cases rule: alloc_table_cases [of mp])
      case (err msg)
      with free res have "mp' = mp" "res = Err msg" by (auto simp: ensure_table_def Let_def and_single_zero)
      with grow_refl [OF tree] show ?thesis by simp
    next
      case (ok new mp1)
      note new = alloc_table_Ok [OF treeD(1,2) [OF tree] ok]
      from free ok res have mp': "mp' = mp1\<lparr>mp_mem := mem_store64 (entry_ptr t i) (new OR TABLE_FLAGS) (mp_mem mp1)\<rparr>"
        and r: "res = Ok new" by (auto simp: ensure_table_def Let_def and_single_zero)
      note tw = table_write [OF tree p free new(1-3), folded new(5)]
      have mem: "mp_mem mp' = mem_store64 (entry_ptr t i) (new OR TABLE_FLAGS) (mp_mem mp1)" and pml4: "mp_pml4 mp' = mp_pml4 mp"
        and bump: "mp_bump mp' = mp_bump mp1" using new(7) by (simp_all add: mp')
      have walk: "mp_walk mp' q = (if q = p @ [i] then Some new else mp_walk mp q)" if "path_ok q" for q
        using tw(1) [OF that] by (simp only: mem pml4)
      have tree': "mp_tree mp'"
        unfolding tree_def
      proof (intro conjI allI impI)
        show "bump_ok (mp_bump mp')" "unat (ba_end (mp_bump mp')) \<le> 2 ^ 52"
          using new(6,8) treeD(2) [OF tree] by (simp_all add: bump same_pool_def)
        fix q u
        assume qu: "path_ok q \<and> mp_walk mp' q = Some u"
        have "mp_owned mp \<subseteq> mp_owned mp'" using same_pool_owned [OF new(6)] by (simp add: bump)
        moreover have "u = new \<or> mp_walk mp q = Some u" using qu walk [of q] by (auto split: if_splits)
        ultimately show "aligned u" "page_at u \<subseteq> mp_owned mp'"
          using qu new(1,4) treeD(3,4) [OF tree, of q u] by (auto simp: bump)
      next
        fix q q' u
        assume "path_ok q \<and> path_ok q' \<and> mp_walk mp' q = Some u \<and> mp_walk mp' q' = Some u"
        moreover have "mp_walk mp q \<noteq> Some new" if "path_ok q" for q
          using treeD(4) [OF tree that] new(3) span_offset [of 0 4096 new] by auto
        ultimately show "q = q'" using treeD(5) [OF tree] by (auto simp: walk split: if_splits)
      next
        fix q and j :: nat
        assume "path_ok q \<and> length q < 2 \<and> j < 512"
        then show "\<not> bit (entry_at (mp_mem mp') (mp_pml4 mp') q j) 7"
          using tw(2) [of q j] treeD(6) [OF tree, of q j] table_entry(3) [OF new(1,2)] by (simp add: mem pml4)
      qed
      have "grow tops D mp mp'"
      proof (rule growI)
        show "mp_tree mp'" "mp_pml4 mp' = mp_pml4 mp" by (fact tree' pml4)+
        show "same_pool (mp_bump mp) (mp_bump mp')" using new(6) by (simp add: bump)
        have none: "mp_walk mp (p @ [i]) = None" using free by (simp add: walk_snoc e)
        show "mp_walk mp' q = Some u" if "path_ok q" "mp_walk mp q = Some u" for q u
          using that none by (auto simp: walk)
        show "mp_walk mp q = Some u \<or> q \<noteq> [] \<and> hd q \<in> tops \<and> page_at u \<inter> mp_owned mp = {}" if "path_ok q" "mp_walk mp' q = Some u" for q u
          using that new(3) tops by (auto simp: walk split: if_splits)
        have "translate (mp_mem mp') (mp_pml4 mp) va = mp_translate mp va" for va
          using p(1) free table_entry(3) [OF new(1,2)]
          by (intro translate_cong) (auto simp: mem tw(2) e path_ok_snoc)
        then show "mp_translate mp' va = mp_translate mp va \<or> va \<in> D \<and> mp_translate mp va = None" for va
          by (simp add: pml4)
        show "x \<in> mp_owned mp' - mp_owned mp \<or> table_under tops mp x" if "mp_mem mp' x \<noteq> mp_mem mp x" for x
        proof (cases "x \<in> page_at new")
          case True
          with new(3,4) show ?thesis by (auto simp: bump)
        next
          case False
          have "x \<in> span (entry_ptr t i) 8"
          proof (rule ccontr)
            assume "x \<notin> span (entry_ptr t i) 8"
            with that mem_zero_out [OF False] show "False" by (simp add: mem new(5) mem_store64_out)
          qed
          then have x: "x \<in> page_at t"
            using entry_span(2) [OF treeD(3) [OF tree _ p(2)], of i] p(1) by (auto simp: path_ok_snoc)
          have "path_ok p" "p = [] \<or> hd p \<in> tops" using p(1) tops by (auto simp: path_ok_snoc hd_append split: if_splits)
          with x p(2) show ?thesis unfolding table_under_def by blast
        qed
      qed
      with r walk [OF p(1)] show ?thesis by simp
    qed
  qed
qed

section \<open>Adding a leaf\<close>

lemma leaf_grows:
  assumes tree: "mp_tree mp" and p: "path_ok p" "mp_walk mp p = Some t" "i < 512" "length p = 3 \<or> length p = 2 \<and> bit v 7"
    and free: "\<not> bit (mem_load64 (mp_mem mp) (entry_ptr t i)) 0" and tops: "p = [] \<or> hd p \<in> tops"
    and mp': "mp' = mp\<lparr>mp_mem := mem_store64 (entry_ptr t i) v (mp_mem mp)\<rparr>"
    and D: "\<And>va. mp_translate mp' va = mp_translate mp va \<or> va \<in> D \<and> mp_translate mp va = None"
  shows "grow tops D mp mp'"
proof (rule growI)
  from p(4) have leaf: "length p = 3 \<or> bit v 7" by auto
  note lw = leaf_write [OF tree p(1-3) leaf free]
  have walk: "mp_walk mp' q = mp_walk mp q" if "path_ok q" for q
    using lw(1) [OF that] by (simp add: mp')
  have "\<not> bit (entry_at (mp_mem mp') (mp_pml4 mp') q j) 7" if "path_ok q" "length q < 2" "j < 512" for q j
    using lw(2) [OF that(1,3)] treeD(6) [OF tree that] that(2) p(4) by (auto simp: mp')
  moreover have "aligned u \<and> page_at u \<subseteq> mp_owned mp'" if "path_ok q" "mp_walk mp' q = Some u" for q u
    using that treeD(3,4) [OF tree, of q u] by (simp add: walk) (simp add: mp')
  moreover have "q = q'" if "path_ok q" "path_ok q'" "mp_walk mp' q = Some u" "mp_walk mp' q' = Some u" for q q' u
    using that treeD(5) [OF tree that(1,2)] by (simp add: walk)
  moreover have "bump_ok (mp_bump mp')" "unat (ba_end (mp_bump mp')) \<le> 2 ^ 52"
    using treeD(1,2) [OF tree] by (simp_all add: mp')
  ultimately show "mp_tree mp'" by (intro treeI) blast+
  show "mp_walk mp' q = Some u" if "path_ok q" "mp_walk mp q = Some u" for q u using that by (simp add: walk)
  show "mp_walk mp q = Some u \<or> q \<noteq> [] \<and> hd q \<in> tops \<and> page_at u \<inter> mp_owned mp = {}" if "path_ok q" "mp_walk mp' q = Some u" for q u
    using that by (simp add: walk)
  show "x \<in> mp_owned mp' - mp_owned mp \<or> table_under tops mp x" if "mp_mem mp' x \<noteq> mp_mem mp x" for x
  proof -
    have "x \<in> span (entry_ptr t i) 8" using that mem_store64_out [of x "entry_ptr t i"] by (auto simp: mp')
    with entry_span(2) [OF treeD(3) [OF tree p(1,2)] p(3)] have "x \<in> page_at t" by blast
    with p tops show ?thesis unfolding table_under_def by blast
  qed
qed (use D in \<open>simp_all add: mp'\<close>)

text \<open>One \<^verbatim>\<open>ensure_table(..)?\<close> on the way down.\<close>

lemma try_ensure:
  assumes "grow tops D mp0 mp" and "mp_walk mp p = Some t" and "path_ok (p @ [i])" and "hd (p @ [i]) \<in> tops"
    and res: "try_st (ensure_table t i mp) k = (res, mp')"
  obtains (fail) e where "res = Err e" "grow tops D mp0 mp'"
  | (ok) new mp1 where "k new mp1 = (res, mp')" "grow tops D mp0 mp1" "mp_walk mp1 (p @ [i]) = Some new"
proof -
  obtain r mp1 where e: "ensure_table t i mp = (r, mp1)" by fastforce
  from ensure_table_grows [OF growD(1) [OF assms(1)] assms(3,2,4) e]
  have g: "grow tops D mp mp1" and r: "r \<noteq> Panic" "\<And>new. r = Ok new \<Longrightarrow> mp_walk mp1 (p @ [i]) = Some new" by auto
  from grow_trans [OF assms(1) g] res r show thesis
    by (cases r) (auto simp: e intro: fail ok)
qed

text \<open>The last level of \<^verbatim>\<open>map_4k\<close> and of \<^verbatim>\<open>map_2m\<close>, once the tables above are there.\<close>

definition put_4k :: "u64 \<Rightarrow> u64 \<Rightarrow> u64 \<Rightarrow> Mapper \<Rightarrow> unit mapping_result" where
  "put_4k virt phys pt mp =
     (let slot = entry_ptr pt (pt_index virt); current = mem_load64 (mp_mem mp) slot
      in if bit current 0 then
           (if current AND PHYS_MASK \<noteq> phys AND PHYS_MASK then (Err ''4k map conflict'', mp) else (Ok (), mp))
         else (Ok (), mp\<lparr>mp_mem := mem_store64 slot (leaf_4k phys) (mp_mem mp)\<rparr>))"

definition put_2m :: "u64 \<Rightarrow> u64 \<Rightarrow> u64 \<Rightarrow> Mapper \<Rightarrow> unit mapping_result" where
  "put_2m virt phys pd mp =
     (let slot = entry_ptr pd (pd_index virt); current = mem_load64 (mp_mem mp) slot
      in if bit current 0 then
           (if \<not> bit current 7 then (Err ''huge/4k page collision'', mp)
            else if current AND PHYS_MASK \<noteq> phys AND PHYS_MASK then (Err ''2m map conflict'', mp) else (Ok (), mp))
         else (Ok (), mp\<lparr>mp_mem := mem_store64 slot (leaf_2m phys) (mp_mem mp)\<rparr>))"

lemma map_4k_put:
  "map_4k virt phys mp =
     try_st (ensure_table (mp_pml4 mp) (pml4_index virt) mp) (\<lambda>pdpt mp.
     try_st (ensure_table pdpt (pdpt_index virt) mp) (\<lambda>pd mp.
     try_st (ensure_table pd (pd_index virt) mp) (\<lambda>pt mp. put_4k virt phys pt mp)))"
  unfolding map_4k_def put_4k_def leaf_4k_def Let_def and_single_zero not_not ..

lemma map_2m_put:
  "map_2m virt phys mp =
     try_st (ensure_table (mp_pml4 mp) (pml4_index virt) mp) (\<lambda>pdpt mp.
     try_st (ensure_table pdpt (pdpt_index virt) mp) (\<lambda>pd mp. put_2m virt phys pd mp))"
  unfolding map_2m_def put_2m_def leaf_2m_def Let_def and_single_zero not_not ..

lemma above_tables:
  "mp_walk mp [i, j, k] = Some t \<Longrightarrow> \<not> bit (entry_at (mp_mem mp) (mp_pml4 mp) [i, j] k) 7"
  "mp_walk mp [i, j, k] = Some t \<Longrightarrow> \<not> bit (entry_at (mp_mem mp) (mp_pml4 mp) [i] j) 7"
  "mp_walk mp [i, j] = Some t \<Longrightarrow> \<not> bit (entry_at (mp_mem mp) (mp_pml4 mp) [i] j) 7"
  by (auto simp: entry_at_def Let_def split: if_splits option.splits)

lemma put_4k_grows:
  assumes tree: "mp_tree mp" and walk: "mp_walk mp [pml4_index virt, pdpt_index virt, pd_index virt] = Some pt"
    and res: "put_4k virt phys pt mp = (res, mp')"
  shows "grow {pml4_index virt} {va. vpn va = vpn virt} mp mp' \<and> res \<noteq> Panic \<and>
    (res = Ok () \<longrightarrow> (\<forall>va. vpn va = vpn virt \<longrightarrow> mp_translate mp' va = Some ((phys AND PHYS_MASK) OR (va AND mask 12))))"
    (is "grow ?T ?D _ _ \<and> _")
proof -
  let ?p = "[pml4_index virt, pdpt_index virt, pd_index virt]"
  let ?e = "mem_load64 (mp_mem mp) (entry_ptr pt (pt_index virt))"
  have idx: "pml4_index va = pml4_index virt \<and> pdpt_index va = pdpt_index virt \<and> pd_index va = pd_index virt \<and>
      pt_index va = pt_index virt \<longleftrightarrow> vpn va = vpn virt" for va
    using indices_eq_iff [of va virt] by (simp add: indices_def)
  note above = above_tables(1,2) [OF walk]
  have e: "entry_at (mp_mem mp) (mp_pml4 mp) ?p (pt_index virt) = ?e" using walk by (simp add: entry_at_def)
  show ?thesis
  proof (cases "bit ?e 0")
    case True
    with res have "mp' = mp" "res = Ok () \<longleftrightarrow> ?e AND PHYS_MASK = phys AND PHYS_MASK" "res \<noteq> Panic"
      by (auto simp: put_4k_def Let_def split: if_splits)
    moreover have "mp_translate mp va = Some ((?e AND PHYS_MASK) OR (va AND mask 12))" if "vpn va = vpn virt" for va
      using idx [of va] that above True e by (simp add: translate_entries Let_def)
    ultimately show ?thesis using grow_refl [OF tree] by auto
  next
    case free: False
    with res have r: "res = Ok ()" and mp': "mp' = mp\<lparr>mp_mem := mem_store64 (entry_ptr pt (pt_index virt)) (leaf_4k phys) (mp_mem mp)\<rparr>"
      by (auto simp: put_4k_def Let_def)
    have ent: "entry_at (mp_mem mp') (mp_pml4 mp') q j =
        (if q = ?p \<and> j = pt_index virt then leaf_4k phys else entry_at (mp_mem mp) (mp_pml4 mp) q j)"
      if "path_ok q" "j < 512" for q j
      using leaf_write(2) [OF tree path_ok_simps(4) walk index_bound(4) _ free that] by (simp add: mp')
    have new: "mp_translate mp' va = Some ((phys AND PHYS_MASK) OR (va AND mask 12))" if "vpn va = vpn virt" for va
      using idx [of va] that above by (simp add: translate_entries Let_def ent leaf_bits)
    have old: "mp_translate mp' va = mp_translate mp va \<or> va \<in> ?D \<and> mp_translate mp va = None" for va
      using idx [of va] above e free by (cases "vpn va = vpn virt") (auto simp: translate_entries Let_def ent)
    have "grow ?T ?D mp mp'"
      using old by (intro leaf_grows [OF tree path_ok_simps(4) walk index_bound(4) _ free _ mp']) simp_all
    with r new show ?thesis by blast
  qed
qed

lemma put_2m_grows:
  assumes tree: "mp_tree mp" and walk: "mp_walk mp [pml4_index virt, pdpt_index virt] = Some pd"
    and res: "put_2m virt phys pd mp = (res, mp')"
  shows "grow {pml4_index virt} {va. vpn va div 512 = vpn virt div 512} mp mp' \<and> res \<noteq> Panic \<and>
    (res = Ok () \<longrightarrow> (\<forall>va. vpn va div 512 = vpn virt div 512 \<longrightarrow>
       mp_translate mp' va = Some ((phys AND PHYS_MASK AND NOT (mask 21)) OR (va AND mask 21))))"
    (is "grow ?T ?D _ _ \<and> _")
proof -
  let ?p = "[pml4_index virt, pdpt_index virt]"
  let ?e = "mem_load64 (mp_mem mp) (entry_ptr pd (pd_index virt))"
  have idx: "pml4_index va = pml4_index virt \<and> pdpt_index va = pdpt_index virt \<and> pd_index va = pd_index virt \<longleftrightarrow>
      vpn va div 512 = vpn virt div 512" for va
    using indices3_eq_iff [of va virt] by (simp add: indices_def)
  note above = above_tables(3) [OF walk]
  have e: "entry_at (mp_mem mp) (mp_pml4 mp) ?p (pd_index virt) = ?e" using walk by (simp add: entry_at_def)
  have below: "entry_at (mp_mem mp) (mp_pml4 mp) [pml4_index virt, pdpt_index virt, pd_index virt] j = 0" if "\<not> bit ?e 0" for j
    using walk that by (auto simp: entry_at_def Let_def split: if_splits)
  show ?thesis
  proof (cases "bit ?e 0")
    case True
    with res have "mp' = mp" "res = Ok () \<longleftrightarrow> bit ?e 7 \<and> ?e AND PHYS_MASK = phys AND PHYS_MASK" "res \<noteq> Panic"
      by (auto simp: put_2m_def Let_def split: if_splits)
    moreover have "mp_translate mp va = Some ((?e AND PHYS_MASK AND NOT (mask 21)) OR (va AND mask 21))"
      if "vpn va div 512 = vpn virt div 512" "bit ?e 7" for va
      using idx [of va] that above True e by (simp add: translate_entries Let_def)
    ultimately show ?thesis using grow_refl [OF tree] by (auto simp flip: and.assoc)
  next
    case free: False
    with res have r: "res = Ok ()" and mp': "mp' = mp\<lparr>mp_mem := mem_store64 (entry_ptr pd (pd_index virt)) (leaf_2m phys) (mp_mem mp)\<rparr>"
      by (auto simp: put_2m_def Let_def)
    have ent: "entry_at (mp_mem mp') (mp_pml4 mp') q j =
        (if q = ?p \<and> j = pd_index virt then leaf_2m phys else entry_at (mp_mem mp) (mp_pml4 mp) q j)"
      if "path_ok q" "j < 512" for q j
      using leaf_write(2) [OF tree path_ok_simps(3) walk index_bound(3) _ free that] by (simp add: mp' leaf_bits)
    have new: "mp_translate mp' va = Some ((phys AND PHYS_MASK AND NOT (mask 21)) OR (va AND mask 21))"
      if "vpn va div 512 = vpn virt div 512" for va
      using idx [of va] that above by (simp add: translate_entries Let_def ent leaf_bits flip: and.assoc)
    have old: "mp_translate mp' va = mp_translate mp va \<or> va \<in> ?D \<and> mp_translate mp va = None" for va
      using idx [of va] above e free below [OF free]
      by (cases "vpn va div 512 = vpn virt div 512") (auto simp: translate_entries Let_def ent)
    have "grow ?T ?D mp mp'"
      using old by (intro leaf_grows [OF tree path_ok_simps(3) walk index_bound(3) _ free _ mp']) (simp_all add: leaf_bits)
    with r new show ?thesis by blast
  qed
qed

lemma map_4k_grows:
  assumes tree: "mp_tree mp" and res: "map_4k virt phys mp = (res, mp')"
  shows "grow {pml4_index virt} {va. vpn va = vpn virt} mp mp' \<and> res \<noteq> Panic \<and>
    (res = Ok () \<longrightarrow> (\<forall>va. vpn va = vpn virt \<longrightarrow> mp_translate mp' va = Some ((phys AND PHYS_MASK) OR (va AND mask 12))))"
    (is "grow ?T ?D _ _ \<and> _")
proof -
  have h: "path_ok ([] @ [pml4_index virt])" "hd ([] @ [pml4_index virt]) \<in> ?T"
    "path_ok (([] @ [pml4_index virt]) @ [pdpt_index virt])" "hd (([] @ [pml4_index virt]) @ [pdpt_index virt]) \<in> ?T"
    "path_ok ((([] @ [pml4_index virt]) @ [pdpt_index virt]) @ [pd_index virt])"
    "hd ((([] @ [pml4_index virt]) @ [pdpt_index virt]) @ [pd_index virt]) \<in> ?T" by simp_all
  from grow_refl [OF tree, of ?T ?D] walk.simps(1) h(1,2) res [unfolded map_4k_put] show ?thesis
  proof (cases rule: try_ensure)
    case (ok pdpt mp1)
    from ok(2,3) h(3,4) ok(1) show ?thesis
    proof (cases rule: try_ensure)
      case (ok pd mp2)
      from ok(2,3) h(5,6) ok(1) show ?thesis
      proof (cases rule: try_ensure)
        case (ok pt mp3)
        from put_4k_grows [OF growD(1) [OF ok(2)] _ ok(1)] ok(3) grow_trans [OF ok(2)] show ?thesis by auto
      qed auto
    qed auto
  qed auto
qed

lemma map_2m_grows:
  assumes tree: "mp_tree mp" and res: "map_2m virt phys mp = (res, mp')"
  shows "grow {pml4_index virt} {va. vpn va div 512 = vpn virt div 512} mp mp' \<and> res \<noteq> Panic \<and>
    (res = Ok () \<longrightarrow> (\<forall>va. vpn va div 512 = vpn virt div 512 \<longrightarrow>
       mp_translate mp' va = Some ((phys AND PHYS_MASK AND NOT (mask 21)) OR (va AND mask 21))))"
    (is "grow ?T ?D _ _ \<and> _")
proof -
  have h: "path_ok ([] @ [pml4_index virt])" "hd ([] @ [pml4_index virt]) \<in> ?T"
    "path_ok (([] @ [pml4_index virt]) @ [pdpt_index virt])" "hd (([] @ [pml4_index virt]) @ [pdpt_index virt]) \<in> ?T"
    by simp_all
  from grow_refl [OF tree, of ?T ?D] walk.simps(1) h(1,2) res [unfolded map_2m_put] show ?thesis
  proof (cases rule: try_ensure)
    case (ok pdpt mp1)
    from ok(2,3) h(3,4) ok(1) show ?thesis
    proof (cases rule: try_ensure)
      case (ok pd mp2)
      from put_2m_grows [OF growD(1) [OF ok(2)] _ ok(1)] ok(3) grow_trans [OF ok(2)] show ?thesis by auto
    qed auto
  qed auto
qed

section \<open>Ranges\<close>

text \<open>
  The virtual addresses a range of \<open>len\<close> bytes from \<open>virt\<close> covers. Only 48 bits of an address
  select entries, so the range is taken modulo \<open>2 ^ 48\<close>.
\<close>

definition covers :: "u64 \<Rightarrow> nat \<Rightarrow> u64 \<Rightarrow> bool" where
  "covers virt len va \<longleftrightarrow> unat ((va - virt) AND mask 48) < len"

lemma vpn_offset:
  assumes "aligned virt"
  shows "vpn va = (vpn virt + unat ((va - virt) AND mask 48) div 4096) mod 2 ^ 36"
proof -
  let ?d = "unat (va - virt)"
  from assms obtain k where k: "unat virt = 4096 * k" by (rule dvdE)
  have "unat va = unat (virt + (va - virt))" by simp
  also have "\<dots> = (4096 * k + ?d) mod 2 ^ 64" unfolding unat_word_ariths(1) k by simp
  finally have va: "unat va = (4096 * k + ?d) mod (4096 * 2 ^ 52)" by simp
  have "unat va div 4096 = (k + ?d div 4096) mod 2 ^ 52" unfolding va by (subst mod_then_div) simp_all
  then have "vpn va = (k + ?d div 4096) mod 2 ^ 52 mod 2 ^ 36" by (simp only: vpn_def)
  also have "\<dots> = (k + ?d div 4096) mod 2 ^ 36" by (rule mod_mod_cancel) (simp add: le_imp_power_dvd)
  also have "\<dots> = (k mod 2 ^ 36 + ?d div 4096 mod 2 ^ 36) mod 2 ^ 36" by (rule mod_add_eq [symmetric])
  also have "?d div 4096 mod 2 ^ 36 = ?d mod (4096 * 2 ^ 36) div 4096" by (subst mod_then_div) simp_all
  also have "?d mod (4096 * 2 ^ 36) = unat ((va - virt) AND mask 48)" by (simp add: unat_and_mask)
  also have "k mod 2 ^ 36 = vpn virt" by (simp add: vpn_def k)
  finally show ?thesis .
qed

lemma covers_bound: "unat ((va - virt) AND mask 48 :: u64) div 4096 < 2 ^ 36"
  by (rule less_mult_imp_div_less) (simp add: unat_and_mask)

lemma add_mod_same:
  fixes a d n :: nat
  assumes "d < n" and "a < n"
  shows "(a + d) mod n = a \<longleftrightarrow> d = 0"
proof (cases "a + d < n")
  case False
  then have "(a + d) mod n = a + d - n" using assms by (simp add: le_mod_geq)
  with False assms show ?thesis by auto
qed auto

lemma vpn_eq_covers: "aligned virt \<Longrightarrow> vpn va = vpn virt \<longleftrightarrow> covers virt 4096 va"
  using vpn_offset [of virt va] add_mod_same [OF covers_bound [of va virt], of "vpn virt"]
  by (simp add: covers_def vpn_def div_eq_0_iff)

lemma vpn_eq_covers_2m:
  assumes "2 ^ 21 dvd unat virt"
  shows "vpn va div 512 = vpn virt div 512 \<longleftrightarrow> covers virt (2 ^ 21) va"
proof -
  let ?e = "unat ((va - virt) AND mask 48) div 4096"
  from assms obtain k where k: "unat virt = 2 ^ 21 * k" by (rule dvdE)
  have al: "aligned virt" using k by simp
  have "vpn virt = 512 * k mod 2 ^ 36" by (simp add: vpn_def k)
  then have v: "vpn virt = 512 * (k mod 2 ^ 27)" by (simp add: mult_mod_right)
  have "vpn va = (512 * (k mod 2 ^ 27) + ?e) mod (512 * 2 ^ 27)" using vpn_offset [OF al, of va] by (simp add: v)
  then have "vpn va div 512 = (k mod 2 ^ 27 + ?e div 512) mod 2 ^ 27" by (simp only:) (subst mod_then_div, simp_all)
  moreover have "?e div 512 < 2 ^ 27" using covers_bound [of va virt] by (intro less_mult_imp_div_less) simp
  then have "(k mod 2 ^ 27 + ?e div 512) mod 2 ^ 27 = k mod 2 ^ 27 \<longleftrightarrow> ?e div 512 = 0"
    by (rule add_mod_same) simp
  ultimately show ?thesis by (simp add: v covers_def div_eq_0_iff less_mult_imp_div_less div_less_iff_less_mult)
qed

lemma low_bits:
  fixes va virt :: u64
  assumes "2 ^ k dvd unat virt" and "unat (va - virt) < 2 ^ k" and "k \<le> 64"
  shows "va AND mask k = va - virt"
proof -
  have "unat va = (unat virt + unat (va - virt)) mod 2 ^ 64"
    using unat_word_ariths(1) [of virt "va - virt"] by simp
  then have "unat va mod 2 ^ k = (unat virt + unat (va - virt)) mod 2 ^ k"
    by (simp only: mod_mod_cancel [OF le_imp_power_dvd [OF assms(3)]])
  also have "\<dots> = unat (va - virt)" using assms(1,2) by (simp add: mod_add_left_eq [symmetric])
  finally show ?thesis by (simp add: word_unat_eq_iff unat_and_mask)
qed

lemma dvd_unat_add:
  fixes x y :: u64
  assumes "2 ^ k dvd unat x" and "2 ^ k dvd unat y" and "k \<le> 64"
  shows "2 ^ k dvd unat (x + y)"
proof -
  have "(2::nat) ^ k dvd 2 ^ 64" using assms(3) by (rule le_imp_power_dvd)
  with assms show ?thesis by (simp add: unat_word_ariths(1) dvd_mod)
qed

lemma leaf_address:
  fixes va virt phys :: u64
  assumes "2 ^ k dvd unat virt" "2 ^ k dvd unat phys" "unat phys < 2 ^ 52" "unat (va - virt) < 2 ^ k" "12 \<le> k" "k \<le> 64"
  shows "(phys AND PHYS_MASK AND NOT (mask k)) OR (va AND mask k) = phys + (va - virt)"
    and "(phys AND PHYS_MASK) OR (va AND mask k) = phys + (va - virt)"
proof -
  have "(2::nat) ^ 12 dvd 2 ^ k" using assms(5) by (rule le_imp_power_dvd)
  then have "aligned phys" using assms(2) by (auto elim: dvd_trans)
  then have id: "phys AND PHYS_MASK = phys" using assms(3) by (rule frame_id)
  have "unat (phys AND NOT (mask k)) = unat phys" using assms(2) by (simp add: unat_and_not_mask)
  then have "phys AND NOT (mask k) = phys" by (simp add: word_unat_eq_iff)
  then have id': "phys AND PHYS_MASK AND NOT (mask k) = phys" using id by (simp flip: and.assoc)
  show "(phys AND PHYS_MASK AND NOT (mask k)) OR (va AND mask k) = phys + (va - virt)"
    "(phys AND PHYS_MASK) OR (va AND mask k) = phys + (va - virt)"
    unfolding id id' using or_offset [OF assms(2), of va] low_bits [OF assms(1,4,6)] by simp_all
qed

lemma covers_mono: "covers virt n va \<Longrightarrow> n \<le> k \<Longrightarrow> covers virt k va"
  by (simp add: covers_def)

lemma covers_rest:
  assumes "covers (virt + step) (unat (len - step)) va" and "step \<le> len"
  shows "covers virt (unat len) va"
proof (cases "unat ((va - virt) AND mask 48) < unat step")
  case True
  with assms(2) show ?thesis by (simp add: covers_def word_le_nat_alt)
next
  case False
  let ?d = "unat (va - virt)"
  from False have ge: "unat step \<le> ?d mod 2 ^ 48" by (simp add: unat_and_mask)
  then have "unat step \<le> ?d" by (meson le_trans mod_less_eq_dividend)
  then have "unat (va - virt - step) = ?d - unat step" by (simp add: unat_sub word_le_nat_alt)
  moreover have "(?d - unat step) mod 2 ^ 48 = ?d mod 2 ^ 48 - unat step"
  proof -
    have "?d - unat step = ?d div 2 ^ 48 * 2 ^ 48 + (?d mod 2 ^ 48 - unat step)" using ge by simp
    then show ?thesis by (metis mod_less less_imp_diff_less mod_less_divisor mod_mult_self3 zero_less_numeral zero_less_power)
  qed
  ultimately have "unat ((va - (virt + step)) AND mask 48) = ?d mod 2 ^ 48 - unat step"
    by (simp add: unat_and_mask diff_diff_eq)
  with assms ge show ?thesis by (simp add: covers_def unat_and_mask unat_sub word_le_nat_alt)
qed

text \<open>One pass of the loop maps one chunk, of 4 KiB or of 2 MiB.\<close>

definition huge_chunk :: "u64 \<Rightarrow> u64 \<Rightarrow> u64 \<Rightarrow> bool" where
  "huge_chunk virt phys len \<longleftrightarrow> HUGE_2M \<le> len \<and> (virt OR phys) AND (HUGE_2M - 1) = 0"

definition chunk :: "u64 \<Rightarrow> u64 \<Rightarrow> u64 \<Rightarrow> u64" where
  "chunk virt phys len = (if huge_chunk virt phys len then HUGE_2M else PAGE)"

definition map_chunk :: "u64 \<Rightarrow> u64 \<Rightarrow> u64 \<Rightarrow> Mapper \<Rightarrow> unit mapping_result" where
  "map_chunk virt phys len mp = (if huge_chunk virt phys len then map_2m virt phys mp else map_4k virt phys mp)"

lemma map_loop_chunk:
  "map_loop virt phys len mp = (if len < PAGE then (Ok (), mp)
     else try_st (map_chunk virt phys len mp) (\<lambda>_ mp.
       map_loop (virt + chunk virt phys len) (phys + chunk virt phys len) (len - chunk virt phys len) mp))"
  by (simp add: map_loop.simps [of virt phys len mp] huge_chunk_def chunk_def map_chunk_def)

lemma chunk_facts:
  assumes "\<not> len < PAGE"
  shows "chunk virt phys len \<le> len" and "0 < chunk virt phys len" and "aligned (chunk virt phys len)"
  using assms by (auto simp: chunk_def huge_chunk_def HUGE_2M_def PAGE_def)

lemma huge_chunk_aligned:
  assumes "huge_chunk virt phys len"
  shows "2 ^ 21 dvd unat virt" and "2 ^ 21 dvd unat phys"
proof -
  have m: "HUGE_2M - 1 = mask 21" by (simp add: HUGE_2M_def mask_eq_exp_minus_1)
  have "(virt OR phys) AND mask 21 = 0" using assms by (simp add: huge_chunk_def m)
  then have "(virt AND mask 21) OR (phys AND mask 21) = 0" by (simp add: bit.conj_disj_distrib2)
  then have "virt AND mask 21 = 0" "phys AND mask 21 = 0" by (simp_all add: or_eq_0_iff)
  then have "unat (virt AND mask 21) = 0" "unat (phys AND mask 21) = 0" by simp_all
  then show "2 ^ 21 dvd unat virt" "2 ^ 21 dvd unat phys" unfolding unat_and_mask by (simp_all add: dvd_eq_mod_eq_0)
qed

lemma map_chunk_grows:
  assumes tree: "mp_tree mp" and al: "aligned virt" "aligned phys" and res: "map_chunk virt phys len mp = (res, mp')"
  shows "grow {pml4_index virt} {va. covers virt (unat (chunk virt phys len)) va} mp mp' \<and> res \<noteq> Panic \<and>
    (res = Ok () \<and> unat phys < 2 ^ 52 \<longrightarrow>
      (\<forall>va. unat (va - virt) < unat (chunk virt phys len) \<longrightarrow> mp_translate mp' va = Some (phys + (va - virt))))"
proof (cases "huge_chunk virt phys len")
  case True
  note dv = huge_chunk_aligned [OF True]
  have size: "unat (chunk virt phys len) = 2 ^ 21" using True by (simp add: chunk_def HUGE_2M_def)
  note eq = vpn_eq_covers_2m [OF dv(1)]
  have in_2m: "covers virt (2 ^ 21) va" if "unat (va - virt) < 2 ^ 21" for va
    using that by (simp add: covers_def unat_and_mask le_less_trans [OF mod_less_eq_dividend])
  from map_2m_grows [OF tree, of virt phys res mp', unfolded eq] True res have
    "grow {pml4_index virt} {va. covers virt (2 ^ 21) va} mp mp'" "res \<noteq> Panic"
    "res = Ok () \<Longrightarrow> covers virt (2 ^ 21) va \<Longrightarrow>
       mp_translate mp' va = Some ((phys AND PHYS_MASK AND NOT (mask 21)) OR (va AND mask 21))" for va
    by (simp_all add: map_chunk_def)
  with leaf_address(1) [OF dv] in_2m show ?thesis unfolding size by simp
next
  case False
  have size: "unat (chunk virt phys len) = 4096" using False by (simp add: chunk_def PAGE_def)
  note eq = vpn_eq_covers [OF al(1)]
  have in_4k: "covers virt 4096 va" if "unat (va - virt) < 4096" for va
    using that by (simp add: covers_def unat_and_mask le_less_trans [OF mod_less_eq_dividend])
  have dv: "2 ^ 12 dvd unat virt" "2 ^ 12 dvd unat phys" using al by simp_all
  from map_4k_grows [OF tree, of virt phys res mp', unfolded eq] False res have
    "grow {pml4_index virt} {va. covers virt 4096 va} mp mp'" "res \<noteq> Panic"
    "res = Ok () \<Longrightarrow> covers virt 4096 va \<Longrightarrow> mp_translate mp' va = Some ((phys AND PHYS_MASK) OR (va AND mask 12))" for va
    by (simp_all add: map_chunk_def)
  with leaf_address(2) [OF dv] in_4k show ?thesis unfolding size by simp
qed

lemma map_loop_grows:
  assumes "mp_tree mp" and "aligned virt" and "aligned phys" and "aligned len"
    and "map_loop virt phys len mp = (res, mp')"
  shows "grow {pml4_index va |va. covers virt (unat len) va} {va. covers virt (unat len) va} mp mp' \<and> res \<noteq> Panic \<and>
    (res = Ok () \<and> unat phys + unat len \<le> 2 ^ 52 \<longrightarrow>
      (\<forall>va. unat (va - virt) < unat len \<longrightarrow> mp_translate mp' va = Some (phys + (va - virt))))"
  using assms
proof (induction "unat len" arbitrary: virt phys len mp rule: less_induct)
  case less
  let ?T = "{pml4_index va |va. covers virt (unat len) va}" and ?D = "{va. covers virt (unat len) va}"
  show ?case
  proof (cases "len < PAGE")
    case True
    then have "unat len < 4096" by (simp add: word_less_nat_alt unat_PAGE)
    with less.prems(4) have "unat len = 0" by (auto elim!: dvdE)
    with True less.prems(5) grow_refl [OF less.prems(1)] show ?thesis by (auto simp: map_loop_chunk [of virt phys len])
  next
    case False
    let ?c = "chunk virt phys len"
    note c = chunk_facts [OF False, of virt phys]
    have c': "unat ?c \<le> unat len" using c(1) by (simp add: word_le_nat_alt)
    have rest: "unat (len - ?c) = unat len - unat ?c" using c(1) by (rule unat_sub)
    obtain r1 mp1 where one: "map_chunk virt phys len mp = (r1, mp1)" by fastforce
    note g1 = map_chunk_grows [OF less.prems(1-3) one]
    have "covers virt (unat len) virt" using False by (simp add: covers_def word_less_nat_alt unat_PAGE)
    then have g: "grow ?T ?D mp mp1"
      by (intro grow_mono [OF conjunct1 [OF g1]]) (auto intro: covers_mono c')
    show ?thesis
    proof (cases r1)
      case (Ok u)
      with less.prems(5) False one have loop: "map_loop (virt + ?c) (phys + ?c) (len - ?c) mp1 = (res, mp')"
        by (simp add: map_loop_chunk [of virt phys len])
      have al: "aligned (virt + ?c)" "aligned (phys + ?c)" "aligned (len - ?c)"
        using dvd_unat_add [of 12 virt ?c] dvd_unat_add [of 12 phys ?c] less.prems(2-4) c(3) by (simp_all add: rest)
      have "unat (len - ?c) < unat len" using c(2) c' by (simp add: rest word_less_nat_alt)
      note IH = less.hyps [OF this growD(1) [OF g] al loop]
      have g2: "grow ?T ?D mp1 mp'"
        using covers_rest [OF _ c(1)] by (intro grow_mono [OF conjunct1 [OF IH]]) auto
      have "mp_translate mp' va = Some (phys + (va - virt))"
        if "res = result.Ok ()" "unat phys + unat len \<le> 2 ^ 52" "unat (va - virt) < unat len" for va
      proof (cases "unat (va - virt) < unat ?c")
        case True
        have "unat phys < 2 ^ 52" using that(2) True c' by simp
        with g1 Ok True have "mp_translate mp1 va = Some (phys + (va - virt))" by simp
        with growD(6) [OF g2, of va] show ?thesis by auto
      next
        case False
        then have "unat (va - virt - ?c) = unat (va - virt) - unat ?c" by (simp add: unat_sub word_le_nat_alt)
        then have d: "unat (va - (virt + ?c)) < unat (len - ?c)"
          using that(3) False by (simp add: rest diff_diff_eq)
        have "unat (phys + ?c) = unat phys + unat ?c" using that(2) c' by (intro unat_add_no_overflow) simp
        with IH that d have "mp_translate mp' va = Some (phys + ?c + (va - (virt + ?c)))" by (simp add: rest)
        then show ?thesis by simp
      qed
      with grow_trans [OF g g2] IH show ?thesis by blast
    qed (use g g1 one less.prems(5) False in \<open>auto simp: map_loop_chunk [of virt phys len]\<close>)
  qed
qed

section \<open>What map_range does\<close>

lemma page_bits:
  "x AND (PAGE - 1) = 0 \<longleftrightarrow> aligned x" "unat (len AND NOT (PAGE - 1)) = unat len div 4096 * 4096"
proof -
  show "x AND (PAGE - 1) = 0 \<longleftrightarrow> aligned x"
    using unat_and_mask [of x 12] by (simp add: page_mask word_unat_eq_iff dvd_eq_mod_eq_0)
  show "unat (len AND NOT (PAGE - 1)) = unat len div 4096 * 4096"
    using unat_and_not_mask [of len 12] by (simp add: page_mask)
qed

lemma map_range_grows:
  assumes tree: "mp_tree mp" and res: "map_range virt phys len mp = (res, mp')"
  shows "grow {pml4_index va |va. covers virt (unat len) va} {va. covers virt (unat len) va} mp mp' \<and> res \<noteq> Panic \<and>
    (res = Ok () \<and> unat phys + unat len \<le> 2 ^ 52 \<longrightarrow>
      (\<forall>va. unat (va - virt) < unat len div 4096 * 4096 \<longrightarrow> mp_translate mp' va = Some (phys + (va - virt))))"
proof (cases "aligned virt \<and> aligned phys")
  case True
  let ?len = "len AND NOT (PAGE - 1)"
  note l = page_bits(2) [of len]
  from True res have loop: "map_loop virt phys ?len mp = (res, mp')"
    by (simp add: map_range_def page_bits(1))
  from True l have "aligned virt" "aligned phys" "aligned ?len" by simp_all
  note g = map_loop_grows [OF tree this loop, unfolded l]
  have "grow {pml4_index va |va. covers virt (unat len) va} {va. covers virt (unat len) va} mp mp'"
    using covers_mono [of virt "unat len div 4096 * 4096" _ "unat len"]
    by (intro grow_mono [OF conjunct1 [OF g]]) auto
  moreover have "unat len div 4096 * 4096 \<le> unat len" by simp
  ultimately show ?thesis using g by auto
next
  case False
  with res have "res = Err ''map_range not 4k aligned''" "mp' = mp"
    by (auto simp: map_range_def page_bits(1))
  with grow_refl [OF tree] show ?thesis by simp
qed

text \<open>
  The mapper as a system that only grows: a step is a call of \<^verbatim>\<open>map_range\<close>, whatever its outcome.
\<close>

definition map_step :: "Mapper \<Rightarrow> u64 \<times> u64 \<times> u64 \<Rightarrow> Mapper \<Rightarrow> bool" where
  "map_step mp l mp' \<longleftrightarrow> (case l of (virt, phys, len) \<Rightarrow> \<exists>res. map_range virt phys len mp = (res, mp'))"

definition keeps_translations :: "Mapper \<Rightarrow> Mapper \<Rightarrow> bool" where
  "keeps_translations mp mp' \<longleftrightarrow> mp_pml4 mp' = mp_pml4 mp \<and>
     (\<forall>va pa. mp_translate mp va = Some pa \<longrightarrow> mp_translate mp' va = Some pa)"

lemma grow_keeps: "grow tops D mp mp' \<Longrightarrow> keeps_translations mp mp'"
proof -
  assume g: "grow tops D mp mp'"
  show ?thesis unfolding keeps_translations_def using growD(2) [OF g] growD(6) [OF g] by (metis option.distinct(1))
qed

interpretation page_tables: monotone_system map_step mp_tree keeps_translations
proof
  have g: "\<exists>tops D. grow tops D mp mp'" if "mp_tree mp" "map_step mp l mp'" for mp l mp'
    using that map_range_grows [OF that(1)] unfolding map_step_def by (cases l) blast
  show "mp_tree mp'" if "mp_tree mp" "map_step mp l mp'" for mp l mp'
    using g [OF that] growD(1) by blast
  show "keeps_translations mp mp'" if "mp_tree mp" "map_step mp l mp'" for mp l mp'
    using g [OF that] grow_keeps by blast
qed (auto simp: keeps_translations_def)

end
