(* ===== verification/Paging_Progress.thy ===== *)
theory Paging_Progress
  imports Paging_Map
begin

text \<open>
  When mapping succeeds: a range below 2 MiB that is not mapped yet can be mapped as long as the
  allocator has three pages for tables per page of the range.
\<close>

definition room :: "nat \<Rightarrow> BumpAllocator \<Rightarrow> bool" where
  "room n b \<longleftrightarrow> unat (ba_cursor b) + n * 4096 \<le> unat (ba_end b)"

lemma room_mono: "room n b \<Longrightarrow> k \<le> n \<Longrightarrow> room k b"
  unfolding room_def by (meson add_left_mono le_trans mult_le_mono1)

lemma alloc_pages_room:
  assumes "bump_ok b" and "room (unat n + k) b"
  obtains p v b' where "alloc_pages n b = Some ((p, v), b')" "room k b'"
proof -
  have "unat n * 4096 \<le> unat (ba_end b) - unat (ba_cursor b)"
    using assms(2) by (simp add: room_def algebra_simps)
  then obtain p v b' where a: "alloc_pages n b = Some ((p, v), b')"
    by (auto simp: alloc_pages_eq [OF assms(1)])
  from alloc_pages_Some [OF assms(1) a] assms(2) have "room k b'" by (simp add: room_def algebra_simps)
  with a that show thesis by blast
qed

lemma alloc_table_room:
  assumes "bump_ok (mp_bump mp)" and "room (Suc k) (mp_bump mp)"
  obtains new mp' where "alloc_table mp = (Ok new, mp')" "room k (mp_bump mp')"
proof -
  have "room (unat (1 :: u64) + k) (mp_bump mp)" using assms(2) by simp
  from alloc_pages_room [OF assms(1) this] obtain p v b' where "alloc_pages 1 (mp_bump mp) = Some ((p, v), b')" "room k b'" .
  then show thesis using that by (simp add: alloc_table_def)
qed

lemma ensure_table_room:
  assumes tree: "mp_tree mp" and p: "mp_walk mp p = Some t"
    and huge: "\<not> (bit (entry_at (mp_mem mp) (mp_pml4 mp) p i) 0 \<and> bit (entry_at (mp_mem mp) (mp_pml4 mp) p i) 7)"
    and room: "room (Suc k) (mp_bump mp)"
  obtains new mp' where "ensure_table t i mp = (Ok new, mp')" "room k (mp_bump mp')"
proof (cases "bit (mem_load64 (mp_mem mp) (entry_ptr t i)) 0")
  case True
  with huge p have "ensure_table t i mp = (Ok (mem_load64 (mp_mem mp) (entry_ptr t i) AND PHYS_MASK), mp)"
    by (simp add: ensure_table_def Let_def and_single_zero entry_at_def)
  with room_mono [OF room] that show thesis by simp
next
  case False
  from alloc_table_room [OF treeD(1) [OF tree] room] obtain new mp1
    where "alloc_table mp = (Ok new, mp1)" "room k (mp_bump mp1)" .
  with False that show thesis by (simp add: ensure_table_def Let_def and_single_zero)
qed

text \<open>One level of the way down succeeds and changes no translation.\<close>

lemma ensure_level:
  assumes tree: "mp_tree mp" and p: "path_ok (p @ [i])" "mp_walk mp p = Some t"
    and huge: "\<not> (bit (entry_at (mp_mem mp) (mp_pml4 mp) p i) 0 \<and> bit (entry_at (mp_mem mp) (mp_pml4 mp) p i) 7)"
    and room: "room (Suc k) (mp_bump mp)"
  obtains new mp' where "ensure_table t i mp = (Ok new, mp')" "room k (mp_bump mp')" "mp_tree mp'"
    "mp_walk mp' (p @ [i]) = Some new" "\<And>va. mp_translate mp' va = mp_translate mp va"
proof -
  from ensure_table_room [OF tree p(2) huge room] obtain new mp'
    where e: "ensure_table t i mp = (Ok new, mp')" and r: "room k (mp_bump mp')" .
  from ensure_table_grows [OF tree p _ e, of UNIV "{}"] have g: "grow UNIV {} mp mp'" and w: "mp_walk mp' (p @ [i]) = Some new"
    by auto
  from that [OF e r growD(1) [OF g] w] growD(6) [OF g] show thesis by blast
qed

lemma no_leaf_above:
  assumes "mp_translate mp va = None"
  shows "\<not> (bit (entry_at (mp_mem mp) (mp_pml4 mp) [pml4_index va, pdpt_index va] (pd_index va)) 0 \<and>
    bit (entry_at (mp_mem mp) (mp_pml4 mp) [pml4_index va, pdpt_index va] (pd_index va)) 7)"
    and "\<not> bit (entry_at (mp_mem mp) (mp_pml4 mp) [pml4_index va, pdpt_index va, pd_index va] (pt_index va)) 0"
  using assms by (auto simp: translate_entries Let_def split: if_splits)

lemma map_4k_room:
  assumes tree: "mp_tree mp" and free: "mp_translate mp virt = None" and room: "room (k + 3) (mp_bump mp)"
  obtains mp' where "map_4k virt phys mp = (Ok (), mp')" "room k (mp_bump mp')"
proof -
  have r: "room (Suc (Suc (Suc k))) (mp_bump mp)" using room by (simp add: eval_nat_numeral)
  obtain pdpt mp1 where 1: "ensure_table (mp_pml4 mp) (pml4_index virt) mp = (Ok pdpt, mp1)" "room (Suc (Suc k)) (mp_bump mp1)"
    "mp_tree mp1" "mp_walk mp1 ([] @ [pml4_index virt]) = Some pdpt" "\<And>va. mp_translate mp1 va = mp_translate mp va"
    by (rule ensure_level [OF tree _ _ _ r, of "[]" "pml4_index virt" "mp_pml4 mp"]) (use treeD(6) [OF tree, of "[]"] in auto)
  obtain pd mp2 where 2: "ensure_table pdpt (pdpt_index virt) mp1 = (Ok pd, mp2)" "room (Suc k) (mp_bump mp2)"
    "mp_tree mp2" "mp_walk mp2 ([pml4_index virt] @ [pdpt_index virt]) = Some pd" "\<And>va. mp_translate mp2 va = mp_translate mp1 va"
    by (rule ensure_level [OF 1(3) _ _ _ 1(2), of "[pml4_index virt]" "pdpt_index virt" pdpt])
      (use 1(4) treeD(6) [OF 1(3), of "[pml4_index virt]"] in auto)
  obtain pt mp3 where 3: "ensure_table pd (pd_index virt) mp2 = (Ok pt, mp3)" "room k (mp_bump mp3)"
    "mp_tree mp3" "mp_walk mp3 ([pml4_index virt, pdpt_index virt] @ [pd_index virt]) = Some pt"
    "\<And>va. mp_translate mp3 va = mp_translate mp2 va"
    by (rule ensure_level [OF 2(3) _ _ _ 2(2), of "[pml4_index virt, pdpt_index virt]" "pd_index virt" pd])
      (use 2(4) no_leaf_above(1) [of mp2 virt] free 1(5) 2(5) in auto)
  have "mp_translate mp3 virt = None" using free 1(5) 2(5) 3(5) by simp
  from no_leaf_above(2) [OF this] 3(4) have "\<not> bit (mem_load64 (mp_mem mp3) (entry_ptr pt (pt_index virt))) 0"
    by (simp add: entry_at_def)
  then obtain mp' where "put_4k virt phys pt mp3 = (Ok (), mp')" "mp_bump mp' = mp_bump mp3"
    by (simp add: put_4k_def Let_def)
  with that 1(1) 2(1) 3(1,2) show thesis by (simp add: map_4k_put)
qed

lemma covers_apart:
  fixes virt step len :: u64
  assumes "covers virt (unat step) va" and "covers (virt + step) (unat (len - step)) va"
    and "step \<le> len" and "unat len \<le> 2 ^ 48"
  shows False
proof -
  define y where "y = unat ((va - (virt + step)) AND mask 48)"
  have y: "y + unat step < 2 ^ 48"
    using assms(2-4) by (simp add: y_def covers_def unat_sub word_le_nat_alt)
  have "unat (va - virt) = unat ((va - (virt + step)) + step)" by (simp add: algebra_simps)
  then have "unat (va - virt) = (unat (va - (virt + step)) + unat step) mod 2 ^ 64"
    unfolding unat_word_ariths(1) by simp
  then have "unat (va - virt) mod 2 ^ 48 = (unat (va - (virt + step)) + unat step) mod 2 ^ 48"
    by (simp only: mod_mod_cancel [OF le_imp_power_dvd [of 48 64]])
  also have "\<dots> = (unat (va - (virt + step)) mod 2 ^ 48 + unat step) mod 2 ^ 48" by (simp only: mod_add_left_eq)
  also have "\<dots> = y + unat step" using y by (simp add: y_def unat_and_mask)
  finally show False using assms(1) by (simp add: covers_def unat_and_mask)
qed

lemma map_loop_room:
  assumes "mp_tree mp" and "aligned virt" and "aligned phys" and "aligned len" and "unat len < 2 ^ 21"
    and "\<And>va. covers virt (unat len) va \<Longrightarrow> mp_translate mp va = None"
    and "room (k + 3 * (unat len div 4096)) (mp_bump mp)"
  shows "\<exists>mp'. map_loop virt phys len mp = (Ok (), mp') \<and> room k (mp_bump mp')"
  using assms
proof (induction "unat len" arbitrary: virt phys len mp rule: less_induct)
  case less
  show ?case
  proof (cases "len < PAGE")
    case True
    with less.prems(7) show ?thesis by (auto simp: map_loop_chunk [of virt phys len] intro: room_mono)
  next
    case False
    then have ge: "4096 \<le> unat len" by (simp add: word_less_nat_alt unat_PAGE)
    have c: "chunk virt phys len = PAGE" "map_chunk virt phys len mp = map_4k virt phys mp"
      using less.prems(5) by (simp_all add: chunk_def map_chunk_def huge_chunk_def word_le_nat_alt HUGE_2M_def)
    have rest: "unat (len - PAGE) = unat len - 4096" using ge by (simp add: unat_sub word_le_nat_alt unat_PAGE)
    have le: "PAGE \<le> len" using ge by (simp add: word_le_nat_alt unat_PAGE)
    have q: "unat len div 4096 = Suc (unat (len - PAGE) div 4096)" using ge by (simp add: rest le_div_geq)
    have "covers virt (unat len) virt" using ge by (simp add: covers_def)
    then have "mp_translate mp virt = None" by (rule less.prems(6))
    moreover have "room ((k + 3 * (unat (len - PAGE) div 4096)) + 3) (mp_bump mp)" using less.prems(7) by (simp add: q ac_simps)
    ultimately obtain mp1 where 1: "map_4k virt phys mp = (Ok (), mp1)" "room (k + 3 * (unat (len - PAGE) div 4096)) (mp_bump mp1)"
      using map_4k_room [OF less.prems(1)] by blast
    note g = map_4k_grows [OF less.prems(1) 1(1), THEN conjunct1, unfolded vpn_eq_covers [OF less.prems(2)]]
    have al: "aligned (virt + PAGE)" "aligned (phys + PAGE)" "aligned (len - PAGE)"
      using dvd_unat_add [of 12 virt PAGE] dvd_unat_add [of 12 phys PAGE] less.prems(2-4) by (simp_all add: unat_PAGE rest)
    have "mp_translate mp1 va = None" if "covers (virt + PAGE) (unat (len - PAGE)) va" for va
      using growD(6) [OF g, of va] less.prems(6) [OF covers_rest [OF that le]]
        covers_apart [OF _ that le] less.prems(5) by (auto simp: unat_PAGE)
    from less.hyps [OF _ growD(1) [OF g] al _ this 1(2)] ge less.prems(5) False 1(1) show ?thesis
      by (simp add: map_loop_chunk [of virt phys len] c rest)
  qed
qed

lemma map_range_room:
  assumes tree: "mp_tree mp" and al: "aligned virt" "aligned phys" "aligned len" and small: "unat len < 2 ^ 21"
    and free: "\<And>va. covers virt (unat len) va \<Longrightarrow> mp_translate mp va = None"
    and room: "room (k + 3 * (unat len div 4096)) (mp_bump mp)"
  obtains mp' where "map_range virt phys len mp = (Ok (), mp')" "room k (mp_bump mp')"
proof -
  have "unat (len AND NOT (PAGE - 1)) = unat len" using al(3) by (simp add: page_bits(2))
  then have "len AND NOT (PAGE - 1) = len" by (simp add: word_unat_eq_iff)
  with map_loop_room [OF tree al small free room] al that show thesis
    by (auto simp: map_range_def page_bits(1))
qed

end
