(* ===== verification/Address_Spaces.thy ===== *)
theory Address_Spaces
  imports Paging_Progress
begin

text \<open>
  The kernel address space and its clones: what they share, what is private to one of them, and
  that cloning and mapping keep them apart.
\<close>

section \<open>Tables of several roots\<close>

definition tables_of :: "pmem \<Rightarrow> u64 \<Rightarrow> u64 set" where
  "tables_of m r = {t. \<exists>p. path_ok p \<and> walk m r p = Some t}"

text \<open>The tables of the lower half: the root and what is reached through its first 256 slots.\<close>

definition low_tables :: "pmem \<Rightarrow> u64 \<Rightarrow> u64 set" where
  "low_tables m r = {t. \<exists>p. path_ok p \<and> (p = [] \<or> hd p < 256) \<and> walk m r p = Some t}"

definition apart :: "pmem \<Rightarrow> u64 \<Rightarrow> u64 \<Rightarrow> bool" where
  "apart m r s \<longleftrightarrow> low_tables m r \<inter> tables_of m s = {}"

lemma root_table [simp]: "r \<in> tables_of m r" "r \<in> low_tables m r"
  by (auto simp: tables_of_def low_tables_def intro: exI [of _ "[]"])

lemma low_tables_sub: "low_tables m r \<subseteq> tables_of m r"
  by (auto simp: tables_of_def low_tables_def)

lemma tree_tables: "tree b m r \<Longrightarrow> t \<in> tables_of m r \<Longrightarrow> aligned t \<and> page_at t \<subseteq> owned_mem b"
  unfolding tables_of_def using treeD(3,4) by blast

text \<open>Two memories (and two roots) with the same entries at every path.\<close>

definition same_entries :: "pmem \<Rightarrow> u64 \<Rightarrow> pmem \<Rightarrow> u64 \<Rightarrow> bool" where
  "same_entries m r m' r' \<longleftrightarrow> (\<forall>p i. path_ok p \<and> i < 512 \<longrightarrow> entry_at m' r' p i = entry_at m r p i)"

lemma same_entries_translate: "same_entries m r m' r' \<Longrightarrow> translate m' r' va = translate m r va"
  unfolding same_entries_def translate_entries by simp

lemma same_entries_walk: "same_entries m r m' r \<Longrightarrow> path_ok p \<Longrightarrow> walk m' r p = walk m r p"
proof (induction p rule: rev_induct)
  case (snoc i p)
  then have "path_ok p" "i < 512" by (simp_all add: path_ok_snoc)
  with snoc.prems(1) show ?case by (simp add: walk_snoc same_entries_def)
qed simp

lemma unchanged_tables:
  assumes tree: "tree b m r" and same: "\<And>t x. t \<in> tables_of m r \<Longrightarrow> x \<in> page_at t \<Longrightarrow> m' x = m x"
  shows "same_entries m r m' r"
proof -
  have load: "mem_load64 m' (entry_ptr t i) = mem_load64 m (entry_ptr t i)" if "path_ok p" "walk m r p = Some t" "i < 512" for p t i
    using that same [of t] treeD(3) [OF tree that(1,2)] by (intro entry_cong) (auto simp: tables_of_def)
  have walk: "walk m' r p = walk m r p" if "path_ok p" for p
    using that
  proof (induction p rule: rev_induct)
    case (snoc i p)
    then have p: "path_ok p" "i < 512" "walk m' r p = walk m r p" by (simp_all add: path_ok_snoc)
    with load [OF p(1) _ p(2)] show ?case by (cases "walk m r p") (simp_all add: walk_snoc entry_at_def)
  qed simp
  show ?thesis
    unfolding same_entries_def using load walk by (auto simp: entry_at_def split: option.split)
qed

lemma same_entries_tree:
  assumes tree: "tree b m r" and same: "same_entries m r m' r" and pool: "same_pool b b'" and ok: "bump_ok b'"
  shows "tree b' m' r"
proof (rule treeI)
  show "bump_ok b'" by (rule ok)
  show "unat (ba_end b') \<le> 2 ^ 52" using treeD(2) [OF tree] pool by (simp add: same_pool_def)
  show "aligned t \<and> page_at t \<subseteq> owned_mem b'" if "path_ok p" "walk m' r p = Some t" for p t
    using that treeD(3,4) [OF tree that(1)] same_pool_owned [OF pool] same_entries_walk [OF same that(1)] by auto
  show "p = q" if "path_ok p" "path_ok q" "walk m' r p = Some t" "walk m' r q = Some t" for p q t
    using that treeD(5) [OF tree that(1,2)] same_entries_walk [OF same] by simp
  show "\<not> bit (entry_at m' r p i) 7" if "path_ok p" "length p < 2" "i < 512" for p i
    using that same treeD(6) [OF tree that] by (simp add: same_entries_def)
qed

lemma same_entries_tables:
  "same_entries m r m' r \<Longrightarrow> tables_of m' r = tables_of m r"
  "same_entries m r m' r \<Longrightarrow> low_tables m' r = low_tables m r"
  using same_entries_walk [of m r m'] unfolding tables_of_def low_tables_def by (metis (lifting))+

section \<open>The spaces of a machine\<close>

text \<open>
  \<open>S\<close> has the roots of the kernel space and of its clones. Each is a hierarchy of tables, the lower
  halves are private, and the kernel maps nothing in its own.
\<close>

definition spaces_ok :: "Machine \<Rightarrow> u64 set \<Rightarrow> bool" where
  "spaces_ok mc S \<longleftrightarrow> mc_kernel_pml4 mc \<in> S \<and> (\<forall>r\<in>S. tree (mc_bump mc) (mc_mem mc) r) \<and>
     (\<forall>r\<in>S. \<forall>s\<in>S. r \<noteq> s \<longrightarrow> apart (mc_mem mc) r s) \<and>
     (\<forall>i<256. walk (mc_mem mc) (mc_kernel_pml4 mc) [i] = None)"

lemma spaces_okD:
  assumes "spaces_ok mc S"
  shows "mc_kernel_pml4 mc \<in> S" and "r \<in> S \<Longrightarrow> tree (mc_bump mc) (mc_mem mc) r"
    and "r \<in> S \<Longrightarrow> s \<in> S \<Longrightarrow> r \<noteq> s \<Longrightarrow> apart (mc_mem mc) r s"
    and "i < 256 \<Longrightarrow> walk (mc_mem mc) (mc_kernel_pml4 mc) [i] = None"
  using assms by (auto simp: spaces_ok_def)

abbreviation mc_translate :: "Machine \<Rightarrow> u64 \<Rightarrow> u64 \<Rightarrow> u64 option" where
  "mc_translate mc \<equiv> translate (mc_mem mc)"

text \<open>Writing to pages the allocator had not handed out yet disturbs no space.\<close>

lemma fresh_change:
  assumes ok: "spaces_ok mc S" and pool: "same_pool (mc_bump mc) (mc_bump mc')" and bump: "bump_ok (mc_bump mc')"
    and k: "mc_kernel_pml4 mc' = mc_kernel_pml4 mc"
    and same: "\<And>x. x \<in> owned_mem (mc_bump mc) \<Longrightarrow> mc_mem mc' x = mc_mem mc x"
  shows "spaces_ok mc' S" and "r \<in> S \<Longrightarrow> same_entries (mc_mem mc) r (mc_mem mc') r"
proof -
  have ent: "same_entries (mc_mem mc) r (mc_mem mc') r" if "r \<in> S" for r
    using spaces_okD(2) [OF ok that] tree_tables same by (intro unchanged_tables) blast+
  then show "r \<in> S \<Longrightarrow> same_entries (mc_mem mc) r (mc_mem mc') r" .
  show "spaces_ok mc' S"
    unfolding spaces_ok_def
  proof (intro conjI ballI allI impI)
    show "mc_kernel_pml4 mc' \<in> S" using spaces_okD(1) [OF ok] by (simp add: k)
    show "tree (mc_bump mc') (mc_mem mc') r" if "r \<in> S" for r
      using spaces_okD(2) [OF ok that] ent [OF that] pool bump by (rule same_entries_tree)
    show "apart (mc_mem mc') r s" if "r \<in> S" "s \<in> S" "r \<noteq> s" for r s
      using spaces_okD(3) [OF ok that] same_entries_tables [OF ent] that by (simp add: apart_def)
    show "walk (mc_mem mc') (mc_kernel_pml4 mc') [i] = None" if "i < 256" for i
      using same_entries_walk [OF ent [OF spaces_okD(1) [OF ok]], of "[i]"] spaces_okD(4) [OF ok that] that
      by (simp add: k path_ok_def)
  qed
qed

section \<open>Mapping in one space\<close>

definition lower_half :: "u64 \<Rightarrow> u64 \<Rightarrow> bool" where
  "lower_half virt len \<longleftrightarrow> unat virt + unat len \<le> 2 ^ 47"

lemma lower_half_vpn:
  assumes "lower_half virt len" and "covers virt (unat len) va"
  shows "vpn va = (unat virt + unat ((va - virt) AND mask 48)) div 4096"
proof -
  define d where "d = unat ((va - virt) AND mask 48)"
  have d: "unat virt + d < 2 ^ 47" using assms by (simp add: lower_half_def covers_def d_def)
  have "unat va = unat (virt + (va - virt))" by simp
  also have "\<dots> = (unat virt + unat (va - virt)) mod 2 ^ 64" unfolding unat_word_ariths(1) by simp
  finally have "unat va mod 2 ^ 48 = (unat virt + unat (va - virt)) mod 2 ^ 48"
    by (simp only: mod_mod_cancel [OF le_imp_power_dvd [of 48 64]])
  also have "\<dots> = (unat virt + d) mod 2 ^ 48" by (simp only: d_def unat_and_mask mod_add_right_eq)
  also have "\<dots> = unat virt + d" using d by simp
  finally have "unat va mod (4096 * 2 ^ 36) div 4096 = (unat virt + d) div 4096" by simp
  then show ?thesis using mod_then_div [of 4096 "unat va" "2 ^ 36"] by (simp add: vpn_def d_def)
qed

lemma lower_half_tops:
  assumes "lower_half virt len" and "covers virt (unat len) va"
  shows "pml4_index va < 256"
proof -
  have "unat virt + unat ((va - virt) AND mask 48) < 2 ^ 47" using assms by (simp add: lower_half_def covers_def)
  then have "vpn va < 256 * 512 ^ 3" unfolding lower_half_vpn [OF assms] by (intro less_mult_imp_div_less) simp
  then show ?thesis unfolding index_digits by (simp add: less_mult_imp_div_less)
qed

text \<open>What one space's mapper did, as far as the other spaces can see.\<close>

lemma grow_apart:
  assumes ok: "spaces_ok mc S" and r: "r \<in> S" "r \<noteq> mc_kernel_pml4 mc"
    and g: "grow tops D (mapper r n mc) mp'" and tops: "tops \<subseteq> {..<256}"
  defines "mc' \<equiv> mc\<lparr>mc_bump := mp_bump mp', mc_mem := mp_mem mp'\<rparr>"
  shows "spaces_ok mc' S" and "s \<in> S \<Longrightarrow> s \<noteq> r \<Longrightarrow> same_entries (mc_mem mc) s (mc_mem mc') s"
proof -
  let ?mp = "mapper r n mc" and ?m = "mc_mem mc" and ?m' = "mp_mem mp'"
  have mp: "mp_mem ?mp = ?m" "mp_pml4 ?mp = r" "mp_bump ?mp = mc_bump mc" by (simp_all add: mapper_def)
  note d = growD [OF g, unfolded mp]
  have tree': "tree (mp_bump mp') ?m' r" using d(1,2) by simp
  have ent: "same_entries ?m s ?m' s" if s: "s \<in> S" "s \<noteq> r" for s
  proof (rule unchanged_tables [OF spaces_okD(2) [OF ok s(1)]])
    fix t x
    assume t: "t \<in> tables_of ?m s" "x \<in> page_at t"
    note ts = tree_tables [OF spaces_okD(2) [OF ok s(1)] t(1)]
    show "?m' x = ?m x"
    proof (rule ccontr)
      assume "?m' x \<noteq> ?m x"
      with d(7) [of x] ts t(2) have "table_under tops ?mp x" by auto
      then obtain u where u: "u \<in> low_tables ?m r" "x \<in> page_at u"
        using tops by (fastforce simp: table_under_def low_tables_def mp)
      with spaces_okD(3) [OF ok r(1) s(1)] s(2) t(1) have "u \<noteq> t" by (auto simp: apart_def)
      moreover have "aligned u" using tree_tables [OF spaces_okD(2) [OF ok r(1)]] u(1) low_tables_sub by blast
      ultimately show False using pages_disjoint [of u t] ts u(2) t(2) by auto
    qed
  qed
  then show "s \<in> S \<Longrightarrow> s \<noteq> r \<Longrightarrow> same_entries (mc_mem mc) s (mc_mem mc') s" by (simp add: mc'_def)
  have new: "t \<in> tables_of ?m r \<or> page_at t \<inter> owned_mem (mc_bump mc) = {}" if "t \<in> tables_of ?m' r" for t
    using that d(5) by (fastforce simp: tables_of_def d(2))
  have new_low: "t \<in> low_tables ?m r \<or> page_at t \<inter> owned_mem (mc_bump mc) = {}" if "t \<in> low_tables ?m' r" for t
    using that d(5) by (fastforce simp: low_tables_def d(2))
  have own: "page_at t \<subseteq> owned_mem (mc_bump mc)" "t \<in> page_at t" if "t \<in> tables_of ?m s" "s \<in> S" for t s
    using tree_tables [OF spaces_okD(2) [OF ok that(2)] that(1)] by (auto simp: span_def)
  have fresh: "t \<notin> tables_of ?m s" if "page_at t \<inter> owned_mem (mc_bump mc) = {}" "s \<in> S" for t s
    using own [of t s] that by blast
  have mc': "mc_kernel_pml4 mc' = mc_kernel_pml4 mc" "mc_bump mc' = mp_bump mp'" "mc_mem mc' = ?m'"
    by (simp_all add: mc'_def)
  show "spaces_ok mc' S"
    unfolding spaces_ok_def mc'
  proof (intro conjI ballI allI impI)
    show "mc_kernel_pml4 mc \<in> S" using ok by (rule spaces_okD(1))
    show "tree (mp_bump mp') ?m' s" if "s \<in> S" for s
      using tree' treeD(1) [OF tree'] d(3) same_entries_tree [OF spaces_okD(2) [OF ok that] ent [OF that]]
      by (cases "s = r") simp_all
    show "apart ?m' s u" if su: "s \<in> S" "u \<in> S" "s \<noteq> u" for s u
    proof -
      note old = spaces_okD(3) [OF ok su, unfolded apart_def]
      consider "s = r" "u \<noteq> r" | "s \<noteq> r" "u = r" | "s \<noteq> r" "u \<noteq> r" using su(3) by blast
      then show ?thesis
      proof cases
        case 1
        have "low_tables ?m' r \<inter> tables_of ?m u = {}" using old new_low fresh [OF _ su(2)] 1(1) by blast
        with 1 show ?thesis by (simp add: apart_def same_entries_tables [OF ent [OF su(2)]])
      next
        case 2
        have "low_tables ?m s \<inter> tables_of ?m' r = {}"
          using old new fresh [OF _ su(1)] low_tables_sub [of ?m s] 2(2) by blast
        with 2 show ?thesis by (simp add: apart_def same_entries_tables [OF ent [OF su(1)]])
      next
        case 3
        with old show ?thesis by (simp add: apart_def same_entries_tables [OF ent [OF su(1)]] same_entries_tables [OF ent [OF su(2)]])
      qed
    qed
    show "walk ?m' (mc_kernel_pml4 mc) [i] = None" if "i < 256" for i
      using same_entries_walk [OF ent [OF spaces_okD(1) [OF ok]], of "[i]"] spaces_okD(4) [OF ok that] that r(2)
      by (simp add: path_ok_def)
  qed
qed

lemma same_entries_refl [simp]: "same_entries m r m r"
  by (simp add: same_entries_def)

lemma space_map_cases:
  assumes ok: "spaces_ok mc S" and r: "as_pml4_phys sp \<in> S" and res: "space_map sp virt phys len mc = (res, mc')"
  obtains (high) e where "res = Err e" "mc' = mc"
  | (low) mp' where "grow {pml4_index va |va. covers virt (unat len) va} {va. covers virt (unat len) va}
        (mapper (as_pml4_phys sp) 0 mc) mp'" "mc' = mc\<lparr>mc_bump := mp_bump mp', mc_mem := mp_mem mp'\<rparr>" "res \<noteq> Panic"
      "\<And>va. res = Ok () \<Longrightarrow> unat phys + unat len \<le> 2 ^ 52 \<Longrightarrow> unat (va - virt) < unat len div 4096 * 4096 \<Longrightarrow>
        translate (mp_mem mp') (as_pml4_phys sp) va = Some (phys + (va - virt))"
proof (cases "0x0000800000000000 \<le> virt")
  case True
  with res that(1) show thesis by (auto simp: space_map_def)
next
  case False
  let ?mp = "mapper (as_pml4_phys sp) 0 mc"
  obtain r' mp' where m: "map_range virt phys len ?mp = (r', mp')" by fastforce
  have "mp_tree ?mp" using spaces_okD(2) [OF ok r] by (simp add: mapper_def)
  note g = map_range_grows [OF this m]
  with growD(2) [OF conjunct1 [OF g]] False res m that(2) [of mp'] show thesis
    by (simp add: space_map_def put_back_def mapper_def)
qed

text \<open>From \<open>mc\<close> to \<open>mc'\<close> only the space with root \<open>r\<close> changed: addresses of \<open>D\<close> may have become mapped.\<close>

definition maps_in :: "Machine \<Rightarrow> u64 set \<Rightarrow> u64 \<Rightarrow> u64 set \<Rightarrow> Machine \<Rightarrow> bool" where
  "maps_in mc S r D mc' \<longleftrightarrow> spaces_ok mc' S \<and> mc_kernel_pml4 mc' = mc_kernel_pml4 mc \<and> mc_cr4 mc' = mc_cr4 mc \<and>
     same_pool (mc_bump mc) (mc_bump mc') \<and>
     (\<forall>s\<in>S. s \<noteq> r \<longrightarrow> same_entries (mc_mem mc) s (mc_mem mc') s) \<and>
     (\<forall>va. mc_translate mc' r va = mc_translate mc r va \<or> va \<in> D \<and> mc_translate mc r va = None) \<and>
     (\<forall>x\<in>owned_mem (mc_bump mc). mc_mem mc' x \<noteq> mc_mem mc x \<longrightarrow> (\<exists>t\<in>low_tables (mc_mem mc) r. x \<in> page_at t)) \<and>
     (\<forall>t\<in>tables_of (mc_mem mc') r. t \<in> tables_of (mc_mem mc) r \<or> page_at t \<inter> owned_mem (mc_bump mc) = {})"

lemma maps_inD:
  assumes "maps_in mc S r D mc'"
  shows "spaces_ok mc' S" and "mc_kernel_pml4 mc' = mc_kernel_pml4 mc" and "mc_cr4 mc' = mc_cr4 mc"
    and "same_pool (mc_bump mc) (mc_bump mc')"
    and "s \<in> S \<Longrightarrow> s \<noteq> r \<Longrightarrow> same_entries (mc_mem mc) s (mc_mem mc') s"
    and "mc_translate mc' r va = mc_translate mc r va \<or> va \<in> D \<and> mc_translate mc r va = None"
    and "x \<in> owned_mem (mc_bump mc) \<Longrightarrow> mc_mem mc' x \<noteq> mc_mem mc x \<Longrightarrow> \<exists>t\<in>low_tables (mc_mem mc) r. x \<in> page_at t"
    and "t \<in> tables_of (mc_mem mc') r \<Longrightarrow> t \<in> tables_of (mc_mem mc) r \<or> page_at t \<inter> owned_mem (mc_bump mc) = {}"
  using assms by (auto simp: maps_in_def)

lemma maps_in_refl: "spaces_ok mc S \<Longrightarrow> maps_in mc S r D mc"
  by (auto simp: maps_in_def)

lemma space_map_maps_in:
  assumes ok: "spaces_ok mc S" and r: "as_pml4_phys sp \<in> S" "as_pml4_phys sp \<noteq> mc_kernel_pml4 mc"
    and low: "lower_half virt len" and res: "space_map sp virt phys len mc = (res, mc')"
  shows "maps_in mc S (as_pml4_phys sp) {va. covers virt (unat len) va} mc' \<and> res \<noteq> Panic \<and>
    (res = Ok () \<and> unat phys + unat len \<le> 2 ^ 52 \<longrightarrow> (\<forall>va. unat (va - virt) < unat len div 4096 * 4096 \<longrightarrow>
      mc_translate mc' (as_pml4_phys sp) va = Some (phys + (va - virt))))"
  using ok r(1) res
proof (cases rule: space_map_cases)
  case high
  with maps_in_refl [OF ok] show ?thesis by simp
next
  case (low mp')
  let ?r = "as_pml4_phys sp" and ?T = "{pml4_index va |va. covers virt (unat len) va}"
  have tops: "?T \<subseteq> {..<256}" using lower_half_tops [OF assms(4)] by auto
  note apart = grow_apart [OF ok r low(1) tops, folded low(2)]
  note d = growD [OF low(1), unfolded mapper_def, simplified]
  have "\<exists>t\<in>low_tables (mc_mem mc) ?r. x \<in> page_at t"
    if "x \<in> owned_mem (mc_bump mc)" "mc_mem mc' x \<noteq> mc_mem mc x" for x
  proof -
    have "table_under ?T (mapper ?r 0 mc) x"
      using growD(7) [OF low(1), of x] that by (auto simp: low(2) mapper_def)
    with tops show ?thesis unfolding table_under_def low_tables_def by (fastforce simp: mapper_def)
  qed
  moreover have "t \<in> tables_of (mc_mem mc) ?r \<or> page_at t \<inter> owned_mem (mc_bump mc) = {}"
    if "t \<in> tables_of (mc_mem mc') ?r" for t
    using that d(5) by (fastforce simp: tables_of_def low(2) d(2))
  ultimately have "maps_in mc S ?r {va. covers virt (unat len) va} mc'"
    using apart d(3) d(6) unfolding maps_in_def by (auto simp: low(2) d(2))
  with low(3,4) show ?thesis by (simp add: low(2))
qed

section \<open>Cloning the kernel space\<close>

lemma copy_slots:
  fixes m :: pmem
  assumes al: "aligned src" "aligned dst" and ne: "src \<noteq> dst" and "n \<le> 512"
  defines "m' \<equiv> fold (copy_slot src dst) [0..<n] m"
  shows "x \<notin> page_at dst \<Longrightarrow> m' x = m x"
    and "i < 512 \<Longrightarrow> mem_load64 m' (entry_ptr dst i) =
      (if i < n then mem_load64 m (entry_ptr src i) else mem_load64 m (entry_ptr dst i))"
proof -
  have "(\<forall>x. x \<notin> page_at dst \<longrightarrow> fold (copy_slot src dst) [0..<n] m x = m x) \<and>
    (\<forall>i<512. mem_load64 (fold (copy_slot src dst) [0..<n] m) (entry_ptr dst i) =
      (if i < n then mem_load64 m (entry_ptr src i) else mem_load64 m (entry_ptr dst i)))"
    using \<open>n \<le> 512\<close>
  proof (induction n)
    case (Suc n)
    let ?m = "fold (copy_slot src dst) [0..<n] m"
    from Suc have out: "\<And>x. x \<notin> page_at dst \<Longrightarrow> ?m x = m x" and n: "n < 512"
      and slots: "\<And>i. i < 512 \<Longrightarrow> mem_load64 ?m (entry_ptr dst i) =
        (if i < n then mem_load64 m (entry_ptr src i) else mem_load64 m (entry_ptr dst i))" by auto
    have "mem_load64 ?m (entry_ptr src n) = mem_load64 m (entry_ptr src n)"
      using pages_disjoint [OF al ne] by (intro entry_cong [OF al(1) n] out) auto
    then have step: "fold (copy_slot src dst) [0..<Suc n] m = mem_store64 (entry_ptr dst n) (mem_load64 m (entry_ptr src n)) ?m"
      by (simp add: copy_slot_def)
    have "x \<notin> span (entry_ptr dst n) 8" if "x \<notin> page_at dst" for x
      using that entry_span(2) [OF al(2) n] by blast
    with out slots n show ?case
      unfolding step by (auto simp: mem_store64_out entry_store [OF al(2) al(2)] less_Suc_eq)
  qed simp
  then show "x \<notin> page_at dst \<Longrightarrow> m' x = m x"
    and "i < 512 \<Longrightarrow> mem_load64 m' (entry_ptr dst i) =
      (if i < n then mem_load64 m (entry_ptr src i) else mem_load64 m (entry_ptr dst i))"
    by (simp_all add: m'_def)
qed

text \<open>A root that shares every entry of the kernel's root.\<close>

lemma cloned_root:
  assumes ok: "spaces_ok mc S" and new: "aligned new" "page_at new \<inter> owned_mem (mc_bump mc) = {}"
    and out: "\<And>x. x \<in> owned_mem (mc_bump mc) \<Longrightarrow> m' x = mc_mem mc x"
    and slots: "\<And>i. i < 512 \<Longrightarrow>
      mem_load64 m' (entry_ptr new i) = mem_load64 (mc_mem mc) (entry_ptr (mc_kernel_pml4 mc) i)"
  shows "same_entries (mc_mem mc) (mc_kernel_pml4 mc) m' new"
    and "path_ok p \<Longrightarrow> walk m' new p = (if p = [] then Some new else walk (mc_mem mc) (mc_kernel_pml4 mc) p)"
proof -
  let ?k = "mc_kernel_pml4 mc" and ?m = "mc_mem mc"
  note tree = spaces_okD(2) [OF ok spaces_okD(1) [OF ok]]
  have ent: "same_entries ?m ?k m' ?k"
    using tree_tables [OF tree] out by (intro unchanged_tables [OF tree]) blast
  have k0: "mem_load64 m' (entry_ptr ?k i) = mem_load64 ?m (entry_ptr ?k i)" if "i < 512" for i
    using ent that by (auto simp: same_entries_def entry_at_def dest: spec [of _ "[]"])
  have walk: "walk m' new p = (if p = [] then Some new else walk ?m ?k p)" if "path_ok p" for p
  proof (cases p)
    case (Cons i q)
    then have "i < 512" using that by (simp add: path_ok_def)
    then have "walk m' new p = walk m' ?k p" using slots k0 Cons by simp
    with same_entries_walk [OF ent that] Cons show ?thesis by simp
  qed simp
  then show "path_ok p \<Longrightarrow> walk m' new p = (if p = [] then Some new else walk ?m ?k p)" .
  show "same_entries ?m ?k m' new"
    unfolding same_entries_def
  proof (intro allI impI)
    fix p and i :: nat
    assume p: "path_ok p \<and> i < 512"
    show "entry_at m' new p i = entry_at ?m ?k p i"
    proof (cases "p = []")
      case True
      with slots p show ?thesis by (simp add: entry_at_def)
    next
      case False
      with walk p have "entry_at m' new p i = entry_at m' ?k p i"
        using same_entries_walk [OF ent, of p] by (simp add: entry_at_def)
      with ent p show ?thesis by (simp add: same_entries_def)
    qed
  qed
qed

lemma add_clone:
  assumes ok: "spaces_ok mc S" and new: "aligned new" "page_at new \<inter> owned_mem (mc_bump mc) = {}"
      "page_at new \<subseteq> owned_mem (mc_bump mc')"
    and pool: "same_pool (mc_bump mc) (mc_bump mc')" "bump_ok (mc_bump mc')" "mc_kernel_pml4 mc' = mc_kernel_pml4 mc"
    and out: "\<And>x. x \<in> owned_mem (mc_bump mc) \<Longrightarrow> mc_mem mc' x = mc_mem mc x"
    and slots: "\<And>i. i < 512 \<Longrightarrow>
      mem_load64 (mc_mem mc') (entry_ptr new i) = mem_load64 (mc_mem mc) (entry_ptr (mc_kernel_pml4 mc) i)"
  shows "spaces_ok mc' (insert new S)" and "new \<notin> S"
    and "mc_translate mc' new va = mc_translate mc (mc_kernel_pml4 mc) va"
    and "s \<in> S \<Longrightarrow> same_entries (mc_mem mc) s (mc_mem mc') s"
    and "t \<in> tables_of (mc_mem mc') new \<Longrightarrow> t = new \<or> t \<in> tables_of (mc_mem mc) (mc_kernel_pml4 mc)"
proof -
  let ?k = "mc_kernel_pml4 mc" and ?m = "mc_mem mc" and ?m' = "mc_mem mc'"
  note kS = spaces_okD(1) [OF ok] and ktree = spaces_okD(2) [OF ok spaces_okD(1) [OF ok]]
  have fresh: "spaces_ok mc' S" "\<And>s. s \<in> S \<Longrightarrow> same_entries ?m s ?m' s"
    using fresh_change [OF ok pool] out by blast+
  note cl = cloned_root [OF ok new(1,2) out slots]
  have not_table: "new \<notin> tables_of ?m s" if "s \<in> S" for s
    using tree_tables [OF spaces_okD(2) [OF ok that], of new] new(2) span_offset [of 0 4096 new] by auto
  then show nS: "new \<notin> S" using root_table(1) by blast
  show "mc_translate mc' new va = mc_translate mc ?k va" using cl(1) by (rule same_entries_translate)
  show "s \<in> S \<Longrightarrow> same_entries ?m s ?m' s" by (rule fresh(2))
  have low: "walk ?m ?k p = None" if "path_ok p" "p \<noteq> []" "hd p < 256" for p
    using spaces_okD(4) [OF ok that(3)] that(2) walk_append [of ?m ?k "[hd p]" "tl p"] by simp
  have low_new: "low_tables ?m' new = {new}"
    using cl(2) low by (auto simp: low_tables_def intro: exI [of _ "[]"] split: if_splits)
  have low_k: "low_tables ?m ?k = {?k}"
  proof -
    have "t = ?k" if "path_ok p" "p = [] \<or> hd p < 256" "walk ?m ?k p = Some t" for p t
      using low [of p] that by (cases p) auto
    then show ?thesis by (auto simp: low_tables_def intro: exI [of _ "[]"])
  qed
  have new_tables: "tables_of ?m' new \<subseteq> insert new (tables_of ?m ?k - {?k})"
  proof
    fix t
    assume "t \<in> tables_of ?m' new"
    then obtain p where p: "path_ok p" "walk ?m' new p = Some t" by (auto simp: tables_of_def)
    show "t \<in> insert new (tables_of ?m ?k - {?k})"
    proof (cases "p = []")
      case True
      with p show ?thesis by simp
    next
      case False
      with p cl(2) have w: "walk ?m ?k p = Some t" by simp
      with treeD(5) [OF ktree p(1) path_ok_simps(1), of ?k] False have "t \<noteq> ?k" by auto
      with w p(1) show ?thesis by (auto simp: tables_of_def)
    qed
  qed
  then show "t \<in> tables_of ?m' new \<Longrightarrow> t = new \<or> t \<in> tables_of ?m ?k" by blast
  show "spaces_ok mc' (insert new S)"
    unfolding spaces_ok_def
  proof (intro conjI ballI allI impI)
    show "mc_kernel_pml4 mc' \<in> insert new S" using kS pool(3) by simp
    show "walk ?m' (mc_kernel_pml4 mc') [i] = None" if "i < 256" for i using spaces_okD(4) [OF fresh(1) that] .
    have tnew: "tree (mc_bump mc') ?m' new"
    proof (rule treeI)
      show "bump_ok (mc_bump mc')" by (rule pool(2))
      show "unat (ba_end (mc_bump mc')) \<le> 2 ^ 52" using treeD(2) [OF ktree] pool(1) by (simp add: same_pool_def)
      show "aligned t \<and> page_at t \<subseteq> owned_mem (mc_bump mc')" if "path_ok p" "walk ?m' new p = Some t" for p t
        using that new(1,3) treeD(3,4) [OF ktree that(1)] same_pool_owned [OF pool(1)] by (auto simp: cl(2) split: if_splits)
      show "p = q" if "path_ok p" "path_ok q" "walk ?m' new p = Some t" "walk ?m' new q = Some t" for p q t
        using that treeD(5) [OF ktree that(1,2)] not_table [OF kS] by (auto simp: cl(2) tables_of_def split: if_splits)
      show "\<not> bit (entry_at ?m' new p i) 7" if "path_ok p" "length p < 2" "i < 512" for p i
        using cl(1) treeD(6) [OF ktree that] that by (simp add: same_entries_def)
    qed
    show "tree (mc_bump mc') ?m' r" if "r \<in> insert new S" for r
      using that tnew spaces_okD(2) [OF fresh(1)] by auto
    show "apart ?m' r s" if rs: "r \<in> insert new S" "s \<in> insert new S" "r \<noteq> s" for r s
    proof -
      consider "r = new" "s \<in> S" | "s = new" "r = ?k" | "s = new" "r \<in> S" "r \<noteq> ?k" | "r \<in> S" "s \<in> S" using rs by auto
      then show ?thesis
      proof cases
        case 1
        with not_table [OF 1(2)] same_entries_tables(1) [OF fresh(2) [OF 1(2)]] low_new show ?thesis by (simp add: apart_def)
      next
        case 2
        with new_tables not_table [OF kS] nS kS low_k same_entries_tables(2) [OF fresh(2) [OF kS]] show ?thesis
          by (auto simp: apart_def)
      next
        case 3
        with new_tables not_table [OF 3(2)] spaces_okD(3) [OF ok 3(2) kS 3(3)] low_tables_sub [of ?m r]
          same_entries_tables(2) [OF fresh(2) [OF 3(2)]]
        show ?thesis unfolding apart_def by blast
      next
        case 4
        then show ?thesis using spaces_okD(3) [OF fresh(1)] rs(3) by blast
      qed
    qed
  qed
qed

text \<open>\<^verbatim>\<open>alloc_table\<close> and \<^verbatim>\<open>wrap_la57\<close> write to fresh pages only.\<close>

lemma alloc_table_fresh:
  assumes "bump_ok (mp_bump mp)" and "unat (ba_end (mp_bump mp)) \<le> 2 ^ 52" and "alloc_table mp = (res, mp')"
  shows "res \<noteq> Panic \<and> same_pool (mp_bump mp) (mp_bump mp') \<and> bump_ok (mp_bump mp') \<and> mp_pml4 mp' = mp_pml4 mp \<and>
    (\<forall>x\<in>mp_owned mp. mp_mem mp' x = mp_mem mp x)"
proof (cases rule: alloc_table_cases [of mp])
  case (ok new mp1)
  note f = alloc_table_Ok [OF assms(1,2) ok]
  have "mp_mem mp1 x = mp_mem mp x" if "x \<in> mp_owned mp" for x
    using that f(3) by (auto simp: f(5) intro!: mem_zero_out)
  with f ok assms(3) show ?thesis by simp
qed (use assms in simp)

lemma wrap_la57_fresh:
  assumes b: "bump_ok (mp_bump mp)" "unat (ba_end (mp_bump mp)) \<le> 2 ^ 52" and res: "wrap_la57 pml4 mp = (res, mp')"
  shows "res \<noteq> Panic \<and> same_pool (mp_bump mp) (mp_bump mp') \<and> bump_ok (mp_bump mp') \<and> mp_pml4 mp' = mp_pml4 mp \<and>
    (\<forall>x\<in>mp_owned mp. mp_mem mp' x = mp_mem mp x)"
proof (cases rule: alloc_table_cases [of mp])
  case (ok new mp1)
  note f = alloc_table_Ok [OF b ok]
  from ok res have mp': "res = Ok new" "mp' = mp1\<lparr>mp_mem := mem_store64 (entry_ptr new 511) (pml4 OR TABLE_FLAGS) (mp_mem mp1)\<rparr>"
    by (simp_all add: wrap_la57_def)
  have "mp_mem mp' x = mp_mem mp x" if "x \<in> mp_owned mp" for x
  proof -
    have "x \<notin> page_at new" using that f(3) by blast
    moreover from this entry_span(2) [OF f(1), of 511] have "x \<notin> span (entry_ptr new 511) 8" by auto
    ultimately show ?thesis by (simp add: mp' f(5) mem_store64_out mem_zero_out)
  qed
  with f show ?thesis by (simp add: mp')
next
  case (err e)
  with res b show ?thesis by (auto simp: wrap_la57_def)
qed

text \<open>The table that \<^verbatim>\<open>clone_kernel\<close> allocates, after the copy loop.\<close>

lemma clone_copy:
  fixes mc :: Machine
  assumes ok: "spaces_ok mc S" and a: "alloc_table (mapper 0 0 mc) = (Ok new, mp1)"
  defines "mp2 \<equiv> mp1\<lparr>mp_pml4 := new, mp_mem := fold (copy_slot (mc_kernel_pml4 mc) new) [0..<512] (mp_mem mp1)\<rparr>"
  shows "aligned new" and "page_at new \<inter> owned_mem (mc_bump mc) = {}" and "page_at new \<subseteq> mp_owned mp2"
    and "same_pool (mc_bump mc) (mp_bump mp2)" and "bump_ok (mp_bump mp2)" and "unat (ba_end (mp_bump mp2)) \<le> 2 ^ 52"
    and "i < 512 \<Longrightarrow> mem_load64 (mp_mem mp2) (entry_ptr new i) = mem_load64 (mc_mem mc) (entry_ptr (mc_kernel_pml4 mc) i)"
    and "x \<in> owned_mem (mc_bump mc) \<Longrightarrow> mp_mem mp2 x = mc_mem mc x"
proof -
  let ?mp = "mapper 0 0 mc" and ?k = "mc_kernel_pml4 mc"
  note ktree = spaces_okD(2) [OF ok spaces_okD(1) [OF ok]]
  have bump: "bump_ok (mp_bump ?mp)" "unat (ba_end (mp_bump ?mp)) \<le> 2 ^ 52"
    using treeD(1,2) [OF ktree] by (simp_all add: mapper_def)
  note f = alloc_table_Ok [OF bump a]
  have own: "mp_owned ?mp = owned_mem (mc_bump mc)" and m0: "mp_mem ?mp = mc_mem mc" by (simp_all add: mapper_def)
  show "aligned new" "page_at new \<inter> owned_mem (mc_bump mc) = {}" "page_at new \<subseteq> mp_owned mp2"
    "same_pool (mc_bump mc) (mp_bump mp2)" "bump_ok (mp_bump mp2)"
    using f by (simp_all add: own mp2_def) (simp add: mapper_def)
  show "unat (ba_end (mp_bump mp2)) \<le> 2 ^ 52" using f(6) bump(2) by (simp add: mp2_def same_pool_def)
  have k: "aligned ?k" "page_at ?k \<subseteq> owned_mem (mc_bump mc)" using tree_tables [OF ktree root_table(1)] by auto
  have ne: "?k \<noteq> new" using k(2) f(3) span_offset [of 0 4096 ?k] by (auto simp: own)
  note cp = copy_slots [OF k(1) f(1) ne order_refl, of _ "mp_mem mp1"]
  have zeroed: "mp_mem mp1 x = mc_mem mc x" if "x \<in> owned_mem (mc_bump mc)" for x
    using that f(3) by (auto simp: f(5) own m0 intro!: mem_zero_out)
  show "mem_load64 (mp_mem mp2) (entry_ptr new i) = mem_load64 (mc_mem mc) (entry_ptr ?k i)" if "i < 512"
    using cp(2) [OF that] entry_cong [OF k(1) that, of "mp_mem mp1" "mc_mem mc"] zeroed k(2) that
    by (auto simp: mp2_def)
  show "mp_mem mp2 x = mc_mem mc x" if "x \<in> owned_mem (mc_bump mc)"
  proof -
    have "x \<notin> page_at new" using that f(3) by (auto simp: own)
    from cp(1) [OF this] zeroed [OF that] show ?thesis by (simp add: mp2_def)
  qed
qed

lemma clone_kernel_result:
  assumes ok: "spaces_ok mc S" and res: "clone_kernel mc = (res, mc')"
  shows "(case res of
      Ok sp \<Rightarrow> spaces_ok mc' (insert (as_pml4_phys sp) S) \<and> as_pml4_phys sp \<notin> S \<and>
        (\<forall>va. mc_translate mc' (as_pml4_phys sp) va = mc_translate mc (mc_kernel_pml4 mc) va) \<and>
        (mc_cr4 mc AND CR4_LA57 = 0 \<longrightarrow> as_cr3 sp = as_pml4_phys sp) \<and>
        (\<forall>t\<in>tables_of (mc_mem mc') (as_pml4_phys sp).
          t \<in> tables_of (mc_mem mc) (mc_kernel_pml4 mc) \<or> page_at t \<inter> owned_mem (mc_bump mc) = {})
    | Err e \<Rightarrow> spaces_ok mc' S
    | Panic \<Rightarrow> False) \<and>
    mc_kernel_pml4 mc' = mc_kernel_pml4 mc \<and> mc_cr4 mc' = mc_cr4 mc \<and> same_pool (mc_bump mc) (mc_bump mc') \<and>
    (\<forall>s\<in>S. same_entries (mc_mem mc) s (mc_mem mc') s) \<and> (\<forall>x\<in>owned_mem (mc_bump mc). mc_mem mc' x = mc_mem mc x)"
proof (cases "mc_kernel_pml4 mc = 0 \<or> (\<exists>e. alloc_table (mapper 0 0 mc) = (Err e, mapper 0 0 mc))")
  case True
  have mc: "mc\<lparr>mc_bump := mp_bump (mapper 0 0 mc), mc_mem := mp_mem (mapper 0 0 mc)\<rparr> = mc" by (simp add: mapper_def)
  from True res have "mc' = mc" "\<exists>e. res = Err e"
    unfolding clone_kernel_def put_back_def by (auto simp: mc split: if_splits)
  with ok show ?thesis by auto
next
  case False
  from False obtain new mp1 where a: "alloc_table (mapper 0 0 mc) = (Ok new, mp1)"
    using alloc_table_cases [of "mapper 0 0 mc"] by metis
  define mp2 where "mp2 = mp1\<lparr>mp_pml4 := new, mp_mem := fold (copy_slot (mc_kernel_pml4 mc) new) [0..<512] (mp_mem mp1)\<rparr>"
  note c = clone_copy [OF ok a, folded mp2_def]
  define rest where "rest = (if mc_cr4 mc AND CR4_LA57 \<noteq> 0 then wrap_la57 new mp2 else (Ok new, mp2))"
  obtain r3 mp3 where r3: "rest = (r3, mp3)" by fastforce
  have w: "r3 \<noteq> Panic" "same_pool (mp_bump mp2) (mp_bump mp3)" "bump_ok (mp_bump mp3)"
    "\<And>x. x \<in> mp_owned mp2 \<Longrightarrow> mp_mem mp3 x = mp_mem mp2 x"
    using r3 wrap_la57_fresh [OF c(5,6), of new r3 mp3] c(5) by (auto simp: rest_def split: if_splits)
  have "clone_kernel mc = put_back mc (try_st rest (\<lambda>cr3 mp. (Ok \<lparr>as_cr3 = cr3, as_pml4_phys = new\<rparr>, mp)))"
    using False a by (simp add: clone_kernel_def rest_def mp2_def Let_def)
  with res r3 have mc': "mc' = mc\<lparr>mc_bump := mp_bump mp3, mc_mem := mp_mem mp3\<rparr>"
    and r: "res = (case r3 of Ok cr3 \<Rightarrow> Ok \<lparr>as_cr3 = cr3, as_pml4_phys = new\<rparr> | Err e \<Rightarrow> Err e | Panic \<Rightarrow> Panic)"
    by (cases r3; simp add: put_back_def)+
  note own2 = same_pool_owned [OF c(4)]
  have pool: "same_pool (mc_bump mc) (mc_bump mc')" "bump_ok (mc_bump mc')" "mc_kernel_pml4 mc' = mc_kernel_pml4 mc"
    using w same_pool_trans [OF c(4)] by (simp_all add: mc')
  have out: "mc_mem mc' x = mc_mem mc x" if "x \<in> owned_mem (mc_bump mc)" for x
    using w(4) own2 c(8) [OF that] that by (auto simp: mc')
  have slots: "mem_load64 (mc_mem mc') (entry_ptr new i) = mem_load64 (mc_mem mc) (entry_ptr (mc_kernel_pml4 mc) i)"
    if "i < 512" for i
    using entry_cong [OF c(1) that, of "mc_mem mc'" "mp_mem mp2"] w(4) c(3) c(7) [OF that] by (auto simp: mc')
  have new: "page_at new \<subseteq> owned_mem (mc_bump mc')" using c(3) same_pool_owned [OF w(2)] by (auto simp: mc')
  have cr3: "as_cr3 sp = new" if "mc_cr4 mc AND CR4_LA57 = 0" "res = Ok sp" for sp
    using that r r3 by (auto simp: rest_def)
  have tables: "t \<in> tables_of (mc_mem mc) (mc_kernel_pml4 mc) \<or> page_at t \<inter> owned_mem (mc_bump mc) = {}"
    if "t \<in> tables_of (mc_mem mc') new" for t
    using add_clone(5) [OF ok c(1,2) new pool out slots that] c(2) by blast
  show ?thesis
    using add_clone(1-4) [OF ok c(1,2) new pool out slots] tables fresh_change(1) [OF ok pool] pool out w(1) cr3
    by (cases r3) (auto simp: r mc')
qed

section \<open>Sequences of clones and maps\<close>

text \<open>
  What Root Court does to its address spaces once the kernel's is built: it clones the kernel space
  and maps ranges of the lower half in clones. The state has the roots made so far.
\<close>

datatype SpaceOp = OpClone | OpMap AddressSpace u64 u64 u64

inductive space_step :: "Machine \<times> u64 set \<Rightarrow> SpaceOp \<Rightarrow> Machine \<times> u64 set \<Rightarrow> bool" where
  clone_ok: "clone_kernel mc = (Ok sp, mc') \<Longrightarrow> space_step (mc, S) OpClone (mc', insert (as_pml4_phys sp) S)"
| clone_err: "clone_kernel mc = (Err e, mc') \<Longrightarrow> space_step (mc, S) OpClone (mc', S)"
| map_any: "space_map sp virt phys len mc = (res, mc') \<Longrightarrow> as_pml4_phys sp \<in> S \<Longrightarrow>
    as_pml4_phys sp \<noteq> mc_kernel_pml4 mc \<Longrightarrow> lower_half virt len \<Longrightarrow>
    space_step (mc, S) (OpMap sp virt phys len) (mc', S)"

definition spaces_grow :: "Machine \<times> u64 set \<Rightarrow> Machine \<times> u64 set \<Rightarrow> bool" where
  "spaces_grow s t \<longleftrightarrow> (case (s, t) of ((mc, S), (mc', S')) \<Rightarrow>
     S \<subseteq> S' \<and> mc_kernel_pml4 mc' = mc_kernel_pml4 mc \<and> (mc_kernel_pml4 mc \<in> S \<longrightarrow>
     (\<forall>va. mc_translate mc' (mc_kernel_pml4 mc) va = mc_translate mc (mc_kernel_pml4 mc) va) \<and>
     (\<forall>r\<in>S. \<forall>va pa. mc_translate mc r va = Some pa \<longrightarrow> mc_translate mc' r va = Some pa)))"

lemma space_step_ok:
  assumes ok: "spaces_ok mc S" and step: "space_step (mc, S) l (mc', S')"
  shows "spaces_ok mc' S' \<and> spaces_grow (mc, S) (mc', S')"
  using step
proof cases
  case (clone_ok sp)
  from clone_kernel_result [OF ok clone_ok(3)] clone_ok show ?thesis
    using spaces_okD(1) [OF ok] by (auto simp: spaces_grow_def same_entries_translate)
next
  case (clone_err e)
  from clone_kernel_result [OF ok clone_err(3)] clone_err show ?thesis
    using spaces_okD(1) [OF ok] by (auto simp: spaces_grow_def same_entries_translate)
next
  case (map_any sp virt phys len res)
  note m = maps_inD [OF conjunct1 [OF space_map_maps_in [OF ok map_any(4,5,6,3)]]]
  have "mc_translate mc' r va = Some pa" if "r \<in> S" "mc_translate mc r va = Some pa" for r va pa
    using that m(5) [OF that(1)] m(6) [of va] by (cases "r = as_pml4_phys sp") (auto simp: same_entries_translate)
  with m(1,2) m(5) [OF spaces_okD(1) [OF ok]] map_any(2,5) show ?thesis
    by (auto simp: spaces_grow_def same_entries_translate)
qed

interpretation spaces: monotone_system space_step "\<lambda>(mc, S). spaces_ok mc S" spaces_grow
proof
  show "case t of (mc, S) \<Rightarrow> spaces_ok mc S" if "case s of (mc, S) \<Rightarrow> spaces_ok mc S" "space_step s l t" for s l t
    using that space_step_ok by (cases s, cases t) auto
  show "spaces_grow s t" if "case s of (mc, S) \<Rightarrow> spaces_ok mc S" "space_step s l t" for s l t
    using that space_step_ok by (cases s, cases t) auto
  show "spaces_grow s s" for s by (cases s) (simp add: spaces_grow_def)
  show "spaces_grow s u" if "spaces_grow s t" "spaces_grow t u" for s t u
  proof -
    obtain mc S mc' S' mc'' S'' where "s = (mc, S)" "t = (mc', S')" "u = (mc'', S'')" by (metis surj_pair)
    with that show ?thesis by (auto simp: spaces_grow_def)
  qed
qed

end
