(* ===== verification/Kernel_Space.thy ===== *)
theory Kernel_Space
  imports Address_Spaces
begin

text \<open>
  What \<^verbatim>\<open>paging::build\<close> builds: a hierarchy that maps the kernel image, the modules and the direct
  map as asked, with nothing in the lower half.
\<close>

section \<open>Ranges of the upper half\<close>

definition upper_half :: "u64 \<Rightarrow> u64 \<Rightarrow> bool" where
  "upper_half virt len \<longleftrightarrow> 2 ^ 64 - 2 ^ 47 \<le> unat virt \<and> unat virt + unat len \<le> 2 ^ 64"

lemma upper_half_tops:
  assumes "upper_half virt len" and "covers virt (unat len) va"
  shows "256 \<le> pml4_index va"
proof -
  define d where "d = unat ((va - virt) AND mask 48)"
  define y where "y = unat virt - (2 ^ 64 - 2 ^ 47)"
  have ge: "2 ^ 64 - 2 ^ 47 \<le> unat virt" and lt: "unat virt + d < 2 ^ 64"
    using assms by (simp_all add: upper_half_def covers_def d_def)
  have virt: "unat virt = (2 ^ 16 - 1) * 2 ^ 48 + (2 ^ 47 + y)" using ge by (simp add: y_def)
  have y: "2 ^ 47 + y + d < 2 ^ 48" using lt virt by simp
  have "unat va = unat (virt + (va - virt))" by simp
  also have "\<dots> = (unat virt + unat (va - virt)) mod 2 ^ 64" unfolding unat_word_ariths(1) by simp
  finally have "unat va mod 2 ^ 48 = (unat virt + unat (va - virt)) mod 2 ^ 48"
    by (simp only: mod_mod_cancel [OF le_imp_power_dvd [of 48 64]])
  also have "\<dots> = (unat virt + d) mod 2 ^ 48" by (simp only: d_def unat_and_mask mod_add_right_eq)
  also have "\<dots> = (2 ^ 47 + y + d) mod 2 ^ 48" unfolding virt add.assoc by (rule mod_mult_self3)
  also have "\<dots> = 2 ^ 47 + y + d" using y by simp
  finally have "4096 * (256 * 512 ^ 3) \<le> unat va mod (4096 * 2 ^ 36)" by simp
  then have "256 * 512 ^ 3 \<le> unat va mod (4096 * 2 ^ 36) div 4096"
    by (metis div_le_mono nonzero_mult_div_cancel_left zero_neq_numeral)
  then have "256 * 512 ^ 3 \<le> vpn va" using mod_then_div [of 4096 "unat va" "2 ^ 36"] by (simp add: vpn_def)
  then have "256 * 512 ^ 3 div 512 ^ 3 \<le> vpn va div 512 ^ 3" by (rule div_le_mono)
  then show ?thesis unfolding index_digits by simp
qed

section \<open>The empty hierarchy\<close>

lemma empty_tree:
  assumes b: "bump_ok (mp_bump mp)" "unat (ba_end (mp_bump mp)) \<le> 2 ^ 52" and a: "alloc_table mp = (Ok new, mp')"
  shows "tree (mp_bump mp') (mp_mem mp') new" and "walk (mp_mem mp') new (i # p) = None \<or> 512 \<le> i"
    and "translate (mp_mem mp') new va = None"
proof -
  note f = alloc_table_Ok [OF b a]
  have zero: "mem_load64 (mp_mem mp') (entry_ptr new i) = 0" if "i < 512" for i
    using entry_span(2) [OF f(1) that] by (intro mem_load64_zero) (auto simp: f(5) mem_zero_def span_def)
  then have walk: "walk (mp_mem mp') new p = (if p = [] then Some new else None)" if "path_ok p" for p
    using that by (cases p) (auto simp: path_ok_def Let_def)
  show "walk (mp_mem mp') new (i # p) = None \<or> 512 \<le> i" using zero by (cases "i < 512") (simp_all add: Let_def)
  show "tree (mp_bump mp') (mp_mem mp') new"
  proof (rule treeI)
    show "bump_ok (mp_bump mp')" "unat (ba_end (mp_bump mp')) \<le> 2 ^ 52" using f(6,8) b(2) by (simp_all add: same_pool_def)
    show "aligned t \<and> page_at t \<subseteq> mp_owned mp'" if "path_ok p" "walk (mp_mem mp') new p = Some t" for p t
      using that f(1,4) by (simp add: walk split: if_splits)
    show "p = q" if "path_ok p" "path_ok q" "walk (mp_mem mp') new p = Some t" "walk (mp_mem mp') new q = Some t" for p q t
      using that by (simp add: walk split: if_splits)
    show "\<not> bit (entry_at (mp_mem mp') new p i) 7" if "path_ok p" "length p < 2" "i < 512" for p i
      using that walk [of p] zero by (simp add: entry_at_def)
  qed
  show "translate (mp_mem mp') new va = None" by (simp add: translate_def zero)
qed

section \<open>The entries of the memory map\<close>

definition entry_start :: "MemmapEntry \<Rightarrow> u64" where
  "entry_start e = align_up (me_base e) PAGE"

definition entry_end :: "MemmapEntry \<Rightarrow> u64" where
  "entry_end e = align_down (saturating_add (me_base e) (me_length e)) PAGE"

lemma align_facts:
  "align_up x PAGE = page_up x" "unat (align_down x PAGE) = unat x div 4096 * 4096"
  using unat_and_not_mask [of x 12] by (simp_all add: align_up_def align_down_def page_up_def page_mask)

lemma entry_range:
  "aligned (entry_start e)" "aligned (entry_end e)" "unat (entry_end e) \<le> unat (me_base e) + unat (me_length e)"
proof -
  show "aligned (entry_start e)" "aligned (entry_end e)"
    by (simp_all add: entry_start_def entry_end_def align_facts page_up_aligned)
  have "unat (entry_end e) \<le> unat (saturating_add (me_base e) (me_length e))"
    by (simp add: entry_end_def align_facts)
  also have "\<dots> \<le> unat (me_base e) + unat (me_length e)" by (simp add: unat_saturating_add)
  finally show "unat (entry_end e) \<le> unat (me_base e) + unat (me_length e)" .
qed

text \<open>The ranges \<^verbatim>\<open>build\<close> maps for one entry lie in the upper half.\<close>

definition entry_high :: "u64 \<Rightarrow> u64 \<Rightarrow> u64 \<Rightarrow> MemmapEntry \<Rightarrow> bool" where
  "entry_high hhdm kphys kvirt e \<longleftrightarrow> (entry_start e < entry_end e \<longrightarrow>
     upper_half (hhdm + entry_start e) (entry_end e - entry_start e) \<and>
     (me_kind e = MEMMAP_EXECUTABLE_AND_MODULES \<and> kphys \<le> entry_start e \<longrightarrow>
       upper_half (kvirt + (entry_start e - kphys)) (entry_end e - entry_start e)))"

lemma map_range_high:
  assumes "mp_tree mp" and "map_range virt phys len mp = (res, mp')" and "upper_half virt len"
  shows "grow {256..} UNIV mp mp' \<and> res \<noteq> Panic"
proof -
  have "{pml4_index va |va. covers virt (unat len) va} \<subseteq> {256..}" using upper_half_tops [OF assms(3)] by auto
  with map_range_grows [OF assms(1,2)] show ?thesis by (blast intro: grow_mono)
qed

definition direct_mapped :: "u64 \<Rightarrow> Mapper \<Rightarrow> MemmapEntry \<Rightarrow> bool" where
  "direct_mapped hhdm mp e \<longleftrightarrow>
     (me_length e \<noteq> 0 \<and> hhdm_mapped_rev3 (me_kind e) \<and> unat (me_base e) + unat (me_length e) \<le> 2 ^ 52 \<longrightarrow>
      (\<forall>pa. entry_start e \<le> pa \<and> pa < entry_end e \<longrightarrow> mp_translate mp (hhdm + pa) = Some pa))"

lemma direct_mapped_grow: "grow T D mp mp' \<Longrightarrow> direct_mapped hhdm mp e \<Longrightarrow> direct_mapped hhdm mp' e"
  using grow_keeps [of T D mp mp'] unfolding direct_mapped_def keeps_translations_def by blast

lemma map_range_direct:
  assumes tree: "mp_tree mp" and lt: "entry_start e < entry_end e"
    and res: "map_range (hhdm + entry_start e) (entry_start e) (entry_end e - entry_start e) mp = (Ok (), mp')"
  shows "direct_mapped hhdm mp' e"
  unfolding direct_mapped_def
proof (intro impI allI)
  let ?s = "entry_start e" and ?len = "entry_end e - entry_start e"
  fix pa
  assume e: "me_length e \<noteq> 0 \<and> hhdm_mapped_rev3 (me_kind e) \<and> unat (me_base e) + unat (me_length e) \<le> 2 ^ 52"
    and pa: "?s \<le> pa \<and> pa < entry_end e"
  have len: "unat ?len = unat (entry_end e) - unat ?s" using lt by (simp add: unat_sub less_imp_le)
  have "unat ?s < unat (entry_end e)" using lt by (simp add: word_less_nat_alt)
  with e entry_range(3) [of e] have bound: "unat ?s + unat ?len \<le> 2 ^ 52" by (simp add: len)
  have "aligned ?len" using entry_range(1,2) [of e] by (simp add: len)
  then have whole: "unat ?len div 4096 * 4096 = unat ?len" by simp
  have "unat (pa - ?s) = unat pa - unat ?s" using pa by (simp add: unat_sub)
  then have "unat (pa - ?s) < unat ?len" using pa by (auto simp: len word_le_nat_alt word_less_nat_alt)
  then have "unat ((hhdm + pa) - (hhdm + ?s)) < unat ?len div 4096 * 4096" by (simp add: whole)
  with map_range_grows [OF tree res] bound show "mp_translate mp' (hhdm + pa) = Some pa" by simp
qed

lemma map_entries_Cons:
  "map_entries hhdm kphys kvirt (e # es) (hb, hs) mp =
     (if me_length e = 0 \<or> entry_end e \<le> entry_start e then map_entries hhdm kphys kvirt es (hb, hs) mp
      else try_st (if me_kind e = MEMMAP_EXECUTABLE_AND_MODULES \<and> kphys \<le> entry_start e
          then map_range (kvirt + (entry_start e - kphys)) (entry_start e) (entry_end e - entry_start e) mp else (Ok (), mp)) (\<lambda>_ mp.
        if \<not> hhdm_mapped_rev3 (me_kind e) then map_entries hhdm kphys kvirt es (hb, hs) mp
        else try_st (map_range (hhdm + entry_start e) (entry_start e) (entry_end e - entry_start e) mp) (\<lambda>_ mp.
          map_entries hhdm kphys kvirt es (saturating_add hb (entry_end e - entry_start e), hs + 1) mp)))"
  unfolding map_entries.simps Let_def entry_start_def entry_end_def by auto

lemma map_entries_grows:
  assumes "mp_tree mp" and "\<forall>e\<in>set es. entry_high hhdm kphys kvirt e"
    and "map_entries hhdm kphys kvirt es acc mp = (res, mp')"
  shows "grow {256..} UNIV mp mp' \<and> res \<noteq> Panic \<and> (\<forall>r. res = Ok r \<longrightarrow> (\<forall>e\<in>set es. direct_mapped hhdm mp' e))"
  using assms
proof (induction es arbitrary: acc mp)
  case Nil
  with grow_refl [OF Nil(1)] show ?case by auto
next
  case (Cons e es)
  let ?s = "entry_start e" and ?f = "entry_end e"
  obtain hb hs where acc: "acc = (hb, hs)" by (cases acc)
  from Cons.prems(2) have within: "entry_high hhdm kphys kvirt e" "\<forall>e\<in>set es. entry_high hhdm kphys kvirt e" by auto
  note IH = Cons.IH [OF _ within(2)]
  show ?case
  proof (cases "me_length e = 0 \<or> ?f \<le> ?s")
    case True
    then have "map_entries hhdm kphys kvirt es (hb, hs) mp = (res, mp')"
      using Cons.prems(3) by (simp add: acc map_entries_Cons del: map_entries.simps)
    moreover have "direct_mapped hhdm mp' e" using True by (auto simp: direct_mapped_def)
    ultimately show ?thesis using IH [OF Cons.prems(1)] by auto
  next
    case False
    then have lt: "?s < ?f" by (auto simp: not_le)
    obtain r1 mp1 where m1: "(if me_kind e = MEMMAP_EXECUTABLE_AND_MODULES \<and> kphys \<le> ?s
        then map_range (kvirt + (?s - kphys)) ?s (?f - ?s) mp else (Ok (), mp)) = (r1, mp1)" by (metis surj_pair)
    have g1: "grow {256..} UNIV mp mp1" "r1 \<noteq> Panic"
      using m1 map_range_high [OF Cons.prems(1), of _ ?s "?f - ?s" r1 mp1] within(1) lt grow_refl [OF Cons.prems(1)]
      by (auto simp: entry_high_def split: if_splits)
    note run = Cons.prems(3) [unfolded acc map_entries_Cons if_not_P [OF False] m1]
    show ?thesis
    proof (cases r1)
      case (Ok u)
      show ?thesis
      proof (cases "hhdm_mapped_rev3 (me_kind e)")
        case False
        with run Ok have "map_entries hhdm kphys kvirt es (hb, hs) mp1 = (res, mp')" by simp
        from IH [OF growD(1) [OF g1(1)] this] grow_trans [OF g1(1)] False show ?thesis by (auto simp: direct_mapped_def)
      next
        case True
        obtain r2 mp2 where m2: "map_range (hhdm + ?s) ?s (?f - ?s) mp1 = (r2, mp2)" by fastforce
        have g2: "grow {256..} UNIV mp1 mp2" "r2 \<noteq> Panic"
          using map_range_high [OF growD(1) [OF g1(1)] m2] within(1) lt by (auto simp: entry_high_def)
        note g12 = grow_trans [OF g1(1) g2(1)]
        show ?thesis
        proof (cases r2)
          case (Ok v)
          with run \<open>r1 = Ok u\<close> True m2
          have rest: "map_entries hhdm kphys kvirt es (saturating_add hb (?f - ?s), hs + 1) mp2 = (res, mp')" by simp
          note ih = IH [OF growD(1) [OF g12] rest]
          have "direct_mapped hhdm mp2 e" using map_range_direct [OF growD(1) [OF g1(1)] lt] m2 Ok by simp
          with direct_mapped_grow ih grow_trans [OF g12] show ?thesis by auto
        qed (use run \<open>r1 = Ok u\<close> True m2 g12 g2 in auto)
      qed
    qed (use run g1 in auto)
  qed
qed

section \<open>The result of build\<close>

text \<open>
  What the kernel space must map for Root Court to go on after \<^verbatim>\<open>mov cr3\<close>: its own image and, in the
  direct map, every whole page of the regions that revision 3 of the boot protocol maps.
\<close>

definition kernel_mapped :: "PageMap \<Rightarrow> Machine \<Rightarrow> bool" where
  "kernel_mapped pm mc \<longleftrightarrow> (unat (pm_kernel_phys pm) + unat (pm_kernel_len pm) \<le> 2 ^ 52 \<longrightarrow>
     (\<forall>va. unat (va - pm_kernel_virt pm) < unat (pm_kernel_len pm) \<longrightarrow>
       mc_translate mc (mc_kernel_pml4 mc) va = Some (pm_kernel_phys pm + (va - pm_kernel_virt pm))))"

definition memory_mapped :: "u64 \<Rightarrow> MemmapEntry list \<Rightarrow> Machine \<Rightarrow> bool" where
  "memory_mapped hhdm entries mc \<longleftrightarrow> (\<forall>e\<in>set entries.
     me_length e \<noteq> 0 \<and> hhdm_mapped_rev3 (me_kind e) \<and> unat (me_base e) + unat (me_length e) \<le> 2 ^ 52 \<longrightarrow>
     (\<forall>pa. entry_start e \<le> pa \<and> pa < entry_end e \<longrightarrow> mc_translate mc (mc_kernel_pml4 mc) (hhdm + pa) = Some pa))"

lemma put_back_Ok_iff:
  "put_back mc rs = (Ok a, mc') \<longleftrightarrow> (\<exists>mp. rs = (Ok a, mp) \<and> mc' = mc\<lparr>mc_bump := mp_bump mp, mc_mem := mp_mem mp\<rparr>)"
  by (cases rs) (auto simp: put_back_def)

lemma build_Ok:
  assumes "build (kstart, kend) hhdm kphys kvirt entries mc = (Ok pm, mc')"
  obtains root mp1 mp2 acc mp3 cr3 mp4 where "alloc_table (mapper 0 0 mc) = (Ok root, mp1)"
    "map_range kstart (kphys + (kstart - kvirt)) (align_up (kend - kstart) PAGE)
       (mp1\<lparr>mp_pml4 := root, mp_table_pages := 1\<rparr>) = (Ok (), mp2)"
    "map_entries hhdm kphys kvirt entries (0, 0) mp2 = (Ok acc, mp3)"
    "(if mc_cr4 mc AND CR4_LA57 \<noteq> 0 then wrap_la57 root mp3 else (Ok root, mp3)) = (Ok cr3, mp4)"
    "mc' = mc\<lparr>mc_bump := mp_bump mp4, mc_mem := mp_mem mp4, mc_kernel_pml4 := root\<rparr>"
    "pm_pml4_phys pm = cr3" "pm_kernel_virt pm = kstart" "pm_kernel_phys pm = kphys + (kstart - kvirt)"
    "pm_kernel_len pm = align_up (kend - kstart) PAGE"
proof -
  let ?mc = "\<lambda>root mp1. mc\<lparr>mc_bump := mp_bump mp1, mc_mem := mp_mem mp1, mc_kernel_pml4 := root\<rparr>"
  let ?kphys = "kphys + (kstart - kvirt)" and ?len = "align_up (kend - kstart) PAGE"
  from assms obtain root mp1 where a: "alloc_table (mapper 0 0 mc) = (Ok root, mp1)"
    and rest: "put_back (?mc root mp1) (try_st (map_range kstart ?kphys ?len (mapper root 1 (?mc root mp1))) (\<lambda>_ mp.
        try_st (map_entries hhdm kphys kvirt entries (0, 0) mp) (\<lambda>(hhdm_bytes, hhdm_spans) mp.
        try_st (if mc_cr4 mc AND CR4_LA57 \<noteq> 0 then wrap_la57 root mp else (Ok root, mp)) (\<lambda>cr3_phys mp.
          (Ok \<lparr>pm_pml4_phys = cr3_phys, pm_kernel_virt = kstart, pm_kernel_phys = ?kphys,
             pm_kernel_len = ?len, pm_hhdm_bytes = hhdm_bytes, pm_hhdm_spans = hhdm_spans,
             pm_table_pages = mp_table_pages mp\<rparr>, mp))))) = (Ok pm, mc')"
    unfolding build_def Let_def by (auto simp: try_st_Ok_iff put_back_Ok_iff split: if_splits)
  have mapper: "mapper root 1 (?mc root mp1) = mp1\<lparr>mp_pml4 := root, mp_table_pages := 1\<rparr>"
    by (simp add: mapper_def)
  from rest show ?thesis
    unfolding mapper put_back_Ok_iff try_st_Ok_iff
    by (auto split: prod.splits simp: try_st_Ok_iff intro: that [OF a])
qed

lemma kernel_mapped_direct:
  assumes "map_range (pm_kernel_virt pm) (pm_kernel_phys pm) (pm_kernel_len pm) mp = (Ok (), mp')" and "mp_tree mp"
    and "aligned (pm_kernel_len pm)" and "\<And>va pa. mp_translate mp' va = Some pa \<Longrightarrow> mc_translate mc (mc_kernel_pml4 mc) va = Some pa"
  shows "kernel_mapped pm mc"
proof -
  have "unat (pm_kernel_len pm) div 4096 * 4096 = unat (pm_kernel_len pm)" using assms(3) by simp
  with map_range_grows [OF assms(2,1)] assms(4) show ?thesis by (simp add: kernel_mapped_def)
qed

lemma build_result:
  assumes b: "bump_ok (mc_bump mc)" "unat (ba_end (mc_bump mc)) \<le> 2 ^ 52"
    and kernel: "upper_half kstart (align_up (kend - kstart) PAGE)"
    and high: "\<forall>e\<in>set entries. entry_high hhdm kphys kvirt e"
    and res: "build (kstart, kend) hhdm kphys kvirt entries mc = (Ok pm, mc')"
  shows "spaces_ok mc' {mc_kernel_pml4 mc'} \<and> kernel_mapped pm mc' \<and> memory_mapped hhdm entries mc' \<and>
    same_pool (mc_bump mc) (mc_bump mc') \<and> (mc_cr4 mc AND CR4_LA57 = 0 \<longrightarrow> pm_pml4_phys pm = mc_kernel_pml4 mc') \<and>
    (\<forall>x\<in>owned_mem (mc_bump mc). mc_mem mc' x = mc_mem mc x \<and> (\<forall>t\<in>tables_of (mc_mem mc') (mc_kernel_pml4 mc'). x \<notin> page_at t))"
  using res
proof (rule build_Ok)
  fix root and mp1 :: Mapper and mp2 acc mp3 cr3 mp4
  let ?mp1 = "mp1\<lparr>mp_pml4 := root, mp_table_pages := 1\<rparr>"
  assume a: "alloc_table (mapper 0 0 mc) = (Ok root, mp1)"
    and k: "map_range kstart (kphys + (kstart - kvirt)) (align_up (kend - kstart) PAGE) ?mp1 = (Ok (), mp2)"
    and es: "map_entries hhdm kphys kvirt entries (0, 0) mp2 = (Ok acc, mp3)"
    and w: "(if mc_cr4 mc AND CR4_LA57 \<noteq> 0 then wrap_la57 root mp3 else (Ok root, mp3)) = (Ok cr3, mp4)"
    and mc': "mc' = mc\<lparr>mc_bump := mp_bump mp4, mc_mem := mp_mem mp4, mc_kernel_pml4 := root\<rparr>"
    and pm: "pm_pml4_phys pm = cr3" "pm_kernel_virt pm = kstart" "pm_kernel_phys pm = kphys + (kstart - kvirt)"
      "pm_kernel_len pm = align_up (kend - kstart) PAGE"
  have b': "bump_ok (mp_bump (mapper 0 0 mc))" "unat (ba_end (mp_bump (mapper 0 0 mc))) \<le> 2 ^ 52" using b by (simp_all add: mapper_def)
  note empty = empty_tree [OF b' a] and fresh = alloc_table_Ok [OF b' a]
  have t1: "mp_tree ?mp1" using empty(1) by simp
  note g2 = conjunct1 [OF map_range_high [OF t1 k kernel]]
  note g3 = map_entries_grows [OF growD(1) [OF g2] high es]
  note g13 = grow_trans [OF g2 conjunct1 [OF g3]]
  have root: "mp_pml4 mp3 = root" using growD(2) [OF g13] by simp
  note t3 = growD(1) [OF g13, unfolded root]
  have w': "same_pool (mp_bump mp3) (mp_bump mp4)" "bump_ok (mp_bump mp4)" "\<And>x. x \<in> mp_owned mp3 \<Longrightarrow> mp_mem mp4 x = mp_mem mp3 x"
    using w wrap_la57_fresh [OF treeD(1,2) [OF t3], of root "Ok cr3" mp4] treeD(1) [OF t3] by (auto split: if_splits)
  have top: "walk (mp_mem mp3) root [i] = None" if "i < 256" for i
    using growD(5) [OF g13, of "[i]"] that empty(2) [of i "[]"] root by (cases "walk (mp_mem mp3) root [i]") (auto simp: path_ok_def)
  have "spaces_ok (mc'\<lparr>mc_bump := mp_bump mp3, mc_mem := mp_mem mp3\<rparr>) {root}"
    using t3 top by (simp add: spaces_ok_def mc')
  note same = fresh_change [OF this, of mc'] 
  have ok: "spaces_ok mc' {root}" and ent: "same_entries (mp_mem mp3) root (mc_mem mc') root"
    using w' same by (simp_all add: mc')
  have trans: "mc_translate mc' (mc_kernel_pml4 mc') = mp_translate mp3"
    using same_entries_translate [OF ent] root by (simp add: mc' fun_eq_iff)
  have "kernel_mapped pm mc'"
  proof (rule kernel_mapped_direct [of pm ?mp1 mp2])
    show "map_range (pm_kernel_virt pm) (pm_kernel_phys pm) (pm_kernel_len pm) ?mp1 = (Ok (), mp2)" using k by (simp add: pm)
    show "mp_tree ?mp1" by (rule t1)
    show "aligned (pm_kernel_len pm)" by (simp add: pm align_facts page_up_aligned)
    show "mc_translate mc' (mc_kernel_pml4 mc') va = Some pa" if "mp_translate mp2 va = Some pa" for va pa
      using that grow_keeps [OF conjunct1 [OF g3]] unfolding trans keeps_translations_def by blast
  qed
  moreover have "memory_mapped hhdm entries mc'" using g3 by (auto simp: memory_mapped_def direct_mapped_def trans)
  moreover have "same_pool (mc_bump mc) (mc_bump mc')"
    using same_pool_trans [OF same_pool_trans [OF fresh(6)] w'(1)] growD(3) [OF g13] by (simp add: mc' mapper_def)
  moreover have "mc_cr4 mc AND CR4_LA57 = 0 \<longrightarrow> pm_pml4_phys pm = root" using w pm(1) by auto
  moreover have "mc_mem mc' x = mc_mem mc x \<and> (\<forall>t\<in>tables_of (mc_mem mc') root. x \<notin> page_at t)" if x: "x \<in> owned_mem (mc_bump mc)" for x
  proof (intro conjI ballI)
    have only: "t = root" if "path_ok p" "walk (mp_mem mp1) root p = Some t" for p t
    proof (cases p)
      case (Cons i q)
      with that empty(2) [of i q] show ?thesis by (auto simp: path_ok_def)
    qed (use that in simp)
    have out: "x \<notin> page_at root" and own1: "x \<in> mp_owned mp1" using x fresh(3) same_pool_owned [OF fresh(6)] by (auto simp: mapper_def)
    then have m1: "mp_mem mp1 x = mc_mem mc x" by (simp add: fresh(5) mem_zero_def mapper_def span_def)
    have "mp_mem mp3 x = mp_mem mp1 x"
      using growD(7) [OF g13, of x] only own1 out by (auto simp: table_under_def)
    moreover have "x \<in> mp_owned mp3" using own1 same_pool_owned [OF growD(3) [OF g13]] by auto
    ultimately show "mc_mem mc' x = mc_mem mc x" using w'(3) m1 by (simp add: mc')
    fix t assume "t \<in> tables_of (mc_mem mc') root"
    then obtain p where "path_ok p" "walk (mp_mem mp3) root p = Some t" unfolding same_entries_tables(1) [OF ent] by (auto simp: tables_of_def)
    with growD(5) [OF g13, of p t] only [of p t] own1 out root show "x \<notin> page_at t" by auto
  qed
  ultimately show ?thesis using ok by (simp add: mc')
qed

end
