(* ===== verification/Data_Pages.thy ===== *)
theory Data_Pages
  imports Kernel_Space
begin

text \<open>
  The memory of the pool that holds no page table: image segments, boot blocks, rings, stacks. Cloning
  a space, mapping in a clone and handing out pages leave its bytes alone, so what Root Court writes
  there stays until it or a Courtlet writes there again.
\<close>

section \<open>Data memory\<close>

definition data_mem :: "Machine \<Rightarrow> u64 set \<Rightarrow> u64 set" where
  "data_mem mc S = owned_mem (mc_bump mc) - {x. \<exists>s\<in>S. \<exists>t\<in>tables_of (mc_mem mc) s. x \<in> page_at t}"

lemma data_memI: "x \<in> owned_mem (mc_bump mc) \<Longrightarrow> (\<And>s t. s \<in> S \<Longrightarrow> t \<in> tables_of (mc_mem mc) s \<Longrightarrow> x \<notin> page_at t) \<Longrightarrow> x \<in> data_mem mc S"
  by (auto simp: data_mem_def)

lemma data_memD: "x \<in> data_mem mc S \<Longrightarrow> s \<in> S \<Longrightarrow> t \<in> tables_of (mc_mem mc) s \<Longrightarrow> x \<notin> page_at t"
  and data_mem_owned: "x \<in> data_mem mc S \<Longrightarrow> x \<in> owned_mem (mc_bump mc)"
  by (auto simp: data_mem_def)

text \<open>
  From \<open>(mc, S)\<close> to \<open>(mc', S')\<close> the machine evolved: the spaces stay well formed and keep what they map, the
  data memory grows, and its bytes outside \<open>W\<close> are as before.
\<close>

definition evolves :: "u64 set \<Rightarrow> Machine \<times> u64 set \<Rightarrow> Machine \<times> u64 set \<Rightarrow> bool" where
  "evolves W s t \<longleftrightarrow> (case (s, t) of ((mc, S), (mc', S')) \<Rightarrow>
     spaces_ok mc' S' \<and> S \<subseteq> S' \<and> mc' = mc\<lparr>mc_bump := mc_bump mc', mc_mem := mc_mem mc'\<rparr> \<and>
     same_pool (mc_bump mc) (mc_bump mc') \<and> data_mem mc S \<subseteq> data_mem mc' S' \<and>
     (\<forall>x\<in>data_mem mc S - W. mc_mem mc' x = mc_mem mc x) \<and>
     (\<forall>r\<in>S. \<forall>va pa. mc_translate mc r va = Some pa \<longrightarrow> mc_translate mc' r va = Some pa))"

lemma evolvesD:
  assumes "evolves W (mc, S) (mc', S')"
  shows "spaces_ok mc' S'" and "S \<subseteq> S'" and "mc' = mc\<lparr>mc_bump := mc_bump mc', mc_mem := mc_mem mc'\<rparr>"
    and "same_pool (mc_bump mc) (mc_bump mc')" and "x \<in> data_mem mc S \<Longrightarrow> x \<in> data_mem mc' S'"
    and "x \<in> data_mem mc S \<Longrightarrow> x \<notin> W \<Longrightarrow> mc_mem mc' x = mc_mem mc x"
    and "r \<in> S \<Longrightarrow> mc_translate mc r va = Some pa \<Longrightarrow> mc_translate mc' r va = Some pa"
  using assms by (auto simp: evolves_def)

lemma evolves_regs:
  assumes "evolves W (mc, S) (mc', S')"
  shows "mc_kernel_pml4 mc' = mc_kernel_pml4 mc" and "mc_cr3 mc' = mc_cr3 mc" and "mc_cr4 mc' = mc_cr4 mc"
  by (subst evolvesD(3) [OF assms], simp)+

lemma evolves_refl: "spaces_ok mc S \<Longrightarrow> evolves W (mc, S) (mc, S)"
  by (simp add: evolves_def)

lemma evolves_trans: "evolves W s t \<Longrightarrow> evolves W t u \<Longrightarrow> evolves W s u"
proof -
  assume 1: "evolves W s t" and 2: "evolves W t u"
  obtain mc S mc' S' mc'' S'' where st: "s = (mc, S)" "t = (mc', S')" "u = (mc'', S'')" by (metis surj_pair)
  note d1 = evolvesD [OF 1 [unfolded st]] and d2 = evolvesD [OF 2 [unfolded st]]
  have "mc'' = mc\<lparr>mc_bump := mc_bump mc'', mc_mem := mc_mem mc''\<rparr>" by (subst d2(3), subst d1(3)) simp
  moreover have "x \<in> data_mem mc'' S''" "x \<notin> W \<Longrightarrow> mc_mem mc'' x = mc_mem mc x" if "x \<in> data_mem mc S" for x
    using d1(5,6) d2(5,6) that by auto
  moreover have "mc_translate mc'' r va = Some pa" if "r \<in> S" "mc_translate mc r va = Some pa" for r va pa
    using d1(2,7) d2(7) that by blast
  ultimately show ?thesis
    using d2(1) d1(2) d2(2) same_pool_trans [OF d1(4) d2(4)] unfolding st evolves_def by auto
qed

lemma evolves_mono: "evolves W s t \<Longrightarrow> W \<subseteq> W' \<Longrightarrow> evolves W' s t"
  unfolding evolves_def by (auto split: prod.splits)

section \<open>The operations\<close>

lemma same_tables_data:
  assumes "same_pool (mc_bump mc) (mc_bump mc')" and "S \<subseteq> S'"
    and "\<And>s t. s \<in> S' \<Longrightarrow> t \<in> tables_of (mc_mem mc') s \<Longrightarrow>
      (\<exists>r\<in>S. t \<in> tables_of (mc_mem mc) r) \<or> page_at t \<inter> owned_mem (mc_bump mc) = {}"
  shows "data_mem mc S \<subseteq> data_mem mc' S'"
  using same_pool_owned [OF assms(1)] assms(2,3) unfolding data_mem_def by blast

lemma same_regs:
  "space_map sp virt phys len mc = (res, mc') \<Longrightarrow> mc' = mc\<lparr>mc_bump := mc_bump mc', mc_mem := mc_mem mc'\<rparr>"
  "clone_kernel mc = (res', mc') \<Longrightarrow> mc' = mc\<lparr>mc_bump := mc_bump mc', mc_mem := mc_mem mc'\<rparr>"
  by (auto simp: space_map_def clone_kernel_def put_back_def split: if_splits)

lemma space_map_evolves:
  assumes ok: "spaces_ok mc S" and r: "as_pml4_phys sp \<in> S" "as_pml4_phys sp \<noteq> mc_kernel_pml4 mc"
    and low: "lower_half virt len" and res: "space_map sp virt phys len mc = (res, mc')"
  shows "evolves {} (mc, S) (mc', S) \<and> res \<noteq> Panic \<and>
    (res = Ok () \<and> unat phys + unat len \<le> 2 ^ 52 \<longrightarrow> (\<forall>va. unat (va - virt) < unat len div 4096 * 4096 \<longrightarrow>
      mc_translate mc' (as_pml4_phys sp) va = Some (phys + (va - virt))))"
proof -
  let ?r = "as_pml4_phys sp"
  note m = space_map_maps_in [OF assms]
  note d = maps_inD [OF conjunct1 [OF m]]
  have tabs: "(\<exists>u\<in>S. t \<in> tables_of (mc_mem mc) u) \<or> page_at t \<inter> owned_mem (mc_bump mc) = {}"
    if "s \<in> S" "t \<in> tables_of (mc_mem mc') s" for s t
    using that d(8) [of t] same_entries_tables(1) [OF d(5) [OF that(1)]] r(1) by (cases "s = ?r") auto
  have "data_mem mc S \<subseteq> data_mem mc' S" using d(4) tabs by (intro same_tables_data) auto
  moreover have "mc_mem mc' x = mc_mem mc x" if "x \<in> data_mem mc S" for x
    using d(7) [OF data_mem_owned [OF that]] data_memD [OF that r(1)] low_tables_sub by blast
  moreover have "mc_translate mc' s va = Some pa" if "s \<in> S" "mc_translate mc s va = Some pa" for s va pa
    using that d(5) [OF that(1)] d(6) [of va] by (cases "s = ?r") (auto simp: same_entries_translate)
  ultimately show ?thesis using d(1,4) same_regs(1) [OF res] m by (auto simp: evolves_def)
qed

lemma clone_kernel_evolves:
  assumes ok: "spaces_ok mc S" and res: "clone_kernel mc = (res, mc')"
  shows "case res of
      Ok sp \<Rightarrow> evolves {} (mc, S) (mc', insert (as_pml4_phys sp) S) \<and> as_pml4_phys sp \<notin> S \<and>
        (\<forall>va. mc_translate mc' (as_pml4_phys sp) va = mc_translate mc (mc_kernel_pml4 mc) va) \<and>
        (mc_cr4 mc AND CR4_LA57 = 0 \<longrightarrow> as_cr3 sp = as_pml4_phys sp)
    | Err e \<Rightarrow> evolves {} (mc, S) (mc', S)
    | Panic \<Rightarrow> False"
proof -
  note c = clone_kernel_result [OF assms]
  then have pool: "same_pool (mc_bump mc) (mc_bump mc')"
    and ent: "\<And>s. s \<in> S \<Longrightarrow> same_entries (mc_mem mc) s (mc_mem mc') s"
    and mem: "\<And>x. x \<in> owned_mem (mc_bump mc) \<Longrightarrow> mc_mem mc' x = mc_mem mc x" by blast+
  have data: "data_mem mc S \<subseteq> data_mem mc' S" using pool same_entries_tables(1) [OF ent] by (intro same_tables_data) auto
  have keep: "mc_translate mc' s va = mc_translate mc s va" if "s \<in> S" for s va
    using same_entries_translate [OF ent [OF that]] .
  show ?thesis
  proof (cases res)
    case (Ok sp)
    with c have tabs: "\<forall>t\<in>tables_of (mc_mem mc') (as_pml4_phys sp).
        t \<in> tables_of (mc_mem mc) (mc_kernel_pml4 mc) \<or> page_at t \<inter> owned_mem (mc_bump mc) = {}" by simp
    have "data_mem mc S \<subseteq> data_mem mc' (insert (as_pml4_phys sp) S)"
      using pool same_entries_tables(1) [OF ent] tabs spaces_okD(1) [OF ok] by (intro same_tables_data) auto
    with c Ok pool keep mem same_regs(2) [OF res] show ?thesis by (auto simp: evolves_def data_mem_owned)
  qed (use c pool keep mem data same_regs(2) [OF res] in \<open>auto simp: evolves_def data_mem_owned\<close>)
qed

text \<open>Handing out pages and filling them.\<close>

lemma new_data:
  assumes ok: "spaces_ok mc S" and a: "alloc_pages n (mc_bump mc) = Some ((p, v), b)"
    and out: "\<forall>x. x \<notin> span p (unat n * 4096) \<longrightarrow> m' x = mc_mem mc x"
  defines "mc' \<equiv> mc\<lparr>mc_bump := b, mc_mem := m'\<rparr>"
  shows "evolves {} (mc, S) (mc', S)" and "span p (unat n * 4096) \<subseteq> data_mem mc' S"
    and "span p (unat n * 4096) \<inter> owned_mem (mc_bump mc) = {}" and "aligned p" and "unat p + unat n * 4096 \<le> 2 ^ 52"
    and "r \<in> S \<Longrightarrow> mc_translate mc' r va = mc_translate mc r va"
proof -
  note k = spaces_okD(2) [OF ok spaces_okD(1) [OF ok]]
  note f = alloc_pages_Some [OF treeD(1) [OF k] a]
  show al: "aligned p" using treeD(1) [OF k] f(1) by (simp add: bump_ok_def)
  show le: "unat p + unat n * 4096 \<le> 2 ^ 52" using f(8) treeD(2) [OF k] by simp
  have span: "unat p \<le> unat x \<and> unat x < unat p + unat n * 4096" if "x \<in> span p (unat n * 4096)" for x
  proof -
    from that obtain i where i: "i < unat n * 4096" "x = p + of_nat i" by (auto simp: span_iff_offset)
    then have "unat x = unat p + i" using le by (simp add: unat_add_no_overflow unat_of_nat_small)
    with i show ?thesis by simp
  qed
  have start: "unat (ba_start (mc_bump mc)) \<le> unat p" using treeD(1) [OF k] by (simp add: f(1) bump_ok_def word_le_nat_alt)
  show dis: "span p (unat n * 4096) \<inter> owned_mem (mc_bump mc) = {}"
    using span by (fastforce simp: owned_mem_def bump_owned_def f(1))
  have own: "span p (unat n * 4096) \<subseteq> owned_mem b"
    using span start by (fastforce simp: owned_mem_def bump_owned_def f(4,7))
  have pool: "same_pool (mc_bump mc) (mc_bump mc')" using f by (simp add: same_pool_def mc'_def word_le_nat_alt)
  have same: "mc_mem mc' x = mc_mem mc x" if "x \<in> owned_mem (mc_bump mc)" for x
    using that dis out by (auto simp: mc'_def)
  have fresh: "spaces_ok mc' S" "\<And>r. r \<in> S \<Longrightarrow> same_entries (mc_mem mc) r (mc_mem mc') r"
    using fresh_change [OF ok pool _ _ same] f(3) by (simp_all add: mc'_def)
  then show "r \<in> S \<Longrightarrow> mc_translate mc' r va = mc_translate mc r va" by (simp add: same_entries_translate)
  note tabs = same_entries_tables(1) [OF fresh(2)]
  have "data_mem mc S \<subseteq> data_mem mc' S" using pool tabs by (intro same_tables_data) auto
  with fresh(1) pool same same_entries_translate [OF fresh(2)] show "evolves {} (mc, S) (mc', S)"
    by (auto simp: evolves_def data_mem_owned mc'_def)
  show "span p (unat n * 4096) \<subseteq> data_mem mc' S"
  proof
    fix x
    assume x: "x \<in> span p (unat n * 4096)"
    have "x \<notin> page_at t" if "s \<in> S" "t \<in> tables_of (mc_mem mc') s" for s t
      using x dis tree_tables [OF spaces_okD(2) [OF ok that(1)], of t] that(2) tabs [OF that(1)] by auto
    with own x show "x \<in> data_mem mc' S" by (auto intro!: data_memI simp: mc'_def)
  qed
qed

text \<open>Writing in data memory.\<close>

lemma write_data:
  assumes ok: "spaces_ok mc S" and W: "W \<subseteq> data_mem mc S" and out: "\<forall>x. x \<notin> W \<longrightarrow> m' x = mc_mem mc x"
  shows "evolves W (mc, S) (mc\<lparr>mc_mem := m'\<rparr>, S)" and "data_mem (mc\<lparr>mc_mem := m'\<rparr>) S = data_mem mc S"
    and "r \<in> S \<Longrightarrow> translate m' r va = mc_translate mc r va"
proof -
  let ?mc = "mc\<lparr>mc_mem := m'\<rparr>"
  have ent: "same_entries (mc_mem mc) r m' r" if "r \<in> S" for r
  proof (rule unchanged_tables [OF spaces_okD(2) [OF ok that]])
    show "m' x = mc_mem mc x" if "t \<in> tables_of (mc_mem mc) r" "x \<in> page_at t" for t x
      using out data_memD [OF _ \<open>r \<in> S\<close> that(1)] W that(2) by blast
  qed
  then show "r \<in> S \<Longrightarrow> translate m' r va = mc_translate mc r va" for r by (simp add: same_entries_translate)
  note tabs = same_entries_tables [OF ent]
  show data: "data_mem ?mc S = data_mem mc S" using tabs by (auto simp: data_mem_def)
  have "spaces_ok ?mc S"
    unfolding spaces_ok_def
  proof (intro conjI ballI allI impI)
    show "mc_kernel_pml4 ?mc \<in> S" using spaces_okD(1) [OF ok] by simp
    show "tree (mc_bump ?mc) (mc_mem ?mc) r" if "r \<in> S" for r
      using same_entries_tree [OF spaces_okD(2) [OF ok that] ent [OF that] same_pool_refl] treeD(1) [OF spaces_okD(2) [OF ok that]] by simp
    show "apart (mc_mem ?mc) r s" if "r \<in> S" "s \<in> S" "r \<noteq> s" for r s
      using spaces_okD(3) [OF ok that] tabs that by (simp add: apart_def)
    show "walk (mc_mem ?mc) (mc_kernel_pml4 ?mc) [i] = None" if "i < 256" for i
      using same_entries_walk [OF ent [OF spaces_okD(1) [OF ok]], of "[i]"] spaces_okD(4) [OF ok that] that
      by (simp add: path_ok_def)
  qed
  with data out same_entries_translate [OF ent] show "evolves W (mc, S) (?mc, S)" by (auto simp: evolves_def)
qed

end
