(* ===== verification/Elf_Image.thy ===== *)
theory Elf_Image
  imports Data_Pages
begin

text \<open>
  The loader of Court Images, \<^verbatim>\<open>crates/root-court/src/image.rs\<close>: it reads the headers of an ELF64
  file, copies every \<^verbatim>\<open>PT_LOAD\<close> segment into fresh pages and maps them in the Courtlet's space.
  \<^verbatim>\<open>usize\<close> is a 64-bit word; the pages are written through the direct map.
\<close>

definition MAX_PHDRS :: u64 where "MAX_PHDRS = 8"
definition MAX_SEGMENT :: u64 where "MAX_SEGMENT = 128 * 1024"
definition ELF_MAGIC :: bytes where "ELF_MAGIC = [0x7f, 0x45, 0x4c, 0x46]"
definition ELFCLASS64 :: u8 where "ELFCLASS64 = 2"
definition ELFDATA2LSB :: u8 where "ELFDATA2LSB = 1"
definition ELFOSABI_NONE :: u8 where "ELFOSABI_NONE = 0"
definition ET_EXEC :: u16 where "ET_EXEC = 2"
definition EM_X86_64 :: u16 where "EM_X86_64 = 62"
definition PT_LOAD :: u32 where "PT_LOAD = 1"
definition EHSIZE :: nat where "EHSIZE = 64"
definition PHDR_SIZE :: u64 where "PHDR_SIZE = 56"

lemmas elf_consts = MAX_PHDRS_def MAX_SEGMENT_def ELF_MAGIC_def ELFCLASS64_def ELFDATA2LSB_def ELFOSABI_NONE_def
  ET_EXEC_def EM_X86_64_def PT_LOAD_def EHSIZE_def PHDR_SIZE_def

section \<open>Reading the file\<close>

text \<open>\<^verbatim>\<open>buf.get(off..off + n)\<close>: the end of the range wraps, and a range that is not one is \<open>None\<close>.\<close>

definition get_range :: "bytes \<Rightarrow> u64 \<Rightarrow> nat \<Rightarrow> bytes option" where
  "get_range buf off n = (let end = off + of_nat n in
     if off \<le> end \<and> unat end \<le> length buf then Some (take n (drop (unat off) buf)) else None)"

definition read_u16 :: "bytes \<Rightarrow> u64 \<Rightarrow> (u16, string) result" where
  "read_u16 buf off = and_then (ok_or (get_range buf off 2) ''court image oob'') (\<lambda>bs. Ok (of_nat (le_value bs)))"

definition read_u32 :: "bytes \<Rightarrow> u64 \<Rightarrow> (u32, string) result" where
  "read_u32 buf off = and_then (ok_or (get_range buf off 4) ''court image oob'') (\<lambda>bs. Ok (of_nat (le_value bs)))"

definition read_u64 :: "bytes \<Rightarrow> u64 \<Rightarrow> (u64, string) result" where
  "read_u64 buf off = and_then (ok_or (get_range buf off 8) ''court image oob'') (\<lambda>bs. Ok (of_nat (le_value bs)))"

section \<open>The headers\<close>

text \<open>The checks of the file header; the result has entry, \<^verbatim>\<open>phoff\<close>, \<^verbatim>\<open>phentsize\<close> and \<^verbatim>\<open>phnum\<close>.\<close>

definition check_header :: "bytes \<Rightarrow> (u64 \<times> u64 \<times> u64 \<times> u64, string) result" where
  "check_header img =
     (if length img < EHSIZE then Err ''court image truncated''
      else if take 4 img \<noteq> ELF_MAGIC then Err ''court image is not ELF''
      else if img ! 4 \<noteq> ELFCLASS64 \<or> img ! 5 \<noteq> ELFDATA2LSB then Err ''court image is not ELF64 LE''
      else if img ! 7 \<noteq> ELFOSABI_NONE \<and> img ! 7 \<noteq> 3 then Err ''court image ABI''
      else and_then (read_u16 img 16) (\<lambda>e_type.
      if e_type \<noteq> ET_EXEC \<and> e_type \<noteq> 3 then Err ''court image is not ET_EXEC/ET_DYN''
      else and_then (read_u16 img 18) (\<lambda>machine.
      if machine \<noteq> EM_X86_64 then Err ''court image is not x86_64''
      else and_then (read_u64 img 24) (\<lambda>entry.
      and_then (read_u64 img 32) (\<lambda>phoff.
      and_then (read_u16 img 54) (\<lambda>phentsize16.
      and_then (read_u16 img 56) (\<lambda>phnum16.
      let phentsize = ucast phentsize16; phnum = ucast phnum16 in
      if phentsize \<noteq> PHDR_SIZE then Err ''court image phentsize''
      else if phnum = 0 \<or> MAX_PHDRS < phnum then Err ''court image phnum''
      else and_then (ok_or (checked_mul phnum phentsize) ''court image phdr overflow'') (\<lambda>size.
      and_then (ok_or (checked_add phoff size) ''court image phdr overflow'') (\<lambda>phdrs_end.
      if length img < unat phdrs_end then Err ''court image phdrs truncated''
      else Ok (entry, phoff, phentsize, phnum))))))))))"

record Phdr =
  p_offset :: u64
  p_vaddr :: u64
  p_filesz :: u64
  p_memsz :: u64

definition read_phdr :: "bytes \<Rightarrow> u64 \<Rightarrow> (Phdr, string) result" where
  "read_phdr img off =
     and_then (read_u64 img (off + 8)) (\<lambda>offset.
     and_then (read_u64 img (off + 16)) (\<lambda>vaddr.
     and_then (read_u64 img (off + 32)) (\<lambda>filesz.
     and_then (read_u64 img (off + 40)) (\<lambda>memsz.
     Ok \<lparr>p_offset = offset, p_vaddr = vaddr, p_filesz = filesz, p_memsz = memsz\<rparr>))))"

section \<open>Loading a segment\<close>

text \<open>The copy of the file's part of a segment to \<open>dst\<close>.\<close>

definition copy_file :: "bytes \<Rightarrow> Phdr \<Rightarrow> u64 \<Rightarrow> Machine \<Rightarrow> (unit, string) result \<times> Machine" where
  "copy_file img ph dst mc =
     (if p_filesz ph = 0 then (Ok (), mc)
      else try_in (ok_or (checked_add (p_offset ph) (p_filesz ph)) ''court image file overflow'') mc (\<lambda>file_end.
      if length img < unat file_end then (Err ''court image file truncated'', mc)
      else (Ok (), mc\<lparr>mc_mem := mem_write dst (take (unat (p_filesz ph)) (drop (unat (p_offset ph)) img)) (mc_mem mc)\<rparr>)))"

text \<open>The fresh pages of a segment: \<open>pages\<close> is \<^verbatim>\<open>map_len.div_ceil(PAGE)\<close>.\<close>

definition load_pages :: "AddressSpace \<Rightarrow> bytes \<Rightarrow> Phdr \<Rightarrow> u64 \<Rightarrow> Machine \<Rightarrow> (unit, string) result \<times> Machine" where
  "load_pages space img ph map_len mc =
     (let page_off = p_vaddr ph AND (PAGE - 1); map_va = p_vaddr ph - page_off; pages = div_ceil map_len PAGE in
      case alloc_pages pages (mc_bump mc) of
        None \<Rightarrow> (Err ''court image pages'', mc)
      | Some ((phys, virt), b) \<Rightarrow>
        try_st (copy_file img ph (phys + page_off)
          (mc\<lparr>mc_bump := b, mc_mem := mem_zero phys (unat (pages * PAGE)) (mc_mem mc)\<rparr>)) (\<lambda>_ mc.
        space_map space map_va phys (pages * PAGE) mc))"

text \<open>One pass of the loop; \<open>Ok True\<close> when the entry point lies in the segment.\<close>

definition load_segment :: "AddressSpace \<Rightarrow> bytes \<Rightarrow> u64 \<Rightarrow> u64 \<Rightarrow> Machine \<Rightarrow> (bool, string) result \<times> Machine" where
  "load_segment space img entry off mc =
     try_in (read_u32 img off) mc (\<lambda>p_type.
     if p_type \<noteq> PT_LOAD then (Ok False, mc)
     else try_in (read_phdr img off) mc (\<lambda>ph.
     if p_memsz ph = 0 then (Ok False, mc)
     else if 0x0000800000000000 \<le> p_vaddr ph then (Err ''court image PT_LOAD is not lower-half'', mc)
     else if MAX_SEGMENT < p_memsz ph then (Err ''court image segment too large'', mc)
     else if p_memsz ph < p_filesz ph then (Err ''court image filesz > memsz'', mc)
     else try_in (ok_or (checked_add (p_vaddr ph AND (PAGE - 1)) (p_memsz ph)) ''court image segment overflow'') mc (\<lambda>map_len.
     try_st (load_pages space img ph map_len mc) (\<lambda>_ mc.
       (Ok (p_vaddr ph \<le> entry \<and> entry < p_vaddr ph + p_memsz ph), mc)))))"

fun load_segments :: "AddressSpace \<Rightarrow> bytes \<Rightarrow> u64 \<Rightarrow> u64 list \<Rightarrow> bool \<Rightarrow> Machine \<Rightarrow> (bool, string) result \<times> Machine" where
  "load_segments space img entry [] mapped_entry mc = (Ok mapped_entry, mc)"
| "load_segments space img entry (off # offs) mapped_entry mc =
     try_st (load_segment space img entry off mc) (\<lambda>hit mc.
     load_segments space img entry offs (mapped_entry \<or> hit) mc)"

definition phdr_offsets :: "u64 \<Rightarrow> u64 \<Rightarrow> u64 \<Rightarrow> u64 list" where
  "phdr_offsets phoff phentsize phnum = map (\<lambda>index. phoff + of_nat index * phentsize) [0..<unat phnum]"

definition load :: "AddressSpace \<Rightarrow> bytes \<Rightarrow> Machine \<Rightarrow> (u64, string) result \<times> Machine" where
  "load space img mc =
     try_in (check_header img) mc (\<lambda>(entry, phoff, phentsize, phnum).
     try_st (load_segments space img entry (phdr_offsets phoff phentsize phnum) False mc) (\<lambda>mapped_entry mc.
     if \<not> mapped_entry then (Err ''court image entry is not in a PT_LOAD'', mc) else (Ok entry, mc)))"

section \<open>What a loaded segment is\<close>

text \<open>
  Byte \<open>i\<close> of the segment, seen through the Courtlet's page tables, is byte \<open>i\<close> of the file's part and zero
  behind it; it lies in data memory.
\<close>

definition segment_loaded :: "Machine \<Rightarrow> u64 set \<Rightarrow> u64 \<Rightarrow> bytes \<Rightarrow> Phdr \<Rightarrow> bool" where
  "segment_loaded mc S r img ph \<longleftrightarrow> (\<forall>i<unat (p_memsz ph). \<exists>pa\<in>data_mem mc S.
     mc_translate mc r (p_vaddr ph + of_nat i) = Some pa \<and>
     mc_mem mc pa = (if i < unat (p_filesz ph) then img ! (unat (p_offset ph) + i) else 0))"

definition segment_low :: "Phdr \<Rightarrow> bool" where
  "segment_low ph \<longleftrightarrow> lower_half (p_vaddr ph) (p_memsz ph)"

lemma segment_loaded_evolves:
  assumes "segment_loaded mc S r img ph" and "evolves {} (mc, S) (mc', S')" and "r \<in> S"
  shows "segment_loaded mc' S' r img ph"
  using assms evolvesD(5,6,7) [OF assms(2)] unfolding segment_loaded_def by (metis empty_iff)

lemma page_ceil:
  fixes k v n :: nat
  shows "(k + 4095) div 4096 = (if k mod 4096 = 0 then k div 4096 else k div 4096 + 1)"
    and "k \<le> (k + 4095) div 4096 * 4096"
    and "v div 4096 * 4096 + (v mod 4096 + n + 4095) div 4096 * 4096 = (v + n + 4095) div 4096 * 4096"
proof -
  define q r where "q = k div 4096" and "r = k mod 4096"
  have k: "k = 4096 * q + r" "r < 4096" by (simp_all add: q_def r_def)
  have "(4096 * q + r + 4095) div 4096 = q + (r + 4095) div 4096" using div_mult_self2 [of 4096 "r + 4095" q] by (simp add: ac_simps)
  moreover have "(r + 4095) div 4096 = (if r = 0 then 0 else 1)" using k(2) by (auto simp: div_nat_eqI)
  ultimately have "(k + 4095) div 4096 = q + (if r = 0 then 0 else 1)" by (simp only: k(1))
  then show "(k + 4095) div 4096 = (if k mod 4096 = 0 then k div 4096 else k div 4096 + 1)" by (simp add: q_def r_def)
  show "k \<le> (k + 4095) div 4096 * 4096"
    using mod_less_divisor [of 4096 "k + 4095"] div_mult_mod_eq [of "k + 4095" 4096] by linarith
  have "v + n + 4095 = v mod 4096 + n + 4095 + v div 4096 * 4096" using div_mult_mod_eq [of v 4096] by linarith
  then have "(v + n + 4095) div 4096 = v div 4096 + (v mod 4096 + n + 4095) div 4096"
    using div_mult_self1 [of 4096 "v mod 4096 + n + 4095" "v div 4096"] by presburger
  then show "v div 4096 * 4096 + (v mod 4096 + n + 4095) div 4096 * 4096 = (v + n + 4095) div 4096 * 4096"
    by (simp add: algebra_simps)
qed

lemma unat_div_ceil_page:
  "unat x \<le> 2 ^ 63 \<Longrightarrow> unat (div_ceil x PAGE) = (unat x + 4095) div 4096" for x :: u64
proof -
  assume x: "unat x \<le> 2 ^ 63"
  have "x mod PAGE = 0 \<longleftrightarrow> unat x mod 4096 = 0" by (simp add: word_unat_eq_iff unat_mod unat_PAGE)
  moreover have "unat (x div PAGE) = unat x div 4096" by (simp add: unat_div unat_PAGE)
  moreover have "unat (x div PAGE + 1) = unat x div 4096 + 1"
    using x by (simp add: unat_add_no_overflow unat_div unat_PAGE)
  ultimately show ?thesis by (simp add: div_ceil_def page_ceil(1))
qed

lemma segment_pages:
  fixes vaddr map_len :: u64
  assumes len: "unat map_len = unat (vaddr AND (PAGE - 1)) + n" and n: "n \<le> 2 ^ 17" and low: "unat vaddr + n \<le> 2 ^ 47"
  defines "pages \<equiv> div_ceil map_len PAGE" and "off \<equiv> vaddr AND (PAGE - 1)"
  shows "unat (pages * PAGE) = unat pages * 4096" and "unat off + n \<le> unat pages * 4096"
    and "unat off < 4096" and "lower_half (vaddr - off) (pages * PAGE)"
proof -
  have o: "unat off = unat vaddr mod 4096" by (simp add: off_def page_mask unat_and_mask)
  show o4: "unat off < 4096" by (simp add: o)
  have l: "unat map_len = unat vaddr mod 4096 + n" using len by (simp add: o [unfolded off_def])
  have p: "unat pages = (unat map_len + 4095) div 4096" unfolding pages_def using o4 n l by (intro unat_div_ceil_page) (simp add: o)
  then have "unat pages \<le> 2 ^ 20" using o4 n l by (simp add: o)
  then show pp: "unat (pages * PAGE) = unat pages * 4096" by (simp add: unat_mult_no_overflow unat_PAGE)
  show "unat off + n \<le> unat pages * 4096" unfolding p l o by (rule page_ceil(2))
  have "unat (vaddr - off) = unat vaddr - unat off" by (simp add: unat_sub word_le_nat_alt o)
  then have "unat (vaddr - off) = unat vaddr div 4096 * 4096" by (simp add: o minus_mod_eq_div_mult)
  moreover have "v div 4096 * 4096 + (v mod 4096 + n + 4095) div 4096 * 4096 \<le> 2 ^ 47" if "v + n \<le> 2 ^ 47" for v :: nat
  proof -
    have "(v + n + 4095) div 4096 \<le> (2 ^ 47 + 4095) div 4096" using that by (intro div_le_mono) simp
    then show ?thesis unfolding page_ceil(3) by simp
  qed
  ultimately show "lower_half (vaddr - off) (pages * PAGE)" using low by (simp add: lower_half_def pp p l)
qed

section \<open>Loading is correct\<close>

lemma copy_file_cases:
  obtains (ok) "copy_file img ph dst mc = (Ok (), mc\<lparr>mc_mem :=
        mem_write dst (take (unat (p_filesz ph)) (drop (unat (p_offset ph)) img)) (mc_mem mc)\<rparr>)"
      "p_filesz ph \<noteq> 0 \<longrightarrow> unat (p_offset ph) + unat (p_filesz ph) \<le> length img"
  | (err) e where "copy_file img ph dst mc = (Err e, mc)"
proof (cases "p_filesz ph = 0")
  case True
  then have "copy_file img ph dst mc = (Ok (), mc\<lparr>mc_mem :=
      mem_write dst (take (unat (p_filesz ph)) (drop (unat (p_offset ph)) img)) (mc_mem mc)\<rparr>)"
    by (simp add: copy_file_def mem_write_def)
  with True that(1) show thesis by simp
next
  case False
  show thesis
  proof (cases "checked_add (p_offset ph) (p_filesz ph)")
    case None
    with False that(2) show thesis by (simp add: copy_file_def)
  next
    case (Some e)
    then have "unat e = unat (p_offset ph) + unat (p_filesz ph)" by (simp add: checked_add_Some)
    with Some False that show thesis by (cases "length img < unat e") (simp_all add: copy_file_def)
  qed
qed

lemma write_in_pages:
  fixes phys :: u64 and m :: pmem
  assumes "k + length bs \<le> len" and "unat phys + len \<le> 2 ^ 52"
  defines "m' \<equiv> mem_write (phys + of_nat k) bs (mem_zero phys len m)"
  shows "x \<notin> span phys len \<Longrightarrow> m' x = m x"
    and "k + i < len \<Longrightarrow> m' (phys + of_nat (k + i)) = (if i < length bs then bs ! i else 0)"
proof -
  have in_page: "unat (x - phys) = k + unat (x - (phys + of_nat k))" if "unat (x - (phys + of_nat k)) < length bs" for x
  proof -
    have "x - phys = of_nat k + (x - (phys + of_nat k))" by simp
    also have "unat \<dots> = k + unat (x - (phys + of_nat k))"
      using that assms(1,2) by (subst unat_add_no_overflow) (simp_all add: unat_of_nat_small)
    finally show ?thesis .
  qed
  show "m' x = m x" if "x \<notin> span phys len"
    using that in_page [of x] assms(1) by (auto simp: m'_def mem_write_def mem_zero_def span_def)
  assume i: "k + i < len"
  have "phys + of_nat (k + i) - (phys + of_nat k) = of_nat i" by simp
  moreover have "unat (of_nat i :: u64) = i" "unat (phys + of_nat (k + i) - phys) = k + i"
    using i assms(2) by (simp_all add: unat_of_nat_small del: of_nat_add)
  ultimately show "m' (phys + of_nat (k + i)) = (if i < length bs then bs ! i else 0)"
    using i by (simp add: m'_def mem_write_def mem_zero_def del: of_nat_add)
qed

lemma load_pages_result:
  assumes ok: "spaces_ok mc S" and r: "as_pml4_phys sp \<in> S" "as_pml4_phys sp \<noteq> mc_kernel_pml4 mc"
    and ph: "unat (p_memsz ph) \<le> 2 ^ 17" "p_filesz ph \<le> p_memsz ph" "segment_low ph"
    and len: "unat map_len = unat (p_vaddr ph AND (PAGE - 1)) + unat (p_memsz ph)"
    and res: "load_pages sp img ph map_len mc = (res, mc')"
  shows "evolves {} (mc, S) (mc', S) \<and> res \<noteq> Panic \<and> (res = Ok () \<longrightarrow> segment_loaded mc' S (as_pml4_phys sp) img ph)"
proof (cases "alloc_pages (div_ceil map_len PAGE) (mc_bump mc)")
  case None
  with res evolves_refl [OF ok] show ?thesis by (auto simp: load_pages_def Let_def)
next
  case (Some a)
  let ?off = "p_vaddr ph AND (PAGE - 1)" and ?pages = "div_ceil map_len PAGE"
  let ?bs = "take (unat (p_filesz ph)) (drop (unat (p_offset ph)) img)"
  obtain phys v b where alloc: "alloc_pages ?pages (mc_bump mc) = Some ((phys, v), b)" using Some by (metis surj_pair)
  note sp = segment_pages [OF len ph(1) ph(3) [unfolded segment_low_def lower_half_def]]
  define mc1 where "mc1 = mc\<lparr>mc_bump := b, mc_mem := mem_zero phys (unat ?pages * 4096) (mc_mem mc)\<rparr>"
  have run: "load_pages sp img ph map_len mc = try_st (copy_file img ph (phys + ?off) mc1)
      (\<lambda>_ mc. space_map sp (p_vaddr ph - ?off) phys (?pages * PAGE) mc)"
    by (simp add: load_pages_def alloc Let_def sp(1) mc1_def)
  have z: "\<forall>x. x \<notin> span phys (unat ?pages * 4096) \<longrightarrow> mem_zero phys (unat ?pages * 4096) (mc_mem mc) x = mc_mem mc x"
    by (simp add: mem_zero_out)
  note new1 = new_data [OF ok alloc z, folded mc1_def]
  show ?thesis
  proof (cases rule: copy_file_cases [of img ph "phys + ?off" mc1])
    case err
    with run res new1(1) show ?thesis by auto
  next
    case copied: ok
    define m2 where "m2 = mem_write (phys + ?off) ?bs (mem_zero phys (unat ?pages * 4096) (mc_mem mc))"
    define mc2 where "mc2 = mc\<lparr>mc_bump := b, mc_mem := m2\<rparr>"
    have "length ?bs \<le> unat (p_memsz ph)" using ph(2) by (auto simp: word_le_nat_alt)
    then have fits: "unat ?off + length ?bs \<le> unat ?pages * 4096" using sp(2) by simp
    note w = write_in_pages [OF fits new1(5), where m = "mc_mem mc", unfolded of_nat_unat ucast_id, folded m2_def]
    have w1: "\<forall>x. x \<notin> span phys (unat ?pages * 4096) \<longrightarrow> m2 x = mc_mem mc x" using w(1) by blast
    note new2 = new_data [OF ok alloc w1, folded mc2_def]
    from run res copied(1) have m: "space_map sp (p_vaddr ph - ?off) phys (?pages * PAGE) mc2 = (res, mc')"
      by (simp add: mc2_def mc1_def m2_def)
    have r2: "as_pml4_phys sp \<noteq> mc_kernel_pml4 mc2" using r(2) by (simp add: mc2_def)
    note sm = space_map_evolves [OF evolvesD(1) [OF new2(1)] r(1) r2 sp(4) m, unfolded sp(1)]
    have "segment_loaded mc' S (as_pml4_phys sp) img ph" if "res = Ok ()"
      unfolding segment_loaded_def
    proof (intro allI impI bexI conjI)
      fix i
      assume i: "i < unat (p_memsz ph)"
      let ?x = "unat ?off + i" and ?pa = "phys + of_nat (unat ?off + i)"
      have x: "?x < unat ?pages * 4096" using sp(2) i by simp
      have pa: "?pa \<in> data_mem mc2 S" using span_offset [OF x, of phys] x new2(2,5) by (auto simp del: of_nat_add)
      then show "?pa \<in> data_mem mc' S" using evolvesD(5) [OF conjunct1 [OF sm]] by blast
      have diff: "p_vaddr ph + of_nat i - (p_vaddr ph - ?off) = of_nat ?x" by simp
      have "unat (of_nat ?x :: u64) = ?x" using x new2(5) by (simp add: unat_of_nat_small del: of_nat_add)
      with sm that new2(5) x show "mc_translate mc' (as_pml4_phys sp) (p_vaddr ph + of_nat i) = Some ?pa"
        by (metis diff div_mult_self_is_m zero_less_numeral)
      have "mc_mem mc' ?pa = m2 ?pa" using evolvesD(6) [OF conjunct1 [OF sm] pa] by (simp add: mc2_def)
      also have "\<dots> = (if i < length ?bs then ?bs ! i else 0)" using w(2) [OF x] .
      also have "\<dots> = (if i < unat (p_filesz ph) then img ! (unat (p_offset ph) + i) else 0)"
        using copied(2) by (auto simp: unat_eq_zero)
      finally show "mc_mem mc' ?pa = (if i < unat (p_filesz ph) then img ! (unat (p_offset ph) + i) else 0)" .
    qed
    with sm evolves_trans [OF new2(1)] show ?thesis by blast
  qed
qed

text \<open>The segments the loader has to load: program headers of type \<^verbatim>\<open>PT_LOAD\<close> that are not empty.\<close>

definition loadable :: "bytes \<Rightarrow> u64 \<Rightarrow> Phdr option" where
  "loadable img off = (case read_u32 img off of
     Ok t \<Rightarrow> if t \<noteq> PT_LOAD then None else (case read_phdr img off of
       Ok ph \<Rightarrow> if p_memsz ph = 0 then None else Some ph | _ \<Rightarrow> None) | _ \<Rightarrow> None)"

definition image_segments :: "bytes \<Rightarrow> Phdr list" where
  "image_segments img = (case check_header img of
     Ok (entry, phoff, phentsize, phnum) \<Rightarrow> List.map_filter (loadable img) (phdr_offsets phoff phentsize phnum) | _ \<Rightarrow> [])"

definition in_segment :: "u64 \<Rightarrow> Phdr \<Rightarrow> bool" where
  "in_segment entry ph \<longleftrightarrow> unat (p_vaddr ph) \<le> unat entry \<and> unat entry < unat (p_vaddr ph) + unat (p_memsz ph)"

lemma and_then_Panic: "and_then r k = Panic \<longleftrightarrow> r = Panic \<or> (\<exists>a. r = Ok a \<and> k a = Panic)"
  by (cases r) auto

lemma if_Err_Panic: "(if c then Err e else r) = Panic \<longleftrightarrow> \<not> c \<and> r = Panic"
  by simp

lemma reads_total:
  "read_u16 img off \<noteq> Panic" "read_u32 img off \<noteq> Panic" "read_u64 img off \<noteq> Panic" "read_phdr img off \<noteq> Panic"
  by (simp_all add: read_u16_def read_u32_def read_u64_def read_phdr_def and_then_Panic)

lemma load_segment_result:
  assumes ok: "spaces_ok mc S" and r: "as_pml4_phys sp \<in> S" "as_pml4_phys sp \<noteq> mc_kernel_pml4 mc"
    and low: "\<forall>ph. loadable img off = Some ph \<longrightarrow> segment_low ph"
    and res: "load_segment sp img entry off mc = (res, mc')"
  shows "evolves {} (mc, S) (mc', S) \<and> res \<noteq> Panic \<and> (\<forall>hit. res = Ok hit \<longrightarrow>
    (\<forall>ph. loadable img off = Some ph \<longrightarrow> segment_loaded mc' S (as_pml4_phys sp) img ph) \<and>
    (hit \<longleftrightarrow> (\<exists>ph. loadable img off = Some ph \<and> in_segment entry ph)))"
proof (cases "loadable img off")
  case None
  then have "mc' = mc \<and> (res = Ok False \<or> (\<exists>e. res = Err e))"
    using res reads_total(2) [of img off] reads_total(4) [of img off]
    by (auto simp: load_segment_def loadable_def split: result.splits if_splits)
  with None evolves_refl [OF ok] show ?thesis by auto
next
  case (Some ph)
  from Some have reads: "read_u32 img off = Ok PT_LOAD" "read_phdr img off = Ok ph" "p_memsz ph \<noteq> 0"
    by (auto simp: loadable_def split: result.splits if_splits)
  show ?thesis
  proof (cases "0x0000800000000000 \<le> p_vaddr ph \<or> MAX_SEGMENT < p_memsz ph \<or> p_memsz ph < p_filesz ph \<or>
      checked_add (p_vaddr ph AND (PAGE - 1)) (p_memsz ph) = None")
    case True
    then have "mc' = mc \<and> (\<exists>e. res = Err e)" using res reads by (auto simp: load_segment_def split: if_splits)
    with evolves_refl [OF ok] show ?thesis by auto
  next
    case False
    then obtain map_len where map_len: "checked_add (p_vaddr ph AND (PAGE - 1)) (p_memsz ph) = Some map_len" by auto
    obtain r1 mc1 where l: "load_pages sp img ph map_len mc = (r1, mc1)" by fastforce
    have run: "(res, mc') = try_st (r1, mc1) (\<lambda>_ mc. (Ok (p_vaddr ph \<le> entry \<and> entry < p_vaddr ph + p_memsz ph), mc))"
      using False res reads map_len l by (auto simp: load_segment_def)
    have small: "unat (p_memsz ph) \<le> 2 ^ 17" "p_filesz ph \<le> p_memsz ph" and v: "unat (p_vaddr ph) < 2 ^ 47"
      using False by (auto simp: MAX_SEGMENT_def word_le_nat_alt word_less_nat_alt)
    note lp = load_pages_result [OF ok r small _ map_len [unfolded checked_add_Some] l] 
    have "unat (p_vaddr ph + p_memsz ph) = unat (p_vaddr ph) + unat (p_memsz ph)"
      using small v by (simp add: unat_add_no_overflow)
    then have "p_vaddr ph \<le> entry \<and> entry < p_vaddr ph + p_memsz ph \<longleftrightarrow> in_segment entry ph"
      by (simp add: in_segment_def word_le_nat_alt word_less_nat_alt)
    with run lp low Some show ?thesis by (cases r1) auto
  qed
qed

lemma load_segments_result:
  assumes "spaces_ok mc S" and "as_pml4_phys sp \<in> S" "as_pml4_phys sp \<noteq> mc_kernel_pml4 mc"
    and "\<forall>ph\<in>set (List.map_filter (loadable img) offs). segment_low ph"
    and "load_segments sp img entry offs hit mc = (res, mc')"
  shows "evolves {} (mc, S) (mc', S) \<and> res \<noteq> Panic \<and> (\<forall>hit'. res = Ok hit' \<longrightarrow>
    (\<forall>ph\<in>set (List.map_filter (loadable img) offs). segment_loaded mc' S (as_pml4_phys sp) img ph) \<and>
    (hit' \<longleftrightarrow> hit \<or> (\<exists>ph\<in>set (List.map_filter (loadable img) offs). in_segment entry ph)))"
  using assms
proof (induction offs arbitrary: hit mc)
  case Nil
  with evolves_refl [OF Nil(1)] show ?case by (auto simp: map_filter_simps)
next
  case (Cons off offs)
  obtain r1 mc1 where l: "load_segment sp img entry off mc = (r1, mc1)" by fastforce
  have segs: "set (List.map_filter (loadable img) (off # offs)) =
      {ph. loadable img off = Some ph} \<union> set (List.map_filter (loadable img) offs)"
    by (auto simp: map_filter_simps split: option.splits)
  have low: "\<forall>ph. loadable img off = Some ph \<longrightarrow> segment_low ph"
    "\<forall>ph\<in>set (List.map_filter (loadable img) offs). segment_low ph"
    using Cons.prems(4) unfolding segs by blast+
  note ls = load_segment_result [OF Cons.prems(1-3) low(1) l]
  note e1 = conjunct1 [OF ls]
  show ?case
  proof (cases r1)
    case (Ok h)
    with Cons.prems(5) l have rest: "load_segments sp img entry offs (hit \<or> h) mc1 = (res, mc')" by simp
    have r1: "as_pml4_phys sp \<noteq> mc_kernel_pml4 mc1" using Cons.prems(3) evolves_regs(1) [OF e1] by simp
    note ih = Cons.IH [OF evolvesD(1) [OF e1] Cons.prems(2) r1 low(2) rest]
    have here: "segment_loaded mc1 S (as_pml4_phys sp) img ph" if "loadable img off = Some ph" for ph using ls Ok that by simp
    have hit: "h \<longleftrightarrow> (\<exists>ph. loadable img off = Some ph \<and> in_segment entry ph)" using ls Ok by simp
    show ?thesis
    proof (intro conjI allI impI ballI)
      show "evolves {} (mc, S) (mc', S)" using evolves_trans [OF e1 conjunct1 [OF ih]] .
      show "res \<noteq> Panic" using ih by simp
      fix hit'
      assume res: "res = Ok hit'"
      show "segment_loaded mc' S (as_pml4_phys sp) img ph" if "ph \<in> set (List.map_filter (loadable img) (off # offs))" for ph
        using that ih res segment_loaded_evolves [OF here conjunct1 [OF ih] Cons.prems(2)] unfolding segs by blast
      show "hit' \<longleftrightarrow> hit \<or> (\<exists>ph\<in>set (List.map_filter (loadable img) (off # offs)). in_segment entry ph)"
        using ih res hit unfolding segs by auto
    qed
  qed (use Cons.prems(5) l ls in auto)
qed

lemma header_total: "check_header img \<noteq> Panic"
  unfolding check_header_def Let_def
  by (simp add: and_then_Panic if_Err_Panic reads_total split del: if_split)

theorem load_result:
  assumes ok: "spaces_ok mc S" and r: "as_pml4_phys sp \<in> S" "as_pml4_phys sp \<noteq> mc_kernel_pml4 mc"
    and low: "\<forall>ph\<in>set (image_segments img). segment_low ph"
    and res: "load sp img mc = (res, mc')"
  shows "evolves {} (mc, S) (mc', S) \<and> res \<noteq> Panic \<and> (\<forall>entry. res = Ok entry \<longrightarrow>
    (\<forall>ph\<in>set (image_segments img). segment_loaded mc' S (as_pml4_phys sp) img ph) \<and>
    (\<exists>ph\<in>set (image_segments img). in_segment entry ph))"
proof (cases "check_header img")
  case (Ok h)
  obtain entry phoff sz n where h: "h = (entry, phoff, sz, n)" by (metis surj_pair)
  let ?offs = "phdr_offsets phoff sz n"
  have segs: "image_segments img = List.map_filter (loadable img) ?offs" by (simp add: image_segments_def Ok h)
  obtain r1 mc1 where l: "load_segments sp img entry ?offs False mc = (r1, mc1)" by fastforce
  from load_segments_result [OF ok r low [unfolded segs] l] res Ok h l show ?thesis
    by (cases r1) (auto simp: load_def segs split: if_splits)
qed (use res evolves_refl [OF ok] header_total [of img] in \<open>auto simp: load_def\<close>)

end
