(* ===== verification/Court_Images.thy ===== *)
theory Court_Images
  imports Byte_Buffer CK_Interfaces
begin

text \<open>
  The bring-up layout shared by Root Court and the Court Images, \<^verbatim>\<open>crates/court-abi/src/lib.rs\<close>, and
  the two images, \<^verbatim>\<open>crates/court-images/src/bin/app.rs\<close> and \<^verbatim>\<open>net.rs\<close>. An image sees two pages:
  its boot block at \<^verbatim>\<open>BOOT_VA\<close> and the shared ring at \<^verbatim>\<open>RING_VA\<close>; \<^verbatim>\<open>_start\<close> is a function of the
  bytes of both that returns its status and the new bytes of the ring page. An access outside a
  page is \<open>None\<close>. The images are release builds: \<^verbatim>\<open>+\<close> on \<^verbatim>\<open>u64\<close> wraps.
\<close>

section \<open>The layout\<close>

definition ABI_PAGE :: u64 where "ABI_PAGE = 0x1000"
definition IMAGE_VA :: u64 where "IMAGE_VA = 0x00100000"
definition BOOT_VA :: u64 where "BOOT_VA = 0x00200000"
definition RING_VA :: u64 where "RING_VA = 0x00300000"
definition STACK_VA :: u64 where "STACK_VA = 0x00400000"
definition STACK_PAGES :: u64 where "STACK_PAGES = 8"
definition STACK_SIZE :: u64 where "STACK_SIZE = STACK_PAGES * ABI_PAGE"

definition BOOT_MAGIC :: u64 where "BOOT_MAGIC = 0x434B424F4F543032"
definition IMG_RING_MAGIC :: u64 where "IMG_RING_MAGIC = 0x434B52494E473031"

definition SLOT :: u64 where "SLOT = 64"
definition CAPACITY :: u32 where "CAPACITY = 4"
definition RING_DATA :: u64 where "RING_DATA = 128"

definition RIGHT_SEND :: u64 where "RIGHT_SEND = 1"
definition RIGHT_RECV :: u64 where "RIGHT_RECV = 2"

definition ST_SENT :: u64 where "ST_SENT = 0x0001"
definition ST_RECV :: u64 where "ST_RECV = 0x0002"
definition ST_DENIED :: u64 where "ST_DENIED = 0xE001"
definition ST_EMPTY :: u64 where "ST_EMPTY = 0xE002"
definition ST_BAD_MAGIC :: u64 where "ST_BAD_MAGIC = 0xBAD0"

lemmas abi_status = ST_SENT_def ST_RECV_def ST_DENIED_def ST_EMPTY_def ST_BAD_MAGIC_def

text \<open>Offsets of the fields of \<^verbatim>\<open>#[repr(C)] struct BootInfo\<close> and \<^verbatim>\<open>struct Ring\<close>.\<close>

definition B_MAGIC :: nat where "B_MAGIC = 0"
definition B_CAP_ID :: nat where "B_CAP_ID = 8"
definition B_RIGHTS :: nat where "B_RIGHTS = 16"
definition B_RING_VIRT :: nat where "B_RING_VIRT = 24"
definition B_COURT_ID :: nat where "B_COURT_ID = 32"

definition R_MAGIC :: nat where "R_MAGIC = 0"
definition R_CAPACITY :: nat where "R_CAPACITY = 8"
definition R_SLOT_SIZE :: nat where "R_SLOT_SIZE = 12"
definition R_PRODUCER :: nat where "R_PRODUCER = 16"
definition R_CONSUMER :: nat where "R_CONSUMER = 24"
definition R_REVOKED :: nat where "R_REVOKED = 32"

lemmas abi_layout = B_MAGIC_def B_CAP_ID_def B_RIGHTS_def B_RING_VIRT_def B_COURT_ID_def
  R_MAGIC_def R_CAPACITY_def R_SLOT_SIZE_def R_PRODUCER_def R_CONSUMER_def R_REVOKED_def

text \<open>\<^verbatim>\<open>slot_ptr\<close> is a virtual address; in the ring page it is the offset from \<^verbatim>\<open>RING_VA\<close>.\<close>

definition abi_slot_ptr :: "u64 \<Rightarrow> u64" where
  "abi_slot_ptr index = RING_VA + RING_DATA + index * SLOT"

definition in_ring :: "u64 \<Rightarrow> nat" where
  "in_ring va = unat (va - RING_VA)"

section \<open>The images\<close>

text \<open>The payload \<^verbatim>\<open>b"pkt"\<close>.\<close>

definition pkt :: bytes where "pkt = [0x70, 0x6B, 0x74]"

definition app_start :: "bytes \<Rightarrow> bytes \<Rightarrow> (u64 \<times> bytes) option" where
  "app_start boot ring =
     Option.bind (load_u64 B_MAGIC boot) (\<lambda>magic.
     if magic \<noteq> BOOT_MAGIC then Some (ST_BAD_MAGIC, ring)
     else Option.bind (load_u64 R_MAGIC ring) (\<lambda>rmagic.
     if rmagic \<noteq> IMG_RING_MAGIC then Some (ST_BAD_MAGIC, ring)
     else Option.bind (load_u64 B_RIGHTS boot) (\<lambda>rights.
     if rights AND RIGHT_SEND = 0 then Some (ST_DENIED, ring)
     else Option.bind (load_u64 R_REVOKED ring) (\<lambda>revoked.
     if revoked \<noteq> 0 then Some (ST_DENIED, ring)
     else Option.bind (load_u64 R_PRODUCER ring) (\<lambda>prod.
     Option.bind (load_u64 R_CONSUMER ring) (\<lambda>cons.
     if ucast CAPACITY \<le> prod - cons then Some (ST_DENIED, ring)
     else let idx = prod mod ucast CAPACITY in
     Option.bind (store_u32 (in_ring (abi_slot_ptr idx)) (of_nat (length pkt)) ring) (\<lambda>ring.
     Option.bind (write_at (in_ring (abi_slot_ptr idx + 4)) pkt ring) (\<lambda>ring.
     Option.bind (store_u64 R_PRODUCER (prod + 1) ring) (\<lambda>ring.
     Some (ST_SENT, ring))))))))))"

definition net_start :: "bytes \<Rightarrow> bytes \<Rightarrow> (u64 \<times> bytes) option" where
  "net_start boot ring =
     Option.bind (load_u64 B_MAGIC boot) (\<lambda>magic.
     if magic \<noteq> BOOT_MAGIC then Some (ST_BAD_MAGIC, ring)
     else Option.bind (load_u64 R_MAGIC ring) (\<lambda>rmagic.
     if rmagic \<noteq> IMG_RING_MAGIC then Some (ST_BAD_MAGIC, ring)
     else Option.bind (load_u64 B_RIGHTS boot) (\<lambda>rights.
     if rights AND RIGHT_RECV = 0 then Some (ST_DENIED, ring)
     else Option.bind (load_u64 R_REVOKED ring) (\<lambda>revoked.
     if revoked \<noteq> 0 then Some (ST_DENIED, ring)
     else Option.bind (load_u64 R_PRODUCER ring) (\<lambda>prod.
     Option.bind (load_u64 R_CONSUMER ring) (\<lambda>cons.
     if cons = prod then Some (ST_EMPTY, ring)
     else let idx = cons mod ucast CAPACITY in
     Option.bind (load_u32 (in_ring (abi_slot_ptr idx)) ring) (\<lambda>len.
     Option.bind (store_u64 R_CONSUMER (cons + 1) ring) (\<lambda>ring.
     Some (ST_RECV OR push_bit 8 (ucast len), ring)))))))))"

section \<open>The pages Root Court prepares\<close>

text \<open>
  A zeroed page with a \<^verbatim>\<open>BootInfo\<close> or a \<^verbatim>\<open>Ring\<close> written to its start, as \<^verbatim>\<open>spawn\<close> and \<^verbatim>\<open>run_demo\<close> of
  \<^verbatim>\<open>root-court/src/courtlet.rs\<close> do before the images run.
\<close>

definition boot_info :: "u64 \<Rightarrow> u64 \<Rightarrow> u64 \<Rightarrow> bytes" where
  "boot_info cap_id rights court_id =
     le_bytes 8 (unat BOOT_MAGIC) @ le_bytes 8 (unat cap_id) @ le_bytes 8 (unat rights) @
     le_bytes 8 (unat RING_VA) @ le_bytes 8 (unat court_id)"

definition ring_header :: bytes where
  "ring_header =
     le_bytes 8 (unat IMG_RING_MAGIC) @ le_bytes 4 (unat CAPACITY) @ le_bytes 4 (unat SLOT) @
     le_bytes 8 0 @ le_bytes 8 0 @ le_bytes 8 0"

definition boot_block :: "u64 \<Rightarrow> u64 \<Rightarrow> u64 \<Rightarrow> bytes" where
  "boot_block cap_id rights court_id = boot_info cap_id rights court_id @ replicate 4056 0"

definition ring_block :: bytes where
  "ring_block = ring_header @ replicate 4056 0"

section \<open>What a run of an image does\<close>

text \<open>Where slot \<open>s\<close> of the ring page starts: behind the header, inside the page.\<close>

definition img_slot :: "nat \<Rightarrow> nat" where
  "img_slot s = 128 + s * 64"

lemma ucast_CAPACITY: "ucast CAPACITY = (4 :: u64)"
  by (simp add: CAPACITY_def)

lemma in_ring_slot:
  "in_ring (abi_slot_ptr (x mod 4)) = img_slot (unat x mod 4)"
  "in_ring (abi_slot_ptr (x mod 4) + 4) = img_slot (unat x mod 4) + 4"
proof -
  let ?i = "x mod 4"
  have i: "unat ?i = unat x mod 4" by (simp add: unat_mod)
  then have small: "unat ?i < 4" by simp
  have mul: "unat (?i * 64) = unat ?i * 64" using small by (simp add: unat_word_ariths(2))
  have add: "unat (?i * 64 + 128) = unat ?i * 64 + 128"
    using small mul by (simp add: unat_word_ariths(1))
  have "unat (?i * 64 + 132) = unat ?i * 64 + 132"
    using small mul by (simp add: unat_word_ariths(1))
  then show "in_ring (abi_slot_ptr ?i) = img_slot (unat x mod 4)"
    "in_ring (abi_slot_ptr ?i + 4) = img_slot (unat x mod 4) + 4"
    using add by (simp_all add: in_ring_def abi_slot_ptr_def RING_DATA_def SLOT_def img_slot_def i algebra_simps)
qed

definition boot_page :: "u64 \<Rightarrow> bytes \<Rightarrow> bool" where
  "boot_page rights b \<longleftrightarrow> length b = 4096 \<and> load_u64 B_MAGIC b = Some BOOT_MAGIC \<and>
     load_u64 B_RIGHTS b = Some rights"

definition ring_page :: "bytes \<Rightarrow> bool" where
  "ring_page r \<longleftrightarrow> length r = 4096 \<and> load_u64 R_MAGIC r = Some IMG_RING_MAGIC"

abbreviation "img_prod r \<equiv> counter R_PRODUCER r"
abbreviation "img_cons r \<equiv> counter R_CONSUMER r"
abbreviation "img_revoked r \<equiv> counter R_REVOKED r"

definition img_put :: "bytes \<Rightarrow> bytes" where
  "img_put r = (let base = img_slot (unat (img_prod r) mod 4) in
     poke R_PRODUCER (le_bytes 8 (unat (img_prod r + 1))) (poke (base + 4) pkt (poke base (le_bytes 4 3) r)))"

definition img_take :: "bytes \<Rightarrow> bytes" where
  "img_take r = poke R_CONSUMER (le_bytes 8 (unat (img_cons r + 1))) r"

definition img_len :: "nat \<Rightarrow> bytes \<Rightarrow> u32" where
  "img_len s r = of_nat (le_value (take 4 (drop (img_slot s) r)))"

lemma counter_load: "off + 8 \<le> length r \<Longrightarrow> load_u64 off r = Some (counter off r)"
  using load_total(3) [of off r] by (auto simp: counter_def)

lemma ring_page_loads:
  assumes "ring_page r"
  shows "load_u64 R_PRODUCER r = Some (img_prod r)" and "load_u64 R_CONSUMER r = Some (img_cons r)"
    and "load_u64 R_REVOKED r = Some (img_revoked r)" and "s < 4 \<Longrightarrow> load_u32 (img_slot s) r = Some (img_len s r)"
  using assms by (simp_all add: ring_page_def counter_load abi_layout load_u32_def read_at_def img_slot_def img_len_def)

lemma app_start_eq:
  assumes "boot_page rights b" and r: "ring_page r"
  shows "app_start b r = Some (
    if rights AND RIGHT_SEND = 0 \<or> img_revoked r \<noteq> 0 \<or> 4 \<le> unat (img_prod r - img_cons r) then (ST_DENIED, r)
    else (ST_SENT, img_put r))"
proof -
  let ?s = "unat (img_prod r) mod 4"
  have "?s < 4" by simp
  then have "img_slot ?s + 64 \<le> 4096" by (simp add: img_slot_def)
  then have "img_slot ?s + 7 \<le> length r" "R_PRODUCER + 8 \<le> length r"
    using r by (simp_all add: ring_page_def abi_layout)
  with assms ring_page_loads [OF r] show ?thesis
    by (simp add: app_start_def boot_page_def ring_page_def in_ring_slot Let_def store_u32_def store_u64_def
        write_at_poke img_put_def pkt_def word_le_nat_alt ucast_CAPACITY)
qed

lemma net_start_eq:
  assumes "boot_page rights b" and r: "ring_page r"
  shows "net_start b r = Some (
    if rights AND RIGHT_RECV = 0 \<or> img_revoked r \<noteq> 0 then (ST_DENIED, r)
    else if img_cons r = img_prod r then (ST_EMPTY, r)
    else (ST_RECV OR push_bit 8 (ucast (img_len (unat (img_cons r) mod 4) r)), img_take r))"
  using assms ring_page_loads [OF r] ring_page_loads(4) [OF r, of "unat (img_cons r) mod 4"]
  by (simp add: net_start_def boot_page_def ring_page_def ucast_CAPACITY in_ring_slot Let_def store_u64_def
        write_at_poke img_take_def abi_layout)

section \<open>The ring page as a bounded channel\<close>

text \<open>
  What a receiver learns of a message is its length, so the content of the ring is the list of
  the lengths in the pending slots.
\<close>

definition img_pending :: "bytes \<Rightarrow> nat" where
  "img_pending r = unat (img_prod r - img_cons r)"

definition img_content :: "bytes \<Rightarrow> u32 list" where
  "img_content r = map (\<lambda>i. img_len ((unat (img_cons r) + i) mod 4) r) [0..<img_pending r]"

definition img_inv :: "bytes \<Rightarrow> bool" where
  "img_inv r \<longleftrightarrow> ring_page r \<and> img_revoked r = 0 \<and> img_pending r \<le> 4 \<and> (\<forall>n\<in>set (img_content r). n \<le> 60)"

lemma length_img_content [simp]: "length (img_content r) = img_pending r"
  by (simp add: img_content_def)

lemma ring_page_poke:
  assumes "ring_page r" and "off + length bs \<le> 4096" and "8 \<le> off"
  shows "ring_page (poke off bs r)"
  using assms load_write_disjoint(3) [OF write_at_poke, of off bs r R_MAGIC]
  by (simp add: ring_page_def abi_layout)

lemma img_len_poke:
  assumes "length r = 4096" "off + length bs \<le> 4096" "s < 4"
    and "off + length bs \<le> img_slot s \<or> img_slot s + 4 \<le> off"
  shows "img_len s (poke off bs r) = img_len s r"
proof -
  have "take 4 (drop (img_slot s) (poke off bs r)) = take 4 (drop (img_slot s) r)"
    using assms by (intro take_drop_poke_other) (auto simp: img_slot_def)
  then show ?thesis by (simp add: img_len_def)
qed

lemma img_put_facts:
  assumes r: "ring_page r"
  shows "ring_page (img_put r)" and "img_prod (img_put r) = img_prod r + 1"
    and "img_cons (img_put r) = img_cons r" and "img_revoked (img_put r) = img_revoked r"
    and "s < 4 \<Longrightarrow> img_len s (img_put r) = (if s = unat (img_prod r) mod 4 then 3 else img_len s r)"
proof -
  let ?b = "img_slot (unat (img_prod r) mod 4)"
  let ?m1 = "poke ?b (le_bytes 4 3) r"
  let ?m2 = "poke (?b + 4) pkt ?m1"
  have b: "128 \<le> ?b" "?b + 64 \<le> 4096" by (auto simp: img_slot_def)
  have len: "length r = 4096" using r by (simp add: ring_page_def)
  then have len1: "length ?m1 = 4096" using b by simp
  then have len2: "length ?m2 = 4096" using b by (simp add: pkt_def)
  have put: "img_put r = poke R_PRODUCER (le_bytes 8 (unat (img_prod r + 1))) ?m2"
    by (simp add: img_put_def Let_def)
  show "ring_page (img_put r)"
    unfolding put using b r by (intro ring_page_poke) (simp_all add: abi_layout pkt_def)
  show "img_prod (img_put r) = img_prod r + 1"
    unfolding put using len2 by (intro counter_poke_same) (simp add: abi_layout)
  have other: "counter a (img_put r) = counter a r" if "a = R_CONSUMER \<or> a = R_REVOKED" for a
    unfolding put using b len len1 len2 that
    by (auto simp: abi_layout pkt_def counter_poke_other)
  from other show "img_cons (img_put r) = img_cons r" "img_revoked (img_put r) = img_revoked r" by simp_all
  assume s: "s < 4"
  have "img_len s (img_put r) = img_len s ?m2"
    unfolding put using len2 s by (intro img_len_poke) (simp_all add: abi_layout img_slot_def)
  also have "\<dots> = img_len s ?m1"
    using len1 s b by (intro img_len_poke) (auto simp: pkt_def img_slot_def)
  also have "\<dots> = (if s = unat (img_prod r) mod 4 then 3 else img_len s r)"
  proof (cases "s = unat (img_prod r) mod 4")
    case True
    with drop_poke_same [of ?b "le_bytes 4 3" r] len b show ?thesis
      by (simp add: img_len_def le_value_le_bytes)
  next
    case False
    then have "?b + 4 \<le> img_slot s \<or> img_slot s + 4 \<le> ?b" by (auto simp: img_slot_def)
    with False len b s show ?thesis by (simp add: img_len_poke)
  qed
  finally show "img_len s (img_put r) = (if s = unat (img_prod r) mod 4 then 3 else img_len s r)" .
qed

lemma img_take_facts:
  assumes r: "ring_page r"
  shows "ring_page (img_take r)" and "img_prod (img_take r) = img_prod r"
    and "img_cons (img_take r) = img_cons r + 1" and "img_revoked (img_take r) = img_revoked r"
    and "s < 4 \<Longrightarrow> img_len s (img_take r) = img_len s r"
proof -
  have len: "length r = 4096" using r by (simp add: ring_page_def)
  show "ring_page (img_take r)"
    unfolding img_take_def using r by (intro ring_page_poke) (simp_all add: abi_layout)
  show "img_cons (img_take r) = img_cons r + 1"
    unfolding img_take_def using len by (intro counter_poke_same) (simp add: abi_layout)
  show "img_prod (img_take r) = img_prod r" "img_revoked (img_take r) = img_revoked r"
    using len by (simp_all add: img_take_def counter_poke_other abi_layout)
  show "s < 4 \<Longrightarrow> img_len s (img_take r) = img_len s r"
    using len by (simp add: img_take_def img_len_poke abi_layout img_slot_def)
qed

lemma img_prod_slot: "unat (img_prod r) mod 4 = (unat (img_cons r) + img_pending r) mod 4"
proof -
  have "unat (img_cons r + (img_prod r - img_cons r)) = (unat (img_cons r) + img_pending r) mod 2 ^ 64"
    unfolding unat_word_ariths(1) img_pending_def by simp
  moreover have "(unat (img_cons r) + img_pending r) mod 2 ^ 64 mod 4 = (unat (img_cons r) + img_pending r) mod 4"
    by (rule mod_mod_cancel) simp
  ultimately show ?thesis by simp
qed

lemma img_put_content:
  assumes inv: "img_inv r" and room: "img_pending r < 4"
  shows "img_inv (img_put r) \<and> img_content (img_put r) = img_content r @ [3]"
proof -
  from inv have r: "ring_page r" and live: "img_revoked r = 0" by (simp_all add: img_inv_def)
  note put = img_put_facts [OF r]
  let ?n = "img_pending r"
  have "img_pending (img_put r) = unat (img_prod r - img_cons r + 1)"
    by (simp add: img_pending_def put algebra_simps)
  then have pend: "img_pending (img_put r) = Suc ?n"
    using room by (simp add: img_pending_def unat_add_no_overflow)
  have new: "img_len ((unat (img_cons r) + ?n) mod 4) (img_put r) = 3"
    by (simp add: put(5) img_prod_slot)
  have old: "img_len ((unat (img_cons r) + i) mod 4) (img_put r) = img_len ((unat (img_cons r) + i) mod 4) r"
    if "i < ?n" for i
    using add_mod_distinct [of i ?n 4 "unat (img_cons r)"] that room by (simp add: put(5) img_prod_slot)
  have content: "img_content (img_put r) = img_content r @ [3]"
    by (simp add: img_content_def pend put(3) new old)
  with inv room live put pend show ?thesis by (simp add: img_inv_def)
qed

lemma img_take_content:
  assumes inv: "img_inv r" and some: "img_content r = n # ns"
  shows "img_inv (img_take r) \<and> img_content (img_take r) = ns"
    and "img_len (unat (img_cons r) mod 4) r = n"
proof -
  from inv have r: "ring_page r" and live: "img_revoked r = 0" by (simp_all add: img_inv_def)
  note taken = img_take_facts [OF r]
  have some': "img_pending r = Suc (length ns)" using arg_cong [OF some, of length] by simp
  then have ne: "img_prod r - img_cons r \<noteq> 0" by (auto simp: img_pending_def)
  have "img_pending (img_take r) = unat (img_prod r - img_cons r - 1)"
    by (simp add: img_pending_def taken algebra_simps)
  also have "\<dots> = length ns" using some' ne by (simp add: img_pending_def unat_minus_one)
  finally have pend: "img_pending (img_take r) = length ns" .
  have next_slot: "(unat (img_cons r + 1) + i) mod 4 = (unat (img_cons r) + Suc i) mod 4" for i
  proof -
    have "unat (img_cons r + 1) mod 4 = (unat (img_cons r) + 1) mod 2 ^ 64 mod 4" by (simp add: unat_word_ariths(1))
    also have "\<dots> = (unat (img_cons r) + 1) mod 4" by (rule mod_mod_cancel) simp
    finally show ?thesis by (metis add.commute add_Suc_right mod_add_left_eq plus_1_eq_Suc)
  qed
  have "img_content r = img_len (unat (img_cons r) mod 4) r #
      map (\<lambda>i. img_len ((unat (img_cons r) + Suc i) mod 4) r) [0..<length ns]"
    by (simp add: img_content_def some' upt_conv_Cons map_Suc_upt [symmetric] del: upt_Suc)
  with some have hd: "img_len (unat (img_cons r) mod 4) r = n"
    and tl: "map (\<lambda>i. img_len ((unat (img_cons r) + Suc i) mod 4) r) [0..<length ns] = ns" by simp_all
  have "img_content (img_take r) = ns"
    using tl by (simp add: img_content_def pend taken(3,5) next_slot)
  with inv some pend live taken some' hd show "img_inv (img_take r) \<and> img_content (img_take r) = ns"
    and "img_len (unat (img_cons r) mod 4) r = n" by (simp_all add: img_inv_def)
qed

text \<open>
  The two images as the operations of a channel: the producer offers its packet, of length 3;
  the consumer reads the length out of the status that \<^verbatim>\<open>net\<close> returns.
\<close>

definition image_send :: "u64 \<Rightarrow> u64 \<Rightarrow> u32 \<Rightarrow> bytes \<Rightarrow> bytes option" where
  "image_send cap court n ring = (if n \<noteq> 3 then None else
     Option.bind (app_start (boot_block cap RIGHT_SEND court) ring) (\<lambda>(st, ring').
     if st = ST_SENT then Some ring' else None))"

definition image_recv :: "u64 \<Rightarrow> u64 \<Rightarrow> bytes \<Rightarrow> (u32 \<times> bytes) option" where
  "image_recv cap court ring =
     Option.bind (net_start (boot_block cap RIGHT_RECV court) ring) (\<lambda>(st, ring').
     if st = ST_DENIED \<or> st = ST_EMPTY \<or> st = ST_BAD_MAGIC then None else Some (ucast (drop_bit 8 st), ring'))"

lemma load_append:
  "length xs = a \<Longrightarrow> load_u64 a (xs @ le_bytes 8 (unat v) @ ys) = Some v"
  by (simp add: load_u64_def read_at_def le_round_trip)

lemma boot_block_page: "boot_page rights (boot_block cap rights court)"
  using load_append [of "[]" B_MAGIC BOOT_MAGIC]
    load_append [of "le_bytes 8 (unat BOOT_MAGIC) @ le_bytes 8 (unat cap)" B_RIGHTS rights]
  by (simp add: boot_page_def boot_block_def boot_info_def abi_layout)

lemma ring_block_inv: "img_inv ring_block" and ring_block_empty: "img_content ring_block = []"
proof -
  let ?h = "le_bytes 8 (unat IMG_RING_MAGIC) @ le_bytes 4 (unat CAPACITY) @ le_bytes 4 (unat SLOT)"
  have z: "le_bytes 8 0 = le_bytes 8 (unat (0 :: u64))" by simp
  have "load_u64 R_PRODUCER ring_block = Some 0" "load_u64 R_CONSUMER ring_block = Some 0"
    "load_u64 R_REVOKED ring_block = Some 0" "load_u64 R_MAGIC ring_block = Some IMG_RING_MAGIC"
    using load_append [of ?h R_PRODUCER 0] load_append [of "?h @ le_bytes 8 0" R_CONSUMER 0]
      load_append [of "?h @ le_bytes 8 0 @ le_bytes 8 0" R_REVOKED 0] load_append [of "[]" R_MAGIC IMG_RING_MAGIC]
    by (simp_all add: ring_block_def ring_header_def abi_layout)
  then show "img_content ring_block = []" "img_inv ring_block"
    by (simp_all add: img_content_def img_pending_def counter_def img_inv_def ring_page_def)
      (simp add: ring_block_def ring_header_def)
qed

lemma recv_status:
  fixes n :: u32
  assumes "n \<le> 60"
  defines "st \<equiv> ST_RECV OR push_bit 8 (ucast n :: u64)"
  shows "ucast (drop_bit 8 st) = n" and "st \<noteq> ST_DENIED" and "st \<noteq> ST_EMPTY" and "st \<noteq> ST_BAD_MAGIC"
    and "st AND 0xFF = ST_RECV"
proof -
  have high: "drop_bit 8 st = ucast n"
    by (rule bit_word_eqI) (auto simp: st_def ST_RECV_def bit_simps bit_2_iff dest: bit_imp_le_length)
  show dec: "ucast (drop_bit 8 st) = n"
    unfolding high by (rule bit_word_eqI) (simp add: bit_simps)
  show "st \<noteq> ST_DENIED" "st \<noteq> ST_EMPTY" "st \<noteq> ST_BAD_MAGIC"
    using dec assms(1) by (auto simp: abi_status)
  have "push_bit 8 (ucast n :: u64) AND mask 8 = 0"
    by (simp flip: take_bit_eq_mask add: take_bit_push_bit)
  then show "st AND 0xFF = ST_RECV"
    by (simp add: st_def bit.conj_disj_distrib2 ST_RECV_def mask_eq_exp_minus_1)
qed

interpretation image_ring: bounded_channel img_inv img_content "\<lambda>_. 4" "\<lambda>_ n. n = 3"
    "image_send app_cap app_court" "image_recv net_cap net_court"
  for app_cap app_court net_cap net_court :: u64
proof
  fix r n ns r'
  assume inv: "img_inv r"
  then have r: "ring_page r" and live: "img_revoked r = 0" by (simp_all add: img_inv_def)
  note app = app_start_eq [OF boot_block_page [of RIGHT_SEND app_cap app_court] r]
  note net = net_start_eq [OF boot_block_page [of RIGHT_RECV net_cap net_court] r]
  have st: "ST_SENT \<noteq> ST_DENIED" and rights: "RIGHT_SEND AND RIGHT_SEND \<noteq> 0" "RIGHT_RECV AND RIGHT_RECV \<noteq> 0"
    by (simp_all add: abi_status RIGHT_SEND_def RIGHT_RECV_def)
  have send: "image_send app_cap app_court k r = (if k = 3 \<and> img_pending r < 4 then Some (img_put r) else None)" for k
    using app live rights st by (simp add: image_send_def img_pending_def)
  show "length (img_content r) \<le> 4" using inv by (simp add: img_inv_def)
  show "4 \<le> length (img_content r) \<Longrightarrow> image_send app_cap app_court n r = None"
    by (simp add: send)
  show "n = 3 \<Longrightarrow> length (img_content r) < 4 \<Longrightarrow> \<exists>s'. image_send app_cap app_court n r = Some s'"
    by (simp add: send)
  show "image_send app_cap app_court n r = Some r' \<Longrightarrow>
      img_inv r' \<and> img_content r' = img_content r @ [n] \<and> (4::nat) = 4 \<and> (\<forall>x::u32. (x = 3) = (x = 3))"
    using img_put_content [OF inv] by (auto simp: send split: if_splits)
  have none: "img_content r = [] \<longleftrightarrow> img_cons r = img_prod r"
    using length_img_content [of r] by (auto simp: img_pending_def img_content_def unat_eq_zero)
  then show "img_content r = [] \<Longrightarrow> image_recv net_cap net_court r = None"
    using net rights live by (simp add: image_recv_def)
  assume some: "img_content r = n # ns"
  with inv have n: "n \<le> 60" by (simp add: img_inv_def)
  from none some have "img_cons r \<noteq> img_prod r" by simp
  with net rights live recv_status [OF n] have "image_recv net_cap net_court r = Some (n, img_take r)"
    by (simp add: image_recv_def img_take_content(2) [OF inv some])
  with img_take_content(1) [OF inv some]
  show "\<exists>s'. image_recv net_cap net_court r = Some (n, s') \<and> img_inv s' \<and> img_content s' = ns \<and>
      (4::nat) = 4 \<and> (\<forall>x::u32. (x = 3) = (x = 3))" by blast
qed

section \<open>Properties\<close>





end
