(* ===== verification/Root_Object.thy ===== *)
theory Root_Object
  imports CK_Interfaces
begin

text \<open>
  The object model of the bare-metal Root Court, \<^verbatim>\<open>crates/root-court/src/object.rs\<close>: three fixed
  tables of optional slots (courts, capabilities, bindings) and the counters that number them.
  The crate is built in the release profile, so the counters wrap; under the table invariant
  they never do, since a table holds at most sixteen entries.
\<close>

section \<open>State and operations\<close>

definition MAX_COURTS :: nat where "MAX_COURTS = 8"
definition MAX_CAPS :: nat where "MAX_CAPS = 16"
definition MAX_BINDINGS :: nat where "MAX_BINDINGS = 16"

definition OBJ_RIGHT_SEND :: u64 where "OBJ_RIGHT_SEND = push_bit 0 1"
definition OBJ_RIGHT_RECV :: u64 where "OBJ_RIGHT_RECV = push_bit 1 1"

record RootCourtEntry =
  rc_id :: u64
  rc_name :: string

record RootCap =
  cap_id :: u64
  cap_obj :: u64
  cap_bits :: u64

record Binding =
  bind_path :: string
  bind_object :: u64

record RootCourt =
  next_court_id :: u64
  next_cap_id :: u64
  next_object_id :: u64
  court_slots :: "RootCourtEntry option list"
  cap_slots :: "RootCap option list"
  binding_slots :: "Binding option list"

datatype ObjError = CourtTableFull | NamespaceFull | CspaceFull | NoSuchCap

type_synonym 'a ObjResult = "('a, ObjError) result"

definition root_new :: RootCourt where
  "root_new = \<lparr>next_court_id = 0, next_cap_id = 0, next_object_id = 0,
     court_slots = replicate MAX_COURTS None, cap_slots = replicate MAX_CAPS None,
     binding_slots = replicate MAX_BINDINGS None\<rparr>"

definition root_create_court :: "string \<Rightarrow> RootCourt \<Rightarrow> u64 ObjResult \<times> RootCourt" where
  "root_create_court name r = (let cid = next_court_id r + 1 in
     case set_first (\<lambda>slot. slot = None) (Some \<lparr>rc_id = cid, rc_name = name\<rparr>) (court_slots r) of
       None \<Rightarrow> (Err CourtTableFull, r)
     | Some slots \<Rightarrow> (Ok cid, r\<lparr>next_court_id := cid, court_slots := slots\<rparr>))"

definition alloc_object :: "RootCourt \<Rightarrow> u64 \<times> RootCourt" where
  "alloc_object r = (next_object_id r + 1, r\<lparr>next_object_id := next_object_id r + 1\<rparr>)"

definition root_bind :: "string \<Rightarrow> u64 \<Rightarrow> RootCourt \<Rightarrow> unit ObjResult \<times> RootCourt" where
  "root_bind path object r =
     (case set_first (\<lambda>slot. slot = None) (Some \<lparr>bind_path = path, bind_object = object\<rparr>) (binding_slots r) of
       None \<Rightarrow> (Err NamespaceFull, r)
     | Some slots \<Rightarrow> (Ok (), r\<lparr>binding_slots := slots\<rparr>))"

definition mint :: "u64 \<Rightarrow> u64 \<Rightarrow> RootCourt \<Rightarrow> u64 ObjResult \<times> RootCourt" where
  "mint object rights r = (let cid = next_cap_id r + 1 in
     case set_first (\<lambda>slot. slot = None)
         (Some \<lparr>cap_id = cid, cap_obj = object, cap_bits = rights\<rparr>) (cap_slots r) of
       None \<Rightarrow> (Err CspaceFull, r)
     | Some slots \<Rightarrow> (Ok cid, r\<lparr>next_cap_id := cid, cap_slots := slots\<rparr>))"

definition mint_cap :: "u64 \<Rightarrow> u64 \<Rightarrow> RootCourt \<Rightarrow> u64 ObjResult \<times> RootCourt" where
  "mint_cap object rights r = mint object rights r"

definition bootstrap :: "RootCourt \<Rightarrow> unit ObjResult \<times> RootCourt" where
  "bootstrap r = try_st (root_create_court ''root'' r) (\<lambda>root r.
     case alloc_object r of (ns, r) \<Rightarrow>
     try_st (root_bind ''/court/root'' ns r) (\<lambda>_ r.
     try_st (mint ns (push_bit 6 1) r) (\<lambda>_ r. (Ok (), r))))"

definition spawn_court :: "string \<Rightarrow> string \<Rightarrow> RootCourt \<Rightarrow> (u64 \<times> u64) ObjResult \<times> RootCourt" where
  "spawn_court name path r = try_st (root_create_court name r) (\<lambda>court r.
     case alloc_object r of (object, r) \<Rightarrow>
     try_st (root_bind path object r) (\<lambda>_ r. (Ok (court, object), r)))"

text \<open>The loop of \<^verbatim>\<open>revoke_cap\<close>: the rights of the first slot with the id become zero.\<close>

fun clear_rights :: "u64 \<Rightarrow> RootCap option list \<Rightarrow> RootCap option list option" where
  "clear_rights cid [] = None"
| "clear_rights cid (None # slots) = map_option ((#) None) (clear_rights cid slots)"
| "clear_rights cid (Some c # slots) =
     (if cap_id c = cid then Some (Some (c\<lparr>cap_bits := 0\<rparr>) # slots)
      else map_option ((#) (Some c)) (clear_rights cid slots))"

definition root_revoke_cap :: "u64 \<Rightarrow> RootCourt \<Rightarrow> unit ObjResult \<times> RootCourt" where
  "root_revoke_cap cid r = (case clear_rights cid (cap_slots r) of
      None \<Rightarrow> (Err NoSuchCap, r)
    | Some slots \<Rightarrow> (Ok (), r\<lparr>cap_slots := slots\<rparr>))"

fun find_cap :: "u64 \<Rightarrow> RootCap option list \<Rightarrow> RootCap option" where
  "find_cap cid [] = None"
| "find_cap cid (None # slots) = find_cap cid slots"
| "find_cap cid (Some c # slots) = (if cap_id c = cid then Some c else find_cap cid slots)"

definition root_cap_rights :: "RootCourt \<Rightarrow> u64 \<Rightarrow> u64 option" where
  "root_cap_rights r cid = map_option cap_bits (find_cap cid (cap_slots r))"

definition court_count :: "RootCourt \<Rightarrow> nat" where
  "court_count r = length (filter (\<lambda>slot. slot \<noteq> None) (court_slots r))"

definition cap_count :: "RootCourt \<Rightarrow> nat" where
  "cap_count r = length (filter (\<lambda>slot. slot \<noteq> None) (cap_slots r))"

definition root_lookup :: "RootCourt \<Rightarrow> string \<Rightarrow> bool" where
  "root_lookup r path \<longleftrightarrow> list_ex (\<lambda>slot. case slot of None \<Rightarrow> False | Some b \<Rightarrow> bind_path b = path) (binding_slots r)"

section \<open>The table invariant\<close>

text \<open>
  Slots fill from the front, numbered from one: slot \<open>i\<close> of the capability table holds the
  capability with id \<open>i + 1\<close>, and the counter is the number of slots in use.
\<close>

definition slots_numbered :: "('a \<Rightarrow> u64) \<Rightarrow> u64 \<Rightarrow> nat \<Rightarrow> 'a option list \<Rightarrow> bool" where
  "slots_numbered num lst sz slots \<longleftrightarrow> unat lst \<le> sz \<and>
     map (map_option (\<lambda>x. unat (num x))) slots = map Some [1..<Suc (unat lst)] @ replicate (sz - unat lst) None"

definition root_inv :: "RootCourt \<Rightarrow> bool" where
  "root_inv r \<longleftrightarrow> slots_numbered rc_id (next_court_id r) MAX_COURTS (court_slots r) \<and>
     slots_numbered cap_id (next_cap_id r) MAX_CAPS (cap_slots r)"

lemma set_first_numbered:
  "set_first (\<lambda>slot. slot = None) (Some v) (map Some xs @ replicate n None) =
     (if n = 0 then None else Some (map Some (xs @ [v]) @ replicate (n - 1) None))"
  by (induction xs) (cases n; auto)+

lemma set_first_map:
  "set_first (\<lambda>slot. slot = None) (Some (f v)) (map (map_option f) slots) =
     map_option (map (map_option f)) (set_first (\<lambda>slot. slot = None) (Some v) slots)"
  by (induction slots) (auto simp: option.map_comp comp_def)

lemma slots_numbered_new: "slots_numbered num 0 sz (replicate sz None)"
  by (simp add: slots_numbered_def)

text \<open>A free slot exists exactly while the counter is below the size of the table.\<close>

lemma slots_numbered_push:
  assumes num: "slots_numbered num lst sz slots" and sz: "sz < 2 ^ 64"
    and v: "num v = lst + 1"
  shows "case set_first (\<lambda>slot. slot = None) (Some v) slots of
      None \<Rightarrow> unat lst = sz
    | Some slots' \<Rightarrow> unat lst < sz \<and> slots_numbered num (lst + 1) sz slots'"
proof -
  let ?f = "\<lambda>x. unat (num x)"
  have le: "unat lst \<le> sz"
    and eq: "map (map_option ?f) slots = map Some [1..<Suc (unat lst)] @ replicate (sz - unat lst) None"
    using num by (simp_all add: slots_numbered_def)
  have set: "map_option (map (map_option ?f)) (set_first (\<lambda>slot. slot = None) (Some v) slots) =
      (if sz - unat lst = 0 then None
       else Some (map Some ([1..<Suc (unat lst)] @ [?f v]) @ replicate (sz - unat lst - 1) None))"
    unfolding set_first_map [symmetric, of ?f] eq by (rule set_first_numbered)
  show ?thesis
  proof (cases "unat lst < sz")
    case True
    then have lst: "unat (lst + 1) = Suc (unat lst)" using sz by (simp add: unat_add_no_overflow)
    from True set obtain slots' where "set_first (\<lambda>slot. slot = None) (Some v) slots = Some slots'"
      "map (map_option ?f) slots' = map Some ([1..<Suc (unat lst)] @ [?f v]) @ replicate (sz - unat lst - 1) None"
      by auto
    with True lst v show ?thesis by (simp add: slots_numbered_def)
  next
    case False
    with le set show ?thesis by auto
  qed
qed

lemma slots_numbered_ids:
  assumes "slots_numbered num lst sz slots" and "Some x \<in> set slots"
  shows "0 < unat (num x)" and "unat (num x) \<le> unat lst"
proof -
  from assms(2) have "Some (unat (num x)) \<in> set (map (map_option (\<lambda>x. unat (num x))) slots)"
    by force
  with assms(1) have "unat (num x) \<in> set [1..<Suc (unat lst)]" by (auto simp: slots_numbered_def)
  then show "0 < unat (num x)" and "unat (num x) \<le> unat lst" by auto
qed

lemma slots_numbered_count:
  assumes "slots_numbered num lst sz slots"
  shows "length (filter (\<lambda>slot. slot \<noteq> None) slots) = unat lst"
proof -
  have "length (filter (\<lambda>slot. slot \<noteq> None) slots) =
      length (filter (\<lambda>slot. slot \<noteq> None) (map (map_option (\<lambda>x. unat (num x))) slots))"
    by (induction slots) auto
  also have "\<dots> = unat lst" using assms by (simp add: slots_numbered_def filter_empty_conv)
  finally show ?thesis .
qed

section \<open>Finding, minting and revoking\<close>

lemma find_cap_Some: "find_cap cid slots = Some c \<Longrightarrow> Some c \<in> set slots \<and> cap_id c = cid"
  by (induction cid slots rule: find_cap.induct) (auto split: if_splits)

lemma find_cap_set_first:
  assumes "set_first (\<lambda>slot. slot = None) (Some v) slots = Some slots'" and "find_cap (cap_id v) slots = None"
  shows "find_cap cid slots' = (if cid = cap_id v then Some v else find_cap cid slots)"
  using assms
proof (induction cid slots arbitrary: slots' rule: find_cap.induct)
  case (3 cid c slots)
  then obtain rest where "set_first (\<lambda>slot. slot = None) (Some v) slots = Some rest" "slots' = Some c # rest"
    by auto
  with 3 show ?case by (auto split: if_splits)
qed auto

lemma clear_rights_None_iff: "clear_rights cid slots = None \<longleftrightarrow> find_cap cid slots = None"
  by (induction cid slots rule: clear_rights.induct) auto

lemma find_cap_clear_rights:
  "clear_rights cid slots = Some slots' \<Longrightarrow> find_cap x slots' =
     (if x = cid then map_option (\<lambda>c. c\<lparr>cap_bits := 0\<rparr>) (find_cap cid slots) else find_cap x slots)"
  by (induction cid slots arbitrary: slots' rule: clear_rights.induct) (auto split: if_splits)

lemma clear_rights_ids:
  "clear_rights cid slots = Some slots' \<Longrightarrow> map (map_option (\<lambda>c. unat (cap_id c))) slots' =
     map (map_option (\<lambda>c. unat (cap_id c))) slots"
  by (induction cid slots arbitrary: slots' rule: clear_rights.induct) (auto split: if_splits)

lemma table_sizes: "MAX_COURTS < 2 ^ 64" "MAX_CAPS < 2 ^ 64"
  by (simp_all add: MAX_COURTS_def MAX_CAPS_def)

lemma mint_cases:
  assumes inv: "root_inv r"
  obtains (full) "mint object rights r = (Err CspaceFull, r)" "cap_count r = MAX_CAPS"
  | (ok) slots where "mint object rights r =
        (Ok (next_cap_id r + 1), r\<lparr>next_cap_id := next_cap_id r + 1, cap_slots := slots\<rparr>)"
      "cap_count r < MAX_CAPS" "slots_numbered cap_id (next_cap_id r + 1) MAX_CAPS slots"
      "find_cap (next_cap_id r + 1) (cap_slots r) = None"
      "\<And>cid. find_cap cid slots = (if cid = next_cap_id r + 1
        then Some \<lparr>cap_id = next_cap_id r + 1, cap_obj = object, cap_bits = rights\<rparr> else find_cap cid (cap_slots r))"
proof -
  let ?v = "\<lparr>cap_id = next_cap_id r + 1, cap_obj = object, cap_bits = rights\<rparr>"
  from inv have num: "slots_numbered cap_id (next_cap_id r) MAX_CAPS (cap_slots r)" by (simp add: root_inv_def)
  have count: "cap_count r = unat (next_cap_id r)" using slots_numbered_count [OF num] by (simp add: cap_count_def)
  note push = slots_numbered_push [OF num table_sizes(2), of ?v]
  show thesis
  proof (cases "set_first (\<lambda>slot. slot = None) (Some ?v) (cap_slots r)")
    case None
    with push count show ?thesis by (intro full) (simp_all add: mint_def Let_def)
  next
    case (Some slots)
    with push have lt: "unat (next_cap_id r) < MAX_CAPS" and new: "slots_numbered cap_id (next_cap_id r + 1) MAX_CAPS slots"
      by simp_all
    have up: "unat (next_cap_id r + 1) = Suc (unat (next_cap_id r))"
      using lt table_sizes(2) by (simp add: unat_add_no_overflow)
    have fresh: "find_cap (next_cap_id r + 1) (cap_slots r) = None"
    proof (rule ccontr)
      assume "find_cap (next_cap_id r + 1) (cap_slots r) \<noteq> None"
      then obtain c where "find_cap (next_cap_id r + 1) (cap_slots r) = Some c" by blast
      then have "Some c \<in> set (cap_slots r)" "cap_id c = next_cap_id r + 1" by (auto dest: find_cap_Some)
      with slots_numbered_ids(2) [OF num] up show False by force
    qed
    from Some have "mint object rights r =
        (Ok (next_cap_id r + 1), r\<lparr>next_cap_id := next_cap_id r + 1, cap_slots := slots\<rparr>)"
      by (simp add: mint_def Let_def)
    moreover have "cap_count r < MAX_CAPS" using count lt by simp
    ultimately show ?thesis
      using new fresh find_cap_set_first [OF Some] by (intro ok [of slots]) simp_all
  qed
qed

lemma root_create_court_cases:
  assumes inv: "root_inv r"
  obtains (full) "root_create_court name r = (Err CourtTableFull, r)"
  | (ok) slots where "root_create_court name r =
        (Ok (next_court_id r + 1), r\<lparr>next_court_id := next_court_id r + 1, court_slots := slots\<rparr>)"
      "root_inv (r\<lparr>next_court_id := next_court_id r + 1, court_slots := slots\<rparr>)"
proof -
  let ?v = "\<lparr>rc_id = next_court_id r + 1, rc_name = name\<rparr>"
  from inv have num: "slots_numbered rc_id (next_court_id r) MAX_COURTS (court_slots r)" by (simp add: root_inv_def)
  note push = slots_numbered_push [OF num table_sizes(1), of ?v]
  show thesis
  proof (cases "set_first (\<lambda>slot. slot = None) (Some ?v) (court_slots r)")
    case None
    then show ?thesis by (intro full) (simp add: root_create_court_def Let_def)
  next
    case (Some slots)
    with push have "slots_numbered rc_id (next_court_id r + 1) MAX_COURTS slots" by simp
    with Some inv show ?thesis by (intro ok [of slots]) (simp_all add: root_create_court_def Let_def root_inv_def)
  qed
qed

lemma root_inv_frame [simp]:
  "root_inv (r\<lparr>next_object_id := n\<rparr>) = root_inv r"
  "root_inv (r\<lparr>binding_slots := bs\<rparr>) = root_inv r"
  by (simp_all add: root_inv_def)

section \<open>The transition system\<close>

datatype RootOp =
    ROpBootstrap "unit ObjResult"
  | ROpSpawn string string "(u64 \<times> u64) ObjResult"
  | ROpMint u64 u64 "u64 ObjResult"
  | ROpRevoke u64 "unit ObjResult"

inductive root_step :: "RootCourt \<Rightarrow> RootOp \<Rightarrow> RootCourt \<Rightarrow> bool" where
  rs_bootstrap: "bootstrap r = (res, r') \<Longrightarrow> root_step r (ROpBootstrap res) r'"
| rs_spawn: "spawn_court name path r = (res, r') \<Longrightarrow> root_step r (ROpSpawn name path res) r'"
| rs_mint: "mint_cap object rights r = (res, r') \<Longrightarrow> root_step r (ROpMint object rights res) r'"
| rs_revoke: "root_revoke_cap cid r = (res, r') \<Longrightarrow> root_step r (ROpRevoke cid res) r'"

definition root_grows :: "RootCourt \<Rightarrow> RootCourt \<Rightarrow> bool" where
  "root_grows r r' \<longleftrightarrow> (\<forall>cid c. find_cap cid (cap_slots r) = Some c \<longrightarrow>
     (\<exists>c'. find_cap cid (cap_slots r') = Some c' \<and> cap_obj c' = cap_obj c \<and>
        (cap_bits c' = cap_bits c \<or> cap_bits c' = 0)))"

lemma root_growsD:
  "root_grows r r' \<Longrightarrow> find_cap cid (cap_slots r) = Some c \<Longrightarrow> \<exists>c'. find_cap cid (cap_slots r') = Some c' \<and>
     cap_obj c' = cap_obj c \<and> (cap_bits c' = cap_bits c \<or> cap_bits c' = 0)"
  by (simp add: root_grows_def)

lemma root_grows_refl: "root_grows r r"
  by (simp add: root_grows_def)

lemma root_grows_trans: "root_grows a b \<Longrightarrow> root_grows b c \<Longrightarrow> root_grows a c"
  unfolding root_grows_def by metis

lemma root_grows_caps: "cap_slots r' = cap_slots r \<Longrightarrow> root_grows r r'"
  by (simp add: root_grows_def)

text \<open>Each primitive keeps the invariant and the capabilities.\<close>

definition root_good :: "RootCourt \<Rightarrow> RootCourt \<Rightarrow> bool" where
  "root_good r r' \<longleftrightarrow> root_inv r' \<and> root_grows r r'"

lemma root_good_refl: "root_inv r \<Longrightarrow> root_good r r"
  by (simp add: root_good_def root_grows_refl)

lemma root_good_trans: "root_good a b \<Longrightarrow> root_good b c \<Longrightarrow> root_good a c"
  unfolding root_good_def using root_grows_trans by blast

lemma mint_good:
  assumes "root_inv r"
  shows "root_good r (snd (mint object rights r))"
  using assms
proof (cases rule: mint_cases [of r object rights])
  case (ok slots)
  with assms show ?thesis by (auto simp: root_good_def root_inv_def root_grows_def)
qed (use assms in \<open>simp_all add: root_good_refl\<close>)

lemma root_create_court_good:
  assumes "root_inv r"
  shows "root_good r (snd (root_create_court name r))"
  using assms
proof (cases rule: root_create_court_cases [of r name])
  case (ok slots)
  then show ?thesis by (simp add: root_good_def root_grows_caps)
qed (use assms in \<open>simp_all add: root_good_refl\<close>)

lemma root_bind_good: "root_inv r \<Longrightarrow> root_good r (snd (root_bind path object r))"
  by (auto simp: root_bind_def root_good_def root_grows_caps split: option.splits)

lemma alloc_object_good: "root_inv r \<Longrightarrow> root_good r (snd (alloc_object r))"
  by (simp add: alloc_object_def root_good_def root_grows_caps)

lemma root_revoke_cap_good: "root_inv r \<Longrightarrow> root_good r (snd (root_revoke_cap cid r))"
  by (auto simp: root_revoke_cap_def root_good_def root_inv_def slots_numbered_def root_grows_def
      find_cap_clear_rights clear_rights_ids split: option.splits)

lemma try_st_good:
  assumes "root_inv r" and "root_good r (snd x)" and "\<And>a s. x = (Ok a, s) \<Longrightarrow> root_inv s \<Longrightarrow> root_good s (snd (k a s))"
  shows "root_good r (snd (try_st x k))"
proof (cases x)
  case (Pair res s)
  with assms show ?thesis
    by (cases res) (auto simp: root_good_def intro: root_grows_trans)
qed

lemma spawn_court_good:
  assumes "root_inv r"
  shows "root_good r (snd (spawn_court name path r))"
  unfolding spawn_court_def
proof (rule try_st_good [OF assms root_create_court_good [OF assms]])
  fix court s
  assume "root_inv s"
  then have s': "root_good s (snd (alloc_object s))" by (rule alloc_object_good)
  then have "root_inv (snd (alloc_object s))" by (simp add: root_good_def)
  then have "root_good (snd (alloc_object s)) (snd (try_st (root_bind path (fst (alloc_object s)) (snd (alloc_object s)))
      (\<lambda>_ r. (Ok (court, fst (alloc_object s)), r))))"
    by (rule try_st_good) (auto simp: root_bind_good root_good_refl \<open>root_inv (snd (alloc_object s))\<close>)
  with s' show "root_good s (snd (case alloc_object s of (object, r) \<Rightarrow>
      try_st (root_bind path object r) (\<lambda>_ r. (Ok (court, object), r))))"
    by (simp add: case_prod_beta root_good_trans)
qed

lemma bootstrap_good:
  assumes "root_inv r"
  shows "root_good r (snd (bootstrap r))"
  unfolding bootstrap_def
proof (rule try_st_good [OF assms root_create_court_good [OF assms]])
  fix court s
  assume "root_inv s"
  then have s': "root_good s (snd (alloc_object s))" by (rule alloc_object_good)
  then have inv: "root_inv (snd (alloc_object s))" by (simp add: root_good_def)
  let ?ns = "fst (alloc_object s)"
  have "root_good (snd (alloc_object s)) (snd (try_st (root_bind ''/court/root'' ?ns (snd (alloc_object s)))
      (\<lambda>_ r. try_st (mint ?ns (push_bit 6 1) r) (\<lambda>_ r. (Ok (), r)))))"
    by (rule try_st_good [OF inv root_bind_good [OF inv]], rule try_st_good)
      (auto simp: mint_good root_good_refl)
  with s' show "root_good s (snd (case alloc_object s of (ns, r) \<Rightarrow>
      try_st (root_bind ''/court/root'' ns r) (\<lambda>_ r. try_st (mint ns (push_bit 6 1) r) (\<lambda>_ r. (Ok (), r)))))"
    by (simp add: case_prod_beta root_good_trans)
qed

lemma root_step_good:
  assumes "root_inv r" and "root_step r l r'"
  shows "root_good r r'"
  using assms(2)
proof cases
  case (rs_bootstrap res)
  with bootstrap_good [OF assms(1)] show ?thesis by simp
next
  case (rs_spawn name path res)
  with spawn_court_good [OF assms(1), of name path] show ?thesis by simp
next
  case (rs_mint object rights res)
  with mint_good [OF assms(1), of object rights] show ?thesis by (simp add: mint_cap_def)
next
  case (rs_revoke cid res)
  with root_revoke_cap_good [OF assms(1), of cid] show ?thesis by simp
qed

lemma root_inv_new: "root_inv root_new"
  by (simp add: root_inv_def root_new_def slots_numbered_new)

interpretation root_sys: monotone_system root_step root_inv root_grows
  by unfold_locales (auto simp: root_grows_refl dest: root_step_good simp: root_good_def intro: root_grows_trans)

text \<open>
  C38. Minting on the bare-metal Root Court. In every reachable state \<^verbatim>\<open>mint_cap\<close> succeeds exactly
  while fewer than sixteen capabilities exist; the id it returns was not in use, has exactly
  the rights asked for, and no other capability changes. A failed mint changes nothing.
\<close>

theorem mint_cap_exact:
  assumes "run root_step root_new ops r" and "mint_cap object rights r = (res, r')"
  shows "if cap_count r < 16 then \<exists>cid. res = Ok cid \<and> root_cap_rights r cid = None \<and>
      root_cap_rights r' cid = Some rights \<and> cap_count r' = cap_count r + 1 \<and>
      (\<forall>x. x \<noteq> cid \<longrightarrow> root_cap_rights r' x = root_cap_rights r x)
    else res = Err CspaceFull \<and> r' = r"
proof -
  have inv: "root_inv r" by (rule root_sys.invar_run [OF assms(1) root_inv_new])
  have inv': "root_inv r'" using mint_good [OF inv, of object rights] assms(2) by (simp add: root_good_def mint_cap_def)
  have count: "cap_count s = unat (next_cap_id s)" if "root_inv s" for s
    using that slots_numbered_count [of cap_id "next_cap_id s" MAX_CAPS "cap_slots s"]
    by (simp add: root_inv_def cap_count_def)
  from inv show ?thesis
  proof (cases rule: mint_cases [of r object rights])
    case full
    with assms(2) show ?thesis by (simp add: mint_cap_def MAX_CAPS_def)
  next
    case (ok slots)
    from ok(2) count [OF inv] have "unat (next_cap_id r) < 16" by (simp add: MAX_CAPS_def)
    then have "unat (next_cap_id r + 1) = unat (next_cap_id r) + 1"
      using unat_add_no_overflow [of "next_cap_id r" 1] by simp
    with ok assms(2) count [OF inv] count [OF inv'] show ?thesis
      by (auto simp: mint_cap_def root_cap_rights_def MAX_CAPS_def)
  qed
qed

definition booted :: RootCourt where
  "booted = snd (bootstrap root_new)"

lemma booted_run: "run root_step root_new [ROpBootstrap (fst (bootstrap root_new))] booted"
proof -
  have "root_step root_new (ROpBootstrap (fst (bootstrap root_new))) booted"
    by (rule rs_bootstrap) (simp add: booted_def)
  from run_cons [where step = root_step, OF this run_nil] show ?thesis .
qed

lemma booted_caps: "cap_count booted = 1" "root_cap_rights booted 1 = Some 64"
  by code_simp+

theorem mint_cap_exact_witness:
  "\<exists>cid. fst (mint_cap 7 OBJ_RIGHT_SEND booted) = Ok cid \<and> root_cap_rights booted cid = None \<and>
     root_cap_rights (snd (mint_cap 7 OBJ_RIGHT_SEND booted)) cid = Some OBJ_RIGHT_SEND"
proof -
  obtain res r' where op: "mint_cap 7 OBJ_RIGHT_SEND booted = (res, r')" by (cases "mint_cap 7 OBJ_RIGHT_SEND booted")
  from mint_cap_exact [OF booted_run op] booted_caps op show ?thesis by auto
qed

text \<open>
  C37. Revocation on the bare-metal Root Court is exact and permanent. When \<^verbatim>\<open>revoke_cap\<close> succeeds
  the capability's rights are zero at once and stay zero through any later operations, and the
  rights of every other capability are what they were. It succeeds exactly for known ids.
\<close>

theorem root_revocation_permanent:
  assumes "run root_step root_new ops r" and "root_revoke_cap cid r = (res, r1)" and "run root_step r1 ops' r2"
  shows "if root_cap_rights r cid = None then res = Err NoSuchCap \<and> r1 = r
    else res = Ok () \<and> root_cap_rights r2 cid = Some 0 \<and>
      (\<forall>x. x \<noteq> cid \<longrightarrow> root_cap_rights r1 x = root_cap_rights r x)"
proof (cases "clear_rights cid (cap_slots r)")
  case None
  with assms(2) show ?thesis by (simp add: root_revoke_cap_def root_cap_rights_def clear_rights_None_iff)
next
  case (Some slots)
  from Some obtain c where c: "find_cap cid (cap_slots r) = Some c"
    using clear_rights_None_iff [of cid "cap_slots r"] by auto
  from Some assms(2) have r1: "r1 = r\<lparr>cap_slots := slots\<rparr>" "res = Ok ()" by (simp_all add: root_revoke_cap_def)
  have inv: "root_inv r" by (rule root_sys.invar_run [OF assms(1) root_inv_new])
  have "root_inv r1" using root_revoke_cap_good [OF inv, of cid] assms(2) by (simp add: root_good_def)
  note grows = root_sys.grows_run [OF assms(3) this]
  have "find_cap cid (cap_slots r1) = Some (c\<lparr>cap_bits := 0\<rparr>)"
    using find_cap_clear_rights [OF Some, of cid] c r1 by simp
  from root_growsD [OF grows this] have "root_cap_rights r2 cid = Some 0"
    by (auto simp: root_cap_rights_def)
  then show ?thesis
    using find_cap_clear_rights [OF Some] c r1 by (auto simp: root_cap_rights_def)
qed

theorem root_revocation_permanent_witness:
  "fst (root_revoke_cap 1 booted) = Ok () \<and> root_cap_rights (snd (root_revoke_cap 1 booted)) 1 = Some 0"
proof -
  obtain res r1 where op: "root_revoke_cap 1 booted = (res, r1)" by (cases "root_revoke_cap 1 booted")
  from root_revocation_permanent [OF booted_run op run_nil] booted_caps(2) op show ?thesis by auto
qed

end
