(* ===== verification/Courtlets.thy ===== *)
theory Courtlets
  imports Elf_Image Court_Images Root_Object
begin

text \<open>
  Courtlets, \<^verbatim>\<open>crates/root-court/src/courtlet.rs\<close>: Root Court clones its address space for each
  Courtlet, loads the image there, maps a boot page, the shared ring and a stack, and enters it.
  The images run as \<^verbatim>\<open>app.rs\<close> and \<^verbatim>\<open>net.rs\<close> say (\<open>app_start\<close>, \<open>net_start\<close>) on the pages their page
  tables give them; what they leave on their stack is any content. A page fault is \<open>Panic\<close>.
\<close>

section \<open>Entering a Courtlet\<close>

text \<open>
  The address translation of the processor: a walk of four levels from \<^verbatim>\<open>CR3\<close>, or of five when
  \<^verbatim>\<open>CR4.LA57\<close> is set.
\<close>

definition pml5_index :: "u64 \<Rightarrow> nat" where "pml5_index va = unat (drop_bit 48 va AND 0x1ff)"

definition mmu :: "u64 \<Rightarrow> pmem \<Rightarrow> u64 \<Rightarrow> u64 \<Rightarrow> u64 option" where
  "mmu cr4 m cr3 va =
     (if cr4 AND CR4_LA57 = 0 then translate m cr3 va
      else let e = mem_load64 m (entry_ptr cr3 (pml5_index va))
        in if e AND PRESENT = 0 then None else translate m (e AND PHYS_MASK) va)"

record Courtlet =
  ct_name :: string
  ct_cr3 :: u64
  ct_space :: AddressSpace
  ct_stack_top :: u64
  ct_boot :: u64
  ct_entry :: u64

text \<open>The pages of the stack with their content after the run.\<close>

fun write_stack :: "(u64 \<Rightarrow> u64 option) \<Rightarrow> u64 \<Rightarrow> bytes list \<Rightarrow> pmem \<Rightarrow> pmem option" where
  "write_stack tr va [] m = Some m"
| "write_stack tr va (page # pages) m =
     Option.bind (tr va) (\<lambda>pa. write_stack tr (va + ABI_PAGE) pages (mem_write pa (take 4096 page) m))"

text \<open>
  A run of the image whose \<^verbatim>\<open>_start\<close> is \<open>start\<close>: the entry point and the stack must be mapped, it reads the boot
  page and the ring, and it writes the ring.
\<close>

definition run_image ::
  "(bytes \<Rightarrow> bytes \<Rightarrow> (u64 \<times> bytes) option) \<Rightarrow> bytes list \<Rightarrow> (u64 \<Rightarrow> u64 option) \<Rightarrow> u64 \<Rightarrow> u64 \<Rightarrow> pmem \<Rightarrow> (u64 \<times> pmem) option" where
  "run_image start stack tr stack_top entry m =
     Option.bind (tr entry) (\<lambda>_.
     Option.bind (write_stack tr (stack_top - STACK_SIZE) stack m) (\<lambda>m.
     Option.bind (tr BOOT_VA) (\<lambda>boot.
     Option.bind (tr RING_VA) (\<lambda>ring.
     Option.bind (start (mem_bytes m boot 4096) (mem_bytes m ring 4096)) (\<lambda>(ret, page).
     Some (ret, mem_write ring page m))))))"

definition enter ::
  "(bytes \<Rightarrow> bytes \<Rightarrow> (u64 \<times> bytes) option) \<Rightarrow> bytes list \<Rightarrow> u64 \<Rightarrow> u64 \<Rightarrow> u64 \<Rightarrow> Machine \<Rightarrow> (u64, string) result \<times> Machine" where
  "enter start stack cr3 stack_top entry mc =
     (let kernel_cr3 = mc_cr3 mc AND PHYS_MASK; new_cr3 = cr3 AND PHYS_MASK
      in case run_image start stack (mmu (mc_cr4 mc) (mc_mem mc) new_cr3) stack_top entry (mc_mem mc) of
           None \<Rightarrow> (Panic, mc\<lparr>mc_cr3 := new_cr3\<rparr>)
         | Some (ret, m) \<Rightarrow> (Ok ret, mc\<lparr>mc_mem := m, mc_cr3 := kernel_cr3\<rparr>))"

section \<open>Spawning\<close>

text \<open>\<^verbatim>\<open>bump.alloc_pages(n).ok_or(msg)?\<close>, \<^verbatim>\<open>write_bytes(0, n * PAGE)\<close> and the write of a structure at its start.\<close>

definition alloc_filled :: "u64 \<Rightarrow> string \<Rightarrow> bytes \<Rightarrow> Machine \<Rightarrow> (u64, string) result \<times> Machine" where
  "alloc_filled pages msg bs mc = (case alloc_pages pages (mc_bump mc) of
      None \<Rightarrow> (Err msg, mc)
    | Some ((phys, virt), b) \<Rightarrow>
        (Ok phys, mc\<lparr>mc_bump := b, mc_mem := mem_write phys bs (mem_zero phys (unat (pages * ABI_PAGE)) (mc_mem mc))\<rparr>))"

definition spawn ::
  "string \<Rightarrow> bytes \<Rightarrow> u64 \<Rightarrow> u64 \<Rightarrow> u64 \<Rightarrow> u64 \<Rightarrow> Machine \<Rightarrow> (Courtlet, string) result \<times> Machine" where
  "spawn name image_bytes cap rights court ring_phys mc =
     try_st (clone_kernel mc) (\<lambda>space mc.
     try_st (load space image_bytes mc) (\<lambda>entry mc.
     try_st (alloc_filled 1 ''courtlet boot page'' (boot_info cap rights court) mc) (\<lambda>boot_phys mc.
     try_st (alloc_filled STACK_PAGES ''courtlet stack'' [] mc) (\<lambda>stack_phys mc.
     try_st (space_map space BOOT_VA boot_phys ABI_PAGE mc) (\<lambda>_ mc.
     try_st (space_map space RING_VA ring_phys ABI_PAGE mc) (\<lambda>_ mc.
     try_st (space_map space STACK_VA stack_phys STACK_SIZE mc) (\<lambda>_ mc.
     (Ok \<lparr>ct_name = name, ct_cr3 = as_cr3 space, ct_space = space, ct_stack_top = STACK_VA + STACK_SIZE,
        ct_boot = boot_phys, ct_entry = entry\<rparr>, mc))))))))"

section \<open>The demo\<close>

text \<open>The machine and the object table; errors of the table are the strings of \<^verbatim>\<open>object.rs\<close>.\<close>

type_synonym kernel = "Machine \<times> RootCourt"

primrec obj_message :: "ObjError \<Rightarrow> string" where
  "obj_message CourtTableFull = ''court table full''"
| "obj_message NamespaceFull = ''namespace full''"
| "obj_message CspaceFull = ''cspace full''"
| "obj_message NoSuchCap = ''no such cap''"

definition on_root :: "(RootCourt \<Rightarrow> 'a ObjResult \<times> RootCourt) \<Rightarrow> kernel \<Rightarrow> ('a, string) result \<times> kernel" where
  "on_root f k = (case f (snd k) of (res, root) \<Rightarrow>
     (case res of Ok a \<Rightarrow> Ok a | Err e \<Rightarrow> Err (obj_message e) | Panic \<Rightarrow> Panic, (fst k, root)))"

definition on_machine :: "(Machine \<Rightarrow> ('a, string) result \<times> Machine) \<Rightarrow> kernel \<Rightarrow> ('a, string) result \<times> kernel" where
  "on_machine f k = (case f (fst k) of (res, mc) \<Rightarrow> (res, (mc, snd k)))"

text \<open>Revocation in the shared pages: the rights in the boot block and the flag of the ring.\<close>

definition revoke_pages :: "u64 \<Rightarrow> u64 \<Rightarrow> Machine \<Rightarrow> Machine" where
  "revoke_pages boot ring mc = mc\<lparr>mc_mem :=
     mem_store64 (ring + of_nat R_REVOKED) 1 (mem_store64 (boot + of_nat B_RIGHTS) 0 (mc_mem mc))\<rparr>"

text \<open>
  \<^verbatim>\<open>run_demo\<close>, with the two images and the content of the stacks after each of the three runs as
  parameters: first everything up to the second \<^verbatim>\<open>spawn\<close>, then the runs and the revocation.
\<close>

definition demo_setup :: "bytes \<Rightarrow> bytes \<Rightarrow> kernel \<Rightarrow> (u64 \<times> u64 \<times> Courtlet \<times> Courtlet, string) result \<times> kernel" where
  "demo_setup app_image net_image k =
     try_st (on_root (spawn_court ''app'' ''/court/app'') k) (\<lambda>(app_court, app_obj) k.
     try_st (on_root (spawn_court ''net'' ''/court/net'') k) (\<lambda>(net_court, net_obj) k.
     try_st (on_root (mint_cap app_obj OBJ_RIGHT_SEND) k) (\<lambda>app_cap k.
     try_st (on_root (mint_cap net_obj OBJ_RIGHT_RECV) k) (\<lambda>net_cap k.
     try_st (on_machine (alloc_filled 1 ''ring page'' ring_header) k) (\<lambda>ring k.
     try_st (on_machine (spawn ''app'' app_image app_cap OBJ_RIGHT_SEND app_court ring) k) (\<lambda>app k.
     try_st (on_machine (spawn ''net'' net_image net_cap OBJ_RIGHT_RECV net_court ring) k) (\<lambda>net k.
     (Ok (app_cap, ring, app, net), k))))))))"

definition demo_run ::
  "bytes list \<Rightarrow> bytes list \<Rightarrow> bytes list \<Rightarrow> u64 \<times> u64 \<times> Courtlet \<times> Courtlet \<Rightarrow> kernel \<Rightarrow> (unit, string) result \<times> kernel" where
  "demo_run stack1 stack2 stack3 setup k = (let (app_cap, ring, app, net) = setup in
     if 0x0000800000000000 \<le> ct_entry app \<or> 0x0000800000000000 \<le> ct_entry net
     then (Err ''court image entry is not lower-half'', k)
     else try_st (on_machine (enter app_start stack1 (ct_cr3 app) (ct_stack_top app) (ct_entry app)) k) (\<lambda>sent k.
     if sent \<noteq> ST_SENT then (Err ''app court image send failed'', k)
     else try_st (on_machine (enter net_start stack2 (ct_cr3 net) (ct_stack_top net) (ct_entry net)) k) (\<lambda>recvd k.
     if recvd AND 0xFF \<noteq> ST_RECV then (Err ''net court image recv failed'', k)
     else try_st (on_root (root_revoke_cap app_cap) k) (\<lambda>_ (mc, root).
     let k = (revoke_pages (ct_boot app) ring mc, root) in
     if root_cap_rights root app_cap \<noteq> Some 0 then (Err ''app cap still live after revoke'', k)
     else try_st (on_machine (enter app_start stack3 (ct_cr3 app) (ct_stack_top app) (ct_entry app)) k) (\<lambda>denied k.
     if denied \<noteq> ST_DENIED then (Err ''revoked send did not deny'', k)
     else (Ok (), k))))))"

definition run_demo ::
  "bytes \<Rightarrow> bytes \<Rightarrow> bytes list \<Rightarrow> bytes list \<Rightarrow> bytes list \<Rightarrow> kernel \<Rightarrow> (unit, string) result \<times> kernel" where
  "run_demo app_image net_image stack1 stack2 stack3 k =
     try_st (demo_setup app_image net_image k) (demo_run stack1 stack2 stack3)"

end
