(* ===== verification/Courtlet_Memory.thy ===== *)
theory Courtlet_Memory
  imports Courtlets
begin

text \<open>
  What a spawned Courtlet sees: its image, its boot page, the shared ring and its stack, each on data
  pages of its own apart from the ring; and what entering it changes.
\<close>

section \<open>Pages of data\<close>

definition data_pages :: "Machine \<Rightarrow> u64 set \<Rightarrow> u64 \<Rightarrow> nat \<Rightarrow> bool" where
  "data_pages mc S p n \<longleftrightarrow> aligned p \<and> span p (n * 4096) \<subseteq> data_mem mc S \<and> unat p + n * 4096 \<le> 2 ^ 52"

lemma data_pages_evolves: "data_pages mc S p n \<Longrightarrow> evolves W (mc, S) (mc', S') \<Longrightarrow> data_pages mc' S' p n"
  using evolvesD(5) [of W mc S mc' S'] by (auto simp: data_pages_def)

lemma mem_bytes_evolves:
  assumes "data_pages mc S p n" and "evolves W (mc, S) (mc', S')" and "span p (n * 4096) \<inter> W = {}"
  shows "mem_bytes (mc_mem mc') p (n * 4096) = mem_bytes (mc_mem mc) p (n * 4096)"
  using assms evolvesD(6) [OF assms(2)] by (intro mem_bytes_cong) (auto simp: data_pages_def)

lemma mem_bytes_filled:
  assumes "length bs \<le> n" and "unat p + n \<le> 2 ^ 52"
  shows "mem_bytes (mem_write p bs (mem_zero p n m)) p n = bs @ replicate (n - length bs) 0"
  by (rule nth_equalityI) (use assms in \<open>auto simp: mem_bytes_def mem_write_def mem_zero_def unat_of_nat_small nth_append\<close>)

lemma alloc_filled_result:
  assumes ok: "spaces_ok mc S" and bs: "length bs \<le> unat n * 4096" and n: "unat n \<le> 2 ^ 20"
    and res: "alloc_filled n msg bs mc = (res, mc')"
  shows "case res of
      Ok p \<Rightarrow> evolves {} (mc, S) (mc', S) \<and> data_pages mc' S p (unat n) \<and>
        span p (unat n * 4096) \<inter> owned_mem (mc_bump mc) = {} \<and>
        mem_bytes (mc_mem mc') p (unat n * 4096) = bs @ replicate (unat n * 4096 - length bs) 0
    | Err e \<Rightarrow> e = msg \<and> mc' = mc
    | Panic \<Rightarrow> False"
proof (cases "alloc_pages n (mc_bump mc)")
  case None
  with res show ?thesis by (auto simp: alloc_filled_def)
next
  case (Some a)
  then obtain p v b where a: "alloc_pages n (mc_bump mc) = Some ((p, v), b)" by (metis surj_pair)
  have size: "unat (n * ABI_PAGE) = unat n * 4096" using n by (simp add: unat_mult_no_overflow ABI_PAGE_def)
  let ?m = "mem_write p bs (mem_zero p (unat n * 4096) (mc_mem mc))"
  have r: "res = Ok p" "mc' = mc\<lparr>mc_bump := b, mc_mem := ?m\<rparr>" using res a by (simp_all add: alloc_filled_def size)
  have out: "\<forall>x. x \<notin> span p (unat n * 4096) \<longrightarrow> ?m x = mc_mem mc x" using bs by (auto simp: mem_write_def mem_zero_def span_def)
  note new = new_data [OF ok a out, folded r(2)]
  with mem_bytes_filled [OF bs new(5)] show ?thesis by (simp add: r data_pages_def)
qed

lemma span_sub: "n \<le> k \<Longrightarrow> span p n \<subseteq> span p k"
  by (auto simp: span_def)

lemma owned_disjoint_data:
  assumes "span p k \<inter> owned_mem (mc_bump mc) = {}" and "data_pages mc S q n"
  shows "span p k \<inter> span q (n * 4096) = {}"
  using assms data_mem_owned [of _ mc S] by (auto simp: data_pages_def)

section \<open>A Courtlet ready to run\<close>

definition courtlet_ok :: "Machine \<Rightarrow> u64 set \<Rightarrow> Courtlet \<Rightarrow> u64 \<Rightarrow> u64 \<Rightarrow> bool" where
  "courtlet_ok mc S ct stk ring \<longleftrightarrow> (let r = as_pml4_phys (ct_space ct) in
     r \<in> S \<and> data_pages mc S (ct_boot ct) 1 \<and> data_pages mc S stk 8 \<and> data_pages mc S ring 1 \<and>
     mc_translate mc r (ct_entry ct) \<noteq> None \<and> mc_translate mc r BOOT_VA = Some (ct_boot ct) \<and>
     mc_translate mc r RING_VA = Some ring \<and>
     (\<forall>i<8. mc_translate mc r (STACK_VA + of_nat (i * 4096)) = Some (stk + of_nat (i * 4096))) \<and>
     ct_stack_top ct = STACK_VA + STACK_SIZE \<and> (mc_cr4 mc AND CR4_LA57 = 0 \<longrightarrow> ct_cr3 ct = r) \<and>
     page_at (ct_boot ct) \<inter> page_at ring = {} \<and> page_at (ct_boot ct) \<inter> span stk (8 * 4096) = {} \<and>
     page_at ring \<inter> span stk (8 * 4096) = {})"

lemma courtlet_okD:
  assumes "courtlet_ok mc S ct stk ring"
  defines "r \<equiv> as_pml4_phys (ct_space ct)"
  shows "r \<in> S" and "data_pages mc S (ct_boot ct) 1" and "data_pages mc S stk 8" and "data_pages mc S ring 1"
    and "\<exists>pa. mc_translate mc r (ct_entry ct) = Some pa" and "mc_translate mc r BOOT_VA = Some (ct_boot ct)"
    and "mc_translate mc r RING_VA = Some ring"
    and "i < 8 \<Longrightarrow> mc_translate mc r (STACK_VA + of_nat (i * 4096)) = Some (stk + of_nat (i * 4096))"
    and "ct_stack_top ct = STACK_VA + STACK_SIZE" and "mc_cr4 mc AND CR4_LA57 = 0 \<Longrightarrow> ct_cr3 ct = r"
    and "page_at (ct_boot ct) \<inter> page_at ring = {}" and "page_at (ct_boot ct) \<inter> span stk (8 * 4096) = {}"
    and "page_at ring \<inter> span stk (8 * 4096) = {}"
  using assms(1) unfolding courtlet_ok_def r_def Let_def by auto

lemma courtlet_ok_evolves:
  assumes ok: "courtlet_ok mc S ct stk ring" and ev: "evolves W (mc, S) (mc', S')"
  shows "courtlet_ok mc' S' ct stk ring"
  using courtlet_okD [OF ok] data_pages_evolves [OF _ ev] evolvesD(2,7) [OF ev] evolves_regs(3) [OF ev]
  unfolding courtlet_ok_def Let_def by auto

section \<open>Spawning\<close>

text \<open>Mapping data pages: the outcome and what the Courtlet then reads at the range.\<close>

lemma map_pages:
  assumes ok: "spaces_ok mc S" and r: "as_pml4_phys sp \<in> S" "as_pml4_phys sp \<noteq> mc_kernel_pml4 mc"
    and p: "data_pages mc S p n" and va: "unat va + n * 4096 \<le> 2 ^ 47" and len: "unat len = n * 4096"
    and res: "space_map sp va p len mc = (res, mc')"
  shows "evolves {} (mc, S) (mc', S) \<and> res \<noteq> Panic \<and>
    (res = Ok () \<longrightarrow> (\<forall>i<n * 4096. mc_translate mc' (as_pml4_phys sp) (va + of_nat i) = Some (p + of_nat i)))"
proof -
  have "lower_half va len" using va len by (simp add: lower_half_def)
  note m = space_map_evolves [OF ok r this res]
  have "mc_translate mc' (as_pml4_phys sp) (va + of_nat i) = Some (p + of_nat i)" if "res = Ok ()" "i < n * 4096" for i
  proof -
    have "unat (va + of_nat i - va) < unat len div 4096 * 4096"
      using that(2) va by (simp add: len unat_of_nat_small)
    with m that(1) p len show ?thesis by (simp add: data_pages_def)
  qed
  with m show ?thesis by blast
qed

lemma try_st_cases:
  assumes "try_st rs k = (res, s')"
  obtains (ok) a s where "rs = (Ok a, s)" "k a s = (res, s')" | (err) e where "rs = (Err e, s')" "res = Err e"
  | (panic) "rs = (Panic, s')" "res = Panic"
  using assms by (cases rs; cases "fst rs") auto

lemma spawn_maps:
  fixes ring :: u64
  assumes ok: "spaces_ok mc S" and r: "as_pml4_phys sp \<in> S" "as_pml4_phys sp \<noteq> mc_kernel_pml4 mc"
    and pages: "data_pages mc S boot 1" "data_pages mc S ring 1" "data_pages mc S stk 8"
    and res: "try_st (space_map sp BOOT_VA boot ABI_PAGE mc) (\<lambda>_ mc.
      try_st (space_map sp RING_VA ring ABI_PAGE mc) (\<lambda>_ mc.
      try_st (space_map sp STACK_VA stk STACK_SIZE mc) (\<lambda>_ mc. (Ok ct, mc)))) = (res, mc')"
  shows "evolves {} (mc, S) (mc', S) \<and> res \<noteq> Panic \<and> (\<forall>c. res = Ok c \<longrightarrow> c = ct \<and>
    mc_translate mc' (as_pml4_phys sp) BOOT_VA = Some boot \<and> mc_translate mc' (as_pml4_phys sp) RING_VA = Some ring \<and>
    (\<forall>i<8. mc_translate mc' (as_pml4_phys sp) (STACK_VA + of_nat (i * 4096)) = Some (stk + of_nat (i * 4096))))"
proof -
  let ?r = "as_pml4_phys sp"
  have va: "unat BOOT_VA + 1 * 4096 \<le> 2 ^ 47" "unat RING_VA + 1 * 4096 \<le> 2 ^ 47" "unat STACK_VA + 8 * 4096 \<le> 2 ^ 47"
    and len: "unat ABI_PAGE = 1 * 4096" "unat STACK_SIZE = 8 * 4096"
    by (simp_all add: BOOT_VA_def RING_VA_def STACK_VA_def ABI_PAGE_def STACK_SIZE_def STACK_PAGES_def)
  obtain r1 mc1 where m1: "space_map sp BOOT_VA boot ABI_PAGE mc = (r1, mc1)" by fastforce
  note f1 = map_pages [OF ok r pages(1) va(1) len(1) m1]
  note e1 = conjunct1 [OF f1]
  obtain r2 mc2 where m2: "space_map sp RING_VA ring ABI_PAGE mc1 = (r2, mc2)" by fastforce
  have k1: "?r \<noteq> mc_kernel_pml4 mc1" using r(2) evolves_regs(1) [OF e1] by simp
  note f2 = map_pages [OF evolvesD(1) [OF e1] r(1) k1 data_pages_evolves [OF pages(2) e1] va(2) len(1) m2]
  note e2 = evolves_trans [OF e1 conjunct1 [OF f2]]
  obtain r3 mc3 where m3: "space_map sp STACK_VA stk STACK_SIZE mc2 = (r3, mc3)" by fastforce
  have k2: "?r \<noteq> mc_kernel_pml4 mc2" using r(2) evolves_regs(1) [OF e2] by simp
  note f3 = map_pages [OF evolvesD(1) [OF e2] r(1) k2 data_pages_evolves [OF pages(3) e2] va(3) len(2) m3]
  note e3 = evolves_trans [OF e2 conjunct1 [OF f3]]
  have boot: "mc_translate mc3 ?r BOOT_VA = Some boot" if "r1 = Ok ()"
    using f1 that evolvesD(7) [OF evolves_trans [OF conjunct1 [OF f2] conjunct1 [OF f3]] r(1)] by (auto dest: spec [of _ 0])
  have ring: "mc_translate mc3 ?r RING_VA = Some ring" if "r2 = Ok ()"
    using f2 that evolvesD(7) [OF conjunct1 [OF f3] r(1)] by (auto dest: spec [of _ 0])
  have stk: "mc_translate mc3 ?r (STACK_VA + of_nat (i * 4096)) = Some (stk + of_nat (i * 4096))" if "r3 = Ok ()" "i < 8" for i
  proof -
    have "i * 4096 < 8 * 4096" using that(2) by simp
    with f3 that(1) show ?thesis by blast
  qed
  show ?thesis
  proof (cases "r1 = Ok () \<and> r2 = Ok () \<and> r3 = Ok ()")
    case True
    with res m1 m2 m3 have "res = Ok ct" "mc' = mc3" by simp_all
    with e3 boot ring stk True show ?thesis by simp
  next
    case False
    with res m1 m2 m3 f1 f2 f3 e1 e2 e3 show ?thesis by (cases r1; cases r2; cases r3) auto
  qed
qed

text \<open>What \<^verbatim>\<open>spawn\<close> promises when it returns a Courtlet.\<close>

definition spawned :: "Machine \<Rightarrow> u64 set \<Rightarrow> bytes \<Rightarrow> bytes \<Rightarrow> u64 \<Rightarrow> Courtlet \<Rightarrow> u64 \<Rightarrow> Machine \<Rightarrow> bool" where
  "spawned mc S img page ring ct stk mc' \<longleftrightarrow> (let r = as_pml4_phys (ct_space ct); S' = insert r S in
     r \<notin> S \<and> evolves {} (mc, S) (mc', S') \<and> courtlet_ok mc' S' ct stk ring \<and>
     mem_bytes (mc_mem mc') (ct_boot ct) 4096 = page \<and>
     page_at (ct_boot ct) \<inter> data_mem mc S = {} \<and> span stk (8 * 4096) \<inter> data_mem mc S = {} \<and>
     (\<forall>ph\<in>set (image_segments img). segment_loaded mc' S' r img ph) \<and>
     (\<exists>ph\<in>set (image_segments img). in_segment (ct_entry ct) ph))"

lemma in_segment_mapped:
  assumes "segment_loaded mc S r img ph" and "in_segment entry ph"
  shows "\<exists>pa. mc_translate mc r entry = Some pa"
proof -
  let ?i = "unat entry - unat (p_vaddr ph)"
  have le: "p_vaddr ph \<le> entry" and i: "?i < unat (p_memsz ph)" using assms(2) by (auto simp: in_segment_def word_le_nat_alt)
  have d: "unat (entry - p_vaddr ph) = ?i" using le by (simp add: unat_sub)
  have "of_nat ?i = entry - p_vaddr ph" unfolding d [symmetric] by simp
  then have "p_vaddr ph + of_nat ?i = entry" by simp
  with assms(1) i show ?thesis unfolding segment_loaded_def by metis
qed

text \<open>The part of \<^verbatim>\<open>spawn\<close> behind the loader: the boot page, the stack and the three mappings.\<close>

lemma spawn_pages:
  assumes ok: "spaces_ok mc S" and r: "as_pml4_phys sp \<in> S" "as_pml4_phys sp \<noteq> mc_kernel_pml4 mc"
    and ring: "data_pages mc S ring 1"
    and res: "try_st (alloc_filled 1 msg1 (boot_info cap rights court) mc) (\<lambda>boot mc.
      try_st (alloc_filled STACK_PAGES msg2 [] mc) (\<lambda>stk mc.
      try_st (space_map sp BOOT_VA boot ABI_PAGE mc) (\<lambda>_ mc.
      try_st (space_map sp RING_VA ring ABI_PAGE mc) (\<lambda>_ mc.
      try_st (space_map sp STACK_VA stk STACK_SIZE mc) (\<lambda>_ mc. (Ok (f boot), mc)))))) = (res, mc')"
  shows "evolves {} (mc, S) (mc', S) \<and> res \<noteq> Panic \<and> (\<forall>c. res = Ok c \<longrightarrow> (\<exists>boot stk. c = f boot \<and>
    data_pages mc' S boot 1 \<and> data_pages mc' S stk 8 \<and>
    page_at boot \<inter> owned_mem (mc_bump mc) = {} \<and> span stk (8 * 4096) \<inter> owned_mem (mc_bump mc) = {} \<and>
    page_at boot \<inter> span stk (8 * 4096) = {} \<and> mem_bytes (mc_mem mc') boot 4096 = boot_block cap rights court \<and>
    mc_translate mc' (as_pml4_phys sp) BOOT_VA = Some boot \<and> mc_translate mc' (as_pml4_phys sp) RING_VA = Some ring \<and>
    (\<forall>i<8. mc_translate mc' (as_pml4_phys sp) (STACK_VA + of_nat (i * 4096)) = Some (stk + of_nat (i * 4096)))))"
  using res
proof (cases rule: try_st_cases)
  case (err e)
  with alloc_filled_result [OF ok _ _ err(1)] evolves_refl [OF ok] show ?thesis by (simp add: boot_info_def)
next
  case panic
  with alloc_filled_result [OF ok _ _ panic(1)] show ?thesis by (simp add: boot_info_def)
next
  case boot: (ok boot mc1)
  note b = alloc_filled_result [OF ok _ _ boot(1), unfolded boot_info_def, simplified, folded boot_info_def]
  then have e1: "evolves {} (mc, S) (mc1, S)" by simp
  have stack: "unat STACK_PAGES = 8" by (simp add: STACK_PAGES_def)
  from boot(2) show ?thesis
  proof (cases rule: try_st_cases)
    case (err e)
    with alloc_filled_result [OF evolvesD(1) [OF e1] _ _ err(1)] e1 show ?thesis by (simp add: stack)
  next
    case panic
    with alloc_filled_result [OF evolvesD(1) [OF e1] _ _ panic(1)] show ?thesis by (simp add: stack)
  next
    case (ok stk mc2)
    note st = alloc_filled_result [OF evolvesD(1) [OF e1] _ _ ok(1), unfolded stack, simplified]
    then have e12: "evolves {} (mc1, S) (mc2, S)" by simp
    note e2 = evolves_trans [OF e1 e12]
    have bp: "data_pages mc2 S boot 1" using b data_pages_evolves [OF _ e12] by simp
    have sp: "data_pages mc2 S stk 8" using st by simp
    have kern: "as_pml4_phys sp \<noteq> mc_kernel_pml4 mc2" using r(2) evolves_regs(1) [OF e2] by simp
    note m = spawn_maps [OF evolvesD(1) [OF e2] r(1) kern bp data_pages_evolves [OF ring e2] sp ok(2)]
    note e3 = evolves_trans [OF e2 conjunct1 [OF m]]
    note e13 = evolves_trans [OF e12 conjunct1 [OF m]]
    have "mem_bytes (mc_mem mc') boot 4096 = mem_bytes (mc_mem mc1) boot 4096"
      using mem_bytes_evolves [OF _ e13, of boot 1] b by simp
    then have block: "mem_bytes (mc_mem mc') boot 4096 = boot_block cap rights court" using b by (simp add: boot_block_def boot_info_def)
    have own: "owned_mem (mc_bump mc) \<subseteq> owned_mem (mc_bump mc1)" using same_pool_owned [OF evolvesD(4) [OF e1]] .
    have "span stk (8 * 4096) \<inter> span boot (1 * 4096) = {}" by (rule owned_disjoint_data [of _ _ mc1 S]) (use st b in simp_all)
    then have "page_at boot \<inter> span stk (8 * 4096) = {}" by auto
    moreover have "span stk (8 * 4096) \<inter> owned_mem (mc_bump mc) = {}" using st own by auto
    moreover have "data_pages mc' S boot 1" "data_pages mc' S stk 8" using data_pages_evolves [OF _ conjunct1 [OF m]] bp sp by blast+
    ultimately show ?thesis using e3 m b block by blast
  qed
qed

lemma spawn_result:
  assumes ok: "spaces_ok mc S" and ring: "data_pages mc S ring 1"
    and low: "\<forall>ph\<in>set (image_segments img). segment_low ph"
    and res: "spawn name img cap rights court ring mc = (res, mc')"
  shows "res \<noteq> Panic \<and> (\<forall>e. res = Err e \<longrightarrow> (\<exists>S'. evolves {} (mc, S) (mc', S'))) \<and>
    (\<forall>ct. res = Ok ct \<longrightarrow> (\<exists>stk. spawned mc S img (boot_block cap rights court) ring ct stk mc'))"
  using res unfolding spawn_def
proof (cases rule: try_st_cases)
  case (err e)
  with clone_kernel_evolves [OF ok err(1)] show ?thesis by auto
next
  case panic
  with clone_kernel_evolves [OF ok panic(1)] show ?thesis by simp
next
  case (ok sp mc1)
  let ?r = "as_pml4_phys sp" let ?S = "insert (as_pml4_phys sp) S"
  note c = clone_kernel_evolves [OF assms(1) ok(1), simplified]
  then have e1: "evolves {} (mc, S) (mc1, ?S)" and new: "?r \<notin> S" by simp_all
  have kern: "?r \<noteq> mc_kernel_pml4 mcx" if "evolves {} (mc, S) (mcx, S')" for mcx S'
    using new spaces_okD(1) [OF assms(1)] evolves_regs(1) [OF that] by auto
  have rS: "?r \<in> ?S" by simp
  from ok(2) show ?thesis
  proof (cases rule: try_st_cases)
    case (err e)
    with load_result [OF evolvesD(1) [OF e1] rS kern [OF e1] low err(1)] evolves_trans [OF e1] show ?thesis by auto
  next
    case panic
    with load_result [OF evolvesD(1) [OF e1] rS kern [OF e1] low panic(1)] show ?thesis by simp
  next
    case (ok entry mc2)
    note l = load_result [OF evolvesD(1) [OF e1] rS kern [OF e1] low ok(1)]
    note e2 = evolves_trans [OF e1 conjunct1 [OF l]]
    have kS: "data_pages mc2 ?S ring 1" using data_pages_evolves [OF ring e2] .
    note sp = spawn_pages [OF evolvesD(1) [OF e2] rS kern [OF e2] kS ok(2)]
    note e3 = evolves_trans [OF e2 conjunct1 [OF sp]]
    show ?thesis
    proof (cases res)
      case (Ok ct)
      then obtain boot stk where ct: "ct = \<lparr>ct_name = name, ct_cr3 = as_cr3 sp, ct_space = sp,
          ct_stack_top = STACK_VA + STACK_SIZE, ct_boot = boot, ct_entry = entry\<rparr>"
        and pages: "data_pages mc' ?S boot 1" "data_pages mc' ?S stk 8"
        and fresh: "page_at boot \<inter> owned_mem (mc_bump mc2) = {}" "span stk (8 * 4096) \<inter> owned_mem (mc_bump mc2) = {}"
          "page_at boot \<inter> span stk (8 * 4096) = {}"
        and page: "mem_bytes (mc_mem mc') boot 4096 = boot_block cap rights court"
        and tr: "mc_translate mc' ?r BOOT_VA = Some boot" "mc_translate mc' ?r RING_VA = Some ring"
          "\<forall>i<8. mc_translate mc' ?r (STACK_VA + of_nat (i * 4096)) = Some (stk + of_nat (i * 4096))"
        using sp by blast
      have data: "data_mem mc S \<subseteq> owned_mem (mc_bump mc2)"
        using data_mem_owned [of _ mc S] same_pool_owned [OF evolvesD(4) [OF e2]] by blast
      have segs: "\<forall>ph\<in>set (image_segments img). segment_loaded mc' ?S ?r img ph"
        using l segment_loaded_evolves [OF _ conjunct1 [OF sp] rS] by blast
      obtain ph where ph: "ph \<in> set (image_segments img)" "in_segment entry ph" using l by blast
      note entry = in_segment_mapped [OF bspec [OF segs ph(1)] ph(2)]
      have disj: "page_at boot \<inter> page_at ring = {}" "page_at ring \<inter> span stk (8 * 4096) = {}"
        using owned_disjoint_data [OF fresh(1) kS] owned_disjoint_data [OF fresh(2) kS] by auto
      have cr3: "mc_cr4 mc' AND CR4_LA57 = 0 \<longrightarrow> as_cr3 sp = ?r" using c evolves_regs(3) [OF e3] by simp
      have "courtlet_ok mc' ?S ct stk ring"
        using pages data_pages_evolves [OF kS conjunct1 [OF sp]] entry tr fresh(3) disj cr3
        unfolding courtlet_ok_def Let_def ct by auto
      moreover have "page_at boot \<inter> data_mem mc S = {}" "span stk (8 * 4096) \<inter> data_mem mc S = {}" using fresh data by blast+
      ultimately have "spawned mc S img (boot_block cap rights court) ring ct stk mc'"
        using new e3 page segs ph unfolding spawned_def Let_def ct by auto
      with Ok show ?thesis by blast
    qed (use sp e3 in auto)
  qed
qed

section \<open>Entering\<close>

lemma write_stack_result:
  assumes "\<forall>i<length pages. tr (va + of_nat (i * 4096)) = Some (q + of_nat (i * 4096))"
    and "\<forall>i<length pages. page_at (q + of_nat (i * 4096)) \<subseteq> X"
  shows "\<exists>m'. write_stack tr va pages m = Some m' \<and> (\<forall>x. x \<notin> X \<longrightarrow> m' x = m x)"
  using assms
proof (induction pages arbitrary: va q m)
  case (Cons page pages)
  have next_page: "(a :: u64) + ABI_PAGE + of_nat (i * 4096) = a + of_nat (Suc i * 4096)" for a i by (simp add: ABI_PAGE_def)
  from Cons.prems have tl: "\<forall>i<length pages. tr (va + ABI_PAGE + of_nat (i * 4096)) = Some (q + ABI_PAGE + of_nat (i * 4096))"
    "\<forall>i<length pages. page_at (q + ABI_PAGE + of_nat (i * 4096)) \<subseteq> X" unfolding next_page by (metis Suc_less_eq length_Cons)+
  have hd: "tr va = Some q" "page_at q \<subseteq> X" using Cons.prems [rule_format, of 0] by simp_all
  from Cons.IH [OF tl, of "mem_write q (take 4096 page) m"] obtain m'
    where m': "write_stack tr (va + ABI_PAGE) pages (mem_write q (take 4096 page) m) = Some m'"
      "\<forall>x. x \<notin> X \<longrightarrow> m' x = mem_write q (take 4096 page) m x" by blast
  have "mem_write q (take 4096 page) m x = m x" if "x \<notin> X" for x
    using that hd(2) span_sub [of "length (take 4096 page)" 4096 q] by (intro mem_write_out) auto
  with m' hd(1) show ?case by simp
qed simp

lemma enter_result:
  assumes ok: "spaces_ok mc S" and ct: "courtlet_ok mc S ct stk ring"
    and regs: "mc_cr4 mc AND CR4_LA57 = 0" "mc_cr3 mc AND PHYS_MASK = mc_cr3 mc"
    and run: "start (mem_bytes (mc_mem mc) (ct_boot ct) 4096) (mem_bytes (mc_mem mc) ring 4096) = Some (st, page)"
    and len: "length page = 4096" "length stack \<le> 8"
  shows "\<exists>mc'. enter start stack (ct_cr3 ct) (ct_stack_top ct) (ct_entry ct) mc = (Ok st, mc') \<and>
    evolves (span stk (8 * 4096) \<union> page_at ring) (mc, S) (mc', S) \<and> mem_bytes (mc_mem mc') ring 4096 = page"
proof -
  let ?r = "as_pml4_phys (ct_space ct)" let ?W = "span stk (8 * 4096) \<union> page_at ring"
  note d = courtlet_okD [OF ct]
  note t = tree_tables [OF spaces_okD(2) [OF ok d(1)] root_table(1)]
  have "?r \<in> owned_mem (mc_bump mc)" using t span_offset [of 0 4096 ?r] by auto
  then have "unat ?r < 2 ^ 52" using treeD(1,2) [OF spaces_okD(2) [OF ok d(1)]]
    by (auto simp: owned_mem_def bump_owned_def bump_ok_def word_le_nat_alt)
  with t d(10) [OF regs(1)] have cr3: "ct_cr3 ct AND PHYS_MASK = ?r" by (simp add: frame_id)
  have tr: "mmu (mc_cr4 mc) (mc_mem mc) ?r = mc_translate mc ?r" using regs(1) by (simp add: mmu_def fun_eq_iff)
  have pages: "page_at (stk + of_nat (i * 4096)) \<subseteq> span stk (8 * 4096)" if "i < 8" for i
  proof
    fix x
    assume "x \<in> page_at (stk + of_nat (i * 4096))"
    then obtain j where "j < 4096" "x = stk + of_nat (i * 4096) + of_nat j" by (auto simp: span_iff_offset)
    then have "x = stk + of_nat (i * 4096 + j)" "i * 4096 + j < 8 * 4096" using that by simp_all
    with span_offset [of "i * 4096 + j" "8 * 4096" stk] show "x \<in> span stk (8 * 4096)" by simp
  qed
  have st: "\<forall>i<length stack. mc_translate mc ?r (STACK_VA + of_nat (i * 4096)) = Some (stk + of_nat (i * 4096))"
    "\<forall>i<length stack. page_at (stk + of_nat (i * 4096)) \<subseteq> span stk (8 * 4096)" using d(8) pages len(2) by auto
  from write_stack_result [OF st, of "mc_mem mc"] obtain m1 where
    m1: "write_stack (mc_translate mc ?r) STACK_VA stack (mc_mem mc) = Some m1"
    and out: "\<And>x. x \<notin> span stk (8 * 4096) \<Longrightarrow> m1 x = mc_mem mc x" by blast
  have "mem_bytes m1 (ct_boot ct) 4096 = mem_bytes (mc_mem mc) (ct_boot ct) 4096"
    "mem_bytes m1 ring 4096 = mem_bytes (mc_mem mc) ring 4096"
    using d(12,13) out by (auto intro!: mem_bytes_cong)
  with run have run1: "start (mem_bytes m1 (ct_boot ct) 4096) (mem_bytes m1 ring 4096) = Some (st, page)" by simp
  let ?m = "mem_write ring page m1" and ?mc = "mc\<lparr>mc_mem := mem_write ring page m1\<rparr>"
  obtain pa where pa: "mc_translate mc ?r (ct_entry ct) = Some pa" using d(5) by blast
  have top: "ct_stack_top ct - STACK_SIZE = STACK_VA" using d(9) by simp
  have "run_image start stack (mc_translate mc ?r) (ct_stack_top ct) (ct_entry ct) (mc_mem mc) = Some (st, ?m)"
    unfolding run_image_def using pa m1 d(6,7) run1 by (simp add: top)
  then have enter: "enter start stack (ct_cr3 ct) (ct_stack_top ct) (ct_entry ct) mc = (Ok st, ?mc)"
    using regs(2) by (simp add: enter_def cr3 tr)
  have "?W \<subseteq> data_mem mc S" using d(3,4) by (auto simp: data_pages_def)
  moreover have "\<forall>x. x \<notin> ?W \<longrightarrow> ?m x = mc_mem mc x" using out len(1) by (auto simp: mem_write_def span_def)
  ultimately have "evolves ?W (mc, S) (?mc, S)" by (intro write_data(1) [OF ok])
  moreover have "mem_bytes ?m ring 4096 = page" using mem_bytes_write [of page ring m1] len(1) by simp
  ultimately show ?thesis using enter by auto
qed

end
