(* ===== verification/Courtlet_Demo.thy ===== *)
theory Courtlet_Demo
  imports Courtlet_Memory
begin

text \<open>
  The demo of \<^verbatim>\<open>courtlet.rs\<close> from end to end: once both Courtlets are spawned the three runs
  report what \<^verbatim>\<open>run_demo\<close> expects, through object table, page tables, images and shared ring.
\<close>

section \<open>What the three runs report\<close>

lemma mem_bytes_store64:
  assumes "off + 8 \<le> n" and "n \<le> 2 ^ 52"
  shows "mem_bytes (mem_store64 (p + of_nat off) v m) p n = poke off (le_bytes 8 (unat v)) (mem_bytes m p n)"
proof (rule nth_equalityI)
  show "length (mem_bytes (mem_store64 (p + of_nat off) v m) p n) = length (poke off (le_bytes 8 (unat v)) (mem_bytes m p n))"
    using assms by simp
  fix i
  assume "i < length (mem_bytes (mem_store64 (p + of_nat off) v m) p n)"
  then have i: "i < n" by simp
  have diff: "unat (p + of_nat i - (p + of_nat off)) = i - off" if "off \<le> i"
  proof -
    have "p + of_nat i - (p + of_nat off) = of_nat (i - off)" using that by (simp add: of_nat_diff)
    then show ?thesis using i assms(2) by (simp add: unat_of_nat_small del: of_nat_diff)
  qed
  have below: "\<not> unat (p + of_nat i - (p + of_nat off)) < 8" if "i < off"
  proof -
    let ?d = "p + of_nat i - (p + of_nat off)"
    have "unat (of_nat off + ?d) = off + unat ?d" if "unat ?d < 8"
      using that assms by (subst unat_add_no_overflow) (simp_all add: unat_of_nat_small)
    moreover have "of_nat off + ?d = of_nat i" by simp
    moreover have "unat (of_nat i :: u64) = i" using i assms(2) by (simp add: unat_of_nat_small)
    ultimately show ?thesis using that by fastforce
  qed
  show "mem_bytes (mem_store64 (p + of_nat off) v m) p n ! i = poke off (le_bytes 8 (unat v)) (mem_bytes m p n) ! i"
    using i assms diff below
    by (cases "i < off"; cases "i < off + 8") (auto simp: mem_bytes_def mem_store64_def mem_write_def poke_def nth_append)
qed

text \<open>The ring after each run, and the status.\<close>

lemma first_send: "app_start (boot_block cap RIGHT_SEND court) ring_block = Some (ST_SENT, img_put ring_block)"
  and first_recv: "net_start (boot_block cap RIGHT_RECV court) (img_put ring_block) =
    Some (ST_RECV OR push_bit 8 3, img_take (img_put ring_block))"
proof -
  have inv: "img_inv ring_block" and pend: "img_pending ring_block = 0"
    using ring_block_inv ring_block_empty length_img_content [of ring_block] by simp_all
  then have r: "ring_page ring_block" "img_revoked ring_block = 0" by (simp_all add: img_inv_def)
  show "app_start (boot_block cap RIGHT_SEND court) ring_block = Some (ST_SENT, img_put ring_block)"
    using app_start_eq [OF boot_block_page [of RIGHT_SEND cap court] r(1)] r(2) pend by (simp add: RIGHT_SEND_def img_pending_def)
  have put: "img_inv (img_put ring_block)" "img_content (img_put ring_block) = [3]"
    using img_put_content [OF inv] pend ring_block_empty by simp_all
  then have p: "ring_page (img_put ring_block)" "img_revoked (img_put ring_block) = 0" by (simp_all add: img_inv_def)
  have "img_cons (img_put ring_block) \<noteq> img_prod (img_put ring_block)"
    using put(2) by (auto simp: img_content_def img_pending_def)
  with net_start_eq [OF boot_block_page [of RIGHT_RECV cap court] p(1)] p(2) img_take_content(2) [OF put]
  show "net_start (boot_block cap RIGHT_RECV court) (img_put ring_block) =
      Some (ST_RECV OR push_bit 8 3, img_take (img_put ring_block))" by (simp add: RIGHT_RECV_def)
qed

lemma after_revoke:
  assumes "boot_page 0 b" and "ring_page r"
  shows "app_start b r = Some (ST_DENIED, r)"
  using app_start_eq [OF assms] by simp

lemma boot_block_revoked: "boot_page 0 (poke B_RIGHTS (le_bytes 8 0) (boot_block cap rights court))"
proof -
  let ?b = "boot_block cap rights court"
  have b: "length ?b = 4096" "load_u64 B_MAGIC ?b = Some BOOT_MAGIC" using boot_block_page [of rights cap court] by (simp_all add: boot_page_def)
  have w: "write_at B_RIGHTS (le_bytes 8 (unat (0 :: u64))) ?b = Some (poke B_RIGHTS (le_bytes 8 0) ?b)"
    using b by (simp add: write_at_poke abi_layout)
  have "load_u64 B_RIGHTS (poke B_RIGHTS (le_bytes 8 0) ?b) = Some 0"
    using load_store_same(3) [of B_RIGHTS 0 ?b] w by (simp add: store_u64_def)
  with load_write_disjoint(3) [OF w, of B_MAGIC] b show ?thesis by (simp add: boot_page_def abi_layout)
qed

section \<open>The runs\<close>

definition demo_ready :: "Machine \<Rightarrow> u64 set \<Rightarrow> u64 \<Rightarrow> Courtlet \<Rightarrow> Courtlet \<Rightarrow> u64 \<Rightarrow> u64 \<Rightarrow> bool" where
  "demo_ready mc S ring app net sa sn \<longleftrightarrow> courtlet_ok mc S app sa ring \<and> courtlet_ok mc S net sn ring \<and>
     (\<exists>cap court. mem_bytes (mc_mem mc) (ct_boot app) 4096 = boot_block cap RIGHT_SEND court) \<and>
     (\<exists>cap court. mem_bytes (mc_mem mc) (ct_boot net) 4096 = boot_block cap RIGHT_RECV court) \<and>
     mem_bytes (mc_mem mc) ring 4096 = ring_block \<and>
     page_at (ct_boot net) \<inter> span sa (8 * 4096) = {} \<and> page_at (ct_boot app) \<inter> span sn (8 * 4096) = {}"

lemma revoke_pages_result:
  assumes ok: "spaces_ok mc S" and ct: "courtlet_ok mc S ct stk ring"
    and boot: "mem_bytes (mc_mem mc) (ct_boot ct) 4096 = boot_block cap rights court"
    and ring: "ring_page (mem_bytes (mc_mem mc) ring 4096)"
  defines "mc' \<equiv> revoke_pages (ct_boot ct) ring mc"
  shows "evolves (page_at (ct_boot ct) \<union> page_at ring) (mc, S) (mc', S)"
    and "boot_page 0 (mem_bytes (mc_mem mc') (ct_boot ct) 4096)"
    and "ring_page (mem_bytes (mc_mem mc') ring 4096)" and "img_revoked (mem_bytes (mc_mem mc') ring 4096) = 1"
proof -
  note d = courtlet_okD [OF ct]
  let ?b = "ct_boot ct" let ?m1 = "mem_store64 (?b + of_nat B_RIGHTS) 0 (mc_mem mc)"
  have mc': "mc' = mc\<lparr>mc_mem := mem_store64 (ring + of_nat R_REVOKED) 1 ?m1\<rparr>" by (simp add: mc'_def revoke_pages_def)
  have in_page: "span (p + of_nat off) 8 \<subseteq> page_at p" if "off + 8 \<le> 4096" for p off
  proof
    fix x
    assume "x \<in> span (p + of_nat off) 8"
    then obtain j where "j < 8" "x = p + of_nat (off + j)" by (auto simp: span_iff_offset add.assoc)
    with that span_offset [of "off + j" 4096 p] show "x \<in> page_at p" by simp
  qed
  have sub: "span (?b + of_nat B_RIGHTS) 8 \<subseteq> page_at ?b" "span (ring + of_nat R_REVOKED) 8 \<subseteq> page_at ring"
    by (rule in_page, simp add: abi_layout)+
  have out1: "?m1 x = mc_mem mc x" if "x \<notin> page_at ?b" for x using that sub(1) by (intro mem_store64_out) blast
  have out2: "mc_mem mc' x = ?m1 x" if "x \<notin> page_at ring" for x
    using that sub(2) by (simp add: mc') (intro mem_store64_out, blast)
  show "evolves (page_at ?b \<union> page_at ring) (mc, S) (mc', S)"
    unfolding mc' using d(2,4) out1 out2 by (intro write_data(1) [OF ok]) (auto simp: data_pages_def mc')
  have "mem_bytes (mc_mem mc') ?b 4096 = mem_bytes ?m1 ?b 4096" using out2 d(11) by (intro mem_bytes_cong) auto
  also have "\<dots> = poke B_RIGHTS (le_bytes 8 0) (boot_block cap rights court)"
    using mem_bytes_store64 [of B_RIGHTS 4096 ?b 0] boot by (simp add: abi_layout)
  finally show "boot_page 0 (mem_bytes (mc_mem mc') ?b 4096)" by (simp add: boot_block_revoked)
  have "mem_bytes ?m1 ring 4096 = mem_bytes (mc_mem mc) ring 4096" using out1 d(11) by (intro mem_bytes_cong) auto
  then have "mem_bytes (mc_mem mc') ring 4096 = poke R_REVOKED (le_bytes 8 (unat (1 :: u64))) (mem_bytes (mc_mem mc) ring 4096)"
    using mem_bytes_store64 [of R_REVOKED 4096 ring 1 ?m1] by (simp add: mc' abi_layout)
  with ring_page_poke [OF ring, of R_REVOKED "le_bytes 8 1"] counter_poke_same [of R_REVOKED "mem_bytes (mc_mem mc) ring 4096" 1]
  show "ring_page (mem_bytes (mc_mem mc') ring 4096)" "img_revoked (mem_bytes (mc_mem mc') ring 4096) = 1"
    by (simp_all add: abi_layout)
qed

lemma revoke_known_cap:
  assumes "root_cap_rights root cap = Some rights"
  shows "on_root (root_revoke_cap cap) (mc, root) = (Ok (), (mc, snd (root_revoke_cap cap root)))"
    and "root_cap_rights (snd (root_revoke_cap cap root)) cap = Some 0"
proof -
  from assms obtain c where c: "find_cap cap (cap_slots root) = Some c" by (auto simp: root_cap_rights_def)
  then obtain slots where s: "clear_rights cap (cap_slots root) = Some slots"
    using clear_rights_None_iff [of cap "cap_slots root"] by auto
  then show "on_root (root_revoke_cap cap) (mc, root) = (Ok (), (mc, snd (root_revoke_cap cap root)))"
    by (simp add: on_root_def root_revoke_cap_def)
  from s c find_cap_clear_rights [OF s, of cap] show "root_cap_rights (snd (root_revoke_cap cap root)) cap = Some 0"
    by (simp add: root_revoke_cap_def root_cap_rights_def)
qed

lemma boot_page_kept:
  assumes "courtlet_ok mc S ct stk ring" and "evolves (span s (8 * 4096) \<union> page_at ring) (mc, S) (mc', S)"
    and "page_at (ct_boot ct) \<inter> span s (8 * 4096) = {}"
  shows "mem_bytes (mc_mem mc') (ct_boot ct) 4096 = mem_bytes (mc_mem mc) (ct_boot ct) 4096"
proof -
  have "span (ct_boot ct) (1 * 4096) \<inter> (span s (8 * 4096) \<union> page_at ring) = {}"
    using assms(3) courtlet_okD(11) [OF assms(1)] by auto
  from mem_bytes_evolves [OF courtlet_okD(2) [OF assms(1)] assms(2) this] show ?thesis by simp
qed

text \<open>The first two runs: the packet is sent and received.\<close>

lemma demo_packet:
  assumes ok: "spaces_ok mc S" and regs: "mc_cr4 mc AND CR4_LA57 = 0" "mc_cr3 mc AND PHYS_MASK = mc_cr3 mc"
    and ready: "demo_ready mc S ring app net sa sn" and stacks: "length s1 \<le> 8" "length s2 \<le> 8"
  obtains mc1 mc2 cap court
  where "enter app_start s1 (ct_cr3 app) (ct_stack_top app) (ct_entry app) mc = (Ok ST_SENT, mc1)"
    "enter net_start s2 (ct_cr3 net) (ct_stack_top net) (ct_entry net) mc1 = (Ok (ST_RECV OR push_bit 8 3), mc2)"
    "evolves (span sa (8 * 4096) \<union> span sn (8 * 4096) \<union> page_at ring) (mc, S) (mc2, S)"
    "mem_bytes (mc_mem mc2) (ct_boot app) 4096 = boot_block cap RIGHT_SEND court"
    "ring_page (mem_bytes (mc_mem mc2) ring 4096)"
proof -
  let ?W = "span sa (8 * 4096) \<union> span sn (8 * 4096) \<union> page_at ring"
  from ready obtain ca xa cn xn where app: "courtlet_ok mc S app sa ring" and net: "courtlet_ok mc S net sn ring"
    and boot_a: "mem_bytes (mc_mem mc) (ct_boot app) 4096 = boot_block ca RIGHT_SEND xa"
    and boot_n: "mem_bytes (mc_mem mc) (ct_boot net) 4096 = boot_block cn RIGHT_RECV xn"
    and ring: "mem_bytes (mc_mem mc) ring 4096 = ring_block"
    and dis: "page_at (ct_boot net) \<inter> span sa (8 * 4096) = {}" "page_at (ct_boot app) \<inter> span sn (8 * 4096) = {}"
    unfolding demo_ready_def by blast
  have "ring_page ring_block" using ring_block_inv by (simp add: img_inv_def)
  then have put: "ring_page (img_put ring_block)" by (rule img_put_facts(1))
  then have take: "ring_page (img_take (img_put ring_block))" by (rule img_take_facts(1))
  have len: "length (img_put ring_block) = 4096" "length (img_take (img_put ring_block)) = 4096"
    using put take by (simp_all add: ring_page_def)
  have "app_start (mem_bytes (mc_mem mc) (ct_boot app) 4096) (mem_bytes (mc_mem mc) ring 4096) =
      Some (ST_SENT, img_put ring_block)" unfolding boot_a ring by (rule first_send)
  from enter_result [where start = app_start, OF ok app regs this len(1) stacks(1)] obtain mc1
    where run1: "enter app_start s1 (ct_cr3 app) (ct_stack_top app) (ct_entry app) mc = (Ok ST_SENT, mc1)"
      and e1: "evolves (span sa (8 * 4096) \<union> page_at ring) (mc, S) (mc1, S)"
      and ring1: "mem_bytes (mc_mem mc1) ring 4096 = img_put ring_block" by blast
  note regs1 = regs [folded evolves_regs(2,3) [OF e1]]
  note app1 = courtlet_ok_evolves [OF app e1] and net1 = courtlet_ok_evolves [OF net e1]
  have boot_n1: "mem_bytes (mc_mem mc1) (ct_boot net) 4096 = boot_block cn RIGHT_RECV xn"
    using boot_page_kept [OF net e1 dis(1)] boot_n by simp
  have "net_start (mem_bytes (mc_mem mc1) (ct_boot net) 4096) (mem_bytes (mc_mem mc1) ring 4096) =
      Some (ST_RECV OR push_bit 8 3, img_take (img_put ring_block))" unfolding boot_n1 ring1 by (rule first_recv)
  from enter_result [where start = net_start, OF evolvesD(1) [OF e1] net1 regs1 this len(2) stacks(2)] obtain mc2
    where run2: "enter net_start s2 (ct_cr3 net) (ct_stack_top net) (ct_entry net) mc1 = (Ok (ST_RECV OR push_bit 8 3), mc2)"
      and e2: "evolves (span sn (8 * 4096) \<union> page_at ring) (mc1, S) (mc2, S)"
      and ring2: "mem_bytes (mc_mem mc2) ring 4096 = img_take (img_put ring_block)" by blast
  have "evolves ?W (mc, S) (mc1, S)" using e1 by (rule evolves_mono) blast
  moreover have "evolves ?W (mc1, S) (mc2, S)" using e2 by (rule evolves_mono) blast
  ultimately have e12: "evolves ?W (mc, S) (mc2, S)" by (rule evolves_trans)
  have "mem_bytes (mc_mem mc2) (ct_boot app) 4096 = boot_block ca RIGHT_SEND xa"
    using boot_page_kept [OF app e1 courtlet_okD(12) [OF app]] boot_page_kept [OF app1 e2 dis(2)] boot_a by simp
  from that [OF run1 run2 e12 this] ring2 take show thesis by simp
qed

lemma demo_run_ok:
  assumes ok: "spaces_ok mc S" and regs: "mc_cr4 mc AND CR4_LA57 = 0" "mc_cr3 mc AND PHYS_MASK = mc_cr3 mc"
    and ready: "demo_ready mc S ring app net sa sn" and cap: "root_cap_rights root app_cap = Some rights"
    and entry: "ct_entry app < 0x0000800000000000" "ct_entry net < 0x0000800000000000"
    and stacks: "length s1 \<le> 8" "length s2 \<le> 8" "length s3 \<le> 8"
  shows "\<exists>mc'. demo_run s1 s2 s3 (app_cap, ring, app, net) (mc, root) = (Ok (), (mc', snd (root_revoke_cap app_cap root))) \<and>
    evolves (span sa (8 * 4096) \<union> span sn (8 * 4096) \<union> page_at ring \<union> page_at (ct_boot app)) (mc, S) (mc', S) \<and>
    img_revoked (mem_bytes (mc_mem mc') ring 4096) = 1"
proof -
  let ?W = "span sa (8 * 4096) \<union> span sn (8 * 4096) \<union> page_at ring \<union> page_at (ct_boot app)"
  have app: "courtlet_ok mc S app sa ring" using ready by (simp add: demo_ready_def)
  obtain mc1 mc2 ca xa where run1: "enter app_start s1 (ct_cr3 app) (ct_stack_top app) (ct_entry app) mc = (Ok ST_SENT, mc1)"
    and run2: "enter net_start s2 (ct_cr3 net) (ct_stack_top net) (ct_entry net) mc1 = (Ok (ST_RECV OR push_bit 8 3), mc2)"
    and e: "evolves (span sa (8 * 4096) \<union> span sn (8 * 4096) \<union> page_at ring) (mc, S) (mc2, S)"
    and boot2: "mem_bytes (mc_mem mc2) (ct_boot app) 4096 = boot_block ca RIGHT_SEND xa"
    and ring2: "ring_page (mem_bytes (mc_mem mc2) ring 4096)"
    by (rule demo_packet [OF ok regs ready stacks(1,2)])
  have e2: "evolves ?W (mc, S) (mc2, S)" using e by (rule evolves_mono) blast
  define mc3 where "mc3 = revoke_pages (ct_boot app) ring mc2"
  note rev = revoke_pages_result [OF evolvesD(1) [OF e2] courtlet_ok_evolves [OF app e2] boot2 ring2, folded mc3_def]
  have "evolves ?W (mc2, S) (mc3, S)" using rev(1) by (rule evolves_mono) blast
  with e2 have e3: "evolves ?W (mc, S) (mc3, S)" by (rule evolves_trans)
  note regs3 = regs [folded evolves_regs(2,3) [OF e3]]
  have len3: "length (mem_bytes (mc_mem mc3) ring 4096) = 4096" by simp
  from enter_result [where start = app_start, OF evolvesD(1) [OF e3] courtlet_ok_evolves [OF app e3] regs3 after_revoke [OF rev(2,3)] len3 stacks(3)]
  obtain mc4 where run3: "enter app_start s3 (ct_cr3 app) (ct_stack_top app) (ct_entry app) mc3 = (Ok ST_DENIED, mc4)"
      and e34: "evolves (span sa (8 * 4096) \<union> page_at ring) (mc3, S) (mc4, S)"
      and ring4: "mem_bytes (mc_mem mc4) ring 4096 = mem_bytes (mc_mem mc3) ring 4096" by blast
  have "evolves ?W (mc3, S) (mc4, S)" using e34 by (rule evolves_mono) blast
  with e3 have e4: "evolves ?W (mc, S) (mc4, S)" by (rule evolves_trans)
  have status: "(ST_RECV OR 0x300) AND 0xFF = ST_RECV" by (simp add: ST_RECV_def)
  have "demo_run s1 s2 s3 (app_cap, ring, app, net) (mc, root) = (Ok (), (mc4, snd (root_revoke_cap app_cap root)))"
    using entry by (simp add: demo_run_def on_machine_def Let_def run1 run2 status revoke_known_cap [OF cap]
        run3 [unfolded mc3_def] not_le [symmetric] del: not_le)
  with e4 ring4 rev(4) show ?thesis by simp
qed

section \<open>The setup\<close>

lemma mint_cap_grants:
  assumes "root_inv r" and "mint_cap object rights r = (Ok cid, r')"
  shows "root_inv r' \<and> (\<exists>c. find_cap cid (cap_slots r') = Some c)"
proof -
  have "root_inv r'" using mint_good [OF assms(1), of object rights] assms(2) by (simp add: mint_cap_def root_good_def)
  with assms(1) show ?thesis
    by (cases rule: mint_cases [of r object rights]) (use assms(2) in \<open>auto simp: mint_cap_def\<close>)
qed

lemma on_root_Ok: "on_root f (mc, root) = (Ok a, k') \<longleftrightarrow> (\<exists>root'. f root = (Ok a, root') \<and> k' = (mc, root'))"
  by (cases "f root"; cases "fst (f root)") (auto simp: on_root_def)

lemma on_machine_eq: "on_machine f (mc, root) = (res, k') \<longleftrightarrow> (\<exists>mc'. f mc = (res, mc') \<and> k' = (mc', root))"
  by (cases "f mc") (auto simp: on_machine_def)

text \<open>The object table part.\<close>

lemma demo_objects:
  assumes inv: "root_inv root" and res: "demo_setup ai ni (mc, root) = (Ok (cap, ring, app, net), (mc', root'))"
  obtains net_cap app_court net_court mc1 mc2 where "\<exists>rights. root_cap_rights root' cap = Some rights"
    "alloc_filled 1 ''ring page'' ring_header mc = (Ok ring, mc1)"
    "spawn ''app'' ai cap OBJ_RIGHT_SEND app_court ring mc1 = (Ok app, mc2)"
    "spawn ''net'' ni net_cap OBJ_RIGHT_RECV net_court ring mc2 = (Ok net, mc')"
proof -
  from res obtain app_court app_obj net_court net_obj net_cap r1 r2 r3 mc1 mc2
    where r1: "spawn_court ''app'' ''/court/app'' root = (Ok (app_court, app_obj), r1)"
      and r2: "spawn_court ''net'' ''/court/net'' r1 = (Ok (net_court, net_obj), r2)"
      and r3: "mint_cap app_obj OBJ_RIGHT_SEND r2 = (Ok cap, r3)"
      and r4: "mint_cap net_obj OBJ_RIGHT_RECV r3 = (Ok net_cap, root')"
      and ring: "alloc_filled 1 ''ring page'' ring_header mc = (Ok ring, mc1)"
      and app: "spawn ''app'' ai cap OBJ_RIGHT_SEND app_court ring mc1 = (Ok app, mc2)"
      and net: "spawn ''net'' ni net_cap OBJ_RIGHT_RECV net_court ring mc2 = (Ok net, mc')"
    unfolding demo_setup_def by (auto simp: try_st_Ok_iff on_root_Ok on_machine_eq)
  have "root_inv r1" using spawn_court_good [OF inv, of "''app''" "''/court/app''"] r1 by (simp add: root_good_def)
  then have "root_inv r2" using spawn_court_good [of r1 "''net''" "''/court/net''"] r2 by (simp add: root_good_def)
  from mint_cap_grants [OF this r3] obtain c where r3': "root_inv r3" and c: "find_cap cap (cap_slots r3) = Some c" by blast
  have "root_grows r3 root'" using mint_good [OF r3', of net_obj OBJ_RIGHT_RECV] r4 by (simp add: mint_cap_def root_good_def)
  from root_growsD [OF this c] have "\<exists>rights. root_cap_rights root' cap = Some rights" by (auto simp: root_cap_rights_def)
  with that ring app net show thesis by blast
qed

lemma segment_entry_low: "segment_low ph \<Longrightarrow> in_segment entry ph \<Longrightarrow> entry < 0x0000800000000000"
  by (simp add: segment_low_def lower_half_def in_segment_def word_less_nat_alt)

lemma obj_rights: "OBJ_RIGHT_SEND = RIGHT_SEND" "OBJ_RIGHT_RECV = RIGHT_RECV"
  by (simp_all add: OBJ_RIGHT_SEND_def OBJ_RIGHT_RECV_def RIGHT_SEND_def RIGHT_RECV_def)

lemma demo_setup_ready:
  assumes ok: "spaces_ok mc S" and inv: "root_inv root"
    and low: "\<forall>ph\<in>set (image_segments ai) \<union> set (image_segments ni). segment_low ph"
    and res: "demo_setup ai ni (mc, root) = (Ok (cap, ring, app, net), (mc', root'))"
  shows "\<exists>S' sa sn. evolves {} (mc, S) (mc', S') \<and> demo_ready mc' S' ring app net sa sn \<and>
    (span sa (8 * 4096) \<union> span sn (8 * 4096) \<union> page_at ring \<union> page_at (ct_boot app)) \<inter> data_mem mc S = {} \<and>
    ct_entry app < 0x0000800000000000 \<and> ct_entry net < 0x0000800000000000 \<and> (\<exists>rights. root_cap_rights root' cap = Some rights)"
proof -
  obtain net_cap app_court net_court mc1 mc2 where known: "\<exists>rights. root_cap_rights root' cap = Some rights"
    and ring: "alloc_filled 1 ''ring page'' ring_header mc = (Ok ring, mc1)"
    and app: "spawn ''app'' ai cap OBJ_RIGHT_SEND app_court ring mc1 = (Ok app, mc2)"
    and net: "spawn ''net'' ni net_cap OBJ_RIGHT_RECV net_court ring mc2 = (Ok net, mc')"
    by (rule demo_objects [OF inv res])
  have low_a: "\<forall>ph\<in>set (image_segments ai). segment_low ph" and low_n: "\<forall>ph\<in>set (image_segments ni). segment_low ph"
    using low by auto
  have h: "length ring_header = 40" "ring_header @ replicate 4056 0 = ring_block" by (simp_all add: ring_header_def ring_block_def)
  note r = alloc_filled_result [OF ok _ _ ring, simplified h, simplified]
  then have e1: "evolves {} (mc, S) (mc1, S)" and p1: "data_pages mc1 S ring 1" and b1: "mem_bytes (mc_mem mc1) ring 4096 = ring_block"
    by (simp_all add: h)
  from spawn_result [OF evolvesD(1) [OF e1] p1 low_a app] obtain sa
    where a: "spawned mc1 S ai (boot_block cap OBJ_RIGHT_SEND app_court) ring app sa mc2" by blast
  define S1 where "S1 = insert (as_pml4_phys (ct_space app)) S"
  from a have e2: "evolves {} (mc1, S) (mc2, S1)" and oka: "courtlet_ok mc2 S1 app sa ring"
    and ba: "mem_bytes (mc_mem mc2) (ct_boot app) 4096 = boot_block cap OBJ_RIGHT_SEND app_court"
    and ea: "\<exists>ph\<in>set (image_segments ai). in_segment (ct_entry app) ph"
    and fresh_a: "page_at (ct_boot app) \<inter> data_mem mc1 S = {}" "span sa (8 * 4096) \<inter> data_mem mc1 S = {}"
    unfolding spawned_def Let_def S1_def by blast+
  note da = courtlet_okD [OF oka]
  from spawn_result [OF evolvesD(1) [OF e2] da(4) low_n net] obtain sn
    where n: "spawned mc2 S1 ni (boot_block net_cap OBJ_RIGHT_RECV net_court) ring net sn mc'" by blast
  define S2 where "S2 = insert (as_pml4_phys (ct_space net)) S1"
  from n have e3: "evolves {} (mc2, S1) (mc', S2)" and okn: "courtlet_ok mc' S2 net sn ring"
    and bn: "mem_bytes (mc_mem mc') (ct_boot net) 4096 = boot_block net_cap OBJ_RIGHT_RECV net_court"
    and fresh: "page_at (ct_boot net) \<inter> data_mem mc2 S1 = {}" "span sn (8 * 4096) \<inter> data_mem mc2 S1 = {}"
    and en: "\<exists>ph\<in>set (image_segments ni). in_segment (ct_entry net) ph"
    unfolding spawned_def Let_def S2_def by blast+
  have kept: "mem_bytes (mc_mem mcy) p 4096 = mem_bytes (mc_mem mcx) p 4096"
    if "data_pages mcx X p 1" "evolves {} (mcx, X) (mcy, Y)" for mcx mcy X Y p
    using mem_bytes_evolves [OF that] by simp
  have "mem_bytes (mc_mem mc') ring 4096 = ring_block" using kept [OF p1 e2] kept [OF da(4) e3] b1 by simp
  moreover have "mem_bytes (mc_mem mc') (ct_boot app) 4096 = boot_block cap RIGHT_SEND app_court"
    using kept [OF da(2) e3] ba by (simp add: obj_rights)
  moreover have "page_at (ct_boot net) \<inter> span sa (8 * 4096) = {}" "page_at (ct_boot app) \<inter> span sn (8 * 4096) = {}"
    using fresh da(2,3) by (auto simp: data_pages_def)
  ultimately have "demo_ready mc' S2 ring app net sa sn"
    using courtlet_ok_evolves [OF oka e3] okn bn unfolding demo_ready_def obj_rights by blast
  moreover have "evolves {} (mc, S) (mc', S2)" using evolves_trans [OF e1 evolves_trans [OF e2 e3]] .
  moreover have "(span sa (8 * 4096) \<union> span sn (8 * 4096) \<union> page_at ring \<union> page_at (ct_boot app)) \<inter> data_mem mc S = {}"
    using r fresh fresh_a data_mem_owned [of _ mc S] evolvesD(5) [OF e1] evolvesD(5) [OF evolves_trans [OF e1 e2]] by blast
  moreover have "ct_entry app < 0x0000800000000000" "ct_entry net < 0x0000800000000000"
    using ea en low_a low_n segment_entry_low by blast+
  ultimately show ?thesis using known by blast
qed

lemma on_root_total:
  "fst (spawn_court name path r) \<noteq> Panic" "fst (mint_cap object rights r) \<noteq> Panic" "fst (root_revoke_cap cid r) \<noteq> Panic"
  by (auto simp: spawn_court_def root_create_court_def root_bind_def mint_cap_def mint_def root_revoke_cap_def Let_def alloc_object_def
      split: option.splits prod.splits try_splits)

lemma on_root_not_Panic: "fst (f root) \<noteq> Panic \<Longrightarrow> on_root f (mc, root) \<noteq> (Panic, k)"
  by (cases "f root"; cases "fst (f root)") (auto simp: on_root_def)

lemma demo_setup_total:
  assumes ok: "spaces_ok mc S" and low: "\<forall>ph\<in>set (image_segments ai) \<union> set (image_segments ni). segment_low ph"
    and res: "demo_setup ai ni (mc, root) = (res, k')"
  shows "res \<noteq> Panic"
proof
  assume p: "res = Panic"
  note np = on_root_not_Panic [OF on_root_total(1)] on_root_not_Panic [OF on_root_total(2)]
  have sub: False if ring: "alloc_filled 1 msg ring_header mc = (Ok ring, mc1)"
    and panic: "spawn n1 ai c1 r1 x1 ring mc1 = (Panic, mc2) \<or>
      (\<exists>ct mcx. spawn n1 ai c1 r1 x1 ring mc1 = (Ok ct, mcx) \<and> spawn n2 ni c2 r2 x2 ring mcx = (Panic, mc2))"
    for msg ring mc1 n1 c1 r1 x1 mc2 n2 c2 r2 x2
  proof -
    have e1: "evolves {} (mc, S) (mc1, S)" and p1: "data_pages mc1 S ring 1"
      using alloc_filled_result [OF ok _ _ ring] by (simp_all add: ring_header_def)
    note s1 = spawn_result [OF evolvesD(1) [OF e1] p1, of ai n1 c1 r1 x1]
    from panic s1 low obtain ct mcx where a: "spawn n1 ai c1 r1 x1 ring mc1 = (Ok ct, mcx)" and b: "spawn n2 ni c2 r2 x2 ring mcx = (Panic, mc2)" by blast
    with s1 low obtain stk where sp: "spawned mc1 S ai (boot_block c1 r1 x1) ring ct stk mcx" by blast
    let ?S = "insert (as_pml4_phys (ct_space ct)) S"
    from sp have e2: "evolves {} (mc1, S) (mcx, ?S)" and p2: "data_pages mcx ?S ring 1"
      using courtlet_okD(4) unfolding spawned_def Let_def by blast+
    from spawn_result [OF evolvesD(1) [OF e2] p2 _ b] low show False by blast
  qed
  have sub2: False if "alloc_filled 1 msg ring_header mc = (Ok ring, mc1)" "spawn n1 ai c1 r1 x1 ring mc1 = (Ok ct, mcx)"
    "spawn n2 ni c2 r2 x2 ring mcx = (Panic, mc2)" for msg ring mc1 n1 c1 r1 x1 mc2 n2 c2 r2 x2 ct mcx
    using sub [OF that(1)] that(2,3) by blast
  have ring: "alloc_filled 1 ''ring page'' ring_header mc \<noteq> (Panic, x)" for x
    by (auto simp: alloc_filled_def split: option.splits prod.splits)
  from res p show False
    unfolding demo_setup_def
    by (auto elim!: try_st_cases simp: np on_root_Ok on_machine_eq ring dest: sub sub2)
qed

section \<open>The outcome\<close>

text \<open>What a run of the demo may have changed of what was there before: nothing.\<close>

definition undisturbed :: "Machine \<Rightarrow> u64 set \<Rightarrow> Machine \<Rightarrow> bool" where
  "undisturbed mc S mc' \<longleftrightarrow> (\<forall>x\<in>data_mem mc S. mc_mem mc' x = mc_mem mc x) \<and>
     (\<forall>r\<in>S. \<forall>va pa. mc_translate mc r va = Some pa \<longrightarrow> mc_translate mc' r va = Some pa)"

lemma run_demo_after_setup:
  assumes ok: "spaces_ok mc S" and regs: "mc_cr4 mc AND CR4_LA57 = 0" "mc_cr3 mc AND PHYS_MASK = mc_cr3 mc"
    and inv: "root_inv root" and low: "\<forall>ph\<in>set (image_segments ai) \<union> set (image_segments ni). segment_low ph"
    and stacks: "length s1 \<le> 8" "length s2 \<le> 8" "length s3 \<le> 8"
    and prep: "demo_setup ai ni (mc, root) = (Ok (cap, ring, app, net), (mc1, root1))"
  shows "\<exists>mc' root'. run_demo ai ni s1 s2 s3 (mc, root) = (Ok (), (mc', root')) \<and> undisturbed mc S mc' \<and>
    root_cap_rights root' cap = Some 0 \<and> img_revoked (mem_bytes (mc_mem mc') ring 4096) = 1"
proof -
  from demo_setup_ready [OF ok inv low prep] obtain S' sa sn rights where e1: "evolves {} (mc, S) (mc1, S')"
    and ready: "demo_ready mc1 S' ring app net sa sn"
    and fresh: "(span sa (8 * 4096) \<union> span sn (8 * 4096) \<union> page_at ring \<union> page_at (ct_boot app)) \<inter> data_mem mc S = {}"
    and entry: "ct_entry app < 0x0000800000000000" "ct_entry net < 0x0000800000000000"
    and cap: "root_cap_rights root1 cap = Some rights" by blast
  note regs1 = regs [folded evolves_regs(2,3) [OF e1]]
  from demo_run_ok [OF evolvesD(1) [OF e1] regs1 ready cap entry stacks] obtain mc'
    where run: "demo_run s1 s2 s3 (cap, ring, app, net) (mc1, root1) = (Ok (), (mc', snd (root_revoke_cap cap root1)))"
      and e2: "evolves (span sa (8 * 4096) \<union> span sn (8 * 4096) \<union> page_at ring \<union> page_at (ct_boot app)) (mc1, S') (mc', S')"
      and rv: "img_revoked (mem_bytes (mc_mem mc') ring 4096) = 1" by blast
  have "mc_mem mc' x = mc_mem mc x" if "x \<in> data_mem mc S" for x
    using that fresh evolvesD(5,6) [OF e1] evolvesD(6) [OF e2] by (metis disjoint_iff empty_iff)
  moreover have "mc_translate mc' r va = Some pa" if "r \<in> S" "mc_translate mc r va = Some pa" for r va pa
    using that evolvesD(2,7) [OF e1] evolvesD(7) [OF e2] by blast
  ultimately have "undisturbed mc S mc'" by (simp add: undisturbed_def)
  with run prep rv revoke_known_cap(2) [OF cap] show ?thesis by (simp add: run_demo_def)
qed

end
