(* ===== verification/Courtlet_Progress.thy ===== *)
theory Courtlet_Progress
  imports Courtlet_Demo Paging_Progress
begin

text \<open>
  That the demo succeeds: with pages left in the pool and images whose segments do not overlap, every
  step of \<^verbatim>\<open>run_demo\<close> returns \<open>Ok\<close>.
\<close>

section \<open>Pages mapped in the lower half\<close>

definition low_mapped :: "Machine \<Rightarrow> u64 \<Rightarrow> nat set \<Rightarrow> bool" where
  "low_mapped mc r M \<longleftrightarrow> (\<forall>va. pml4_index va < 256 \<and> mc_translate mc r va \<noteq> None \<longrightarrow> vpn va \<in> M)"

abbreviation pages_of :: "u64 \<Rightarrow> u64 \<Rightarrow> nat set" where
  "pages_of virt len \<equiv> {unat virt div 4096 ..< (unat virt + unat len) div 4096}"

lemma covers_pages:
  assumes "lower_half virt len" and "aligned virt" "aligned len" and "covers virt (unat len) va"
  shows "vpn va \<in> pages_of virt len"
proof -
  let ?d = "unat ((va - virt) AND mask 48)"
  have d: "?d < unat len" using assms(4) by (simp add: covers_def)
  have "4096 dvd unat virt + unat len" using assms(2,3) by (rule dvd_add)
  then have "(unat virt + ?d) div 4096 < (unat virt + unat len) div 4096"
    using d by (auto elim!: dvdE simp: less_mult_imp_div_less)
  then show ?thesis unfolding lower_half_vpn [OF assms(1,4)] by (simp add: div_le_mono)
qed

lemma map_low:
  assumes ok: "spaces_ok mc S" and r: "as_pml4_phys sp \<in> S" "as_pml4_phys sp \<noteq> mc_kernel_pml4 mc"
    and low: "lower_half virt len" and al: "aligned virt" "aligned phys" "aligned len" and small: "unat len < 2 ^ 21"
    and free: "low_mapped mc (as_pml4_phys sp) M" "pages_of virt len \<inter> M = {}"
    and room: "room (k + 3 * (unat len div 4096)) (mc_bump mc)" and pos: "0 < unat len"
  obtains mc' where "space_map sp virt phys len mc = (Ok (), mc')" "room k (mc_bump mc')"
    "low_mapped mc' (as_pml4_phys sp) (M \<union> pages_of virt len)"
proof -
  let ?r = "as_pml4_phys sp" let ?mp = "mapper ?r 0 mc"
  have tree: "mp_tree ?mp" using spaces_okD(2) [OF ok r(1)] by (simp add: mapper_def)
  have none: "mp_translate ?mp va = None" if c: "covers virt (unat len) va" for va
    using lower_half_tops [OF low c] covers_pages [OF low al(1,3) c] free by (auto simp: low_mapped_def mapper_def)
  have rm: "room (k + 3 * (unat len div 4096)) (mp_bump ?mp)" using room by (simp add: mapper_def)
  obtain mp' where m: "map_range virt phys len ?mp = (Ok (), mp')" "room k (mp_bump mp')"
    by (rule map_range_room [OF tree al small none rm])
  have "\<not> 0x0000800000000000 \<le> virt" using low pos by (simp add: lower_half_def word_le_nat_alt)
  then have res: "space_map sp virt phys len mc = (Ok (), mc\<lparr>mc_bump := mp_bump mp', mc_mem := mp_mem mp'\<rparr>)"
    using m(1) by (simp add: space_map_def put_back_def)
  note d = maps_inD(6) [OF conjunct1 [OF space_map_maps_in [OF ok r low res]]]
  have "low_mapped (mc\<lparr>mc_bump := mp_bump mp', mc_mem := mp_mem mp'\<rparr>) ?r (M \<union> pages_of virt len)"
    unfolding low_mapped_def
  proof (intro allI impI)
    fix va
    assume va: "pml4_index va < 256 \<and> mc_translate (mc\<lparr>mc_bump := mp_bump mp', mc_mem := mp_mem mp'\<rparr>) ?r va \<noteq> None"
    show "vpn va \<in> M \<union> pages_of virt len"
    proof (cases "covers virt (unat len) va")
      case True
      then show ?thesis using covers_pages [OF low al(1,3)] by blast
    next
      case False
      with d [of va] va free(1) show ?thesis by (auto simp: low_mapped_def)
    qed
  qed
  with that [OF res] m(2) show thesis by simp
qed

lemma kernel_low_unmapped:
  assumes ok: "spaces_ok mc S" and top: "pml4_index va < 256"
  shows "mc_translate mc (mc_kernel_pml4 mc) va = None"
proof -
  let ?k = "mc_kernel_pml4 mc"
  have "\<not> bit (entry_at (mc_mem mc) ?k [] (pml4_index va)) 7"
    using treeD(6) [OF spaces_okD(2) [OF ok spaces_okD(1) [OF ok]], of "[]" "pml4_index va"] top by simp
  with spaces_okD(4) [OF ok top] have "\<not> bit (mem_load64 (mc_mem mc) (entry_ptr ?k (pml4_index va))) 0"
    by (auto simp: Let_def entry_at_def split: if_splits)
  then show ?thesis by (simp add: translate_def)
qed

lemma clone_room:
  assumes ok: "spaces_ok mc S" and k: "mc_kernel_pml4 mc \<noteq> 0" and la: "mc_cr4 mc AND CR4_LA57 = 0"
    and room: "room (Suc n) (mc_bump mc)"
  obtains sp mc' where "clone_kernel mc = (Ok sp, mc')" "room n (mc_bump mc')" "low_mapped mc' (as_pml4_phys sp) {}"
proof -
  have "bump_ok (mp_bump (mapper 0 0 mc))" using treeD(1) [OF spaces_okD(2) [OF ok spaces_okD(1) [OF ok]]] by (simp add: mapper_def)
  moreover have "room (Suc n) (mp_bump (mapper 0 0 mc))" using room by (simp add: mapper_def)
  ultimately obtain new mp' where a: "alloc_table (mapper 0 0 mc) = (Ok new, mp')" "room n (mp_bump mp')" by (rule alloc_table_room)
  let ?mc = "mc\<lparr>mc_bump := mp_bump mp', mc_mem := fold (copy_slot (mc_kernel_pml4 mc) new) [0..<512] (mp_mem mp')\<rparr>"
  have res: "clone_kernel mc = (Ok \<lparr>as_cr3 = new, as_pml4_phys = new\<rparr>, ?mc)"
    using k la a(1) by (simp add: clone_kernel_def put_back_def Let_def)
  from clone_kernel_evolves [OF ok res] have "mc_translate ?mc new va = mc_translate mc (mc_kernel_pml4 mc) va" for va by simp
  then have "low_mapped ?mc new {}" using kernel_low_unmapped [OF ok] by (simp add: low_mapped_def)
  with that [OF res] a(2) show thesis by simp
qed

section \<open>Loading succeeds\<close>

definition seg_start :: "Phdr \<Rightarrow> nat" where
  "seg_start ph = unat (p_vaddr ph) div 4096"

definition seg_end :: "Phdr \<Rightarrow> nat" where
  "seg_end ph = (unat (p_vaddr ph) + unat (p_memsz ph) + 4095) div 4096"

abbreviation seg_pages :: "Phdr \<Rightarrow> nat set" where
  "seg_pages ph \<equiv> {seg_start ph ..< seg_end ph}"

definition segment_fits :: "bytes \<Rightarrow> Phdr \<Rightarrow> bool" where
  "segment_fits img ph \<longleftrightarrow> segment_low ph \<and> unat (p_memsz ph) \<le> 2 ^ 17 \<and> p_filesz ph \<le> p_memsz ph \<and>
     unat (p_offset ph) + unat (p_filesz ph) \<le> length img \<and> unat (p_offset ph) + unat (p_filesz ph) < 2 ^ 64 \<and>
     (seg_end ph \<le> 0x200 \<or> 0x408 \<le> seg_start ph)"

fun segments_apart :: "Phdr list \<Rightarrow> bool" where
  "segments_apart [] = True"
| "segments_apart (p # ps) = ((\<forall>q\<in>set ps. seg_end p \<le> seg_start q \<or> seg_end q \<le> seg_start p) \<and> segments_apart ps)"

lemma load_pages_room:
  assumes ok: "spaces_ok mc S" and r: "as_pml4_phys sp \<in> S" "as_pml4_phys sp \<noteq> mc_kernel_pml4 mc"
    and fits: "segment_fits img ph" "p_memsz ph \<noteq> 0"
    and len: "unat map_len = unat (p_vaddr ph AND (PAGE - 1)) + unat (p_memsz ph)"
    and free: "low_mapped mc (as_pml4_phys sp) M" "seg_pages ph \<inter> M = {}" and room: "room (k + 132) (mc_bump mc)"
  obtains mc' where "load_pages sp img ph map_len mc = (Ok (), mc')" "room k (mc_bump mc')"
    "low_mapped mc' (as_pml4_phys sp) (M \<union> seg_pages ph)"
proof -
  let ?off = "p_vaddr ph AND (PAGE - 1)" and ?pages = "div_ceil map_len PAGE" and ?n = "unat (p_memsz ph)"
  have sz: "?n \<le> 2 ^ 17" and low: "segment_low ph" using fits(1) by (simp_all add: segment_fits_def)
  note sp = segment_pages [OF len sz low [unfolded segment_low_def lower_half_def]]
  have off: "unat ?off = unat (p_vaddr ph) mod 4096" by (simp add: page_mask unat_and_mask)
  have "unat map_len \<le> 2 ^ 63" using sp(3) sz len by simp
  then have pages: "unat ?pages = (unat (p_vaddr ph) mod 4096 + ?n + 4095) div 4096" by (simp add: unat_div_ceil_page len off)
  have "unat (p_vaddr ph) mod 4096 + ?n + 4095 < 4096 * 34" using sz mod_less_divisor [of 4096 "unat (p_vaddr ph)"] by simp
  then have le: "unat ?pages \<le> 33" using less_mult_imp_div_less [of _ 34 4096] by (simp add: pages)
  have base: "unat (p_vaddr ph - ?off) = unat (p_vaddr ph) div 4096 * 4096"
    by (simp add: unat_sub word_le_nat_alt off minus_mod_eq_div_mult)
  have range: "pages_of (p_vaddr ph - ?off) (?pages * PAGE) = seg_pages ph"
    using page_ceil(3) [of "unat (p_vaddr ph)" ?n] by (simp add: base sp(1) pages seg_start_def seg_end_def)
  have bump: "bump_ok (mc_bump mc)" using treeD(1) [OF spaces_okD(2) [OF ok spaces_okD(1) [OF ok]]] .
  have "room (unat ?pages + (k + 3 * unat ?pages)) (mc_bump mc)" using room_mono [OF room] le by simp
  then obtain phys v b where a: "alloc_pages ?pages (mc_bump mc) = Some ((phys, v), b)" "room (k + 3 * unat ?pages) b"
    by (rule alloc_pages_room [OF bump])
  let ?bs = "take (unat (p_filesz ph)) (drop (unat (p_offset ph)) img)"
  define m2 where "m2 = mem_write (phys + ?off) ?bs (mem_zero phys (unat (?pages * PAGE)) (mc_mem mc))"
  define mc2 where "mc2 = mc\<lparr>mc_bump := b, mc_mem := m2\<rparr>"
  have fit: "unat ?off + length ?bs \<le> unat ?pages * 4096" using sp(2) fits(1) by (auto simp: segment_fits_def word_le_nat_alt)
  have out: "\<forall>x. x \<notin> span phys (unat ?pages * 4096) \<longrightarrow> m2 x = mc_mem mc x"
  proof -
    have "unat phys + unat ?pages * 4096 \<le> 2 ^ 52" using new_data(5) [OF ok a(1), of "mc_mem mc"] by simp
    from write_in_pages(1) [OF fit this, of _ "mc_mem mc"] show ?thesis by (simp add: m2_def sp(1))
  qed
  note new = new_data [OF ok a(1) out, folded mc2_def]
  have fend: "checked_add (p_offset ph) (p_filesz ph) = Some (p_offset ph + p_filesz ph)"
    "unat (p_offset ph + p_filesz ph) = unat (p_offset ph) + unat (p_filesz ph)"
    using fits(1) by (simp_all add: segment_fits_def checked_add_def unat_add_no_overflow)
  have copied: "copy_file img ph (phys + ?off) (mc\<lparr>mc_bump := b, mc_mem := mem_zero phys (unat (?pages * PAGE)) (mc_mem mc)\<rparr>) = (Ok (), mc2)"
    using fits(1) fend by (auto simp: copy_file_def mc2_def m2_def segment_fits_def mem_write_def)
  have r2: "as_pml4_phys sp \<noteq> mc_kernel_pml4 mc2" using r(2) by (simp add: mc2_def)
  have free2: "low_mapped mc2 (as_pml4_phys sp) M" using free(1) new(6) [OF r(1)] by (simp add: low_mapped_def)
  have al: "aligned (p_vaddr ph - ?off)" "aligned phys" "aligned (?pages * PAGE)" using base new(4) sp(1) by simp_all
  have pos: "0 < unat (?pages * PAGE)" "unat (?pages * PAGE) < 2 ^ 21" using sp(1,2) le fits(2) by (auto simp: unat_gt_0 unat_eq_zero)
  have room2: "room (k + 3 * (unat (?pages * PAGE) div 4096)) (mc_bump mc2)" using a(2) by (simp add: sp(1) mc2_def)
  have dis: "pages_of (p_vaddr ph - ?off) (?pages * PAGE) \<inter> M = {}" using free(2) by (simp only: range)
  obtain mc' where m: "space_map sp (p_vaddr ph - ?off) phys (?pages * PAGE) mc2 = (Ok (), mc')" "room k (mc_bump mc')"
    "low_mapped mc' (as_pml4_phys sp) (M \<union> pages_of (p_vaddr ph - ?off) (?pages * PAGE))"
    by (rule map_low [OF evolvesD(1) [OF new(1)] r(1) r2 sp(4) al pos(2) free2 dis room2 pos(1)])
  have "load_pages sp img ph map_len mc = (Ok (), mc')" using a(1) copied m(1) by (simp add: load_pages_def Let_def)
  with that m(2,3) show thesis by (simp only: range)
qed

text \<open>Program headers inside the file are readable.\<close>

lemma get_range_inside:
  assumes "unat off + c + n \<le> length buf" and "unat off + c + n < 2 ^ 64"
  shows "\<exists>bs. get_range buf (off + of_nat c) n = Some bs"
proof -
  have 1: "unat (off + of_nat c) = unat off + c" using assms(2) by (subst unat_add_no_overflow) (simp_all add: unat_of_nat_small)
  then have "unat (off + of_nat c + of_nat n) = unat off + c + n"
    using assms(2) by (subst unat_add_no_overflow) (simp_all add: unat_of_nat_small)
  with 1 assms(1) show ?thesis by (simp add: get_range_def Let_def word_le_nat_alt)
qed

lemma phdr_reads:
  assumes "unat off + 56 \<le> length img" and "unat off + 56 < 2 ^ 64"
  shows "\<exists>t. read_u32 img off = Ok t" and "\<exists>ph. read_phdr img off = Ok ph"
proof -
  show "\<exists>t. read_u32 img off = Ok t" using get_range_inside [of off 0 4 img] assms by (auto simp: read_u32_def)
  have r: "\<exists>v. read_u64 img (off + of_nat c) = Ok v" if "c + 8 \<le> 56" for c
    using get_range_inside [of off c 8 img] assms that by (auto simp: read_u64_def)
  show "\<exists>ph. read_phdr img off = Ok ph" using r [of 8] r [of 16] r [of 32] r [of 40] by (auto simp: read_phdr_def)
qed

lemma phdr_offsets_inside:
  assumes "check_header img = Ok (entry, phoff, sz, n)" and "off \<in> set (phdr_offsets phoff sz n)"
  shows "unat off + 56 \<le> length img" and "unat off + 56 < 2 ^ 64"
proof -
  from assms(1) obtain size phend where sz: "sz = PHDR_SIZE" and n: "unat n \<le> 8" and size: "checked_mul n sz = Some size"
    and pe: "checked_add phoff size = Some phend" and le: "unat phend \<le> length img"
    unfolding check_header_def Let_def by (auto simp: MAX_PHDRS_def word_le_nat_alt word_less_nat_alt not_less split: if_splits)
  have pend: "unat phend = unat phoff + unat n * 56" using size pe by (simp add: sz PHDR_SIZE_def checked_mul_Some checked_add_Some)
  from assms(2) obtain i where i: "i < unat n" "off = phoff + of_nat i * sz" by (auto simp: phdr_offsets_def)
  have "off = phoff + of_nat (i * 56)" by (simp add: i(2) sz PHDR_SIZE_def)
  moreover have i56: "i * 56 + 56 \<le> unat n * 56" using i(1) by simp
  moreover have bound: "unat phend < 2 ^ 64" using unat_bound [of phend] by simp
  ultimately have "unat off = unat phoff + i * 56"
    using pend by (simp add: unat_add_no_overflow unat_of_nat_small del: of_nat_mult)
  with pend i56 have "unat off + 56 \<le> unat phend" by simp
  with le bound show "unat off + 56 \<le> length img" and "unat off + 56 < 2 ^ 64" by simp_all
qed

lemma load_segment_room:
  assumes ok: "spaces_ok mc S" and r: "as_pml4_phys sp \<in> S" "as_pml4_phys sp \<noteq> mc_kernel_pml4 mc"
    and inside: "unat off + 56 \<le> length img" "unat off + 56 < 2 ^ 64"
    and fits: "\<forall>ph. loadable img off = Some ph \<longrightarrow> segment_fits img ph \<and> seg_pages ph \<inter> M = {}"
    and free: "low_mapped mc (as_pml4_phys sp) M" and room: "room (k + 132) (mc_bump mc)"
  obtains hit mc' where "load_segment sp img entry off mc = (Ok hit, mc')" "room k (mc_bump mc')"
    "low_mapped mc' (as_pml4_phys sp) (M \<union> (case loadable img off of None \<Rightarrow> {} | Some ph \<Rightarrow> seg_pages ph))"
proof (cases "loadable img off")
  case None
  obtain t ph where reads: "read_u32 img off = Ok t" "read_phdr img off = Ok ph" using phdr_reads [OF inside] by blast
  with None have "t = PT_LOAD \<longrightarrow> p_memsz ph = 0" by (auto simp: loadable_def split: if_splits)
  with reads have "load_segment sp img entry off mc = (Ok False, mc)" by (simp add: load_segment_def)
  with that [of False mc] None free room_mono [OF room] show thesis by simp
next
  case (Some ph)
  then have reads: "read_u32 img off = Ok PT_LOAD" "read_phdr img off = Ok ph" "p_memsz ph \<noteq> 0"
    by (auto simp: loadable_def split: result.splits if_splits)
  from fits Some have f: "segment_fits img ph" "seg_pages ph \<inter> M = {}" by simp_all
  have pos: "unat (p_memsz ph) \<noteq> 0" using reads(3) by (simp add: unat_eq_zero)
  have sizes: "\<not> MAX_SEGMENT < p_memsz ph" "\<not> p_memsz ph < p_filesz ph" "\<not> 0x0000800000000000 \<le> p_vaddr ph"
    using f(1) pos by (auto simp: segment_fits_def MAX_SEGMENT_def word_less_nat_alt word_le_nat_alt segment_low_def lower_half_def)
  have "unat (p_vaddr ph AND (PAGE - 1)) < 4096" by (simp add: page_mask unat_and_mask)
  then obtain map_len where l: "checked_add (p_vaddr ph AND (PAGE - 1)) (p_memsz ph) = Some map_len"
    using f(1) by (simp add: checked_add_def segment_fits_def)
  obtain mc' where lp: "load_pages sp img ph map_len mc = (Ok (), mc')" "room k (mc_bump mc')"
    "low_mapped mc' (as_pml4_phys sp) (M \<union> seg_pages ph)"
    by (rule load_pages_room [OF ok r f(1) reads(3) l [unfolded checked_add_Some] free f(2) room])
  with that Some reads sizes l show thesis by (simp add: load_segment_def)
qed

lemma load_segments_room:
  assumes "spaces_ok mc S" and "as_pml4_phys sp \<in> S" "as_pml4_phys sp \<noteq> mc_kernel_pml4 mc"
    and "\<forall>off\<in>set offs. unat off + 56 \<le> length img \<and> unat off + 56 < 2 ^ 64"
    and "\<forall>ph\<in>set (List.map_filter (loadable img) offs). segment_fits img ph \<and> seg_pages ph \<inter> M = {}"
    and "segments_apart (List.map_filter (loadable img) offs)"
    and "low_mapped mc (as_pml4_phys sp) M" and "room (k + 132 * length offs) (mc_bump mc)"
  shows "\<exists>hit' mc'. load_segments sp img entry offs hit mc = (Ok hit', mc') \<and> room k (mc_bump mc') \<and>
    low_mapped mc' (as_pml4_phys sp) (M \<union> (\<Union>ph\<in>set (List.map_filter (loadable img) offs). seg_pages ph))"
  using assms
proof (induction offs arbitrary: hit mc M)
  case Nil
  then show ?case by (simp add: map_filter_simps)
next
  case (Cons off offs)
  let ?P = "case loadable img off of None \<Rightarrow> {} | Some ph \<Rightarrow> seg_pages ph"
  have here: "\<forall>ph. loadable img off = Some ph \<longrightarrow> segment_fits img ph \<and> seg_pages ph \<inter> M = {}"
    using Cons.prems(5) by (auto simp: map_filter_simps)
  have inside: "unat off + 56 \<le> length img" "unat off + 56 < 2 ^ 64" using Cons.prems(4) by simp_all
  have room: "room (k + 132 * length offs + 132) (mc_bump mc)" using Cons.prems(8) by (simp add: ac_simps)
  obtain h mc1 where l: "load_segment sp img entry off mc = (Ok h, mc1)" "room (k + 132 * length offs) (mc_bump mc1)"
    "low_mapped mc1 (as_pml4_phys sp) (M \<union> ?P)"
    by (rule load_segment_room [OF Cons.prems(1-3) inside here Cons.prems(7) room])
  have low: "\<forall>ph. loadable img off = Some ph \<longrightarrow> segment_low ph" using here by (simp add: segment_fits_def)
  note e = conjunct1 [OF load_segment_result [OF Cons.prems(1-3) low l(1)]]
  have r1: "as_pml4_phys sp \<noteq> mc_kernel_pml4 mc1" using Cons.prems(3) evolves_regs(1) [OF e] by simp
  have rest: "\<forall>off\<in>set offs. unat off + 56 \<le> length img \<and> unat off + 56 < 2 ^ 64" using Cons.prems(4) by simp
  have fits: "\<forall>ph\<in>set (List.map_filter (loadable img) offs). segment_fits img ph \<and> seg_pages ph \<inter> (M \<union> ?P) = {}"
    and apart: "segments_apart (List.map_filter (loadable img) offs)"
    using Cons.prems(5,6) by (cases "loadable img off"; force simp: map_filter_simps)+
  from Cons.IH [OF evolvesD(1) [OF e] Cons.prems(2) r1 rest fits apart l(3,2), of "hit \<or> h"] l(1) show ?case
    by (cases "loadable img off") (auto simp: map_filter_simps Un_assoc)
qed

definition image_fits :: "bytes \<Rightarrow> bool" where
  "image_fits img \<longleftrightarrow> (case check_header img of
     Ok (entry, phoff, sz, n) \<Rightarrow> (\<forall>ph\<in>set (image_segments img). segment_fits img ph) \<and>
       segments_apart (image_segments img) \<and> (\<exists>ph\<in>set (image_segments img). in_segment entry ph) | _ \<Rightarrow> False)"

lemma load_room:
  assumes ok: "spaces_ok mc S" and r: "as_pml4_phys sp \<in> S" "as_pml4_phys sp \<noteq> mc_kernel_pml4 mc"
    and fits: "image_fits img" and free: "low_mapped mc (as_pml4_phys sp) {}" and room: "room (k + 1056) (mc_bump mc)"
  obtains entry mc' where "load sp img mc = (Ok entry, mc')" "room k (mc_bump mc')"
    "low_mapped mc' (as_pml4_phys sp) (- {0x200..<0x408})"
proof -
  from fits obtain entry phoff sz n where h: "check_header img = Ok (entry, phoff, sz, n)"
    and f: "\<forall>ph\<in>set (image_segments img). segment_fits img ph" "segments_apart (image_segments img)"
      "\<exists>ph\<in>set (image_segments img). in_segment entry ph"
    by (auto simp: image_fits_def split: result.splits) blast
  let ?offs = "phdr_offsets phoff sz n"
  have segs: "image_segments img = List.map_filter (loadable img) ?offs" by (simp add: image_segments_def h)
  have "unat n \<le> 8" using h unfolding check_header_def Let_def by (auto simp: MAX_PHDRS_def word_le_nat_alt word_less_nat_alt not_less split: if_splits)
  then have "room (k + 132 * length ?offs) (mc_bump mc)" using room_mono [OF room] by (simp add: phdr_offsets_def)
  moreover have "\<forall>off\<in>set ?offs. unat off + 56 \<le> length img \<and> unat off + 56 < 2 ^ 64" using phdr_offsets_inside [OF h] by blast
  moreover have "\<forall>ph\<in>set (List.map_filter (loadable img) ?offs). segment_fits img ph \<and> seg_pages ph \<inter> {} = {}" using f(1) by (simp add: segs)
  ultimately obtain hit mc' where l: "load_segments sp img entry ?offs False mc = (Ok hit, mc')" "room k (mc_bump mc')"
    "low_mapped mc' (as_pml4_phys sp) (\<Union>ph\<in>set (image_segments img). seg_pages ph)"
    using load_segments_room [OF ok r _ _ _ free, of ?offs img k entry False] f(2) by (auto simp: segs)
  have low: "\<forall>ph\<in>set (List.map_filter (loadable img) ?offs). segment_low ph" using f(1) by (simp add: segs segment_fits_def)
  have "hit" using load_segments_result [OF ok r low l(1)] f(3) by (simp add: segs)
  then have "load sp img mc = (Ok entry, mc')" using l(1) h by (simp add: load_def)
  moreover have "(\<Union>ph\<in>set (image_segments img). seg_pages ph) \<subseteq> - {0x200..<0x408}" using f(1) by (fastforce simp: segment_fits_def)
  then have "low_mapped mc' (as_pml4_phys sp) (- {0x200..<0x408})" using l(3) unfolding low_mapped_def by blast
  ultimately show thesis using that l(2) by blast
qed

section \<open>Spawning succeeds\<close>

lemma alloc_filled_room:
  assumes ok: "spaces_ok mc S" and bs: "length bs \<le> unat n * 4096" and n: "unat n \<le> 2 ^ 20" and room: "room (unat n + k) (mc_bump mc)"
  obtains p mc' where "alloc_filled n msg bs mc = (Ok p, mc')" "room k (mc_bump mc')"
    "\<And>r M. r \<in> S \<Longrightarrow> low_mapped mc r M \<Longrightarrow> low_mapped mc' r M"
proof -
  have "bump_ok (mc_bump mc)" using treeD(1) [OF spaces_okD(2) [OF ok spaces_okD(1) [OF ok]]] .
  from alloc_pages_room [OF this room] obtain p v b where a: "alloc_pages n (mc_bump mc) = Some ((p, v), b)" "room k b" .
  have size: "unat (n * ABI_PAGE) = unat n * 4096" using n by (simp add: unat_mult_no_overflow ABI_PAGE_def)
  let ?m = "mem_write p bs (mem_zero p (unat n * 4096) (mc_mem mc))"
  have out: "\<forall>x. x \<notin> span p (unat n * 4096) \<longrightarrow> ?m x = mc_mem mc x" using bs by (auto simp: mem_write_def mem_zero_def span_def)
  note tr = new_data(6) [OF ok a(1) out]
  show thesis
    by (rule that [of p "mc\<lparr>mc_bump := b, mc_mem := ?m\<rparr>"]) (use a tr in \<open>simp_all add: alloc_filled_def size low_mapped_def\<close>)
qed

lemma map_data_low:
  assumes ok: "spaces_ok mc S" and r: "as_pml4_phys sp \<in> S" "as_pml4_phys sp \<noteq> mc_kernel_pml4 mc"
    and p: "data_pages mc S p n" and n: "0 < n" "n \<le> 8" and va: "unat va = j * 4096" "j < 2 ^ 20" and len: "unat len = n * 4096"
    and free: "low_mapped mc (as_pml4_phys sp) M" "{j..<j + n} \<inter> M = {}" and room: "room (k + 3 * n) (mc_bump mc)"
  obtains mc' where "space_map sp va p len mc = (Ok (), mc')" "room k (mc_bump mc')"
    "low_mapped mc' (as_pml4_phys sp) (M \<union> {j..<j + n})" "evolves {} (mc, S) (mc', S)"
proof -
  have low: "lower_half va len" using va len n by (simp add: lower_half_def)
  have "unat va + unat len = (j + n) * 4096" by (simp add: va(1) len algebra_simps)
  then have pages: "pages_of va len = {j..<j + n}" by (simp only: va(1)) simp
  have al: "aligned va" "aligned p" "aligned len" using va(1) len p by (simp_all add: data_pages_def)
  have small: "unat len < 2 ^ 21" "0 < unat len" using len n by simp_all
  have dis: "pages_of va len \<inter> M = {}" using free(2) by (simp only: pages)
  have rm: "room (k + 3 * (unat len div 4096)) (mc_bump mc)" using room by (simp add: len)
  obtain mc' where m: "space_map sp va p len mc = (Ok (), mc')" "room k (mc_bump mc')"
    "low_mapped mc' (as_pml4_phys sp) (M \<union> pages_of va len)"
    by (rule map_low [OF ok r low al small(1) free(1) dis rm small(2)])
  with that space_map_evolves [OF ok r low m(1)] show thesis by (simp only: pages)
qed

lemma spawn_maps_room:
  assumes ok: "spaces_ok mc S" and r: "as_pml4_phys sp \<in> S" "as_pml4_phys sp \<noteq> mc_kernel_pml4 mc"
    and pages: "data_pages mc S boot 1" "data_pages mc S ring 1" "data_pages mc S stk 8"
    and free: "low_mapped mc (as_pml4_phys sp) (- {0x200..<0x408})" and room: "room (k + 30) (mc_bump mc)"
  obtains mc1 mc2 mc3 where "space_map sp BOOT_VA boot ABI_PAGE mc = (Ok (), mc1)"
    "space_map sp RING_VA ring ABI_PAGE mc1 = (Ok (), mc2)" "space_map sp STACK_VA stk STACK_SIZE mc2 = (Ok (), mc3)"
    "room k (mc_bump mc3)"
proof -
  let ?r = "as_pml4_phys sp"
  have va: "unat BOOT_VA = 0x200 * 4096" "unat RING_VA = 0x300 * 4096" "unat STACK_VA = 0x400 * 4096"
    and len: "unat ABI_PAGE = 1 * 4096" "unat STACK_SIZE = 8 * 4096"
    by (simp_all add: BOOT_VA_def RING_VA_def STACK_VA_def ABI_PAGE_def STACK_SIZE_def STACK_PAGES_def)
  have kern: "?r \<noteq> mc_kernel_pml4 mcx" if "evolves {} (mc, S) (mcx, S)" for mcx using r(2) evolves_regs(1) [OF that] by simp
  have room1: "room (k + 27 + 3 * 1) (mc_bump mc)" using room_mono [OF room] by simp
  obtain mc1 where 1: "space_map sp BOOT_VA boot ABI_PAGE mc = (Ok (), mc1)" "room (k + 27) (mc_bump mc1)"
    "low_mapped mc1 ?r (- {0x200..<0x408} \<union> {0x200..<0x200 + 1})" "evolves {} (mc, S) (mc1, S)"
    by (rule map_data_low [OF ok r pages(1) _ _ va(1) _ len(1) free _ room1]) auto
  have room2: "room (k + 24 + 3 * 1) (mc_bump mc1)" using room_mono [OF 1(2)] by simp
  obtain mc2 where 2: "space_map sp RING_VA ring ABI_PAGE mc1 = (Ok (), mc2)" "room (k + 24) (mc_bump mc2)"
    "low_mapped mc2 ?r (- {0x200..<0x408} \<union> {0x200..<0x200 + 1} \<union> {0x300..<0x300 + 1})" "evolves {} (mc1, S) (mc2, S)"
    by (rule map_data_low [OF evolvesD(1) [OF 1(4)] r(1) kern [OF 1(4)] data_pages_evolves [OF pages(2) 1(4)] _ _ va(2) _ len(1) 1(3) _ room2]) auto
  note e2 = evolves_trans [OF 1(4) 2(4)]
  have room3: "room (k + 3 * 8) (mc_bump mc2)" using room_mono [OF 2(2)] by simp
  obtain mc3 where 3: "space_map sp STACK_VA stk STACK_SIZE mc2 = (Ok (), mc3)" "room k (mc_bump mc3)"
    by (rule map_data_low [OF evolvesD(1) [OF e2] r(1) kern [OF e2] data_pages_evolves [OF pages(3) e2] _ _ va(3) _ len(2) 2(3) _ room3]) auto
  from that [OF 1(1) 2(1) 3] show thesis .
qed

lemma spawn_room:
  assumes ok: "spaces_ok mc S" and k: "mc_kernel_pml4 mc \<noteq> 0" and la: "mc_cr4 mc AND CR4_LA57 = 0"
    and fits: "image_fits img" and ring: "data_pages mc S ring 1" and room: "room (k + 1096) (mc_bump mc)"
  shows "\<exists>ct mc'. spawn name img cap rights court ring mc = (Ok ct, mc') \<and> room k (mc_bump mc')"
proof -
  have low: "\<forall>ph\<in>set (image_segments img). segment_low ph"
    using fits by (auto simp: image_fits_def segment_fits_def split: result.splits)
  have "room (Suc (k + 39 + 1056)) (mc_bump mc)" using room_mono [OF room] by simp
  then obtain sp mc1 where 1: "clone_kernel mc = (Ok sp, mc1)" "room (k + 39 + 1056) (mc_bump mc1)" "low_mapped mc1 (as_pml4_phys sp) {}"
    by (rule clone_room [OF ok k la])
  let ?r = "as_pml4_phys sp" let ?S = "insert (as_pml4_phys sp) S"
  have rS: "?r \<in> ?S" by simp
  from clone_kernel_evolves [OF ok 1(1)] have e1: "evolves {} (mc, S) (mc1, ?S)" and new: "?r \<notin> S" by simp_all
  have kern: "?r \<noteq> mc_kernel_pml4 mcx" if "evolves {} (mc, S) (mcx, X)" for mcx X
    using new spaces_okD(1) [OF ok] evolves_regs(1) [OF that] by auto
  obtain entry mc2 where 2: "load sp img mc1 = (Ok entry, mc2)" "room (k + 39) (mc_bump mc2)" "low_mapped mc2 ?r (- {0x200..<0x408})"
    by (rule load_room [OF evolvesD(1) [OF e1] rS kern [OF e1] fits 1(3,2)])
  note e2 = evolves_trans [OF e1 conjunct1 [OF load_result [OF evolvesD(1) [OF e1] rS kern [OF e1] low 2(1)]]]
  have b: "length (boot_info cap rights court) \<le> unat (1 :: u64) * 4096" "unat (1 :: u64) \<le> 2 ^ 20"
    and st: "length ([] :: bytes) \<le> unat STACK_PAGES * 4096" "unat STACK_PAGES \<le> 2 ^ 20" "unat STACK_PAGES = 8"
    by (simp_all add: boot_info_def STACK_PAGES_def)
  have "room (unat (1 :: u64) + (k + 38)) (mc_bump mc2)" using room_mono [OF 2(2)] by simp
  then obtain boot mc3 where 3: "alloc_filled 1 ''courtlet boot page'' (boot_info cap rights court) mc2 = (Ok boot, mc3)"
      "room (k + 38) (mc_bump mc3)" and keep3: "\<And>r M. r \<in> ?S \<Longrightarrow> low_mapped mc2 r M \<Longrightarrow> low_mapped mc3 r M"
    by (rule alloc_filled_room [OF evolvesD(1) [OF e2] b]) blast
  note a3 = alloc_filled_result [OF evolvesD(1) [OF e2] b 3(1)]
  then have e23: "evolves {} (mc2, ?S) (mc3, ?S)" and p3: "data_pages mc3 ?S boot 1" by simp_all
  note e3 = evolves_trans [OF e2 e23]
  have "room (unat STACK_PAGES + (k + 30)) (mc_bump mc3)" using room_mono [OF 3(2)] by (simp add: st(3))
  then obtain stk mc4 where 4: "alloc_filled STACK_PAGES ''courtlet stack'' [] mc3 = (Ok stk, mc4)" "room (k + 30) (mc_bump mc4)"
      and keep4: "\<And>r M. r \<in> ?S \<Longrightarrow> low_mapped mc3 r M \<Longrightarrow> low_mapped mc4 r M"
    by (rule alloc_filled_room [OF evolvesD(1) [OF e3] st(1,2)]) blast
  from alloc_filled_result [OF evolvesD(1) [OF e3] st(1,2) 4(1)]
  have e34: "evolves {} (mc3, ?S) (mc4, ?S)" and p4: "data_pages mc4 ?S stk 8" by (simp_all add: st(3))
  note e4 = evolves_trans [OF e3 e34]
  have l4: "low_mapped mc4 ?r (- {0x200..<0x408})" using keep4 [OF rS keep3 [OF rS 2(3)]] .
  obtain mc5 mc6 mc7 where 5: "space_map sp BOOT_VA boot ABI_PAGE mc4 = (Ok (), mc5)"
    and 6: "space_map sp RING_VA ring ABI_PAGE mc5 = (Ok (), mc6)"
    and 7: "space_map sp STACK_VA stk STACK_SIZE mc6 = (Ok (), mc7)" "room k (mc_bump mc7)"
    by (rule spawn_maps_room [OF evolvesD(1) [OF e4] rS kern [OF e4] data_pages_evolves [OF p3 e34] data_pages_evolves [OF ring e4] p4 l4 4(2)])
  show ?thesis using 1(1) 2(1) 3(1) 4(1) 5 6 7 by (simp add: spawn_def)
qed

section \<open>The demo succeeds\<close>

text \<open>The object table that \<^verbatim>\<open>kmain_on_kstack\<close> hands to the demo.\<close>

definition boot_root :: RootCourt where
  "boot_root = snd (bootstrap root_new)"

lemma boot_root_inv: "root_inv boot_root"
  using bootstrap_good [OF root_inv_new] by (simp add: boot_root_def root_good_def)

lemma demo_objects_room:
  obtains r1 r2 r3 r4 where "spawn_court ''app'' ''/court/app'' boot_root = (Ok (2, 2), r1)"
    "spawn_court ''net'' ''/court/net'' r1 = (Ok (3, 3), r2)" "mint_cap 2 OBJ_RIGHT_SEND r2 = (Ok 2, r3)"
    "mint_cap 3 OBJ_RIGHT_RECV r3 = (Ok 3, r4)"
  by (simp add: boot_root_def bootstrap_def root_new_def root_create_court_def alloc_object_def root_bind_def mint_def mint_cap_def
      spawn_court_def Let_def MAX_COURTS_def MAX_CAPS_def MAX_BINDINGS_def eval_nat_numeral)

lemma demo_setup_room:
  assumes ok: "spaces_ok mc S" and k: "mc_kernel_pml4 mc \<noteq> 0" and la: "mc_cr4 mc AND CR4_LA57 = 0"
    and fits: "image_fits ai" "image_fits ni" and room: "room 2193 (mc_bump mc)"
  shows "\<exists>ring app net k'. demo_setup ai ni (mc, boot_root) = (Ok (2, ring, app, net), k')"
proof -
  obtain r1 r2 r3 r4 where objs: "spawn_court ''app'' ''/court/app'' boot_root = (Ok (2, 2), r1)"
    "spawn_court ''net'' ''/court/net'' r1 = (Ok (3, 3), r2)" "mint_cap 2 OBJ_RIGHT_SEND r2 = (Ok 2, r3)"
    "mint_cap 3 OBJ_RIGHT_RECV r3 = (Ok 3, r4)" by (rule demo_objects_room)
  have low: "\<forall>ph\<in>set (image_segments ai). segment_low ph" using fits(1) by (auto simp: image_fits_def segment_fits_def split: result.splits)
  have h: "length ring_header \<le> unat (1 :: u64) * 4096" "unat (1 :: u64) \<le> 2 ^ 20" by (simp_all add: ring_header_def)
  have "room (unat (1 :: u64) + 2192) (mc_bump mc)" using room by simp
  then obtain ring mc1 where 1: "alloc_filled 1 ''ring page'' ring_header mc = (Ok ring, mc1)" "room 2192 (mc_bump mc1)"
    by (rule alloc_filled_room [OF ok h])
  from alloc_filled_result [OF ok h 1(1)] have e1: "evolves {} (mc, S) (mc1, S)" and p1: "data_pages mc1 S ring 1" by simp_all
  have k1: "mc_kernel_pml4 mc1 \<noteq> 0" "mc_cr4 mc1 AND CR4_LA57 = 0" using k la evolves_regs [OF e1] by simp_all
  have "room (1096 + 1096) (mc_bump mc1)" using 1(2) by simp
  from spawn_room [OF evolvesD(1) [OF e1] k1 fits(1) p1 this, of "''app''" 2 OBJ_RIGHT_SEND 2] obtain app mc2
    where 2: "spawn ''app'' ai 2 OBJ_RIGHT_SEND 2 ring mc1 = (Ok app, mc2)" "room 1096 (mc_bump mc2)" by blast
  from spawn_result [OF evolvesD(1) [OF e1] p1 low 2(1)] obtain stk
    where sp: "spawned mc1 S ai (boot_block 2 OBJ_RIGHT_SEND 2) ring app stk mc2" by blast
  let ?S = "insert (as_pml4_phys (ct_space app)) S"
  from sp have e2: "evolves {} (mc1, S) (mc2, ?S)" and p2: "data_pages mc2 ?S ring 1"
    using courtlet_okD(4) unfolding spawned_def Let_def by blast+
  have k2: "mc_kernel_pml4 mc2 \<noteq> 0" "mc_cr4 mc2 AND CR4_LA57 = 0" using k1 evolves_regs [OF e2] by simp_all
  have "room (0 + 1096) (mc_bump mc2)" using 2(2) by simp
  from spawn_room [OF evolvesD(1) [OF e2] k2 fits(2) p2 this, of "''net''" 3 OBJ_RIGHT_RECV 3] obtain net mc3
    where 3: "spawn ''net'' ni 3 OBJ_RIGHT_RECV 3 ring mc2 = (Ok net, mc3)" by blast
  show ?thesis using objs 1(1) 2(1) 3 by (simp add: demo_setup_def on_root_def on_machine_def)
qed

end
