(* ===== verification/Paging_Chunks.thy ===== *)
theory Paging_Chunks
  imports Paging_Progress
begin

text \<open>
  When mapping succeeds in general. A call of \<^verbatim>\<open>map_range\<close> is a list of chunks of 4 KiB and 2 MiB. A list of chunks that
  agree with each other and fit into the tables there are can be mapped as long as the allocator
  has three pages for tables per block of 2 MiB the chunks are in.
\<close>

section \<open>Entries on the way to an address\<close>

abbreviation ent :: "Mapper \<Rightarrow> nat list \<Rightarrow> nat \<Rightarrow> u64" where
  "ent mp p i \<equiv> entry_at (mp_mem mp) (mp_pml4 mp) p i"

definition region :: "u64 \<Rightarrow> nat" where
  "region va = vpn va div 512"

definition pd_entry :: "Mapper \<Rightarrow> u64 \<Rightarrow> u64" where
  "pd_entry mp va = ent mp [pml4_index va, pdpt_index va] (pd_index va)"

definition pt_entry :: "Mapper \<Rightarrow> u64 \<Rightarrow> u64" where
  "pt_entry mp va = ent mp [pml4_index va, pdpt_index va, pd_index va] (pt_index va)"

definition opened :: "Mapper \<Rightarrow> u64 \<Rightarrow> bool" where
  "opened mp va \<longleftrightarrow> bit (pd_entry mp va) 0"

lemma region_eq_iff:
  "pml4_index va = pml4_index vb \<and> pdpt_index va = pdpt_index vb \<and> pd_index va = pd_index vb \<longleftrightarrow> region va = region vb"
  using indices3_eq_iff [of va vb] by (simp add: indices_def region_def)

lemma vpn_eq_iff:
  "region va = region vb \<and> pt_index va = pt_index vb \<longleftrightarrow> vpn va = vpn vb"
  using indices_eq_iff [of va vb] region_eq_iff [of va vb] by (auto simp: indices_def)

lemma pd_entry_region: "region va = region vb \<Longrightarrow> pd_entry mp va = pd_entry mp vb"
  using region_eq_iff [of va vb] by (simp add: pd_entry_def)

lemma opened_region: "region va = region vb \<Longrightarrow> opened mp va = opened mp vb"
  by (simp add: opened_def pd_entry_region [of va vb])

lemma opened_tables:
  assumes "opened mp va"
  shows "bit (ent mp [] (pml4_index va)) 0" and "bit (ent mp [pml4_index va] (pdpt_index va)) 0"
  using assms by (auto simp: opened_def pd_entry_def entry_at_def Let_def split: option.splits if_splits)

text \<open>One level: a table that is there costs nothing, a new one a page; only one entry changes.\<close>

lemma ensure_step:
  assumes tree: "mp_tree mp" and p: "path_ok (p @ [i])" "mp_walk mp p = Some t"
    and fit: "bit (ent mp p i) 0 \<longrightarrow> \<not> bit (ent mp p i) 7" and room: "room (k + (if bit (ent mp p i) 0 then 0 else 1)) (mp_bump mp)"
  obtains new mp' where "ensure_table t i mp = (Ok new, mp')" "mp_tree mp'" "mp_walk mp' (p @ [i]) = Some new" "room k (mp_bump mp')"
    "mp_pml4 mp' = mp_pml4 mp" "bit (ent mp' p i) 0" "\<not> bit (ent mp' p i) 7"
    "\<And>q j. path_ok q \<Longrightarrow> j < 512 \<Longrightarrow> q \<noteq> p \<or> j \<noteq> i \<Longrightarrow> ent mp' q j = ent mp q j"
    "bit (ent mp p i) 0 \<Longrightarrow> ent mp' p i = ent mp p i"
proof -
  let ?e = "mem_load64 (mp_mem mp) (entry_ptr t i)"
  have e: "ent mp p i = ?e" using p(2) by (simp add: entry_at_def)
  have pi: "path_ok p" "i < 512" using p(1) by (simp_all add: path_ok_snoc)
  show thesis
  proof (cases "bit ?e 0")
    case True
    then have r: "ensure_table t i mp = (Ok (?e AND PHYS_MASK), mp)"
      using fit e by (simp add: ensure_table_def Let_def and_single_zero)
    show thesis
      by (rule that [OF r tree]) (use True fit e room in \<open>auto simp: walk_snoc\<close>)
  next
    case free: False
    have "room (Suc k) (mp_bump mp)" using room free e by simp
    from alloc_table_room [OF treeD(1) [OF tree] this] obtain new mp1 where a: "alloc_table mp = (Ok new, mp1)" "room k (mp_bump mp1)" .
    define mp' where "mp' = mp1\<lparr>mp_mem := mem_store64 (entry_ptr t i) (new OR TABLE_FLAGS) (mp_mem mp1)\<rparr>"
    have r: "ensure_table t i mp = (Ok new, mp')" using free a(1) by (simp add: ensure_table_def Let_def and_single_zero mp'_def)
    note new = alloc_table_Ok [OF treeD(1,2) [OF tree] a(1)]
    note tw = table_write [OF tree p free new(1-3), folded new(5)]
    from ensure_table_grows [OF tree p _ r, of UNIV UNIV] have g: "grow UNIV UNIV mp mp'" and w: "mp_walk mp' (p @ [i]) = Some new" by auto
    have ents: "ent mp' q j = (if q = p \<and> j = i then new OR TABLE_FLAGS else ent mp q j)" if "path_ok q" "j < 512" for q j
      using tw(2) [OF that] by (simp add: mp'_def new(7))
    note here = ents [OF pi]
    show thesis
      by (rule that [OF r growD(1) [OF g] w]) (use a(2) growD(2) [OF g] here table_entry [OF new(1,2)] ents free e in \<open>auto simp: mp'_def\<close>)
  qed
qed

section \<open>One chunk\<close>

text \<open>A chunk: its virtual and physical address, and whether it is one of 2 MiB.\<close>

type_synonym chunk = "u64 \<times> u64 \<times> bool"

definition fits :: "Mapper \<Rightarrow> chunk \<Rightarrow> bool" where
  "fits mp c \<longleftrightarrow> (case c of (virt, phys, huge) \<Rightarrow>
     if huge then opened mp virt \<longrightarrow> bit (pd_entry mp virt) 7 \<and> pd_entry mp virt AND PHYS_MASK = phys AND PHYS_MASK
     else (opened mp virt \<longrightarrow> \<not> bit (pd_entry mp virt) 7) \<and> (bit (pt_entry mp virt) 0 \<longrightarrow> pt_entry mp virt AND PHYS_MASK = phys AND PHYS_MASK))"

definition agree :: "chunk \<Rightarrow> chunk \<Rightarrow> bool" where
  "agree c d \<longleftrightarrow> (case (c, d) of ((virt, phys, huge), (virt', phys', huge')) \<Rightarrow> region virt = region virt' \<longrightarrow>
     huge = huge' \<and> (huge \<or> vpn virt = vpn virt' \<longrightarrow> phys AND PHYS_MASK = phys' AND PHYS_MASK))"

definition map_one :: "chunk \<Rightarrow> Mapper \<Rightarrow> unit mapping_result" where
  "map_one c mp = (case c of (virt, phys, huge) \<Rightarrow> if huge then map_2m virt phys mp else map_4k virt phys mp)"

lemma two_levels:
  assumes tree: "mp_tree mp" and room: "room (k + (if opened mp virt then 0 else 2)) (mp_bump mp)"
  obtains pdpt mp1 pd mp2 where "ensure_table (mp_pml4 mp) (pml4_index virt) mp = (Ok pdpt, mp1)"
    "ensure_table pdpt (pdpt_index virt) mp1 = (Ok pd, mp2)" "mp_tree mp2" "mp_pml4 mp2 = mp_pml4 mp"
    "mp_walk mp2 [pml4_index virt, pdpt_index virt] = Some pd" "room k (mp_bump mp2)"
    "\<And>q j. path_ok q \<Longrightarrow> 2 \<le> length q \<Longrightarrow> j < 512 \<Longrightarrow> ent mp2 q j = ent mp q j"
proof -
  let ?i = "pml4_index virt" and ?j = "pdpt_index virt"
  let ?n1 = "if bit (ent mp [] ?i) 0 then 0 else 1 :: nat" and ?n2 = "if bit (ent mp [?i] ?j) 0 then 0 else 1 :: nat"
  have "room ((k + ?n2) + ?n1) (mp_bump mp)" using opened_tables [of mp virt] by (intro room_mono [OF room]) auto
  then obtain pdpt mp1 where 1: "ensure_table (mp_pml4 mp) ?i mp = (Ok pdpt, mp1)" "mp_tree mp1" "mp_walk mp1 ([] @ [?i]) = Some pdpt"
    "room (k + ?n2) (mp_bump mp1)" "mp_pml4 mp1 = mp_pml4 mp"
    "\<And>q j. path_ok q \<Longrightarrow> j < 512 \<Longrightarrow> q \<noteq> [] \<or> j \<noteq> ?i \<Longrightarrow> ent mp1 q j = ent mp q j"
    by (rule ensure_step [OF tree, of "[]" ?i "mp_pml4 mp" "k + ?n2", rotated 3]) (use treeD(6) [OF tree, of "[]"] in simp_all)
  have e: "ent mp1 [?i] ?j = ent mp [?i] ?j" using 1(6) [of "[?i]" ?j] by simp
  from 1(4) have "room (k + (if bit (ent mp1 [?i] ?j) 0 then 0 else 1)) (mp_bump mp1)" by (simp only: e)
  then obtain pd mp2 where 2: "ensure_table pdpt ?j mp1 = (Ok pd, mp2)" "mp_tree mp2" "mp_walk mp2 ([?i] @ [?j]) = Some pd"
    "room k (mp_bump mp2)" "mp_pml4 mp2 = mp_pml4 mp1"
    "\<And>q j. path_ok q \<Longrightarrow> j < 512 \<Longrightarrow> q \<noteq> [?i] \<or> j \<noteq> ?j \<Longrightarrow> ent mp2 q j = ent mp1 q j"
    by (rule ensure_step [OF 1(2), of "[?i]" ?j pdpt k, rotated 3]) (use 1(3) treeD(6) [OF 1(2), of "[?i]"] in simp_all)
  have ents: "ent mp2 q j = ent mp q j" if "path_ok q" "2 \<le> length q" "j < 512" for q j
  proof -
    have "q \<noteq> []" "q \<noteq> [?i]" using that(2) by auto
    with 1(6) [OF that(1,3)] 2(6) [OF that(1,3)] show ?thesis by simp
  qed
  show thesis
    by (rule that [OF 1(1) 2(1,2)]) (use 1(5) 2(3-5) ents in simp_all)
qed

text \<open>What mapping a chunk does to the entries, when the chunk fits.\<close>

lemma map_2m_entries:
  assumes tree: "mp_tree mp" and fit: "fits mp (virt, phys, True)" and room: "room (k + (if opened mp virt then 0 else 2)) (mp_bump mp)"
  obtains mp' where "map_2m virt phys mp = (Ok (), mp')" "room k (mp_bump mp')" "\<And>va. pt_entry mp' va = pt_entry mp va"
    "\<And>va. pd_entry mp' va = (if region va = region virt \<and> \<not> opened mp virt then leaf_2m phys else pd_entry mp va)"
proof -
  let ?p = "[pml4_index virt, pdpt_index virt]"
  obtain pdpt mp1 pd mp2 where l: "ensure_table (mp_pml4 mp) (pml4_index virt) mp = (Ok pdpt, mp1)"
    "ensure_table pdpt (pdpt_index virt) mp1 = (Ok pd, mp2)" "mp_tree mp2" "mp_pml4 mp2 = mp_pml4 mp"
    "mp_walk mp2 ?p = Some pd" "room k (mp_bump mp2)"
    "\<And>q j. path_ok q \<Longrightarrow> 2 \<le> length q \<Longrightarrow> j < 512 \<Longrightarrow> ent mp2 q j = ent mp q j"
    by (rule two_levels [OF tree room]) blast
  have e: "mem_load64 (mp_mem mp2) (entry_ptr pd (pd_index virt)) = pd_entry mp virt"
    using l(5) l(7) [of ?p "pd_index virt"] by (simp add: pd_entry_def entry_at_def)
  have same: "pd_entry mp2 va = pd_entry mp va" "pt_entry mp2 va = pt_entry mp va" for va
    using l(7) by (simp_all add: pd_entry_def pt_entry_def)
  have m: "map_2m virt phys mp = put_2m virt phys pd mp2" using l(1,2) by (simp add: map_2m_put)
  show thesis
  proof (cases "opened mp virt")
    case True
    then have "put_2m virt phys pd mp2 = (Ok (), mp2)" using fit e by (simp add: put_2m_def Let_def fits_def opened_def)
    with that [of mp2] m l(6) same True show thesis by simp
  next
    case False
    let ?mp = "mp2\<lparr>mp_mem := mem_store64 (entry_ptr pd (pd_index virt)) (leaf_2m phys) (mp_mem mp2)\<rparr>"
    have free: "\<not> bit (mem_load64 (mp_mem mp2) (entry_ptr pd (pd_index virt))) 0" using False e by (simp add: opened_def)
    then have "put_2m virt phys pd mp2 = (Ok (), ?mp)" by (simp add: put_2m_def Let_def)
    moreover have ents: "ent ?mp q j = (if q = ?p \<and> j = pd_index virt then leaf_2m phys else ent mp2 q j)" if "path_ok q" "j < 512" for q j
      using leaf_write(2) [OF l(3) path_ok_simps(3) l(5) index_bound(3) _ free that] by (simp add: leaf_bits)
    moreover have "pt_entry ?mp va = pt_entry mp va" for va
      using ents [of "[pml4_index va, pdpt_index va, pd_index va]" "pt_index va"] same(2) [of va] by (simp add: pt_entry_def)
    moreover have "pd_entry ?mp va = (if region va = region virt then leaf_2m phys else pd_entry mp va)" for va
      using ents [of "[pml4_index va, pdpt_index va]" "pd_index va"] same(1) [of va] region_eq_iff [of va virt] by (auto simp: pd_entry_def)
    ultimately show thesis using that [of ?mp] m l(6) False by simp
  qed
qed

lemma map_4k_entries:
  assumes tree: "mp_tree mp" and fit: "fits mp (virt, phys, False)" and room: "room (k + (if opened mp virt then 0 else 3)) (mp_bump mp)"
  obtains mp' T where "map_4k virt phys mp = (Ok (), mp')" "room k (mp_bump mp')" "bit T 0" "\<not> bit T 7"
    "\<And>va. pd_entry mp' va = (if region va = region virt \<and> \<not> opened mp virt then T else pd_entry mp va)"
    "\<And>va. pt_entry mp' va = (if vpn va = vpn virt \<and> \<not> bit (pt_entry mp virt) 0 then leaf_4k phys else pt_entry mp va)"
proof -
  let ?p = "[pml4_index virt, pdpt_index virt]" and ?q = "[pml4_index virt, pdpt_index virt, pd_index virt]"
  have r: "room ((k + (if opened mp virt then 0 else 1)) + (if opened mp virt then 0 else 2)) (mp_bump mp)"
    by (rule room_mono [OF room]) simp
  obtain pdpt mp1 pd mp2 where l: "ensure_table (mp_pml4 mp) (pml4_index virt) mp = (Ok pdpt, mp1)"
    "ensure_table pdpt (pdpt_index virt) mp1 = (Ok pd, mp2)" "mp_tree mp2" "mp_pml4 mp2 = mp_pml4 mp"
    "mp_walk mp2 ?p = Some pd" "room (k + (if opened mp virt then 0 else 1)) (mp_bump mp2)"
    "\<And>q j. path_ok q \<Longrightarrow> 2 \<le> length q \<Longrightarrow> j < 512 \<Longrightarrow> ent mp2 q j = ent mp q j"
    by (rule two_levels [OF tree r]) blast
  have pd: "ent mp2 ?p (pd_index virt) = pd_entry mp virt" using l(7) [of ?p "pd_index virt"] by (simp add: pd_entry_def)
  have r2: "room (k + (if bit (ent mp2 ?p (pd_index virt)) 0 then 0 else 1)) (mp_bump mp2)" using l(6) pd by (simp add: opened_def)
  have fit2: "bit (ent mp2 ?p (pd_index virt)) 0 \<longrightarrow> \<not> bit (ent mp2 ?p (pd_index virt)) 7" using fit pd by (simp add: fits_def opened_def)
  obtain pt mp3 where 3: "ensure_table pd (pd_index virt) mp2 = (Ok pt, mp3)" "mp_tree mp3" "mp_walk mp3 (?p @ [pd_index virt]) = Some pt"
    "room k (mp_bump mp3)" "mp_pml4 mp3 = mp_pml4 mp2" "bit (ent mp3 ?p (pd_index virt)) 0" "\<not> bit (ent mp3 ?p (pd_index virt)) 7"
    "\<And>q j. path_ok q \<Longrightarrow> j < 512 \<Longrightarrow> q \<noteq> ?p \<or> j \<noteq> pd_index virt \<Longrightarrow> ent mp3 q j = ent mp2 q j"
    "bit (ent mp2 ?p (pd_index virt)) 0 \<Longrightarrow> ent mp3 ?p (pd_index virt) = ent mp2 ?p (pd_index virt)"
    by (rule ensure_step [OF l(3) _ l(5) fit2 r2]) (simp, blast)
  define T where "T = ent mp3 ?p (pd_index virt)"
  have pd3: "pd_entry mp3 va = (if region va = region virt \<and> \<not> opened mp virt then T else pd_entry mp va)" for va
    using 3(8) [of "[pml4_index va, pdpt_index va]" "pd_index va"] 3(9) l(7) [of "[pml4_index va, pdpt_index va]" "pd_index va"]
      region_eq_iff [of va virt] pd by (auto simp: pd_entry_def T_def opened_def)
  have pt3: "pt_entry mp3 va = pt_entry mp va" for va
    using 3(8) [of "[pml4_index va, pdpt_index va, pd_index va]" "pt_index va"] l(7) by (simp add: pt_entry_def)
  have walk3: "mp_walk mp3 ?q = Some pt" using 3(3) by simp
  have e: "mem_load64 (mp_mem mp3) (entry_ptr pt (pt_index virt)) = pt_entry mp virt"
    using walk3 pt3 [of virt] by (simp add: pt_entry_def entry_at_def)
  have m: "map_4k virt phys mp = put_4k virt phys pt mp3" using l(1,2) 3(1) by (simp add: map_4k_put)
  show thesis
  proof (cases "bit (pt_entry mp virt) 0")
    case True
    then have "put_4k virt phys pt mp3 = (Ok (), mp3)" using fit e by (simp add: put_4k_def Let_def fits_def)
    with that [of mp3 T] m 3(4,6,7) pd3 pt3 True show thesis by (simp add: T_def)
  next
    case False
    let ?mp = "mp3\<lparr>mp_mem := mem_store64 (entry_ptr pt (pt_index virt)) (leaf_4k phys) (mp_mem mp3)\<rparr>"
    have free: "\<not> bit (mem_load64 (mp_mem mp3) (entry_ptr pt (pt_index virt))) 0" using False e by simp
    then have "put_4k virt phys pt mp3 = (Ok (), ?mp)" by (simp add: put_4k_def Let_def)
    moreover have ents: "ent ?mp q j = (if q = ?q \<and> j = pt_index virt then leaf_4k phys else ent mp3 q j)" if "path_ok q" "j < 512" for q j
      using leaf_write(2) [OF 3(2) path_ok_simps(4) walk3 index_bound(4) _ free that] by simp
    moreover have "pd_entry ?mp va = pd_entry mp3 va" for va
      using ents [of "[pml4_index va, pdpt_index va]" "pd_index va"] by (simp add: pd_entry_def)
    moreover have "pt_entry ?mp va = (if vpn va = vpn virt then leaf_4k phys else pt_entry mp va)" for va
      using ents [of "[pml4_index va, pdpt_index va, pd_index va]" "pt_index va"] pt3 [of va] region_eq_iff [of va virt] vpn_eq_iff [of va virt]
      by (auto simp: pt_entry_def)
    ultimately show thesis using that [of ?mp T] m 3(4,6,7) pd3 False by (simp add: T_def)
  qed
qed

text \<open>A chunk that fits can be mapped. Its block is open then, and chunks that agree with it still fit.\<close>

lemma map_one_room:
  assumes tree: "mp_tree mp" and fit: "fits mp c" and room: "room (k + (if opened mp (fst c) then 0 else 3)) (mp_bump mp)"
  obtains mp' where "map_one c mp = (Ok (), mp')" "mp_tree mp'" "room k (mp_bump mp')" "opened mp' (fst c)"
    "\<And>va. opened mp va \<Longrightarrow> opened mp' va" "\<And>d. agree c d \<Longrightarrow> fits mp d \<Longrightarrow> fits mp' d"
proof -
  obtain virt phys huge where c: "c = (virt, phys, huge)" by (rule prod_cases3)
  show thesis
  proof (cases huge)
    case True
    have f: "fits mp (virt, phys, True)" using fit c True by simp
    have "room (k + (if opened mp virt then 0 else 2)) (mp_bump mp)" by (rule room_mono [OF room]) (simp add: c)
    then obtain mp' where m: "map_2m virt phys mp = (Ok (), mp')" "room k (mp_bump mp')" and pt: "\<And>va. pt_entry mp' va = pt_entry mp va"
      and pd: "\<And>va. pd_entry mp' va = (if region va = region virt \<and> \<not> opened mp virt then leaf_2m phys else pd_entry mp va)"
      by (rule map_2m_entries [OF tree f]) blast
    have "mp_tree mp'" using map_2m_grows [OF tree m(1)] growD(1) by blast
    moreover have "opened mp' virt" by (simp add: opened_def pd leaf_bits)
    moreover have "opened mp' va" if "opened mp va" for va using that by (simp add: opened_def pd leaf_bits)
    moreover have "fits mp' d" if "agree c d" "fits mp d" for d
    proof -
      obtain v p h where d: "d = (v, p, h)" by (rule prod_cases3)
      show ?thesis
      proof (cases "region v = region virt")
        case r: True
        with that(1) have h: "h" "p AND PHYS_MASK = phys AND PHYS_MASK" by (simp_all add: agree_def c True d)
        show ?thesis
          using that(2) h by (simp add: fits_def d opened_def pd pd_entry_region [OF r] leaf_bits r)
      next
        case False
        with that(2) show ?thesis by (simp add: fits_def d opened_def pd pt)
      qed
    qed
    ultimately show thesis using that [of mp'] m by (simp add: map_one_def c True)
  next
    case False
    have f: "fits mp (virt, phys, False)" using fit c False by simp
    have "room (k + (if opened mp virt then 0 else 3)) (mp_bump mp)" using room by (simp add: c)
    then obtain mp' T where m: "map_4k virt phys mp = (Ok (), mp')" "room k (mp_bump mp')" and T: "bit T 0" "\<not> bit T 7"
      and pd: "\<And>va. pd_entry mp' va = (if region va = region virt \<and> \<not> opened mp virt then T else pd_entry mp va)"
      and pt: "\<And>va. pt_entry mp' va = (if vpn va = vpn virt \<and> \<not> bit (pt_entry mp virt) 0 then leaf_4k phys else pt_entry mp va)"
      by (rule map_4k_entries [OF tree f]) blast
    have "mp_tree mp'" using map_4k_grows [OF tree m(1)] growD(1) by blast
    moreover have "opened mp' virt" using T by (simp add: opened_def pd)
    moreover have "opened mp' va" if "opened mp va" for va using that T by (simp add: opened_def pd)
    moreover have "fits mp' d" if "agree c d" "fits mp d" for d
    proof -
      obtain v p h where d: "d = (v, p, h)" by (rule prod_cases3)
      show ?thesis
      proof (cases "region v = region virt")
        case r: True
        with that(1) have h: "\<not> h" "vpn v = vpn virt \<Longrightarrow> p AND PHYS_MASK = phys AND PHYS_MASK" by (auto simp: agree_def c False d)
        show ?thesis
          using that(2) h T by (simp add: fits_def d opened_def pd pt pd_entry_region [OF r] leaf_bits r)
      next
        case n: False
        then have "vpn v \<noteq> vpn virt" by (auto simp: region_def)
        with n that(2) show ?thesis by (simp add: fits_def d opened_def pd pt)
      qed
    qed
    ultimately show thesis using that [of mp'] m False by (simp add: map_one_def c)
  qed
qed

section \<open>Lists of chunks\<close>

primrec map_all :: "chunk list \<Rightarrow> Mapper \<Rightarrow> unit mapping_result" where
  "map_all [] mp = (Ok (), mp)"
| "map_all (c # cs) mp = try_st (map_one c mp) (\<lambda>_ mp. map_all cs mp)"

text \<open>The blocks of 2 MiB a list needs tables for.\<close>

definition unopened :: "Mapper \<Rightarrow> chunk list \<Rightarrow> nat set" where
  "unopened mp cs = (\<lambda>c. region (fst c)) ` {c \<in> set cs. \<not> opened mp (fst c)}"

lemma finite_unopened: "finite (unopened mp cs)"
  by (simp add: unopened_def)

lemma map_all_room:
  assumes "mp_tree mp" and "\<And>c. c \<in> set cs \<Longrightarrow> fits mp c" and "\<And>c d. c \<in> set cs \<Longrightarrow> d \<in> set cs \<Longrightarrow> agree c d"
    and "room (k + 3 * card (unopened mp cs)) (mp_bump mp)"
  shows "\<exists>mp'. map_all cs mp = (Ok (), mp') \<and> mp_tree mp' \<and> room k (mp_bump mp')"
  using assms
proof (induction cs arbitrary: mp)
  case (Cons c cs)
  let ?n = "if opened mp (fst c) then 0 else 3 :: nat"
  have bound: "card (unopened mp' cs) + ?n div 3 \<le> card (unopened mp (c # cs))"
    if "opened mp' (fst c)" "\<And>va. opened mp va \<Longrightarrow> opened mp' va" for mp'
  proof -
    have sub: "unopened mp' cs \<subseteq> unopened mp (c # cs)" unfolding unopened_def using that(2) by (intro image_mono) auto
    show ?thesis
    proof (cases "opened mp (fst c)")
      case True
      with card_mono [OF finite_unopened sub] show ?thesis by simp
    next
      case False
      have "region (fst c) \<notin> unopened mp' cs"
      proof
        assume "region (fst c) \<in> unopened mp' cs"
        then obtain d :: chunk where "region (fst c) = region (fst d)" "\<not> opened mp' (fst d)"
          unfolding unopened_def by blast
        with opened_region [of "fst c" "fst d" mp'] that(1) show False by simp
      qed
      moreover have "region (fst c) \<in> unopened mp (c # cs)" using False by (simp add: unopened_def)
      ultimately have "unopened mp' cs \<subset> unopened mp (c # cs)" using sub by blast
      from psubset_card_mono [OF finite_unopened this] False show ?thesis by simp
    qed
  qed
  have fit: "fits mp c" by (rule Cons.prems(2)) simp
  let ?k = "k + 3 * (card (unopened mp (c # cs)) - ?n div 3)"
  have pos: "\<not> opened mp (fst c) \<Longrightarrow> 0 < card (unopened mp (c # cs))"
  proof -
    assume "\<not> opened mp (fst c)"
    then have "region (fst c) \<in> unopened mp (c # cs)" by (simp add: unopened_def)
    with finite_unopened [of mp "c # cs"] show ?thesis by (auto simp: card_gt_0_iff)
  qed
  have "room (?k + ?n) (mp_bump mp)" using pos by (intro room_mono [OF Cons.prems(4)]) (cases "opened mp (fst c)"; simp)
  then obtain mp' where m: "map_one c mp = (Ok (), mp')" "mp_tree mp'" "room ?k (mp_bump mp')" "opened mp' (fst c)"
    "\<And>va. opened mp va \<Longrightarrow> opened mp' va" "\<And>d. agree c d \<Longrightarrow> fits mp d \<Longrightarrow> fits mp' d"
    by (rule map_one_room [OF Cons.prems(1) fit]) blast
  have r: "room (k + 3 * card (unopened mp' cs)) (mp_bump mp')" using bound [OF m(4,5)] by (intro room_mono [OF m(3)]) linarith
  have "fits mp' d" if "d \<in> set cs" for d by (rule m(6)) (use Cons.prems(2,3) that in simp_all)
  with Cons.IH [OF m(2) _ _ r] Cons.prems(3) m(1) show ?case by simp
qed (simp add: unopened_def)

lemma map_all_append: "map_all (cs @ ds) mp = try_st (map_all cs mp) (\<lambda>_ mp. map_all ds mp)"
  by (induction cs arbitrary: mp) (auto split: result.split try_splits simp: try_st_def split_beta)

text \<open>The chunks of a call of \<^verbatim>\<open>map_range\<close>.\<close>

function chunks :: "u64 \<Rightarrow> u64 \<Rightarrow> u64 \<Rightarrow> chunk list" where
  "chunks virt phys len = (if len < PAGE then []
     else (virt, phys, huge_chunk virt phys len) # chunks (virt + chunk virt phys len) (phys + chunk virt phys len) (len - chunk virt phys len))"
  by pat_completeness auto
termination chunks
proof (relation "measure (\<lambda>(virt, phys, len). unat len)")
  fix virt phys len :: u64
  assume "\<not> len < PAGE"
  from chunk_facts(1,2) [OF this, of virt phys]
  show "((virt + chunk virt phys len, phys + chunk virt phys len, len - chunk virt phys len), virt, phys, len) \<in> measure (\<lambda>(virt, phys, len). unat len)"
    by (simp add: unat_sub word_less_nat_alt word_le_nat_alt)
qed simp

declare chunks.simps [simp del]

lemma map_loop_all: "map_loop virt phys len mp = map_all (chunks virt phys len) mp"
proof (induction virt phys len arbitrary: mp rule: chunks.induct)
  case (1 virt phys len)
  show ?case
  proof (cases "len < PAGE")
    case False
    have "map_loop (virt + chunk virt phys len) (phys + chunk virt phys len) (len - chunk virt phys len) =
        map_all (chunks (virt + chunk virt phys len) (phys + chunk virt phys len) (len - chunk virt phys len))"
      by (rule ext) (rule 1 [OF False])
    with False show ?thesis
      by (simp add: chunks.simps [of virt phys len] map_loop_chunk [of virt phys len] map_one_def map_chunk_def)
  qed (simp add: chunks.simps map_loop_chunk [of virt phys len])
qed

lemma map_range_all:
  assumes "aligned virt" "aligned phys" "aligned len"
  shows "map_range virt phys len mp = map_all (chunks virt phys len) mp"
proof -
  have "unat (len AND NOT (PAGE - 1)) = unat len" using assms(3) by (simp add: page_bits(2))
  then have "len AND NOT (PAGE - 1) = len" by (simp add: word_unat_eq_iff)
  with assms show ?thesis by (simp add: map_range_def page_bits(1) map_loop_all)
qed

section \<open>Where chunks are\<close>

definition chunk_size :: "chunk \<Rightarrow> nat" where
  "chunk_size c = (if snd (snd c) then 2 ^ 21 else 4096)"

definition chunk_span :: "chunk \<Rightarrow> nat set" where
  "chunk_span c = {unat (fst c) ..< unat (fst c) + chunk_size c}"

definition chunk_ok :: "chunk \<Rightarrow> bool" where
  "chunk_ok c \<longleftrightarrow> chunk_size c dvd unat (fst c)"

lemma unat_chunk: "unat (chunk virt phys len) = chunk_size (virt, phys, huge_chunk virt phys len)"
  by (simp add: chunk_def chunk_size_def HUGE_2M_def PAGE_def)

text \<open>The chunks of a range: each keeps the distance between virtual and physical address, and they tile the range.\<close>

lemma chunks_tile:
  assumes "aligned virt" and "aligned len" and "unat virt + unat len \<le> 2 ^ 64"
  shows "(\<forall>c\<in>set (chunks virt phys len). chunk_ok c \<and> fst c - fst (snd c) = virt - phys \<and>
      chunk_span c \<subseteq> {unat virt ..< unat virt + unat len} \<and> (snd (snd c) \<longrightarrow> 2 ^ 21 \<le> unat len)) \<and>
    (\<forall>c\<in>set (chunks virt phys len). \<forall>d\<in>set (chunks virt phys len). c = d \<or> chunk_span c \<inter> chunk_span d = {})"
  using assms
proof (induction virt phys len rule: chunks.induct)
  case (1 virt phys len)
  show ?case
  proof (cases "len < PAGE")
    case False
    let ?h = "huge_chunk virt phys len" and ?s = "chunk virt phys len"
    let ?c = "(virt, phys, ?h)" and ?cs = "chunks (virt + ?s) (phys + ?s) (len - ?s)"
    note f = chunk_facts [OF False, of virt phys]
    have size: "unat ?s = chunk_size ?c" by (rule unat_chunk)
    have le: "chunk_size ?c \<le> unat len" using f(1) by (simp add: size [symmetric] word_le_nat_alt)
    have len: "unat (len - ?s) = unat len - chunk_size ?c" using f(1) by (simp add: unat_sub size)
    have ok: "chunk_ok ?c" using huge_chunk_aligned(1) [of virt phys len] "1.prems"(1) by (simp add: chunk_ok_def chunk_size_def)
    have al: "4096 dvd chunk_size ?c" by (simp add: chunk_size_def)
    have al2: "aligned (len - ?s)" using "1.prems"(2) al by (simp add: len dvd_diff_nat)
    show ?thesis
    proof (cases "unat len = chunk_size ?c")
      case True
      then have "len - ?s < PAGE" by (simp add: word_less_nat_alt len unat_PAGE)
      then have "chunks virt phys len = [?c]" using False by (simp add: chunks.simps [of virt phys len] chunks.simps [of "virt + ?s"])
      with ok le show ?thesis by (auto simp: chunk_span_def chunk_size_def huge_chunk_def HUGE_2M_def word_le_nat_alt)
    next
      case more: False
      have virt: "unat (virt + ?s) = unat virt + chunk_size ?c"
        using "1.prems"(3) le more by (subst unat_add_no_overflow) (simp_all add: size)
      have al1: "aligned (virt + ?s)" using "1.prems"(1) al by (simp add: virt)
      note ih = "1.IH" [OF False al1 al2]
      have b: "unat (virt + ?s) + unat (len - ?s) \<le> 2 ^ 64" using "1.prems"(3) le by (simp add: virt len)
      have sub: "{unat (virt + ?s) ..< unat (virt + ?s) + unat (len - ?s)} = {unat virt + chunk_size ?c ..< unat virt + unat len}"
        using le by (simp add: virt len)
      have cs: "chunks virt phys len = ?c # ?cs" using False by (simp add: chunks.simps [of virt phys len])
      have here: "chunk_span ?c \<subseteq> {unat virt ..< unat virt + unat len}" "?h \<Longrightarrow> 2 ^ 21 \<le> unat len"
        using le by (auto simp: chunk_span_def chunk_size_def huge_chunk_def HUGE_2M_def word_le_nat_alt)
      have there: "chunk_ok d \<and> fst d - fst (snd d) = virt - phys \<and> chunk_span d \<subseteq> {unat virt + chunk_size ?c ..< unat virt + unat len} \<and>
          (snd (snd d) \<longrightarrow> 2 ^ 21 \<le> unat len)" if "d \<in> set ?cs" for d
      proof -
        from ih [OF b, unfolded sub] that have "chunk_ok d" "fst d - fst (snd d) = virt + ?s - (phys + ?s)"
          "chunk_span d \<subseteq> {unat virt + chunk_size ?c ..< unat virt + unat len}" "snd (snd d) \<longrightarrow> 2 ^ 21 \<le> unat (len - ?s)" by blast+
        then show ?thesis by (auto simp: len)
      qed
      then have inside: "chunk_ok d \<and> fst d - fst (snd d) = virt - phys \<and> chunk_span d \<subseteq> {unat virt ..< unat virt + unat len} \<and>
          (snd (snd d) \<longrightarrow> 2 ^ 21 \<le> unat len)" if "d \<in> set ?cs" for d
        using that by fastforce
      have d1: "chunk_span ?c \<inter> chunk_span d = {}" if "d \<in> set ?cs" for d
        using there [OF that] by (fastforce simp: chunk_span_def)
      have d2: "c = d \<or> chunk_span c \<inter> chunk_span d = {}" if "c \<in> set ?cs" "d \<in> set ?cs" for c d
        using ih [OF b] that by blast
      have "c = d \<or> chunk_span c \<inter> chunk_span d = {}" if "c \<in> insert ?c (set ?cs)" "d \<in> insert ?c (set ?cs)" for c d
        using that d1 [of c] d1 [of d] d2 [of c d] by (elim insertE) (simp_all add: Int_commute)
      moreover have "chunk_ok d \<and> fst d - fst (snd d) = virt - phys \<and> chunk_span d \<subseteq> {unat virt ..< unat virt + unat len} \<and>
          (snd (snd d) \<longrightarrow> 2 ^ 21 \<le> unat len)" if "d \<in> insert ?c (set ?cs)" for d
        using that inside [of d] here ok by auto
      ultimately show ?thesis unfolding cs list.set by blast
    qed
  qed (simp add: chunks.simps)
qed

end
