(* ===== verification/Kernel_Build.thy ===== *)
theory Kernel_Build
  imports Paging_Chunks Kernel_Space
begin

text \<open>
  When \<^verbatim>\<open>paging::build\<close> succeeds: the ranges it maps for the kernel image, the modules and the direct map are
  chunks that agree with each other, the fresh root table has none of them, and the pool has the
  pages for the tables.
\<close>

section \<open>Chunks of the upper half\<close>

lemma high_vpn:
  assumes "2 ^ 64 - 2 ^ 47 \<le> unat va"
  shows "vpn va = unat va div 4096 - (2 ^ 16 - 1) * 2 ^ 36"
proof -
  have lt: "unat va < 2 ^ 64" using unsigned_less [of va] by simp
  have "(2 ^ 16 - 1) * 2 ^ 36 \<le> unat va div 4096" "unat va div 4096 < (2 ^ 16 - 1) * 2 ^ 36 + 2 ^ 36"
    using assms lt by simp_all
  moreover have "n mod 2 ^ 36 = n - (2 ^ 16 - 1) * 2 ^ 36" if "(2 ^ 16 - 1) * 2 ^ 36 \<le> n" "n < (2 ^ 16 - 1) * 2 ^ 36 + 2 ^ 36" for n :: nat
    using that mod_mult_self3 [of "2 ^ 16 - 1" "2 ^ 36" "n - (2 ^ 16 - 1) * 2 ^ 36"] by simp
  ultimately show ?thesis by (simp add: vpn_def)
qed

lemma high_region:
  assumes "2 ^ 64 - 2 ^ 47 \<le> unat va"
  shows "region va = unat va div 2 ^ 21 - (2 ^ 16 - 1) * 2 ^ 27"
proof -
  have "(m - (2 ^ 16 - 1) * 2 ^ 36) div 512 = m div 512 - (2 ^ 16 - 1) * 2 ^ 27" for m :: nat
    by simp
  then show ?thesis by (simp add: region_def high_vpn [OF assms] div_mult2_eq [symmetric])
qed

lemma high_eq:
  assumes "2 ^ 64 - 2 ^ 47 \<le> unat va" and "2 ^ 64 - 2 ^ 47 \<le> unat vb"
  shows "vpn va = vpn vb \<longleftrightarrow> unat va div 4096 = unat vb div 4096" and "region va = region vb \<longleftrightarrow> unat va div 2 ^ 21 = unat vb div 2 ^ 21"
  using assms by (auto simp: high_vpn high_region eq_diff_iff)

definition high_chunk :: "chunk \<Rightarrow> bool" where
  "high_chunk c \<longleftrightarrow> chunk_ok c \<and> 2 ^ 64 - 2 ^ 47 \<le> unat (fst c)"

lemma agree_refl: "agree c c"
  by (simp add: agree_def split_beta)

lemma agree_sym: "agree c d \<longleftrightarrow> agree d c"
  by (auto simp: agree_def split: prod.splits)

lemma huge_covers_block:
  assumes "2 ^ 21 dvd (v :: nat)" and "v div 2 ^ 21 = w div 2 ^ 21"
  shows "w \<in> {v ..< v + 2 ^ 21}"
proof -
  have "v = v div 2 ^ 21 * 2 ^ 21" using assms(1) by simp
  then have "v = w div 2 ^ 21 * 2 ^ 21" by (simp only: assms(2))
  then show ?thesis using div_mult_mod_eq [of w "2 ^ 21"] mod_less_divisor [of "2 ^ 21" w] by simp
qed

lemma disjoint_agree:
  assumes c: "high_chunk c" and d: "high_chunk d" and disj: "chunk_span c \<inter> chunk_span d = {}"
  shows "agree c d"
proof -
  obtain v p h v' p' h' where cd: "c = (v, p, h)" "d = (v', p', h')" by (metis prod_cases3)
  have hi: "2 ^ 64 - 2 ^ 47 \<le> unat v" "2 ^ 64 - 2 ^ 47 \<le> unat v'" using c d by (simp_all add: high_chunk_def cd)
  have v: "unat v \<in> chunk_span c" "unat v' \<in> chunk_span d" by (simp_all add: chunk_span_def chunk_size_def cd)
  have "\<not> h \<and> \<not> h' \<and> vpn v \<noteq> vpn v'" if r: "region v = region v'"
  proof (intro conjI notI)
    have blk: "unat v div 2 ^ 21 = unat v' div 2 ^ 21" using r high_eq(2) [OF hi] by simp
    show False if h
      using huge_covers_block [OF _ blk] that c disj v(2) by (auto simp: high_chunk_def chunk_ok_def cd chunk_size_def chunk_span_def)
    show False if h'
      using huge_covers_block [OF _ blk [symmetric]] that d disj v(1) by (auto simp: high_chunk_def chunk_ok_def cd chunk_size_def chunk_span_def)
    assume "vpn v = vpn v'"
    then have "unat v div 4096 = unat v' div 4096" using high_eq(1) [OF hi] by simp
    moreover have "4096 dvd chunk_size x" for x by (simp add: chunk_size_def)
    then have "4096 dvd unat v" "4096 dvd unat v'" using c d dvd_trans by (auto simp: high_chunk_def chunk_ok_def cd)
    ultimately have "unat v = unat v'" by (metis dvd_div_mult_self)
    with disj v show False by auto
  qed
  then show ?thesis by (auto simp: agree_def cd)
qed

lemma offset_agree:
  assumes c: "high_chunk c" "\<not> snd (snd c)" and d: "high_chunk d" "\<not> snd (snd d)"
    and off: "fst c - fst (snd c) = fst d - fst (snd d)"
  shows "agree c d"
proof -
  obtain v p v' p' where cd: "c = (v, p, False)" "d = (v', p', False)" using c(2) d(2) by (metis prod.collapse)
  have hi: "2 ^ 64 - 2 ^ 47 \<le> unat v" "2 ^ 64 - 2 ^ 47 \<le> unat v'" and al: "4096 dvd unat v" "4096 dvd unat v'"
    using c d by (simp_all add: high_chunk_def cd chunk_ok_def chunk_size_def)
  have "v = v'" if "vpn v = vpn v'"
    using that high_eq(1) [OF hi] al by (metis dvd_div_mult_self word_unat_eq_iff)
  moreover have "p = p'" if "v = v'" using off that by (simp add: cd)
  ultimately show ?thesis by (auto simp: agree_def cd)
qed

section \<open>The tables a range needs\<close>

lemma blocks_of_range:
  assumes "\<forall>c\<in>set cs. high_chunk c \<and> chunk_span c \<subseteq> {v ..< v + n}"
  shows "card ((\<lambda>c. region (fst c)) ` set cs) \<le> n div 2 ^ 21 + 2"
proof -
  define f :: "nat \<Rightarrow> nat" where "f b = b - (2 ^ 16 - 1) * 2 ^ 27" for b
  have "(\<lambda>c. region (fst c)) ` set cs \<subseteq> f ` {v div 2 ^ 21 .. (v + n) div 2 ^ 21}"
  proof
    fix r assume "r \<in> (\<lambda>c. region (fst c)) ` set cs"
    then obtain c :: chunk where c: "c \<in> set cs" "r = region (fst c)" by blast
    have "unat (fst c) \<in> chunk_span c" by (simp add: chunk_span_def chunk_size_def)
    with assms c(1) have "unat (fst c) \<in> {v ..< v + n}" by blast
    then have "unat (fst c) div 2 ^ 21 \<in> {v div 2 ^ 21 .. (v + n) div 2 ^ 21}" by (simp add: div_le_mono)
    moreover have "r = f (unat (fst c) div 2 ^ 21)" using assms c by (simp only: high_chunk_def high_region f_def)
    ultimately show "r \<in> f ` {v div 2 ^ 21 .. (v + n) div 2 ^ 21}" by (intro image_eqI)
  qed
  from card_mono [OF _ this] card_image_le [of "{v div 2 ^ 21 .. (v + n) div 2 ^ 21}" f]
  have "card ((\<lambda>c. region (fst c)) ` set cs) \<le> card {v div 2 ^ 21 .. (v + n) div 2 ^ 21}" by (meson finite_atLeastAtMost finite_imageI le_trans)
  moreover have "(v + n) div 2 ^ 21 \<le> v div 2 ^ 21 + n div 2 ^ 21 + 1"
    using div_add1_eq [of v n "2 ^ 21"] by simp
  ultimately show ?thesis by simp
qed

section \<open>Ranges\<close>

text \<open>A call of \<^verbatim>\<open>map_range\<close>: virtual address, physical address, length.\<close>

type_synonym mapped_range = "u64 \<times> u64 \<times> u64"

definition range_span :: "mapped_range \<Rightarrow> nat set" where
  "range_span r = (case r of (virt, phys, len) \<Rightarrow> {unat virt ..< unat virt + unat len})"

definition range_ok :: "mapped_range \<Rightarrow> bool" where
  "range_ok r \<longleftrightarrow> (case r of (virt, phys, len) \<Rightarrow> aligned virt \<and> aligned phys \<and> aligned len \<and> upper_half virt len)"

text \<open>Ranges below 2 MiB that keep the same distance between addresses may overlap: they are mapped by pages of 4 KiB.\<close>

definition ranges_agree :: "mapped_range \<Rightarrow> mapped_range \<Rightarrow> bool" where
  "ranges_agree r s \<longleftrightarrow> r = s \<or> range_span r \<inter> range_span s = {} \<or> (case (r, s) of ((virt, phys, len), (virt', phys', len')) \<Rightarrow>
     unat len < 2 ^ 21 \<and> unat len' < 2 ^ 21 \<and> virt - phys = virt' - phys')"

definition table_pages :: "mapped_range list \<Rightarrow> nat" where
  "table_pages rs = (\<Sum>(virt, phys, len)\<leftarrow>rs. 3 * (unat len div 2 ^ 21 + 2))"

abbreviation range_chunks :: "mapped_range \<Rightarrow> chunk list" where
  "range_chunks r \<equiv> (case r of (virt, phys, len) \<Rightarrow> chunks virt phys len)"

lemma range_chunk:
  assumes "range_ok (virt, phys, len)" and "c \<in> set (chunks virt phys len)"
  shows "high_chunk c" "fst c - fst (snd c) = virt - phys" "chunk_span c \<subseteq> range_span (virt, phys, len)" "snd (snd c) \<Longrightarrow> 2 ^ 21 \<le> unat len"
    and "d \<in> set (chunks virt phys len) \<Longrightarrow> c = d \<or> chunk_span c \<inter> chunk_span d = {}"
proof -
  have "aligned virt" "aligned len" "unat virt + unat len \<le> 2 ^ 64" "2 ^ 64 - 2 ^ 47 \<le> unat virt"
    using assms(1) by (simp_all add: range_ok_def upper_half_def)
  note t = chunks_tile [OF this(1-3), of phys] and hi = this(4)
  have "unat (fst c) \<in> chunk_span c" by (simp add: chunk_span_def chunk_size_def)
  with t assms(2) have "unat virt \<le> unat (fst c)" by fastforce
  with t assms(2) hi show "high_chunk c" "fst c - fst (snd c) = virt - phys" "chunk_span c \<subseteq> range_span (virt, phys, len)"
    "snd (snd c) \<Longrightarrow> 2 ^ 21 \<le> unat len" by (auto simp: high_chunk_def range_span_def)
  show "c = d \<or> chunk_span c \<inter> chunk_span d = {}" if "d \<in> set (chunks virt phys len)"
    using t assms(2) that by blast
qed

lemma ranges_agree_chunks:
  assumes r: "range_ok r" and s: "range_ok s" and a: "ranges_agree r s" and c: "c \<in> set (range_chunks r)" and d: "d \<in> set (range_chunks s)"
  shows "agree c d"
proof -
  obtain v p l v' p' l' where rs: "r = (v, p, l)" "s = (v', p', l')" by (metis prod_cases3)
  have c': "c \<in> set (chunks v p l)" and d': "d \<in> set (chunks v' p' l')" using c d by (simp_all add: rs)
  note c = range_chunk [OF r [unfolded rs(1)] c'] and d = range_chunk [OF s [unfolded rs(2)] d']
  consider "r = s" | "range_span r \<inter> range_span s = {}" | "unat l < 2 ^ 21" "unat l' < 2 ^ 21" "v - p = v' - p'"
    using a by (auto simp: ranges_agree_def rs)
  then show ?thesis
  proof cases
    case 1
    then have "d \<in> set (chunks v p l)" using d' by (simp add: rs)
    from c(5) [OF this] agree_refl disjoint_agree [OF c(1) d(1)] show ?thesis by blast
  next
    case 2
    with c(3) d(3) have "chunk_span c \<inter> chunk_span d = {}" by (simp add: rs) blast
    from disjoint_agree [OF c(1) d(1) this] show ?thesis .
  next
    case 3
    with c(2,4) d(2,4) show ?thesis by (intro offset_agree [OF c(1) _ d(1)]) auto
  qed
qed

primrec map_ranges :: "mapped_range list \<Rightarrow> Mapper \<Rightarrow> unit mapping_result" where
  "map_ranges [] mp = (Ok (), mp)"
| "map_ranges (r # rs) mp = try_st (case r of (virt, phys, len) \<Rightarrow> map_range virt phys len mp) (\<lambda>_ mp. map_ranges rs mp)"

lemma map_ranges_all: "\<forall>r\<in>set rs. range_ok r \<Longrightarrow> map_ranges rs mp = map_all (concat (map range_chunks rs)) mp"
  by (induction rs arbitrary: mp) (auto simp: map_all_append map_range_all range_ok_def split_beta)

lemma blocks_of_ranges:
  "\<forall>r\<in>set rs. range_ok r \<Longrightarrow> 3 * card ((\<lambda>c. region (fst c)) ` set (concat (map range_chunks rs))) \<le> table_pages rs"
proof (induction rs)
  case (Cons r rs)
  obtain v p l where r: "r = (v, p, l)" by (rule prod_cases3)
  let ?f = "\<lambda>c :: chunk. region (fst c)"
  have ok: "range_ok (v, p, l)" using Cons.prems r by simp
  have "\<forall>c\<in>set (chunks v p l). high_chunk c \<and> chunk_span c \<subseteq> {unat v ..< unat v + unat l}"
    using range_chunk(1,3) [OF ok] by (simp add: range_span_def)
  from blocks_of_range [OF this] have "card (?f ` set (chunks v p l)) \<le> unat l div 2 ^ 21 + 2" .
  moreover have "card (?f ` set (concat (map range_chunks (r # rs)))) \<le> card (?f ` set (chunks v p l)) + card (?f ` set (concat (map range_chunks rs)))"
    using card_Un_le [of "?f ` set (chunks v p l)" "?f ` set (concat (map range_chunks rs))"] by (simp add: r image_Un)
  ultimately show ?case using Cons by (simp add: table_pages_def r)
qed (simp add: table_pages_def)

text \<open>Ranges that agree can be mapped into tables that are empty there.\<close>

lemma map_ranges_room:
  assumes tree: "mp_tree mp" and ok: "\<forall>r\<in>set rs. range_ok r" and a: "\<forall>r\<in>set rs. \<forall>s\<in>set rs. ranges_agree r s"
    and free: "\<And>va. pd_entry mp va = 0" "\<And>va. pt_entry mp va = 0" and room: "room (k + table_pages rs) (mp_bump mp)"
  shows "\<exists>mp'. map_ranges rs mp = (Ok (), mp') \<and> mp_tree mp' \<and> room k (mp_bump mp')"
proof -
  let ?cs = "concat (map range_chunks rs)"
  have "unopened mp ?cs \<subseteq> (\<lambda>c. region (fst c)) ` set ?cs" unfolding unopened_def by (rule image_mono) blast
  from card_mono [OF _ this] blocks_of_ranges [OF ok] have "3 * card (unopened mp ?cs) \<le> table_pages rs" by simp
  then have r: "room (k + 3 * card (unopened mp ?cs)) (mp_bump mp)" by (intro room_mono [OF room]) simp
  have "agree c d" if "c \<in> set ?cs" "d \<in> set ?cs" for c d
  proof -
    from that obtain r s where "r \<in> set rs" "c \<in> set (range_chunks r)" "s \<in> set rs" "d \<in> set (range_chunks s)" by auto
    with ranges_agree_chunks [of r s c d] ok a show ?thesis by blast
  qed
  moreover have "fits mp c" for c using free by (simp add: fits_def opened_def split: prod.split)
  ultimately show ?thesis using map_all_room [OF tree _ _ r] by (simp only: map_ranges_all [OF ok])
qed

section \<open>What build maps\<close>

definition entry_ranges :: "u64 \<Rightarrow> u64 \<Rightarrow> u64 \<Rightarrow> MemmapEntry \<Rightarrow> mapped_range list" where
  "entry_ranges hhdm kphys kvirt e =
     (let s = entry_start e; f = entry_end e in
      if me_length e = 0 \<or> f \<le> s then []
      else (if me_kind e = MEMMAP_EXECUTABLE_AND_MODULES \<and> kphys \<le> s then [(kvirt + (s - kphys), s, f - s)] else []) @
        (if hhdm_mapped_rev3 (me_kind e) then [(hhdm + s, s, f - s)] else []))"

definition build_ranges :: "u64 \<times> u64 \<Rightarrow> u64 \<Rightarrow> u64 \<Rightarrow> u64 \<Rightarrow> MemmapEntry list \<Rightarrow> mapped_range list" where
  "build_ranges bounds hhdm kphys kvirt entries =
     (fst bounds, kphys + (fst bounds - kvirt), align_up (snd bounds - fst bounds) PAGE) # concat (map (entry_ranges hhdm kphys kvirt) entries)"

lemma map_ranges_append: "map_ranges (rs @ ss) mp = try_st (map_ranges rs mp) (\<lambda>_ mp. map_ranges ss mp)"
  by (induction rs arbitrary: mp) (auto split: result.split try_splits simp: try_st_def split_beta)

lemma map_entries_ranges:
  "map_ranges (concat (map (entry_ranges hhdm kphys kvirt) es)) mp = (Ok (), mp') \<Longrightarrow>
    \<exists>acc'. map_entries hhdm kphys kvirt es acc mp = (Ok acc', mp')"
proof (induction es arbitrary: acc mp)
  case (Cons e es)
  obtain hb hs where acc: "acc = (hb, hs)" by (cases acc)
  from Cons.prems obtain mp1 where e: "map_ranges (entry_ranges hhdm kphys kvirt e) mp = (Ok (), mp1)"
    and es: "map_ranges (concat (map (entry_ranges hhdm kphys kvirt) es)) mp1 = (Ok (), mp')"
    by (auto simp: map_ranges_append try_st_Ok_iff)
  from e Cons.IH [OF es] show ?case
    unfolding acc map_entries_Cons entry_ranges_def Let_def by (auto simp: try_st_Ok_iff split: if_splits)
qed simp

text \<open>
  What \<^verbatim>\<open>build\<close> needs of the boot loader's answers: the image has a size and is not below its base, the ranges
  are page-aligned, lie in the upper half and agree.
\<close>

definition build_ready :: "u64 \<times> u64 \<Rightarrow> u64 \<Rightarrow> u64 \<Rightarrow> u64 \<Rightarrow> MemmapEntry list \<Rightarrow> bool" where
  "build_ready bounds hhdm kphys kvirt entries \<longleftrightarrow> fst bounds < snd bounds \<and> kvirt \<le> fst bounds \<and>
     (let rs = build_ranges bounds hhdm kphys kvirt entries in list_all range_ok rs \<and> list_all (\<lambda>r. list_all (ranges_agree r) rs) rs)"

definition build_pages :: "u64 \<times> u64 \<Rightarrow> u64 \<Rightarrow> u64 \<Rightarrow> u64 \<Rightarrow> MemmapEntry list \<Rightarrow> nat" where
  "build_pages bounds hhdm kphys kvirt entries = 2 + table_pages (build_ranges bounds hhdm kphys kvirt entries)"

lemma build_room:
  assumes b: "bump_ok (mc_bump mc)" "unat (ba_end (mc_bump mc)) \<le> 2 ^ 52"
    and ready: "build_ready bounds hhdm kphys kvirt entries" and room: "room (k + build_pages bounds hhdm kphys kvirt entries) (mc_bump mc)"
  obtains pm mc' where "build bounds hhdm kphys kvirt entries mc = (Ok pm, mc')" "room k (mc_bump mc')"
proof -
  obtain kstart kend where bd: "bounds = (kstart, kend)" by (rule prod.exhaust)
  let ?rs = "build_ranges bounds hhdm kphys kvirt entries"
  have b': "bump_ok (mp_bump (mapper 0 0 mc))" "unat (ba_end (mp_bump (mapper 0 0 mc))) \<le> 2 ^ 52" using b by (simp_all add: mapper_def)
  have "room (Suc (Suc k + table_pages ?rs)) (mp_bump (mapper 0 0 mc))" using room by (simp add: build_pages_def mapper_def)
  from alloc_table_room [OF b'(1) this] obtain root mp1 where a: "alloc_table (mapper 0 0 mc) = (Ok root, mp1)"
    and r1: "room (Suc k + table_pages ?rs) (mp_bump mp1)" .
  define mpr where "mpr = mp1\<lparr>mp_pml4 := root, mp_table_pages := 1\<rparr>"
  note empty = empty_tree [OF b' a]
  have t1: "mp_tree mpr" using empty(1) by (simp add: mpr_def)
  have none: "walk (mp_mem mpr) (mp_pml4 mpr) (pml4_index va # p) = None" for va p
    using empty(2) [of "pml4_index va" p] index_bound(1) [of va] by (simp add: mpr_def)
  have "pd_entry mpr va = 0" "pt_entry mpr va = 0" for va by (simp_all only: pd_entry_def pt_entry_def entry_at_def none option.case)
  then obtain mp3 where m: "map_ranges ?rs mpr = (Ok (), mp3)" "mp_tree mp3" "room (Suc k) (mp_bump mp3)"
    using map_ranges_room [OF t1, of ?rs "Suc k"] ready r1 by (auto simp: build_ready_def Let_def list_all_iff mpr_def)
  then obtain mp2 where k: "map_range kstart (kphys + (kstart - kvirt)) (align_up (kend - kstart) PAGE) mpr = (Ok (), mp2)"
    and "map_ranges (concat (map (entry_ranges hhdm kphys kvirt) entries)) mp2 = (Ok (), mp3)"
    by (auto simp: build_ranges_def bd try_st_Ok_iff)
  from map_entries_ranges [OF this(2)] obtain acc where e: "map_entries hhdm kphys kvirt entries (0, 0) mp2 = (Ok acc, mp3)" by blast
  obtain cr3 mp4 where w: "(if mc_cr4 mc AND CR4_LA57 \<noteq> 0 then wrap_la57 root mp3 else (Ok root, mp3)) = (Ok cr3, mp4)" "room k (mp_bump mp4)"
  proof (cases "mc_cr4 mc AND CR4_LA57 \<noteq> 0")
    case True
    from alloc_table_room [OF treeD(1) [OF m(2)] m(3)] obtain new mp4 where "alloc_table mp3 = (Ok new, mp4)" "room k (mp_bump mp4)" .
    with True that [of new "mp4\<lparr>mp_mem := mem_store64 (entry_ptr new 511) (root OR TABLE_FLAGS) (mp_mem mp4)\<rparr>"] show thesis
      by (simp add: wrap_la57_def)
  qed (use that m(3) room_mono in auto)
  obtain hb hs where acc: "acc = (hb, hs)" by (rule prod.exhaust)
  have lt: "\<not> kend \<le> kstart" "\<not> kstart < kvirt" using ready by (auto simp: build_ready_def bd)
  have mpr: "mapper root 1 (mc\<lparr>mc_bump := mp_bump mp1, mc_mem := mp_mem mp1, mc_kernel_pml4 := root\<rparr>) = mpr"
    by (simp add: mapper_def mpr_def)
  have "\<exists>pm mc'. build bounds hhdm kphys kvirt entries mc = (Ok pm, mc') \<and> room k (mc_bump mc')"
    using a k e w lt by (simp add: build_def bd Let_def put_back_def mpr acc)
  then show thesis using that by blast
qed

end
