(* ===== verification/Paging_Properties.thy ===== *)
theory Paging_Properties
  imports Kernel_Build
begin

text \<open>
  The properties of page tables and address spaces, with a machine of 16 MiB as their instance.
\<close>

section \<open>A machine with an empty kernel space\<close>

definition sample_bump :: BumpAllocator where
  "sample_bump = \<lparr>ba_hhdm = 0xffff800000000000, ba_start = 0x1000, ba_cursor = 0x1000, ba_end = 0x1000000\<rparr>"

definition sample_machine :: Machine where
  "sample_machine = \<lparr>mc_bump = sample_bump\<lparr>ba_cursor := 0x2000\<rparr>, mc_mem = (\<lambda>_. 0), mc_kernel_pml4 = 0x1000,
     mc_root_cr3 = 0x1000, mc_cr3 = 0x1000, mc_cr4 = 0\<rparr>"

definition sample_mapper :: Mapper where
  "sample_mapper = mapper 0x1000 0 sample_machine"

lemma sample_machine_ok: "spaces_ok sample_machine {0x1000}" and sample_machine_room: "room 4000 (mc_bump sample_machine)"
  and sample_unmapped: "translate (\<lambda>_. 0) 0x1000 va = None"
proof -
  let ?mc = "sample_machine\<lparr>mc_bump := sample_bump\<rparr>"
  have b: "bump_ok (mp_bump (mapper 0 0 ?mc))" "unat (ba_end (mp_bump (mapper 0 0 ?mc))) \<le> 2 ^ 52"
    by (simp_all add: bump_ok_def mapper_def sample_bump_def)
  have z: "mem_zero 0x1000 4096 (\<lambda>_. 0) = (\<lambda>_. 0 :: u8)" by (simp add: mem_zero_def fun_eq_iff)
  have a: "alloc_table (mapper 0 0 ?mc) = (Ok 0x1000, \<lparr>mp_bump = sample_bump\<lparr>ba_cursor := 0x2000\<rparr>, mp_pml4 = 0, mp_table_pages = 1, mp_mem = (\<lambda>_. 0)\<rparr>)"
    using alloc_pages_eq [OF b(1), of 1] by (simp add: alloc_table_def mapper_def sample_bump_def sample_machine_def PAGE_def z)
  note e = empty_tree [OF b a]
  have "tree (mc_bump sample_machine) (mc_mem sample_machine) 0x1000" using e(1) by (simp add: sample_machine_def)
  moreover have "walk (mc_mem sample_machine) 0x1000 [i] = None" if "i < 256" for i
    using e(2) [of i "[]"] that by (auto simp: sample_machine_def)
  moreover have "mc_kernel_pml4 sample_machine = 0x1000" by (simp add: sample_machine_def)
  ultimately show "spaces_ok sample_machine {0x1000}" unfolding spaces_ok_def by simp
  show "room 4000 (mc_bump sample_machine)" by (simp add: room_def sample_machine_def sample_bump_def)
  show "translate (\<lambda>_. 0) 0x1000 va = None" using e(3) by simp
qed

lemma sample_mapper_tree: "mp_tree sample_mapper" and sample_mapper_room: "room 4000 (mp_bump sample_mapper)"
  and sample_mapper_unmapped: "mp_translate sample_mapper va = None"
  using spaces_okD(2) [OF sample_machine_ok insertI1] sample_machine_room sample_unmapped
  by (simp_all add: sample_mapper_def mapper_def sample_machine_def)

text \<open>Two pages at \<^verbatim>\<open>0x200000\<close> map in the empty space.\<close>

lemma sample_map:
  obtains mp' where "map_range 0x200000 0x5000 0x2000 sample_mapper = (Ok (), mp')" "room 3994 (mp_bump mp')"
proof (rule map_range_room [OF sample_mapper_tree, of "0x200000" "0x5000" "0x2000" 3994])
  show "room (3994 + 3 * (unat (0x2000 :: u64) div 4096)) (mp_bump sample_mapper)" using sample_mapper_room by simp
qed (simp_all add: sample_mapper_unmapped dvd_eq_mod_eq_0)

section \<open>Properties\<close>

text \<open>
  C25. \<^verbatim>\<open>map_range\<close> does what a page table must: it never panics, whatever it returns the hierarchy stays well
  formed, no address that was mapped changes and none outside the range becomes mapped; and when it
  returns \<^verbatim>\<open>Ok\<close> the hardware's walk takes every address of the range to its physical address.
\<close>

theorem map_range_maps:
  assumes "mp_tree mp" and "map_range virt phys len mp = (res, mp')"
  shows "mp_tree mp' \<and> res \<noteq> Panic \<and>
    (\<forall>va. mp_translate mp' va = mp_translate mp va \<or> covers virt (unat len) va \<and> mp_translate mp va = None) \<and>
    (res = Ok () \<and> unat phys + unat len \<le> 2 ^ 52 \<longrightarrow>
      (\<forall>va. unat (va - virt) < unat len div 4096 * 4096 \<longrightarrow> mp_translate mp' va = Some (phys + (va - virt))))"
proof -
  note g = map_range_grows [OF assms]
  from growD(1,6) [OF conjunct1 [OF g]] g show ?thesis by blast
qed

theorem map_range_maps_witness:
  "\<exists>mp'. map_range 0x200000 0x5000 0x2000 sample_mapper = (Ok (), mp') \<and> mp_translate mp' 0x201234 = Some 0x6234"
proof -
  obtain mp' where m: "map_range 0x200000 0x5000 0x2000 sample_mapper = (Ok (), mp')" by (rule sample_map)
  from map_range_maps [OF sample_mapper_tree m] m show ?thesis by auto
qed

text \<open>
  Over any sequence of \<^verbatim>\<open>map_range\<close> calls, successful or not, the hierarchy stays well formed and an address
  once mapped keeps its physical address.
\<close>

theorem mappings_persist:
  assumes "run map_step mp calls mp'" and "mp_tree mp"
  shows "mp_tree mp' \<and> (\<forall>va pa. mp_translate mp va = Some pa \<longrightarrow> mp_translate mp' va = Some pa)"
  using page_tables.invar_run [OF assms] page_tables.grows_run [OF assms] unfolding keeps_translations_def by blast

theorem mappings_persist_witness:
  "\<exists>mp1 mp2. run map_step sample_mapper [(0x200000, 0x5000, 0x2000)] mp1 \<and> run map_step mp1 [(0x200000, 0x7000, 0x1000)] mp2 \<and>
    mp_translate mp2 0x200000 = Some 0x5000"
proof -
  obtain mp1 where m: "map_range 0x200000 0x5000 0x2000 sample_mapper = (Ok (), mp1)" by (rule sample_map)
  obtain res mp2 where m2: "map_range 0x200000 0x7000 0x1000 mp1 = (res, mp2)" by fastforce
  have run1: "run map_step sample_mapper [(0x200000, 0x5000, 0x2000)] mp1"
    using run_cons [OF _ run_nil, of map_step sample_mapper "(0x200000, 0x5000, 0x2000)" mp1] m by (simp add: map_step_def)
  have run2: "run map_step mp1 [(0x200000, 0x7000, 0x1000)] mp2"
    using run_cons [OF _ run_nil, of map_step mp1 "(0x200000, 0x7000, 0x1000)" mp2] m2 by (simp add: map_step_def)
  have "mp_tree mp1 \<and> mp_translate mp1 0x200000 = Some 0x5000"
    using map_range_grows [OF sample_mapper_tree m] growD(1) by auto
  with mappings_persist [OF run2] run1 run2 show ?thesis by blast
qed

text \<open>
  \<^verbatim>\<open>map_range\<close> succeeds when it can: a page-aligned range of less than 2 MiB of which nothing is mapped yet
  is mapped, if the pool has three pages left for each of its pages.
\<close>

theorem map_range_succeeds:
  assumes "mp_tree mp" and "aligned virt" "aligned phys" "aligned len" and "unat len < 2 ^ 21"
    and "\<forall>va. covers virt (unat len) va \<longrightarrow> mp_translate mp va = None"
    and "room (3 * (unat len div 4096)) (mp_bump mp)"
  shows "\<exists>mp'. map_range virt phys len mp = (Ok (), mp')"
proof -
  have "room (0 + 3 * (unat len div 4096)) (mp_bump mp)" using assms(7) by simp
  from map_range_room [OF assms(1-5) _ this] assms(6) show ?thesis by metis
qed

theorem map_range_succeeds_witness: "\<exists>mp'. map_range 0x7ffffffff000 0x3000 0x2000 sample_mapper = (Ok (), mp')"
  by (rule map_range_succeeds [OF sample_mapper_tree])
    (use room_mono [OF sample_mapper_room] in \<open>simp_all add: sample_mapper_unmapped dvd_eq_mod_eq_0\<close>)


text \<open>A clone of the sample machine's kernel space.\<close>

lemma sample_clone:
  obtains sp mc1 where "clone_kernel sample_machine = (Ok sp, mc1)" "spaces_ok mc1 {0x1000, as_pml4_phys sp}"
    "as_pml4_phys sp \<noteq> 0x1000" "mc_kernel_pml4 mc1 = 0x1000" "room 3999 (mc_bump mc1)" "\<And>va. mc_translate mc1 (as_pml4_phys sp) va = None"
proof -
  have b: "bump_ok (mp_bump (mapper 0 0 sample_machine))" using treeD(1) [OF sample_mapper_tree] by (simp add: sample_mapper_def mapper_def)
  have "room (Suc 3999) (mp_bump (mapper 0 0 sample_machine))" using sample_machine_room by (simp add: mapper_def)
  from alloc_table_room [OF b this] obtain new mp' where a: "alloc_table (mapper 0 0 sample_machine) = (Ok new, mp')" "room 3999 (mp_bump mp')" .
  let ?mc = "sample_machine\<lparr>mc_bump := mp_bump mp', mc_mem := fold (copy_slot 0x1000 new) [0..<512] (mp_mem mp')\<rparr>"
  have k: "mc_kernel_pml4 sample_machine = 0x1000" "mc_cr4 sample_machine = 0" by (simp_all add: sample_machine_def)
  have res: "clone_kernel sample_machine = (Ok \<lparr>as_cr3 = new, as_pml4_phys = new\<rparr>, ?mc)"
    using a(1) k by (simp add: clone_kernel_def put_back_def Let_def)
  from clone_kernel_result [OF sample_machine_ok res] have "spaces_ok ?mc {new, 0x1000}" "new \<noteq> 0x1000"
    "\<And>va. mc_translate ?mc new va = mc_translate sample_machine 0x1000 va" by (simp_all add: k)
  with that [OF res] a(2) k sample_unmapped show thesis by (simp add: insert_commute sample_machine_def)
qed






text \<open>The first address of the upper half has the indices of the first address that is not canonical.\<close>

lemma high_alias:
  "pml4_index 0xffff800000000000 = pml4_index 0x800000000000" "pdpt_index 0xffff800000000000 = pdpt_index 0x800000000000"
  "pd_index 0xffff800000000000 = pd_index 0x800000000000" "pt_index 0xffff800000000000 = pt_index 0x800000000000"
  "0xffff800000000000 AND mask 30 = (0x800000000000 AND mask 30 :: u64)" "0xffff800000000000 AND mask 21 = (0x800000000000 AND mask 21 :: u64)"
  "0xffff800000000000 AND mask 12 = (0x800000000000 AND mask 12 :: u64)"
  by (simp_all add: pml4_index_def pdpt_index_def pd_index_def pt_index_def mask_eq_exp_minus_1)

text \<open>
  The lower-half test of \<^verbatim>\<open>AddressSpace::map\<close> looks at the start of the range only: a range of two pages that
  starts in the last page of the lower half is accepted, and its second page is mapped in the kernel
  half, at the first address of the direct map.
\<close>

theorem lower_half_check_start_only:
  "\<exists>sp mc1 mc2. clone_kernel sample_machine = (Ok sp, mc1) \<and> space_map sp 0x7ffffffff000 0x5000 0x2000 mc1 = (Ok (), mc2) \<and>
    mc_translate mc1 (as_pml4_phys sp) 0xffff800000000000 = None \<and>
    mc_translate mc2 (as_pml4_phys sp) 0xffff800000000000 = Some 0x6000"
proof -
  obtain sp mc1 where c: "clone_kernel sample_machine = (Ok sp, mc1)" and ok: "spaces_ok mc1 {0x1000, as_pml4_phys sp}"
    and room: "room 3999 (mc_bump mc1)" and free: "\<And>va. mc_translate mc1 (as_pml4_phys sp) va = None" by (rule sample_clone) blast
  let ?mp = "mapper (as_pml4_phys sp) 0 mc1"
  have tree: "mp_tree ?mp" using spaces_okD(2) [OF ok, of "as_pml4_phys sp"] by (simp add: mapper_def)
  obtain mp' where m: "map_range 0x7ffffffff000 0x5000 0x2000 ?mp = (Ok (), mp')"
    by (rule map_range_room [OF tree, of "0x7ffffffff000" "0x5000" "0x2000" 3])
      (use room_mono [OF room] free in \<open>simp_all add: mapper_def dvd_eq_mod_eq_0\<close>)
  note g = map_range_grows [OF tree m]
  then have "mp_translate mp' 0x800000000000 = Some 0x6000" by simp
  moreover have "translate m r 0xffff800000000000 = translate m r 0x800000000000" for m r
    unfolding translate_def high_alias ..
  moreover have "mp_pml4 mp' = as_pml4_phys sp" using growD(2) [OF conjunct1 [OF g]] by (simp add: mapper_def)
  ultimately have "translate (mp_mem mp') (as_pml4_phys sp) 0xffff800000000000 = Some 0x6000" by simp
  with c m free show ?thesis by (simp add: space_map_def put_back_def)
qed

definition sample_entry :: MemmapEntry where
  "sample_entry = \<lparr>me_base = 0x100000, me_length = 0x2000, me_kind = MEMMAP_USABLE\<rparr>"

lemma sample_entry_range: "entry_start sample_entry = 0x100000" "entry_end sample_entry = 0x102000"
  by (simp_all add: sample_entry_def entry_start_def entry_end_def align_up_def align_down_def saturating_add_def PAGE_def)

text \<open>The sample: a kernel of one page and one usable entry.\<close>

abbreviation sample_bounds :: "u64 \<times> u64" where
  "sample_bounds \<equiv> (0xffffffff80000000, 0xffffffff80001000)"

lemma sample_ranges:
  "build_ranges sample_bounds 0xffff800000000000 0x2000000 0xffffffff80000000 [sample_entry] =
     [(0xffffffff80000000, 0x2000000, 0x1000), (0xffff800000100000, 0x100000, 0x2000)]"
  by (simp add: build_ranges_def entry_ranges_def sample_entry_range align_up_def saturating_add_def PAGE_def Let_def)
    (simp add: sample_entry_def hhdm_mapped_rev3_def)

lemma sample_ready: "build_ready sample_bounds 0xffff800000000000 0x2000000 0xffffffff80000000 [sample_entry]"
  unfolding build_ready_def sample_ranges
  by (simp add: range_ok_def upper_half_def ranges_agree_def range_span_def dvd_eq_mod_eq_0)

lemma sample_room: "room (build_pages sample_bounds 0xffff800000000000 0x2000000 0xffffffff80000000 [sample_entry]) sample_bump"
  unfolding build_pages_def sample_ranges by (simp add: table_pages_def room_def sample_bump_def)



text \<open>
  C29. The address space \<^verbatim>\<open>build\<close> makes is fit to run on: when it returns \<^verbatim>\<open>Ok\<close> the kernel image is mapped where it is
  linked, the direct map has every whole page of the regions of the memory map that revision 3 of
  the boot protocol maps, nothing is mapped in the lower half, and the result is a well-formed
  kernel space to clone.
\<close>

theorem build_maps_kernel:
  assumes "bump_ok (mc_bump mc)" "unat (ba_end (mc_bump mc)) \<le> 2 ^ 52"
    and "upper_half kstart (align_up (kend - kstart) PAGE)" and "\<forall>e\<in>set entries. entry_high hhdm kphys kvirt e"
    and "build (kstart, kend) hhdm kphys kvirt entries mc = (Ok pm, mc')"
  shows "spaces_ok mc' {mc_kernel_pml4 mc'} \<and> kernel_mapped pm mc' \<and> memory_mapped hhdm entries mc' \<and>
    (mc_cr4 mc AND CR4_LA57 = 0 \<longrightarrow> pm_pml4_phys pm = mc_kernel_pml4 mc')"
  using build_result [OF assms] by blast

theorem build_maps_kernel_witness:
  "\<exists>pm mc'. build (0xffffffff80000000, 0xffffffff80001000) 0xffff800000000000 0x2000000 0xffffffff80000000 [sample_entry]
     (sample_machine\<lparr>mc_bump := sample_bump\<rparr>) = (Ok pm, mc') \<and>
     mc_translate mc' (mc_kernel_pml4 mc') 0xffffffff80000010 = Some 0x2000010 \<and>
     mc_translate mc' (mc_kernel_pml4 mc') 0xffff800000101000 = Some 0x101000"
proof -
  let ?mc = "sample_machine\<lparr>mc_bump := sample_bump\<rparr>"
  have h: "bump_ok (mc_bump ?mc)" "unat (ba_end (mc_bump ?mc)) \<le> 2 ^ 52" by (simp_all add: bump_ok_def sample_bump_def)
  have "room (0 + build_pages sample_bounds 0xffff800000000000 0x2000000 0xffffffff80000000 [sample_entry]) (mc_bump ?mc)" using sample_room by simp
  from build_room [OF h sample_ready this] obtain pm mc' where b: "build (0xffffffff80000000, 0xffffffff80001000) 0xffff800000000000 0x2000000 0xffffffff80000000 [sample_entry]
     ?mc = (Ok pm, mc')" .
  then have pm: "pm_kernel_virt pm = 0xffffffff80000000" "pm_kernel_phys pm = 0x2000000" "pm_kernel_len pm = 0x1000"
    by (rule build_Ok; simp add: align_up_def saturating_add_def PAGE_def)+
  have k: "upper_half 0xffffffff80000000 (align_up (0xffffffff80001000 - 0xffffffff80000000) PAGE)"
    by (simp add: upper_half_def align_up_def saturating_add_def PAGE_def)
  have e: "\<forall>e\<in>set [sample_entry]. entry_high 0xffff800000000000 0x2000000 0xffffffff80000000 e"
    by (simp add: entry_high_def sample_entry_range upper_half_def)
  have m: "me_length sample_entry \<noteq> 0 \<and> hhdm_mapped_rev3 (me_kind sample_entry) \<and> unat (me_base sample_entry) + unat (me_length sample_entry) \<le> 2 ^ 52"
    by (simp add: sample_entry_def hhdm_mapped_rev3_def)
  note r = build_maps_kernel [OF h k e b]
  have "mc_translate mc' (mc_kernel_pml4 mc') 0xffffffff80000010 = Some 0x2000010" using r pm by (simp add: kernel_mapped_def)
  moreover have "\<forall>pa. 0x100000 \<le> pa \<and> pa < 0x102000 \<longrightarrow> mc_translate mc' (mc_kernel_pml4 mc') (0xffff800000000000 + pa) = Some pa"
    using r m by (simp add: memory_mapped_def sample_entry_range)
  then have "mc_translate mc' (mc_kernel_pml4 mc') (0xffff800000000000 + 0x101000) = Some 0x101000" by (rule allE [of _ "0x101000"]) simp
  ultimately show ?thesis using b by auto
qed

end
