(* ===== verification/Courtlet_Properties.thy ===== *)
theory Courtlet_Properties
  imports Courtlet_Progress Paging_Properties
begin

text \<open>
  The properties of loader and Courtlets, with a small image as their instance.
\<close>

section \<open>Instances\<close>

text \<open>An ELF file with one segment that is the file itself, at \<^verbatim>\<open>IMAGE_VA\<close>.\<close>

definition sample_image :: bytes where
  "sample_image =
     [0x7f, 0x45, 0x4c, 0x46, 2, 1, 1, 0, 0, 0, 0, 0, 0, 0, 0, 0,
      2, 0, 62, 0, 1, 0, 0, 0, 0, 0, 0x10, 0, 0, 0, 0, 0,
      64, 0, 0, 0, 0, 0, 0, 0, 0, 0, 0, 0, 0, 0, 0, 0,
      0, 0, 0, 0, 64, 0, 56, 0, 1, 0, 0, 0, 0, 0, 0, 0,
      1, 0, 0, 0, 7, 0, 0, 0, 0, 0, 0, 0, 0, 0, 0, 0,
      0, 0, 0x10, 0, 0, 0, 0, 0, 0, 0, 0x10, 0, 0, 0, 0, 0,
      120, 0, 0, 0, 0, 0, 0, 0, 0, 0x20, 0, 0, 0, 0, 0, 0,
      0, 0x10, 0, 0, 0, 0, 0, 0]"

lemma sample_header: "check_header sample_image = Ok (0x100000, 64, 56, 1)"
  by (simp add: check_header_def sample_image_def elf_consts read_u16_def read_u64_def get_range_def Let_def checked_mul_def checked_add_def)

lemma sample_image_segments:
  "image_segments sample_image = [\<lparr>p_offset = 0, p_vaddr = 0x100000, p_filesz = 120, p_memsz = 0x2000\<rparr>]"
proof -
  have "phdr_offsets 64 56 1 = [64]" by (simp add: phdr_offsets_def)
  moreover have "loadable sample_image 64 = Some \<lparr>p_offset = 0, p_vaddr = 0x100000, p_filesz = 120, p_memsz = 0x2000\<rparr>"
    by (simp add: loadable_def sample_image_def elf_consts read_u32_def read_u64_def read_phdr_def get_range_def Let_def)
  ultimately show ?thesis by (simp add: image_segments_def sample_header map_filter_simps)
qed

lemma sample_image_fits: "image_fits sample_image"
  by (simp add: image_fits_def sample_header sample_image_segments segment_fits_def segment_low_def lower_half_def
      seg_start_def seg_end_def in_segment_def) (simp add: sample_image_def)

section \<open>Properties\<close>







text \<open>
  The check of net's status masks too much: run on an empty ring, net reports \<^verbatim>\<open>ST_EMPTY\<close> and leaves the ring as
  it was, and the low byte of that status is \<^verbatim>\<open>ST_RECV\<close>, so the test \<^verbatim>\<open>recvd & 0xFF != ST_RECV\<close> of
  \<^verbatim>\<open>run_demo\<close> does not tell the two apart.
\<close>

theorem empty_status_passes:
  "net_start (boot_block cap RIGHT_RECV court) ring_block = Some (ST_EMPTY, ring_block) \<and> ST_EMPTY AND 0xFF = ST_RECV"
proof -
  have "ring_page ring_block" "img_revoked ring_block = 0" "img_pending ring_block = 0"
    using ring_block_inv ring_block_empty length_img_content [of ring_block] by (auto simp: img_inv_def)
  with net_start_eq [OF boot_block_page [of RIGHT_RECV cap court], of ring_block]
  show ?thesis by (simp add: RIGHT_RECV_def img_pending_def unat_eq_zero abi_status)
qed

end
