(* ===== verification/Wire_Protocol.thy ===== *)
theory Wire_Protocol
  imports Hosted_Types
begin

text \<open>
  The message vocabulary of the hosted prototype, \<^verbatim>\<open>crates/court-hosted-linux/src/protocol.rs\<close>:
  statuses, wire forms of rights, descriptors and capabilities, the endpoint state that a
  court keeps for its end of a ring, trace records and control messages. The JSON encoding is
  derived by serde and is not part of this model.
\<close>

definition PACKET_RX_PATH :: string where "PACKET_RX_PATH = ''/court/net0/packet/rx''"
definition DEFAULT_RING_CAPACITY :: u32 where "DEFAULT_RING_CAPACITY = 64"
definition DEFAULT_SLOT_SIZE :: u32 where "DEFAULT_SLOT_SIZE = 2048"

section \<open>Statuses\<close>

datatype WireStatus =
    WOk
  | WBadCap
  | WNoRight
  | WRevoked
  | WNotFound
  | WInvalidObject
  | WInvalidState
  | WPeerDown
  | WQueueFull
  | WQueueEmpty
  | WTimeout
  | WFault

primrec status_from :: "CkError \<Rightarrow> WireStatus" where
  "status_from BadCap = WBadCap"
| "status_from NoRight = WNoRight"
| "status_from Revoked = WRevoked"
| "status_from NotFound = WNotFound"
| "status_from InvalidObject = WInvalidObject"
| "status_from InvalidState = WInvalidState"
| "status_from PeerDown = WPeerDown"
| "status_from QueueFull = WQueueFull"
| "status_from QueueEmpty = WQueueEmpty"

lemma status_from_inj: "status_from e = status_from e' \<longleftrightarrow> e = e'"
  by (cases e; cases e') simp_all

lemma status_from_not_local: "status_from e \<notin> {WOk, WTimeout, WFault}"
  by (cases e) simp_all

section \<open>Rights on the wire\<close>

datatype WireRights = WireRights (wire_bits: u64)

definition from_rights :: "Rights \<Rightarrow> WireRights" where
  "from_rights rights = WireRights (rights_raw rights)"

text \<open>One \<^verbatim>\<open>if self.bits & R.raw() != 0 { rights |= R; }\<close>.\<close>

definition add_right :: "u64 \<Rightarrow> Rights \<Rightarrow> Rights \<Rightarrow> Rights" where
  "add_right bits r rights = (if bits AND rights_raw r \<noteq> 0 then bitor rights r else rights)"

definition to_rights :: "WireRights \<Rightarrow> Rights" where
  "to_rights self = (let bits = wire_bits self in
     add_right bits OBSERVE
       (add_right bits REVOKE
         (add_right bits DELEGATE
           (add_right bits RECV
             (add_right bits SEND
               (add_right bits WRITE
                 (add_right bits READ NONE)))))))"

section \<open>Descriptors, capabilities, configuration\<close>

datatype WireObjectType = WCorridor

definition object_type_from :: "ObjectType \<Rightarrow> WireObjectType" where
  "object_type_from ty = (case ty of CorridorObject \<Rightarrow> WCorridor)"

datatype WireTransport = WControlChannel | WSharedRing

definition transport_from :: "CorridorTransport \<Rightarrow> WireTransport" where
  "transport_from t = (case t of ControlChannel \<Rightarrow> WControlChannel | SharedRingTransport \<Rightarrow> WSharedRing)"

record WireDescriptor =
  wd_path :: string
  wd_object :: u64
  wd_object_type :: WireObjectType
  wd_transport :: WireTransport

definition from_descriptor :: "Descriptor \<Rightarrow> WireDescriptor" where
  "from_descriptor d = \<lparr>wd_path = desc_path d, wd_object = object_raw (desc_object d),
     wd_object_type = object_type_from (desc_object_type d), wd_transport = transport_from (desc_transport d)\<rparr>"

record WireCap =
  wc_id :: u64
  wc_rights :: WireRights

record WireRingInfo =
  ri_path :: string
  ri_capacity :: u32
  ri_slot_size :: u32

record WireDemoConfig =
  demo_path :: string
  demo_payload :: string

section \<open>Endpoint state\<close>

record EndpointState =
  ep_cap :: WireCap
  ep_revoked :: bool
  ep_peer_down :: bool

definition endpoint_new :: "WireCap \<Rightarrow> EndpointState" where
  "endpoint_new cap = \<lparr>ep_cap = cap, ep_revoked = False, ep_peer_down = False\<rparr>"

definition ep_mark_revoked :: "EndpointState \<Rightarrow> EndpointState" where
  "ep_mark_revoked ep = ep\<lparr>ep_revoked := True\<rparr>"

definition ep_mark_peer_down :: "EndpointState \<Rightarrow> EndpointState" where
  "ep_mark_peer_down ep = ep\<lparr>ep_peer_down := True\<rparr>"

definition ep_status :: "EndpointState \<Rightarrow> WireStatus" where
  "ep_status ep = (if ep_peer_down ep then WPeerDown else if ep_revoked ep then WRevoked else WOk)"

lemma ep_status_new [simp]: "ep_status (endpoint_new cap) = WOk"
  by (simp add: ep_status_def endpoint_new_def)

lemma ep_status_marked:
  "ep_status (ep_mark_revoked ep) = (if ep_peer_down ep then WPeerDown else WRevoked)"
  "ep_status (ep_mark_peer_down ep) = WPeerDown"
  by (simp_all add: ep_status_def ep_mark_revoked_def ep_mark_peer_down_def)

section \<open>Trace records and messages\<close>

record WireTrace =
  wt_event :: string
  wt_court :: string
  wt_path :: "string option"
  wt_status :: WireStatus
  wt_len :: "nat option"
  wt_detail :: "string option"

definition trace_new :: "string \<Rightarrow> string \<Rightarrow> WireStatus \<Rightarrow> WireTrace" where
  "trace_new event court status = \<lparr>wt_event = event, wt_court = court, wt_path = None,
     wt_status = status, wt_len = None, wt_detail = None\<rparr>"

definition with_path :: "string \<Rightarrow> WireTrace \<Rightarrow> WireTrace" where
  "with_path path t = t\<lparr>wt_path := Some path\<rparr>"

definition with_len :: "nat \<Rightarrow> WireTrace \<Rightarrow> WireTrace" where
  "with_len len t = t\<lparr>wt_len := Some len\<rparr>"

definition with_detail :: "string \<Rightarrow> WireTrace \<Rightarrow> WireTrace" where
  "with_detail detail t = t\<lparr>wt_detail := Some detail\<rparr>"

datatype WireMessage =
    MHello string
  | MHelloAck WireStatus string WireDemoConfig
  | MLookup string
  | MLookupResult WireStatus "WireDescriptor option"
  | MOpen string "WireCap option" WireRights
  | MOpenResult WireStatus "WireCap option" "WireRingInfo option"
  | MGrant string WireCap
  | MRevoke WireCap
  | MPeerDown string
  | MTrace WireTrace
  | MDemoDone string WireStatus
  | MFault string

section \<open>Properties\<close>

lemma and_single_bit: "bits AND push_bit i 1 = (if bit bits i then push_bit i 1 else 0)"
  for bits :: "'a::len word"
  by (rule bit_word_eqI) (auto simp: bit_simps)

lemma add_right_single:
  "rights_raw (add_right bits (Rights (push_bit i 1)) rights) = rights_raw rights OR (bits AND push_bit i 1)"
proof (cases "bits AND push_bit i 1 = 0")
  case True
  then show ?thesis by (simp only: add_right_def Rights.sel simp_thms if_False or.right_neutral)
next
  case False
  then have "bits AND push_bit i 1 = push_bit i 1" by (metis and_single_bit)
  with False show ?thesis by (simp only: add_right_def bitor_def Rights.sel simp_thms if_True)
qed

text \<open>
  Rights survive the wire. Encoding rights with \<^verbatim>\<open>WireRights::from_rights\<close> and decoding them
  with \<^verbatim>\<open>to_rights\<close> gives exactly the rights that are defined: bits 0 to 6 are kept as they are
  and every other bit is dropped. So a peer can neither smuggle an undefined right in nor lose
  a defined one.
\<close>

theorem wire_rights_roundtrip: "rights_raw (to_rights (from_rights r)) = rights_raw r AND mask 7"
proof -
  have "rights_raw (to_rights (from_rights r)) = rights_raw r AND
      (push_bit 0 1 OR push_bit 1 1 OR push_bit 2 1 OR push_bit 3 1 OR push_bit 4 1 OR push_bit 5 1 OR push_bit 6 1)"
    by (simp only: to_rights_def from_rights_def WireRights.sel Let_def rights_defs add_right_single Rights.sel
        bit.conj_disj_distrib or.assoc or.left_neutral)
  also have "push_bit 0 1 OR push_bit 1 1 OR push_bit 2 1 OR push_bit 3 1 OR push_bit 4 1 OR push_bit 5 1 OR
      push_bit 6 1 = (mask 7 :: u64)"
    by (simp add: mask_eq_exp_minus_1)
  finally show ?thesis .
qed

end
