(* ===== verification/Manifest.thy ===== *)
theory Manifest
  imports Hosted_Types "HOL-Library.Sublist"
begin

text \<open>
  The manifest and policy files of the hosted demo and their validation,
  \<^verbatim>\<open>crates/court-hosted-linux/src/manifest.rs\<close>. \<^verbatim>\<open>validate\<close> is translated loop by loop, with one
  error constructor per message of the source; it accepts exactly the pairs of files that
  satisfy a declarative specification. Reading the files and parsing JSON are serde's and are
  not modelled; the two hash sets of the source are sets, since only membership is used.
\<close>

section \<open>Data\<close>

definition SCHEMA_VERSION :: u32 where "SCHEMA_VERSION = 1"

definition PHASE_ORDER :: "string list" where
  "PHASE_ORDER = [''lookup'', ''open_denied'', ''grant'', ''open'', ''send'', ''recv'', ''revoke'',
     ''send_after_revoke'', ''fault'', ''court_fault'', ''peer_down'', ''demo_done'']"

datatype CourtRole = AppRole | NetRole

definition as_process_role :: "CourtRole \<Rightarrow> string" where
  "as_process_role role = (case role of AppRole \<Rightarrow> ''app'' | NetRole \<Rightarrow> ''net'')"

record CourtManifest =
  cm_name :: string
  cm_role :: CourtRole

datatype ManifestTransport = ManifestSharedRing

record CorridorManifest =
  co_path :: string
  co_transport :: ManifestTransport
  co_from :: string
  co_to :: string
  co_capacity :: u32
  co_slot_size :: u32

record DemoManifest =
  packet_payload :: string

record ManifestFile =
  mf_version :: u32
  mf_courts :: "CourtManifest list"
  mf_corridors :: "CorridorManifest list"
  mf_demo :: DemoManifest

record GrantPolicy =
  gp_court :: string
  gp_path :: string
  gp_rights :: "string list"

record RevokePolicy =
  rp_court :: string
  rp_path :: string
  rp_after :: string

record FaultPolicy =
  fp_court :: string
  fp_after :: string
  fp_reason :: string

record PeerDownPolicy =
  dp_court :: string
  dp_path :: string
  dp_after :: string

record PolicyFile =
  pf_version :: u32
  pf_grants :: "GrantPolicy list"
  pf_revokes :: "RevokePolicy list"
  pf_faults :: "FaultPolicy list"
  pf_peer_down :: "PeerDownPolicy list"

text \<open>One constructor per error message, with the values the message is built from.\<close>

datatype ManifestError =
    UnsupportedVersion string u32
  | EmptyPayload
  | EmptyCourtName
  | DuplicateCourt string
  | AppCount nat
  | NoNetCourt
  | NoCorridor
  | PathNotUnderCourt string
  | DuplicatePath string
  | SameEndpoints string
  | MissingFrom string string
  | MissingTo string string
  | ZeroCapacity string
  | ZeroSlotSize string
  | NoGrant
  | EmptyRights string string
  | UnknownRight string
  | NoSendGrant
  | NoRecvGrant
  | UnmatchedRevoke string string
  | EmptyReason string
  | UnknownAfter string
  | UnknownAction string
  | NotBefore string string
  | UnknownCourt string
  | UnknownPath string

type_synonym 'a ManifestResult = "('a, ManifestError) result"

section \<open>Helpers\<close>

fun right_of :: "string \<Rightarrow> Rights option" where
  "right_of value =
     (if value = ''read'' then Some READ
      else if value = ''write'' then Some WRITE
      else if value = ''send'' then Some SEND
      else if value = ''recv'' then Some RECV
      else if value = ''delegate'' then Some DELEGATE
      else if value = ''revoke'' then Some REVOKE
      else if value = ''observe'' then Some OBSERVE
      else None)"

declare right_of.simps [simp del]

fun parse_rights_from :: "Rights \<Rightarrow> string list \<Rightarrow> Rights ManifestResult" where
  "parse_rights_from rights [] = Ok rights"
| "parse_rights_from rights (value # values) = (case right_of value of
      Some r \<Rightarrow> parse_rights_from (bitor rights r) values
    | None \<Rightarrow> Err (UnknownRight value))"

definition parse_rights :: "string list \<Rightarrow> Rights ManifestResult" where
  "parse_rights values = parse_rights_from NONE values"

fun position :: "'a \<Rightarrow> 'a list \<Rightarrow> nat option" where
  "position x [] = None"
| "position x (y # ys) = (if y = x then Some 0 else map_option Suc (position x ys))"

definition phase_index :: "string \<Rightarrow> nat option" where
  "phase_index name = position name PHASE_ORDER"

definition require_schema :: "string \<Rightarrow> u32 \<Rightarrow> unit ManifestResult" where
  "require_schema kind version =
     (if version = SCHEMA_VERSION then Ok () else Err (UnsupportedVersion kind version))"

definition require_phase_before :: "string \<Rightarrow> string \<Rightarrow> unit ManifestResult" where
  "require_phase_before after action =
     and_then (ok_or (phase_index after) (UnknownAfter after)) (\<lambda>after_idx.
     and_then (ok_or (phase_index action) (UnknownAction action)) (\<lambda>action_idx.
     if action_idx \<le> after_idx then Err (NotBefore after action) else Ok ()))"

definition require_court :: "string set \<Rightarrow> string \<Rightarrow> unit ManifestResult" where
  "require_court courts court = (if court \<in> courts then Ok () else Err (UnknownCourt court))"

definition require_path :: "string set \<Rightarrow> string \<Rightarrow> unit ManifestResult" where
  "require_path paths path = (if path \<in> paths then Ok () else Err (UnknownPath path))"

section \<open>Validation\<close>

text \<open>The loops of \<^verbatim>\<open>validate\<close>, in the order of the source.\<close>

fun check_courts ::
  "CourtManifest list \<Rightarrow> string set \<Rightarrow> nat \<Rightarrow> nat \<Rightarrow> (string set \<times> nat \<times> nat) ManifestResult" where
  "check_courts [] courts app_count net_count = Ok (courts, app_count, net_count)"
| "check_courts (court # rest) courts app_count net_count =
     (if cm_name court = [] then Err EmptyCourtName
      else if cm_name court \<in> courts then Err (DuplicateCourt (cm_name court))
      else (case cm_role court of
          AppRole \<Rightarrow> check_courts rest (insert (cm_name court) courts) (app_count + 1) net_count
        | NetRole \<Rightarrow> check_courts rest (insert (cm_name court) courts) app_count (net_count + 1)))"

fun check_corridors ::
  "string set \<Rightarrow> CorridorManifest list \<Rightarrow> string set \<Rightarrow> string set ManifestResult" where
  "check_corridors courts [] paths = Ok paths"
| "check_corridors courts (corridor # rest) paths =
     (if \<not> prefix ''/court/'' (co_path corridor) \<or> co_path corridor = ''/court/''
        then Err (PathNotUnderCourt (co_path corridor))
      else if co_path corridor \<in> paths then Err (DuplicatePath (co_path corridor))
      else if co_from corridor = co_to corridor then Err (SameEndpoints (co_path corridor))
      else if co_from corridor \<notin> courts then Err (MissingFrom (co_path corridor) (co_from corridor))
      else if co_to corridor \<notin> courts then Err (MissingTo (co_path corridor) (co_to corridor))
      else if co_capacity corridor = 0 then Err (ZeroCapacity (co_path corridor))
      else if co_slot_size corridor = 0 then Err (ZeroSlotSize (co_path corridor))
      else check_corridors courts rest (insert (co_path corridor) paths))"

fun check_grants ::
  "string set \<Rightarrow> string set \<Rightarrow> GrantPolicy list \<Rightarrow> (string \<times> string) set \<Rightarrow> bool \<Rightarrow> bool \<Rightarrow>
     ((string \<times> string) set \<times> bool \<times> bool) ManifestResult" where
  "check_grants courts paths [] grant_keys has_send has_recv = Ok (grant_keys, has_send, has_recv)"
| "check_grants courts paths (grant # rest) grant_keys has_send has_recv =
     and_then (require_court courts (gp_court grant)) (\<lambda>_.
     and_then (require_path paths (gp_path grant)) (\<lambda>_.
     if gp_rights grant = [] then Err (EmptyRights (gp_court grant) (gp_path grant))
     else and_then (parse_rights (gp_rights grant)) (\<lambda>rights.
       check_grants courts paths rest (insert (gp_court grant, gp_path grant) grant_keys)
         (has_send \<or> contains rights SEND) (has_recv \<or> contains rights RECV))))"

fun check_revokes ::
  "string set \<Rightarrow> string set \<Rightarrow> (string \<times> string) set \<Rightarrow> RevokePolicy list \<Rightarrow> unit ManifestResult" where
  "check_revokes courts paths grant_keys [] = Ok ()"
| "check_revokes courts paths grant_keys (revoke # rest) =
     and_then (require_court courts (rp_court revoke)) (\<lambda>_.
     and_then (require_path paths (rp_path revoke)) (\<lambda>_.
     if (rp_court revoke, rp_path revoke) \<notin> grant_keys
       then Err (UnmatchedRevoke (rp_court revoke) (rp_path revoke))
     else and_then (require_phase_before (rp_after revoke) ''revoke'') (\<lambda>_.
       check_revokes courts paths grant_keys rest)))"

fun check_faults :: "string set \<Rightarrow> FaultPolicy list \<Rightarrow> unit ManifestResult" where
  "check_faults courts [] = Ok ()"
| "check_faults courts (fault # rest) =
     and_then (require_court courts (fp_court fault)) (\<lambda>_.
     if fp_reason fault = [] then Err (EmptyReason (fp_court fault))
     else and_then (require_phase_before (fp_after fault) ''fault'') (\<lambda>_. check_faults courts rest))"

fun check_peer_down :: "string set \<Rightarrow> string set \<Rightarrow> PeerDownPolicy list \<Rightarrow> unit ManifestResult" where
  "check_peer_down courts paths [] = Ok ()"
| "check_peer_down courts paths (peer_down # rest) =
     and_then (require_court courts (dp_court peer_down)) (\<lambda>_.
     and_then (require_path paths (dp_path peer_down)) (\<lambda>_.
     and_then (require_phase_before (dp_after peer_down) ''peer_down'') (\<lambda>_.
       check_peer_down courts paths rest)))"

definition validate :: "ManifestFile \<Rightarrow> PolicyFile \<Rightarrow> unit ManifestResult" where
  "validate manifest policy =
     and_then (require_schema ''manifest'' (mf_version manifest)) (\<lambda>_.
     and_then (require_schema ''policy'' (pf_version policy)) (\<lambda>_.
     if packet_payload (mf_demo manifest) = [] then Err EmptyPayload
     else and_then (check_courts (mf_courts manifest) {} 0 0) (\<lambda>(courts, app_count, net_count).
     if app_count \<noteq> 1 then Err (AppCount app_count)
     else if net_count < 1 then Err NoNetCourt
     else if mf_corridors manifest = [] then Err NoCorridor
     else and_then (check_corridors courts (mf_corridors manifest) {}) (\<lambda>paths.
     if pf_grants policy = [] then Err NoGrant
     else and_then (check_grants courts paths (pf_grants policy) {} False False)
       (\<lambda>(grant_keys, has_send, has_recv).
     if \<not> has_send then Err NoSendGrant
     else if \<not> has_recv then Err NoRecvGrant
     else and_then (check_revokes courts paths grant_keys (pf_revokes policy)) (\<lambda>_.
     and_then (check_faults courts (pf_faults policy)) (\<lambda>_.
     check_peer_down courts paths (pf_peer_down policy))))))))"

section \<open>What validation means\<close>

text \<open>Phase names are ordered by their place in the pipeline.\<close>

definition phase_before :: "string \<Rightarrow> string \<Rightarrow> bool" where
  "phase_before a b \<longleftrightarrow> (\<exists>xs ys. PHASE_ORDER = xs @ ys \<and> a \<in> set xs \<and> b \<in> set ys)"

definition grants_right :: "GrantPolicy \<Rightarrow> string \<Rightarrow> bool" where
  "grants_right g r \<longleftrightarrow> r \<in> set (gp_rights g)"

definition court_ok :: "ManifestFile \<Rightarrow> string \<Rightarrow> bool" where
  "court_ok m c \<longleftrightarrow> c \<in> cm_name ` set (mf_courts m)"

definition path_ok :: "ManifestFile \<Rightarrow> string \<Rightarrow> bool" where
  "path_ok m p \<longleftrightarrow> p \<in> co_path ` set (mf_corridors m)"

definition corridor_ok :: "ManifestFile \<Rightarrow> CorridorManifest \<Rightarrow> bool" where
  "corridor_ok m c \<longleftrightarrow> strict_prefix ''/court/'' (co_path c) \<and> co_from c \<noteq> co_to c \<and>
     court_ok m (co_from c) \<and> court_ok m (co_to c) \<and> co_capacity c \<noteq> 0 \<and> co_slot_size c \<noteq> 0"

definition manifest_ok :: "ManifestFile \<Rightarrow> bool" where
  "manifest_ok m \<longleftrightarrow> mf_version m = 1 \<and> packet_payload (mf_demo m) \<noteq> [] \<and>
     distinct (map cm_name (mf_courts m)) \<and> [] \<notin> cm_name ` set (mf_courts m) \<and>
     length (filter (\<lambda>c. cm_role c = AppRole) (mf_courts m)) = 1 \<and>
     (\<exists>c\<in>set (mf_courts m). cm_role c = NetRole) \<and>
     mf_corridors m \<noteq> [] \<and> distinct (map co_path (mf_corridors m)) \<and>
     (\<forall>c\<in>set (mf_corridors m). corridor_ok m c)"

definition right_names :: "string set" where
  "right_names = {''read'', ''write'', ''send'', ''recv'', ''delegate'', ''revoke'', ''observe''}"

definition policy_ok :: "ManifestFile \<Rightarrow> PolicyFile \<Rightarrow> bool" where
  "policy_ok m p \<longleftrightarrow> pf_version p = 1 \<and>
     (\<forall>g\<in>set (pf_grants p). court_ok m (gp_court g) \<and> path_ok m (gp_path g) \<and>
        gp_rights g \<noteq> [] \<and> set (gp_rights g) \<subseteq> right_names) \<and>
     (\<exists>g\<in>set (pf_grants p). grants_right g ''send'') \<and> (\<exists>g\<in>set (pf_grants p). grants_right g ''recv'') \<and>
     (\<forall>v\<in>set (pf_revokes p). court_ok m (rp_court v) \<and> path_ok m (rp_path v) \<and>
        (\<exists>g\<in>set (pf_grants p). gp_court g = rp_court v \<and> gp_path g = rp_path v) \<and>
        phase_before (rp_after v) ''revoke'') \<and>
     (\<forall>f\<in>set (pf_faults p). court_ok m (fp_court f) \<and> fp_reason f \<noteq> [] \<and> phase_before (fp_after f) ''fault'') \<and>
     (\<forall>d\<in>set (pf_peer_down p). court_ok m (dp_court d) \<and> path_ok m (dp_path d) \<and>
        phase_before (dp_after d) ''peer_down'')"

section \<open>Rights and phases\<close>

lemma right_of_Some: "right_of v = None \<longleftrightarrow> v \<notin> right_names"
  by (auto simp: right_of.simps right_names_def)

lemma right_of_contains:
  "right_of v = Some r \<Longrightarrow> contains r SEND \<longleftrightarrow> v = ''send''"
  "right_of v = Some r \<Longrightarrow> contains r RECV \<longleftrightarrow> v = ''recv''"
  by (auto simp: right_of.simps contains_def rights_defs split: if_splits)

lemma contains_bitor_single:
  assumes "\<And>n. bit (rights_raw k) n \<longleftrightarrow> n = i"
  shows "contains (bitor a b) k \<longleftrightarrow> contains a k \<or> contains b k"
  using assms by (auto simp: contains_iff_bits bitor_def bit_simps)

lemma bit_SEND_RECV: "bit (rights_raw SEND) n \<longleftrightarrow> n = 2" "bit (rights_raw RECV) n \<longleftrightarrow> n = 3"
  unfolding SEND_def RECV_def Rights.sel bit_push_bit_iff bit_1_iff by auto

lemma contains_send_recv_bitor:
  "contains (bitor a b) SEND \<longleftrightarrow> contains a SEND \<or> contains b SEND"
  "contains (bitor a b) RECV \<longleftrightarrow> contains a RECV \<or> contains b RECV"
  by (rule contains_bitor_single, rule bit_SEND_RECV)+

lemma parse_rights_from_spec:
  "parse_rights_from acc vs = Ok r \<Longrightarrow> set vs \<subseteq> right_names \<and>
     (contains r SEND \<longleftrightarrow> contains acc SEND \<or> ''send'' \<in> set vs) \<and>
     (contains r RECV \<longleftrightarrow> contains acc RECV \<or> ''recv'' \<in> set vs)"
proof (induction acc vs rule: parse_rights_from.induct)
  case (2 acc v vs)
  then obtain q where q: "right_of v = Some q" "parse_rights_from (bitor acc q) vs = Ok r"
    by (auto split: option.splits)
  with "2.IH" [OF q] right_of_Some [of v] right_of_contains [OF q(1)] show ?case
    by (auto simp: contains_send_recv_bitor)
qed simp

lemma parse_rights_from_total: "set vs \<subseteq> right_names \<Longrightarrow> \<exists>r. parse_rights_from acc vs = Ok r"
proof (induction vs arbitrary: acc)
  case (Cons v vs)
  then have "right_of v \<noteq> None" by (simp add: right_of_Some)
  with Cons show ?case by auto
qed simp

lemma parse_rights_spec:
  assumes "parse_rights vs = Ok r"
  shows "set vs \<subseteq> right_names" "contains r SEND \<longleftrightarrow> ''send'' \<in> set vs" "contains r RECV \<longleftrightarrow> ''recv'' \<in> set vs"
  using parse_rights_from_spec [of NONE vs r] assms
  by (auto simp: parse_rights_def contains_def rights_defs)

lemma parse_rights_Ok_iff: "(\<exists>r. parse_rights vs = Ok r) \<longleftrightarrow> set vs \<subseteq> right_names"
  using parse_rights_spec(1) parse_rights_from_total unfolding parse_rights_def by blast

lemma position_Some: "position x xs = Some i \<Longrightarrow> i < length xs \<and> xs ! i = x \<and> x \<notin> set (take i xs)"
  by (induction xs arbitrary: i) (auto split: if_splits)

lemma position_None: "position x xs = None \<longleftrightarrow> x \<notin> set xs"
  by (induction xs) auto

lemma position_append:
  "position x (xs @ ys) = (if x \<in> set xs then position x xs else map_option ((+) (length xs)) (position x ys))"
proof (induction xs)
  case Nil
  show ?case by (cases "position x ys") simp_all
next
  case (Cons y xs)
  then show ?case by (auto simp: option.map_comp comp_def)
qed

lemma position_less_iff:
  assumes "distinct zs"
  shows "(\<exists>i j. position a zs = Some i \<and> position b zs = Some j \<and> i < j) \<longleftrightarrow>
    (\<exists>xs ys. zs = xs @ ys \<and> a \<in> set xs \<and> b \<in> set ys)" (is "?lhs \<longleftrightarrow> ?rhs")
proof
  assume ?lhs
  then obtain i j where ij: "position a zs = Some i" "position b zs = Some j" "i < j" by blast
  from position_Some [OF ij(1)] position_Some [OF ij(2)] ij(3)
  have "a \<in> set (take j zs)" "b \<in> set (drop j zs)"
    by (auto simp: in_set_conv_nth) (metis nth_drop le_refl add_0_right length_drop zero_less_diff)
  then show ?rhs by (metis append_take_drop_id)
next
  assume ?rhs
  then obtain xs ys where zs: "zs = xs @ ys" "a \<in> set xs" "b \<in> set ys" by blast
  with assms have nb: "b \<notin> set xs" by auto
  from zs(2,3) obtain i j where "position a xs = Some i" "position b ys = Some j"
    by (meson not_None_eq position_None)
  with zs nb position_Some [of a xs i] show ?lhs by (simp add: position_append)
qed

lemma PHASE_ORDER_distinct: "distinct PHASE_ORDER"
  by (simp add: PHASE_ORDER_def)

lemma require_phase_before_Ok_iff: "require_phase_before after action = Ok u \<longleftrightarrow> phase_before after action"
  using position_less_iff [OF PHASE_ORDER_distinct, of after action]
  by (cases "position after PHASE_ORDER"; cases "position action PHASE_ORDER")
    (auto simp: require_phase_before_def phase_index_def phase_before_def)

lemma require_court_Ok_iff: "require_court courts c = Ok u \<longleftrightarrow> c \<in> courts"
  by (simp add: require_court_def)

lemma require_path_Ok_iff: "require_path paths p = Ok u \<longleftrightarrow> p \<in> paths"
  by (simp add: require_path_def)

lemma require_schema_Ok_iff: "require_schema kind v = Ok u \<longleftrightarrow> v = 1"
  by (simp add: require_schema_def SCHEMA_VERSION_def)

lemmas require_Ok_iff = require_phase_before_Ok_iff require_court_Ok_iff require_path_Ok_iff require_schema_Ok_iff

section \<open>The loops against their specification\<close>

lemma check_courts_Ok_iff:
  "check_courts cs S a n = Ok (S', a', n') \<longleftrightarrow>
     [] \<notin> cm_name ` set cs \<and> distinct (map cm_name cs) \<and> cm_name ` set cs \<inter> S = {} \<and>
     S' = S \<union> cm_name ` set cs \<and> a' = a + length (filter (\<lambda>c. cm_role c = AppRole) cs) \<and>
     n' = n + length (filter (\<lambda>c. cm_role c = NetRole) cs)"
proof (induction cs arbitrary: S a n)
  case (Cons c cs)
  show ?case by (cases "cm_role c") (auto simp: Cons)
qed auto

lemma check_corridors_Ok_iff:
  "check_corridors courts cs P = Ok P' \<longleftrightarrow>
     (\<forall>c\<in>set cs. strict_prefix ''/court/'' (co_path c) \<and> co_from c \<noteq> co_to c \<and> co_from c \<in> courts \<and>
        co_to c \<in> courts \<and> co_capacity c \<noteq> 0 \<and> co_slot_size c \<noteq> 0) \<and>
     distinct (map co_path cs) \<and> co_path ` set cs \<inter> P = {} \<and> P' = P \<union> co_path ` set cs"
proof (induction cs arbitrary: P)
  case (Cons c cs)
  then show ?case by (auto simp: strict_prefix_def)
qed auto

lemma check_grants_Ok_iff:
  "check_grants courts paths gs K s r = Ok (K', s', r') \<longleftrightarrow>
     (\<forall>g\<in>set gs. gp_court g \<in> courts \<and> gp_path g \<in> paths \<and> gp_rights g \<noteq> [] \<and> set (gp_rights g) \<subseteq> right_names) \<and>
     K' = K \<union> (\<lambda>g. (gp_court g, gp_path g)) ` set gs \<and>
     s' = (s \<or> (\<exists>g\<in>set gs. grants_right g ''send'')) \<and> r' = (r \<or> (\<exists>g\<in>set gs. grants_right g ''recv''))"
proof (induction gs arbitrary: K s r)
  case (Cons g gs)
  show ?case
  proof (cases "set (gp_rights g) \<subseteq> right_names")
    case True
    then obtain rts where rts: "parse_rights (gp_rights g) = Ok rts" by (auto simp: parse_rights_Ok_iff [symmetric])
    from parse_rights_spec(2,3) [OF this] True show ?thesis
      by (simp add: Cons rts require_Ok_iff grants_right_def)
  next
    case False
    then have "\<And>rts. parse_rights (gp_rights g) \<noteq> Ok rts" by (auto simp: parse_rights_Ok_iff [symmetric])
    with False show ?thesis by auto
  qed
qed auto

lemma check_revokes_Ok_iff:
  "check_revokes courts paths K vs = Ok u \<longleftrightarrow>
     (\<forall>v\<in>set vs. rp_court v \<in> courts \<and> rp_path v \<in> paths \<and> (rp_court v, rp_path v) \<in> K \<and>
        phase_before (rp_after v) ''revoke'')"
  by (induction vs) (auto simp: require_Ok_iff)

lemma check_faults_Ok_iff:
  "check_faults courts fs = Ok u \<longleftrightarrow>
     (\<forall>f\<in>set fs. fp_court f \<in> courts \<and> fp_reason f \<noteq> [] \<and> phase_before (fp_after f) ''fault'')"
  by (induction fs) (auto simp: require_Ok_iff)

lemma check_peer_down_Ok_iff:
  "check_peer_down courts paths ds = Ok u \<longleftrightarrow>
     (\<forall>d\<in>set ds. dp_court d \<in> courts \<and> dp_path d \<in> paths \<and> phase_before (dp_after d) ''peer_down'')"
  by (induction ds) (auto simp: require_Ok_iff)

lemma grant_key_iff:
  "(a, b) \<in> (\<lambda>g. (gp_court g, gp_path g)) ` A \<longleftrightarrow> (\<exists>g\<in>A. gp_court g = a \<and> gp_path g = b)"
  by auto

lemmas check_Ok_iff = grant_key_iff require_Ok_iff check_courts_Ok_iff check_corridors_Ok_iff check_grants_Ok_iff
  check_revokes_Ok_iff check_faults_Ok_iff check_peer_down_Ok_iff

lemmas ok_defs = manifest_ok_def policy_ok_def corridor_ok_def court_ok_def path_ok_def

lemma count_role: "filter (\<lambda>c. cm_role c = r) cs \<noteq> [] \<longleftrightarrow> (\<exists>c\<in>set cs. cm_role c = r)"
  by (auto simp: filter_empty_conv)

lemma validate_sound:
  assumes "validate m p = Ok ()"
  shows "manifest_ok m \<and> policy_ok m p"
  using assms count_role [of NetRole "mf_courts m"]
  by (auto simp: validate_def ok_defs check_Ok_iff not_less split: if_splits)

lemma validate_complete:
  assumes "manifest_ok m" and "policy_ok m p"
  shows "validate m p = Ok ()"
proof -
  let ?courts = "cm_name ` set (mf_courts m)"
  let ?paths = "co_path ` set (mf_corridors m)"
  let ?keys = "(\<lambda>g. (gp_court g, gp_path g)) ` set (pf_grants p)"
  let ?count = "\<lambda>r. length (filter (\<lambda>c. cm_role c = r) (mf_courts m))"
  have "check_courts (mf_courts m) {} 0 0 = Ok (?courts, 1, ?count NetRole)"
    using assms(1) by (simp add: check_Ok_iff ok_defs)
  moreover have "check_corridors ?courts (mf_corridors m) {} = Ok ?paths"
    using assms(1) by (simp add: check_Ok_iff ok_defs)
  moreover have "check_grants ?courts ?paths (pf_grants p) {} False False = Ok (?keys, True, True)"
    using assms(2) by (auto simp: check_Ok_iff ok_defs)
  moreover have "check_revokes ?courts ?paths ?keys (pf_revokes p) = Ok ()"
    using assms(2) by (simp add: check_Ok_iff ok_defs)
  moreover have "check_faults ?courts (pf_faults p) = Ok ()"
    "check_peer_down ?courts ?paths (pf_peer_down p) = Ok ()"
    using assms(2) by (auto simp: check_Ok_iff ok_defs)
  moreover have "filter (\<lambda>c. cm_role c = NetRole) (mf_courts m) \<noteq> []"
    using assms(1) unfolding count_role by (simp add: ok_defs)
  moreover have "mf_corridors m \<noteq> []" "pf_grants p \<noteq> []" "packet_payload (mf_demo m) \<noteq> []"
    "mf_version m = 1" "pf_version p = 1"
    using assms by (auto simp: ok_defs)
  ultimately show ?thesis
    by (simp add: validate_def require_schema_def SCHEMA_VERSION_def)
qed

text \<open>
  C31. Validation is sound and complete: \<^verbatim>\<open>validate\<close> accepts a manifest and a policy exactly when
  they satisfy the declarative specification. Court names are non-empty and distinct with one
  app court and at least one net court; corridors have distinct paths below \<^verbatim>\<open>/court/\<close>, two
  different declared endpoints and non-zero sizes; grants name declared courts, paths and
  rights, and some grant sends and some grant receives; every revoke matches a grant; and
  every \<^verbatim>\<open>after\<close> names a phase strictly before its action.
\<close>

theorem validate_exact: "validate m p = Ok () \<longleftrightarrow> manifest_ok m \<and> policy_ok m p"
  using validate_sound validate_complete by blast

end
