(* ===== verification/Shared_Ring.thy ===== *)
theory Shared_Ring
  imports Byte_Buffer Wire_Protocol CK_Interfaces
begin

text \<open>
  The memory-mapped single-producer single-consumer ring of the hosted prototype,
  \<^verbatim>\<open>crates/court-hosted-linux/src/shm_ring.rs\<close>, at the level of the mapped bytes: both ends
  work on the same list of bytes, every header field is loaded where the source loads it, and
  an access outside the mapping is \<open>None\<close>. The operating-system calls of \<^verbatim>\<open>create\<close> and \<^verbatim>\<open>open\<close>
  are an argument that says which of them succeed. \<^verbatim>\<open>usize\<close> is 64 bits wide.
\<close>

section \<open>Layout\<close>

definition RING_MAGIC :: u32 where "RING_MAGIC = 0x434b5247"
definition RING_VERSION :: u16 where "RING_VERSION = 1"
definition LEN_SIZE :: nat where "LEN_SIZE = 4"

text \<open>Offsets of the fields of \<^verbatim>\<open>#[repr(C)] struct RingHeader\<close>, and its size.\<close>

definition H_MAGIC :: nat where "H_MAGIC = 0"
definition H_VERSION :: nat where "H_VERSION = 4"
definition H_RESERVED :: nat where "H_RESERVED = 6"
definition H_CAPACITY :: nat where "H_CAPACITY = 8"
definition H_SLOT_SIZE :: nat where "H_SLOT_SIZE = 12"
definition H_PRODUCER :: nat where "H_PRODUCER = 16"
definition H_CONSUMER :: nat where "H_CONSUMER = 24"
definition HEADER_LEN :: nat where "HEADER_LEN = 32"

lemmas ring_layout = LEN_SIZE_def H_MAGIC_def H_VERSION_def H_RESERVED_def H_CAPACITY_def H_SLOT_SIZE_def
  H_PRODUCER_def H_CONSUMER_def HEADER_LEN_def

datatype RingError = SizeOverflow | TooSmall | BadMagic | BadVersion | LengthMismatch | OsError

definition slot_stride :: "u32 \<Rightarrow> u64" where
  "slot_stride slot_size = of_nat LEN_SIZE + ucast slot_size"

definition total_len :: "u32 \<Rightarrow> u32 \<Rightarrow> (u64, RingError) result" where
  "total_len cap slot_size =
     and_then (ok_or (checked_mul (ucast cap) (slot_stride slot_size)) SizeOverflow) (\<lambda>slots.
     ok_or (checked_add (of_nat HEADER_LEN) slots) SizeOverflow)"

section \<open>Creating and opening\<close>

datatype OsCall = OpenFile | SetLen | Metadata | Mmap

definition os :: "(OsCall \<Rightarrow> bool) \<Rightarrow> OsCall \<Rightarrow> (unit, RingError) result" where
  "os succeeds call = (if succeeds call then Ok () else Err OsError)"

definition ring_map :: "(OsCall \<Rightarrow> bool) \<Rightarrow> bytes \<Rightarrow> (bytes, RingError) result" where
  "ring_map succeeds file = (if length file < HEADER_LEN then Err TooSmall
     else and_then (os succeeds Mmap) (\<lambda>_. Ok file))"

definition ring_init :: "u32 \<Rightarrow> u32 \<Rightarrow> bytes \<Rightarrow> bytes option" where
  "ring_init cap slot_size m =
     Option.bind (store_u32 H_MAGIC RING_MAGIC m) (\<lambda>m.
     Option.bind (store_u16 H_VERSION RING_VERSION m) (\<lambda>m.
     Option.bind (store_u16 H_RESERVED 0 m) (\<lambda>m.
     Option.bind (store_u32 H_CAPACITY cap m) (\<lambda>m.
     Option.bind (store_u32 H_SLOT_SIZE slot_size m) (\<lambda>m.
     Option.bind (store_u64 H_PRODUCER 0 m) (\<lambda>m.
     store_u64 H_CONSUMER 0 m))))))"

text \<open>\<^verbatim>\<open>truncate(true)\<close> and \<^verbatim>\<open>set_len\<close> leave a file of zeros.\<close>

definition ring_create :: "(OsCall \<Rightarrow> bool) \<Rightarrow> u32 \<Rightarrow> u32 \<Rightarrow> (bytes, RingError) result option" where
  "ring_create succeeds cap slot_size =
     (case and_then (total_len cap slot_size) (\<lambda>len.
        and_then (os succeeds OpenFile) (\<lambda>_.
        and_then (os succeeds SetLen) (\<lambda>_.
        ring_map succeeds (replicate (unat len) 0)))) of
      Ok m \<Rightarrow> map_option Ok (ring_init cap slot_size m)
    | Err e \<Rightarrow> Some (Err e)
    | Panic \<Rightarrow> Some Panic)"

definition ring_validate :: "bytes \<Rightarrow> (unit, RingError) result option" where
  "ring_validate m =
     Option.bind (load_u32 H_MAGIC m) (\<lambda>magic.
     if magic \<noteq> RING_MAGIC then Some (Err BadMagic)
     else Option.bind (load_u16 H_VERSION m) (\<lambda>version.
     if version \<noteq> RING_VERSION then Some (Err BadVersion)
     else Option.bind (load_u32 H_CAPACITY m) (\<lambda>cap.
     Option.bind (load_u32 H_SLOT_SIZE m) (\<lambda>slot_size.
     Some (and_then (total_len cap slot_size) (\<lambda>expected.
       if unat expected \<noteq> length m then Err LengthMismatch else Ok ()))))))"

definition ring_open :: "(OsCall \<Rightarrow> bool) \<Rightarrow> bytes \<Rightarrow> (bytes, RingError) result option" where
  "ring_open succeeds file =
     (case and_then (os succeeds OpenFile) (\<lambda>_.
        and_then (os succeeds Metadata) (\<lambda>_. ring_map succeeds file)) of
      Ok m \<Rightarrow> map_option (\<lambda>res. and_then res (\<lambda>_. Ok m)) (ring_validate m)
    | Err e \<Rightarrow> Some (Err e)
    | Panic \<Rightarrow> Some Panic)"

definition ring_capacity :: "bytes \<Rightarrow> u32 option" where
  "ring_capacity m = load_u32 H_CAPACITY m"

definition ring_slot_size :: "bytes \<Rightarrow> u32 option" where
  "ring_slot_size m = load_u32 H_SLOT_SIZE m"

section \<open>Sending and receiving\<close>

text \<open>\<^verbatim>\<open>slot_ptr\<close>, as an offset into the mapping; the dev profile checks the arithmetic.\<close>

definition slot_ptr :: "u64 \<Rightarrow> bytes \<Rightarrow> (nat, WireStatus) result option" where
  "slot_ptr slot m = map_option (\<lambda>slot_size.
     let off = HEADER_LEN + unat slot * unat (slot_stride slot_size)
     in if off < 2 ^ 64 then Ok off else Panic) (load_u32 H_SLOT_SIZE m)"

definition ring_send :: "EndpointState \<Rightarrow> bytes \<Rightarrow> bytes \<Rightarrow> ((unit, WireStatus) result \<times> bytes) option" where
  "ring_send endpoint payload m =
     (if ep_status endpoint \<noteq> WOk then Some (Err (ep_status endpoint), m)
      else Option.bind (load_u32 H_SLOT_SIZE m) (\<lambda>slot_size.
      if unat slot_size < length payload then Some (Err WInvalidObject, m)
      else Option.bind (load_u64 H_PRODUCER m) (\<lambda>producer.
      Option.bind (load_u64 H_CONSUMER m) (\<lambda>consumer.
      Option.bind (load_u32 H_CAPACITY m) (\<lambda>cap.
      if ucast cap \<le> producer - consumer then Some (Err WQueueFull, m)
      else if cap = 0 then Some (Panic, m)
      else if 2 ^ 32 \<le> length payload then Some (Err WInvalidObject, m)
      else Option.bind (slot_ptr (producer mod ucast cap) m) (\<lambda>ptr. case ptr of
          Ok off \<Rightarrow>
            Option.bind (store_u32 off (of_nat (length payload)) m) (\<lambda>m.
            Option.bind (write_at (off + LEN_SIZE) payload m) (\<lambda>m.
            Option.bind (store_u64 H_PRODUCER (producer + 1) m) (\<lambda>m.
            Some (Ok (), m))))
        | Err e \<Rightarrow> Some (Err e, m)
        | Panic \<Rightarrow> Some (Panic, m)))))))"

definition ring_recv :: "EndpointState \<Rightarrow> bytes \<Rightarrow> ((bytes option, WireStatus) result \<times> bytes) option" where
  "ring_recv endpoint m =
     (if ep_status endpoint \<noteq> WOk then Some (Err (ep_status endpoint), m)
      else Option.bind (load_u64 H_CONSUMER m) (\<lambda>consumer.
      Option.bind (load_u64 H_PRODUCER m) (\<lambda>producer.
      if consumer = producer then Some (Ok None, m)
      else Option.bind (load_u32 H_CAPACITY m) (\<lambda>cap.
      if cap = 0 then Some (Panic, m)
      else Option.bind (slot_ptr (consumer mod ucast cap) m) (\<lambda>ptr. case ptr of
          Ok off \<Rightarrow>
            Option.bind (load_u32 off m) (\<lambda>len.
            Option.bind (load_u32 H_SLOT_SIZE m) (\<lambda>slot_size.
            if slot_size < len then Some (Err WInvalidObject, m)
            else Option.bind (read_at (off + LEN_SIZE) (unat len) m) (\<lambda>payload.
            Option.bind (store_u64 H_CONSUMER (consumer + 1) m) (\<lambda>m.
            Some (Ok (Some payload), m)))))
        | Err e \<Rightarrow> Some (Err e, m)
        | Panic \<Rightarrow> Some (Panic, m))))))"

section \<open>Header facts\<close>

text \<open>The header describes a ring of \<open>cap\<close> slots of \<open>ss\<close> bytes that fills the mapping.\<close>

definition ring_header :: "u32 \<Rightarrow> u32 \<Rightarrow> bytes \<Rightarrow> bool" where
  "ring_header cap ss m \<longleftrightarrow> load_u32 H_CAPACITY m = Some cap \<and> load_u32 H_SLOT_SIZE m = Some ss \<and>
     length m = HEADER_LEN + unat cap * (LEN_SIZE + unat ss) \<and> length m < 2 ^ 64"

lemma unat_slot_stride: "unat (slot_stride ss) = LEN_SIZE + unat ss"
  using unat_bound [of ss] by (simp add: slot_stride_def LEN_SIZE_def unat_add_no_overflow)

lemma total_len_Ok_iff:
  "total_len cap ss = Ok len \<longleftrightarrow> unat len = HEADER_LEN + unat cap * (LEN_SIZE + unat ss)"
proof -
  have h: "unat (of_nat HEADER_LEN :: u64) = HEADER_LEN" by (simp add: HEADER_LEN_def)
  have "\<exists>z :: u64. unat z = unat cap * (LEN_SIZE + unat ss)"
    if "unat len = HEADER_LEN + unat cap * (LEN_SIZE + unat ss)"
    by (rule exI, rule unat_of_nat_small) (use that unat_bound [of len] in simp)
  then show ?thesis
    by (auto simp: total_len_def checked_mul_Some checked_add_Some h unat_slot_stride) metis
qed

lemma ring_validate_Ok:
  assumes "ring_validate m = Some (Ok ())"
  obtains cap ss where "ring_header cap ss m"
proof -
  from assms obtain cap ss len where "load_u32 H_CAPACITY m = Some cap" "load_u32 H_SLOT_SIZE m = Some ss"
    and "total_len cap ss = Ok len" "unat len = length m"
    by (auto simp: ring_validate_def bind_eq_Some_conv split: if_splits)
  with unat_bound [of len] that show thesis by (auto simp: ring_header_def total_len_Ok_iff)
qed

lemma ring_header_counters:
  assumes "ring_header cap ss m"
  obtains p c where "load_u64 H_PRODUCER m = Some p" "load_u64 H_CONSUMER m = Some c"
proof -
  from assms have "32 \<le> length m" by (simp add: ring_header_def ring_layout)
  with that show thesis using load_total(3) [of H_PRODUCER m] load_total(3) [of H_CONSUMER m]
    by (auto simp: ring_layout)
qed

text \<open>Where slot \<open>s\<close> starts. Slots lie inside the mapping, behind the header, and do not overlap.\<close>

definition slot_base :: "u32 \<Rightarrow> nat \<Rightarrow> nat" where
  "slot_base ss s = HEADER_LEN + s * (LEN_SIZE + unat ss)"

lemma slot_in_range:
  assumes "ring_header cap ss m" and "s < unat cap"
  shows "slot_base ss s + LEN_SIZE + unat ss \<le> length m" and "HEADER_LEN \<le> slot_base ss s"
    and "slot_base ss s < 2 ^ 64"
proof -
  have "s * (LEN_SIZE + unat ss) + (LEN_SIZE + unat ss) \<le> unat cap * (LEN_SIZE + unat ss)"
    using mult_le_mono1 [of "Suc s" "unat cap" "LEN_SIZE + unat ss"] assms(2) by simp
  with assms(1) show "slot_base ss s + LEN_SIZE + unat ss \<le> length m" and "slot_base ss s < 2 ^ 64"
    by (auto simp: ring_header_def slot_base_def LEN_SIZE_def)
  show "HEADER_LEN \<le> slot_base ss s" by (simp add: slot_base_def)
qed

lemma slots_disjoint:
  assumes "s \<noteq> t"
  shows "slot_base ss s + LEN_SIZE + unat ss \<le> slot_base ss t \<or> slot_base ss t + LEN_SIZE + unat ss \<le> slot_base ss s"
  using assms mult_le_mono1 [of "Suc s" t "LEN_SIZE + unat ss"] mult_le_mono1 [of "Suc t" s "LEN_SIZE + unat ss"]
  by (cases "s < t") (auto simp: slot_base_def)

lemma unat_slot: "unat (x mod ucast cap :: u64) = unat x mod unat (cap :: u32)"
  by (simp add: unat_mod)

lemma slot_ptr_eq:
  assumes "ring_header cap ss m" and "cap \<noteq> 0"
  shows "slot_ptr (x mod ucast cap) m = Some (Ok (slot_base ss (unat x mod unat cap)))"
proof -
  have "unat x mod unat cap < unat cap" using assms(2) by (simp add: unat_gt_0)
  from slot_in_range(3) [OF assms(1) this] assms(1) show ?thesis
    by (simp add: slot_ptr_def ring_header_def unat_slot unat_slot_stride slot_base_def)
qed

section \<open>What one operation does\<close>

definition ring_put :: "u32 \<Rightarrow> u32 \<Rightarrow> u64 \<Rightarrow> bytes \<Rightarrow> bytes \<Rightarrow> bytes" where
  "ring_put cap ss p payload m = (let base = slot_base ss (unat p mod unat cap) in
     poke H_PRODUCER (le_bytes 8 (unat (p + 1)))
       (poke (base + LEN_SIZE) payload (poke base (le_bytes 4 (length payload)) m)))"

definition ring_advance :: "u64 \<Rightarrow> bytes \<Rightarrow> bytes" where
  "ring_advance c m = poke H_CONSUMER (le_bytes 8 (unat (c + 1))) m"

lemma ring_send_eq:
  assumes hdr: "ring_header cap ss m" and ok: "ep_status ep = WOk"
    and p: "load_u64 H_PRODUCER m = Some p" and c: "load_u64 H_CONSUMER m = Some c"
  shows "ring_send ep payload m = Some (if unat ss < length payload then (Err WInvalidObject, m)
    else if unat cap \<le> unat (p - c) then (Err WQueueFull, m)
    else (Ok (), ring_put cap ss p payload m))"
proof (cases "unat ss < length payload \<or> unat cap \<le> unat (p - c)")
  case True
  with hdr p c ok show ?thesis
    by (auto simp: ring_send_def ring_header_def word_le_nat_alt)
next
  case False
  let ?s = "unat p mod unat cap"
  from False have cap: "cap \<noteq> 0" by auto
  have "?s < unat cap" using cap by (simp add: unat_gt_0)
  note range = slot_in_range [OF hdr this]
  have small: "length payload < 2 ^ 32" using False unat_bound [of ss] by simp
  then have n: "unat (of_nat (length payload) :: u32) = length payload" by (intro unat_of_nat_small) simp
  have "H_PRODUCER + 8 \<le> length m" using range by (simp add: ring_layout)
  with False hdr p c ok cap small range n show ?thesis
    by (simp add: ring_send_def ring_header_def word_le_nat_alt slot_ptr_eq [OF hdr cap] store_u32_def
        store_u64_def ring_put_def Let_def write_at_poke LEN_SIZE_def)
qed

lemma ring_recv_eq:
  assumes hdr: "ring_header cap ss m" and ok: "ep_status ep = WOk" and cap: "cap \<noteq> 0"
    and p: "load_u64 H_PRODUCER m = Some p" and c: "load_u64 H_CONSUMER m = Some c"
    and len: "load_u32 (slot_base ss (unat c mod unat cap)) m = Some len"
  shows "ring_recv ep m = Some (if c = p then (Ok None, m)
    else if ss < len then (Err WInvalidObject, m)
    else (Ok (read_at (slot_base ss (unat c mod unat cap) + LEN_SIZE) (unat len) m), ring_advance c m))"
proof -
  let ?s = "unat c mod unat cap"
  have "?s < unat cap" using cap by (simp add: unat_gt_0)
  note range = slot_in_range [OF hdr this]
  have "H_CONSUMER + 8 \<le> length m" using range by (simp add: ring_layout)
  moreover have "unat len \<le> unat ss \<Longrightarrow>
      \<exists>bs. read_at (slot_base ss ?s + LEN_SIZE) (unat len) m = Some bs"
    using read_at_total [of "slot_base ss ?s + LEN_SIZE" "unat len" m] range by auto
  ultimately show ?thesis
    using hdr p c ok cap len
    by (auto simp: ring_recv_def ring_header_def slot_ptr_eq [OF hdr cap] store_u64_def ring_advance_def
        write_at_poke word_le_nat_alt word_less_nat_alt not_less)
qed

section \<open>The messages in a ring\<close>

definition slot_bytes :: "u32 \<Rightarrow> nat \<Rightarrow> bytes \<Rightarrow> bytes" where
  "slot_bytes ss s m = take (LEN_SIZE + unat ss) (drop (slot_base ss s) m)"

definition slot_len :: "u32 \<Rightarrow> nat \<Rightarrow> bytes \<Rightarrow> u32" where
  "slot_len ss s m = of_nat (le_value (take LEN_SIZE (slot_bytes ss s m)))"

definition slot_msg :: "u32 \<Rightarrow> nat \<Rightarrow> bytes \<Rightarrow> bytes" where
  "slot_msg ss s m = take (unat (slot_len ss s m)) (drop LEN_SIZE (slot_bytes ss s m))"

definition ring_pending :: "bytes \<Rightarrow> nat" where
  "ring_pending m = unat (counter H_PRODUCER m - counter H_CONSUMER m)"

definition ring_slot :: "u32 \<Rightarrow> nat \<Rightarrow> bytes \<Rightarrow> nat" where
  "ring_slot cap i m = unat (counter H_CONSUMER m + of_nat i) mod unat cap"

definition ring_content :: "u32 \<Rightarrow> u32 \<Rightarrow> bytes \<Rightarrow> bytes list" where
  "ring_content cap ss m = map (\<lambda>i. slot_msg ss (ring_slot cap i m) m) [0..<ring_pending m]"

text \<open>
  The invariant of a ring in use. The last conjunct of the first line is about the counters,
  which are \<^verbatim>\<open>u64\<close> and wrap: only when the capacity divides \<open>2 ^ 64\<close> (as the default capacity of 64
  does) do the slots stay in sequence across the wrap.
\<close>

definition ring_inv :: "u32 \<Rightarrow> u32 \<Rightarrow> bytes \<Rightarrow> bool" where
  "ring_inv cap ss m \<longleftrightarrow> ring_header cap ss m \<and> cap \<noteq> 0 \<and> unat cap dvd 2 ^ 64 \<and>
     ring_pending m \<le> unat cap \<and>
     (\<forall>i<ring_pending m. slot_len ss (ring_slot cap i m) m \<le> ss)"

lemma slot_loads:
  assumes "ring_header cap ss m" and "s < unat cap"
  shows "load_u32 (slot_base ss s) m = Some (slot_len ss s m)"
    and "slot_len ss s m \<le> ss \<Longrightarrow>
      read_at (slot_base ss s + LEN_SIZE) (unat (slot_len ss s m)) m = Some (slot_msg ss s m)"
proof -
  note range = slot_in_range [OF assms]
  show "load_u32 (slot_base ss s) m = Some (slot_len ss s m)"
    using range(1) by (simp add: load_u32_def read_at_def slot_len_def slot_bytes_def LEN_SIZE_def min_def)
  assume "slot_len ss s m \<le> ss"
  then have len: "unat (slot_len ss s m) \<le> unat ss" by (simp add: word_le_nat_alt)
  with range(1) have "slot_base ss s + LEN_SIZE + unat (slot_len ss s m) \<le> length m" by simp
  with len show "read_at (slot_base ss s + LEN_SIZE) (unat (slot_len ss s m)) m = Some (slot_msg ss s m)"
    by (simp add: read_at_def slot_msg_def slot_bytes_def drop_take min_def add.commute)
qed

lemma slot_bytes_poke_other:
  assumes "ring_header cap ss m" and "s < unat cap" and "off + length bs \<le> length m"
    and "off + length bs \<le> slot_base ss s \<or> slot_base ss s + LEN_SIZE + unat ss \<le> off"
  shows "slot_bytes ss s (poke off bs m) = slot_bytes ss s m"
proof -
  have "read_at (slot_base ss s) (LEN_SIZE + unat ss) (poke off bs m) =
      read_at (slot_base ss s) (LEN_SIZE + unat ss) m"
    by (rule read_write_disjoint [OF write_at_poke [OF assms(3)]]) (use assms(4) in auto)
  with slot_in_range(1) [OF assms(1,2)] assms(3) show ?thesis
    by (simp add: read_at_Some slot_bytes_def add.assoc)
qed

lemma ring_header_poke:
  assumes "ring_header cap ss m" and "off + length bs \<le> length m" and "H_PRODUCER \<le> off"
  shows "ring_header cap ss (poke off bs m)"
  using assms load_write_disjoint(1) [OF write_at_poke [OF assms(2)]]
  by (simp add: ring_header_def ring_layout)

lemma slot_bytes_parts:
  "take LEN_SIZE (slot_bytes ss s m) = take LEN_SIZE (drop (slot_base ss s) m)"
  "n \<le> unat ss \<Longrightarrow> take n (drop LEN_SIZE (slot_bytes ss s m)) = take n (drop (slot_base ss s + LEN_SIZE) m)"
  by (simp_all add: slot_bytes_def drop_take min_def add.commute)

lemma ring_put_slot:
  assumes hdr: "ring_header cap ss m" and cap: "cap \<noteq> 0" and len: "length payload \<le> unat ss"
    and s: "s = unat p mod unat cap"
  shows "slot_len ss s (ring_put cap ss p payload m) = of_nat (length payload)"
    and "slot_msg ss s (ring_put cap ss p payload m) = payload"
proof -
  have lt: "s < unat cap" using cap s by (simp add: unat_gt_0)
  note range = slot_in_range [OF hdr lt]
  let ?b = "slot_base ss s"
  let ?m1 = "poke ?b (le_bytes 4 (length payload)) m"
  let ?m2 = "poke (?b + LEN_SIZE) payload ?m1"
  let ?m3 = "ring_put cap ss p payload m"
  have fit: "?b + length (le_bytes 4 (length payload)) \<le> length m" "?b + LEN_SIZE + length payload \<le> length m"
    "H_PRODUCER + 8 \<le> length m" using range len by (simp_all add: ring_layout)
  have m3: "?m3 = poke H_PRODUCER (le_bytes 8 (unat (p + 1))) ?m2"
    by (simp add: ring_put_def Let_def s)
  have small: "length payload < 2 ^ 32" using len unat_bound [of ss] by simp
  have "take LEN_SIZE (drop ?b ?m3) = take LEN_SIZE (drop ?b ?m2)"
    unfolding m3 using fit range by (intro take_drop_poke_other) (simp_all add: ring_layout)
  also have "\<dots> = take LEN_SIZE (drop ?b ?m1)"
    using fit range by (intro take_drop_poke_other) (simp_all add: ring_layout)
  also have "\<dots> = le_bytes 4 (length payload)"
    using drop_poke_same [OF fit(1)] by (simp add: LEN_SIZE_def)
  finally show slen: "slot_len ss s ?m3 = of_nat (length payload)"
    using small by (simp add: slot_len_def slot_bytes_parts le_value_le_bytes)
  then have ulen: "unat (slot_len ss s ?m3) = length payload" using small by (simp add: unat_of_nat_small)
  have "take (length payload) (drop (?b + LEN_SIZE) ?m3) = take (length payload) (drop (?b + LEN_SIZE) ?m2)"
    unfolding m3 using fit range by (intro take_drop_poke_other) (simp_all add: ring_layout)
  also have "\<dots> = payload"
    using fit by (intro drop_poke_same) (simp add: LEN_SIZE_def)
  finally show "slot_msg ss s ?m3 = payload"
    unfolding slot_msg_def ulen using slot_bytes_parts(2) [OF len] by simp
qed

lemma ring_put_frame:
  assumes hdr: "ring_header cap ss m" and cap: "cap \<noteq> 0" and len: "length payload \<le> unat ss"
  shows "ring_header cap ss (ring_put cap ss p payload m)"
    and "counter H_PRODUCER (ring_put cap ss p payload m) = p + 1"
    and "counter H_CONSUMER (ring_put cap ss p payload m) = counter H_CONSUMER m"
    and "t < unat cap \<Longrightarrow> t \<noteq> unat p mod unat cap \<Longrightarrow>
      slot_bytes ss t (ring_put cap ss p payload m) = slot_bytes ss t m"
proof -
  let ?s = "unat p mod unat cap"
  have lt: "?s < unat cap" using cap by (simp add: unat_gt_0)
  note range = slot_in_range [OF hdr lt]
  let ?b = "slot_base ss ?s"
  let ?m1 = "poke ?b (le_bytes 4 (length payload)) m"
  let ?m2 = "poke (?b + LEN_SIZE) payload ?m1"
  let ?m3 = "ring_put cap ss p payload m"
  have m3: "?m3 = poke H_PRODUCER (le_bytes 8 (unat (p + 1))) ?m2"
    by (simp add: ring_put_def Let_def)
  have fit: "?b + length (le_bytes 4 (length payload)) \<le> length m" using range by (simp add: LEN_SIZE_def)
  have fit2: "?b + LEN_SIZE + length payload \<le> length ?m1" using fit range len by simp
  have fit3: "H_PRODUCER + length (le_bytes 8 (unat (p + 1))) \<le> length ?m2"
    using fit fit2 range by (simp add: ring_layout)
  have h1: "ring_header cap ss ?m1" using fit range by (intro ring_header_poke hdr) (simp_all add: ring_layout)
  have h2: "ring_header cap ss ?m2" using fit2 range by (intro ring_header_poke h1) (simp_all add: ring_layout)
  show "ring_header cap ss ?m3" unfolding m3 using fit3 by (intro ring_header_poke h2) simp_all
  show "counter H_PRODUCER ?m3 = p + 1" unfolding m3 using fit3 by (intro counter_poke_same) simp
  have "counter H_CONSUMER ?m3 = counter H_CONSUMER ?m2"
    unfolding m3 using fit3 by (intro counter_poke_other) (simp_all add: ring_layout)
  also have "\<dots> = counter H_CONSUMER ?m1"
    using fit2 range by (intro counter_poke_other) (simp_all add: ring_layout)
  also have "\<dots> = counter H_CONSUMER m"
    using fit range by (intro counter_poke_other) (simp_all add: ring_layout)
  finally show "counter H_CONSUMER ?m3 = counter H_CONSUMER m" .
  assume t: "t < unat cap" "t \<noteq> ?s"
  note dis = slots_disjoint [OF t(2), of ss]
  have "slot_bytes ss t ?m3 = slot_bytes ss t ?m2"
    unfolding m3 using fit3 slot_in_range(2) [OF hdr t(1)]
    by (intro slot_bytes_poke_other [OF h2 t(1)]) (simp_all add: ring_layout)
  also have "\<dots> = slot_bytes ss t ?m1"
    using fit2 dis len by (intro slot_bytes_poke_other [OF h1 t(1)]) auto
  also have "\<dots> = slot_bytes ss t m"
    using fit dis by (intro slot_bytes_poke_other [OF hdr t(1)]) (auto simp: LEN_SIZE_def)
  finally show "slot_bytes ss t ?m3 = slot_bytes ss t m" .
qed

section \<open>The ring as a bounded channel\<close>

lemma ring_slot_linear:
  assumes "unat cap dvd 2 ^ 64"
  shows "ring_slot cap i m = (unat (counter H_CONSUMER m) + i) mod unat cap"
proof -
  have "unat (counter H_CONSUMER m + of_nat i) = (unat (counter H_CONSUMER m) + i) mod 2 ^ 64"
    by (simp add: unat_word_ariths(1) unat_of_nat mod_add_right_eq)
  with assms show ?thesis by (simp only: ring_slot_def mod_mod_cancel)
qed

lemma ring_slot_producer: "ring_slot cap (ring_pending m) m = unat (counter H_PRODUCER m) mod unat cap"
  by (simp add: ring_slot_def ring_pending_def)

lemma ring_slot_lt: "cap \<noteq> 0 \<Longrightarrow> ring_slot cap i m < unat cap"
  by (simp add: ring_slot_def unat_gt_0)

lemma slot_same:
  assumes "slot_bytes ss t m' = slot_bytes ss t m"
  shows "slot_len ss t m' = slot_len ss t m" and "slot_msg ss t m' = slot_msg ss t m"
  using assms by (simp_all add: slot_len_def slot_msg_def)

lemma ring_put_content:
  assumes inv: "ring_inv cap ss m" and room: "ring_pending m < unat cap" and len: "length payload \<le> unat ss"
    and m': "m' = ring_put cap ss (counter H_PRODUCER m) payload m"
  shows "ring_inv cap ss m' \<and> ring_content cap ss m' = ring_content cap ss m @ [payload]"
proof -
  from inv have hdr: "ring_header cap ss m" and cap: "cap \<noteq> 0" and dvd: "unat cap dvd 2 ^ 64"
    and lens: "\<And>i. i < ring_pending m \<Longrightarrow> slot_len ss (ring_slot cap i m) m \<le> ss"
    by (simp_all add: ring_inv_def)
  note frame = ring_put_frame [OF hdr cap len, where p = "counter H_PRODUCER m", folded m']
  note new = ring_put_slot [OF hdr cap len refl, where p = "counter H_PRODUCER m", folded m']
  let ?n = "ring_pending m"
  have "ring_pending m' = unat (counter H_PRODUCER m - counter H_CONSUMER m + 1)"
    by (simp add: ring_pending_def frame algebra_simps)
  also have "\<dots> = ?n + 1"
    using room unat_bound [of cap] by (simp add: ring_pending_def unat_add_no_overflow)
  finally have pend: "ring_pending m' = Suc ?n" by simp
  have slot: "ring_slot cap i m' = ring_slot cap i m" for i
    by (simp add: ring_slot_def frame)
  have other: "slot_bytes ss (ring_slot cap i m) m' = slot_bytes ss (ring_slot cap i m) m" if "i < ?n" for i
  proof (rule frame(4) [OF ring_slot_lt [OF cap]])
    have "ring_slot cap i m \<noteq> ring_slot cap ?n m"
      unfolding ring_slot_linear [OF dvd] using that room by (intro add_mod_distinct) simp_all
    then show "ring_slot cap i m \<noteq> unat (counter H_PRODUCER m) mod unat cap"
      by (simp add: ring_slot_producer)
  qed
  have "ring_content cap ss m' = map (\<lambda>i. slot_msg ss (ring_slot cap i m) m') [0..<?n] @
      [slot_msg ss (ring_slot cap ?n m) m']"
    by (simp add: ring_content_def pend slot)
  also have "\<dots> = ring_content cap ss m @ [payload]"
    using new(2) by (simp add: ring_content_def ring_slot_producer slot_same [OF other])
  finally have content: "ring_content cap ss m' = ring_content cap ss m @ [payload]" .
  have "slot_len ss (ring_slot cap i m') m' \<le> ss" if "i < ring_pending m'" for i
  proof (cases "i = ?n")
    case True
    have "unat (of_nat (length payload) :: u32) = length payload"
      using len unat_bound [of ss] by (intro unat_of_nat_small) simp
    with True len new(1) show ?thesis by (simp add: slot ring_slot_producer word_le_nat_alt)
  next
    case False
    with that pend have "i < ?n" by simp
    with lens slot_same(1) [OF other] slot show ?thesis by simp
  qed
  with frame(1) cap dvd room pend content show ?thesis by (simp add: ring_inv_def)
qed

lemma ring_advance_frame:
  assumes hdr: "ring_header cap ss m"
  shows "ring_header cap ss (ring_advance c m)" and "counter H_CONSUMER (ring_advance c m) = c + 1"
    and "counter H_PRODUCER (ring_advance c m) = counter H_PRODUCER m"
    and "t < unat cap \<Longrightarrow> slot_bytes ss t (ring_advance c m) = slot_bytes ss t m"
proof -
  have fit: "H_CONSUMER + length (le_bytes 8 (unat (c + 1))) \<le> length m"
    using hdr by (simp add: ring_header_def ring_layout)
  show "ring_header cap ss (ring_advance c m)"
    unfolding ring_advance_def using fit by (intro ring_header_poke hdr) (simp_all add: ring_layout)
  show "counter H_CONSUMER (ring_advance c m) = c + 1"
    unfolding ring_advance_def using fit by (intro counter_poke_same) simp
  show "counter H_PRODUCER (ring_advance c m) = counter H_PRODUCER m"
    unfolding ring_advance_def using fit by (intro counter_poke_other) (simp_all add: ring_layout)
  assume t: "t < unat cap"
  show "slot_bytes ss t (ring_advance c m) = slot_bytes ss t m"
    unfolding ring_advance_def using fit slot_in_range(2) [OF hdr t]
    by (intro slot_bytes_poke_other [OF hdr t]) (simp_all add: ring_layout)
qed

lemma ring_advance_content:
  assumes inv: "ring_inv cap ss m" and some: "counter H_CONSUMER m \<noteq> counter H_PRODUCER m"
    and m': "m' = ring_advance (counter H_CONSUMER m) m"
  shows "ring_inv cap ss m' \<and>
    ring_content cap ss m = slot_msg ss (ring_slot cap 0 m) m # ring_content cap ss m'"
proof -
  from inv have hdr: "ring_header cap ss m" and cap: "cap \<noteq> 0" and dvd: "unat cap dvd 2 ^ 64"
    and lens: "\<And>i. i < ring_pending m \<Longrightarrow> slot_len ss (ring_slot cap i m) m \<le> ss"
    by (simp_all add: ring_inv_def)
  note frame = ring_advance_frame [OF hdr, where c = "counter H_CONSUMER m", folded m']
  have "ring_pending m' = unat (counter H_PRODUCER m - counter H_CONSUMER m - 1)"
    by (simp add: ring_pending_def frame algebra_simps)
  also have "\<dots> = ring_pending m - 1"
    using some by (simp add: ring_pending_def unat_minus_one)
  finally have pend: "ring_pending m' = ring_pending m - 1" .
  have pos: "0 < ring_pending m" using some by (simp add: ring_pending_def unat_gt_0)
  then have pend: "ring_pending m = Suc (ring_pending m')" using pend by simp
  have slot: "ring_slot cap i m' = ring_slot cap (Suc i) m" for i
    by (simp add: ring_slot_def frame add.assoc)
  have same: "slot_bytes ss (ring_slot cap (Suc i) m) m' = slot_bytes ss (ring_slot cap (Suc i) m) m" for i
    by (rule frame(4)) (rule ring_slot_lt [OF cap])
  have "ring_content cap ss m = slot_msg ss (ring_slot cap 0 m) m # ring_content cap ss m'"
    unfolding ring_content_def pend map_upt_Suc by (simp add: slot slot_same(2) [OF same])
  with frame(1) cap dvd inv pend lens slot slot_same(1) [OF same] show ?thesis by (simp add: ring_inv_def)
qed

definition put_ring :: "WireCap \<Rightarrow> bytes \<Rightarrow> bytes \<Rightarrow> bytes option" where
  "put_ring wc payload m = (case ring_send (endpoint_new wc) payload m of
      Some (Ok _, m') \<Rightarrow> Some m' | _ \<Rightarrow> None)"

definition take_ring :: "WireCap \<Rightarrow> bytes \<Rightarrow> (bytes \<times> bytes) option" where
  "take_ring wc m = (case ring_recv (endpoint_new wc) m of
      Some (Ok (Some payload), m') \<Rightarrow> Some (payload, m') | _ \<Rightarrow> None)"

lemma counters_loaded:
  assumes "ring_header cap ss m"
  shows "load_u64 H_PRODUCER m = Some (counter H_PRODUCER m)" "load_u64 H_CONSUMER m = Some (counter H_CONSUMER m)"
  using assms by (auto simp: counter_def elim: ring_header_counters)

lemma put_ring_eq:
  assumes "ring_header cap ss m"
  shows "put_ring wc payload m = (if length payload \<le> unat ss \<and> ring_pending m < unat cap
    then Some (ring_put cap ss (counter H_PRODUCER m) payload m) else None)"
  using ring_send_eq [OF assms ep_status_new counters_loaded [OF assms], of wc payload]
  by (simp add: put_ring_def ring_pending_def)

lemma take_ring_eq:
  assumes inv: "ring_inv cap ss m"
  shows "take_ring wc m = (if counter H_CONSUMER m = counter H_PRODUCER m then None
    else Some (slot_msg ss (ring_slot cap 0 m) m, ring_advance (counter H_CONSUMER m) m))"
proof -
  from inv have hdr: "ring_header cap ss m" and cap: "cap \<noteq> 0" by (simp_all add: ring_inv_def)
  have s: "ring_slot cap 0 m = unat (counter H_CONSUMER m) mod unat cap" by (simp add: ring_slot_def)
  note lt = ring_slot_lt [OF cap, of 0 m]
  have "0 < ring_pending m" if "counter H_CONSUMER m \<noteq> counter H_PRODUCER m"
    using that by (simp add: ring_pending_def unat_gt_0)
  with inv have "\<not> ss < slot_len ss (ring_slot cap 0 m) m" if "counter H_CONSUMER m \<noteq> counter H_PRODUCER m"
    using that by (simp add: ring_inv_def not_less)
  with slot_loads [OF hdr lt]
    ring_recv_eq [OF hdr ep_status_new cap counters_loaded [OF hdr], of "slot_len ss (ring_slot cap 0 m) m" wc]
  show ?thesis
    by (cases "counter H_CONSUMER m = counter H_PRODUCER m") (simp_all add: take_ring_def s not_less)
qed

lemma ring_content_length: "length (ring_content cap ss m) = ring_pending m"
  by (simp add: ring_content_def)

lemma ring_content_Nil_iff: "ring_content cap ss m = [] \<longleftrightarrow> counter H_CONSUMER m = counter H_PRODUCER m"
  using ring_content_length [of cap ss m]
  by (metis length_0_conv length_greater_0_conv right_minus_eq ring_pending_def unat_eq_zero)

interpretation ring: bounded_channel "ring_inv cap ss" "ring_content cap ss" "\<lambda>m. unat cap"
  "\<lambda>m payload. length payload \<le> unat ss" "put_ring wc" "take_ring wc'" for cap ss wc wc'
proof unfold_locales
  fix m payload
  assume inv: "ring_inv cap ss m"
  then have hdr: "ring_header cap ss m" by (simp add: ring_inv_def)
  note put = put_ring_eq [OF hdr] and take = take_ring_eq [OF inv]
  show "length (ring_content cap ss m) \<le> unat cap"
    using inv by (simp add: ring_content_length ring_inv_def)
  show "put_ring wc payload m = None" if "unat cap \<le> length (ring_content cap ss m)"
    using that by (simp add: put ring_content_length)
  show "\<exists>m'. put_ring wc payload m = Some m'"
    if "length payload \<le> unat ss" "length (ring_content cap ss m) < unat cap"
    using that by (simp add: put ring_content_length)
  show "ring_inv cap ss m' \<and> ring_content cap ss m' = ring_content cap ss m @ [payload] \<and> unat cap = unat cap \<and>
      (\<forall>x. (length x \<le> unat ss) = (length x \<le> unat ss))" if "put_ring wc payload m = Some m'" for m'
    using that ring_put_content [OF inv] by (auto simp: put split: if_splits)
  show "take_ring wc' m = None" if "ring_content cap ss m = []"
    using that by (simp add: take ring_content_Nil_iff)
  show "\<exists>m'. take_ring wc' m = Some (payload, m') \<and> ring_inv cap ss m' \<and> ring_content cap ss m' = ms \<and>
      unat cap = unat cap \<and> (\<forall>x. (length x \<le> unat ss) = (length x \<le> unat ss))"
    if "ring_content cap ss m = payload # ms" for ms
  proof -
    have "counter H_CONSUMER m \<noteq> counter H_PRODUCER m" using that ring_content_Nil_iff [of cap ss m] by simp
    with ring_advance_content [OF inv this refl] that show ?thesis by (simp add: take)
  qed
qed

section \<open>Creation, opening and memory safety\<close>

lemma ring_validate_poke:
  assumes "off + length bs \<le> length m" and "H_PRODUCER \<le> off"
  shows "ring_validate (poke off bs m) = ring_validate m"
proof -
  note same = load_write_disjoint [OF write_at_poke [OF assms(1)]]
  from assms(2) have loads: "load_u32 H_MAGIC (poke off bs m) = load_u32 H_MAGIC m"
    "load_u16 H_VERSION (poke off bs m) = load_u16 H_VERSION m"
    "load_u32 H_CAPACITY (poke off bs m) = load_u32 H_CAPACITY m"
    "load_u32 H_SLOT_SIZE (poke off bs m) = load_u32 H_SLOT_SIZE m"
    by (simp_all add: same ring_layout)
  show ?thesis unfolding ring_validate_def loads length_poke [OF assms(1)] ..
qed

lemma ring_init_eq:
  assumes "HEADER_LEN \<le> length m"
  shows "ring_init cap ss m = Some (poke H_CONSUMER (le_bytes 8 0) (poke H_PRODUCER (le_bytes 8 0)
    (poke H_SLOT_SIZE (le_bytes 4 (unat ss)) (poke H_CAPACITY (le_bytes 4 (unat cap))
    (poke H_RESERVED (le_bytes 2 0) (poke H_VERSION (le_bytes 2 (unat RING_VERSION))
    (poke H_MAGIC (le_bytes 4 (unat RING_MAGIC)) m)))))))"
  using assms
  by (simp add: ring_init_def store_u32_def store_u16_def store_u64_def write_at_poke ring_layout)

lemma ring_create_facts:
  assumes "ring_init cap ss m0 = Some m" and "HEADER_LEN \<le> length m0"
  shows "length m = length m0" and "load_u32 H_MAGIC m = Some RING_MAGIC" and "load_u16 H_VERSION m = Some RING_VERSION"
    and "load_u32 H_CAPACITY m = Some cap" and "load_u32 H_SLOT_SIZE m = Some ss"
    and "load_u64 H_PRODUCER m = Some 0" and "load_u64 H_CONSUMER m = Some 0"
proof -
  from assms obtain m1 m2 m3 m4 m5 m6 where
    w: "store_u32 H_MAGIC RING_MAGIC m0 = Some m1" "store_u16 H_VERSION RING_VERSION m1 = Some m2"
    "store_u16 H_RESERVED 0 m2 = Some m3" "store_u32 H_CAPACITY cap m3 = Some m4"
    "store_u32 H_SLOT_SIZE ss m4 = Some m5" "store_u64 H_PRODUCER 0 m5 = Some m6" "store_u64 H_CONSUMER 0 m6 = Some m"
    by (auto simp: ring_init_def bind_eq_Some_conv)
  note here = load_store_same(1) [OF w(1)] load_store_same(2) [OF w(2)] load_store_same(1) [OF w(4)]
    load_store_same(1) [OF w(5)] load_store_same(3) [OF w(6)] load_store_same(3) [OF w(7)]
  note defs = store_u32_def store_u16_def store_u64_def
  note keep = load_write_disjoint [OF w(2) [unfolded defs]] load_write_disjoint [OF w(3) [unfolded defs]]
    load_write_disjoint [OF w(4) [unfolded defs]] load_write_disjoint [OF w(5) [unfolded defs]]
    load_write_disjoint [OF w(6) [unfolded defs]] load_write_disjoint [OF w(7) [unfolded defs]]
  show "length m = length m0" using w by (simp add: defs write_at_length)
  show "load_u32 H_MAGIC m = Some RING_MAGIC" "load_u16 H_VERSION m = Some RING_VERSION"
    "load_u32 H_CAPACITY m = Some cap" "load_u32 H_SLOT_SIZE m = Some ss"
    "load_u64 H_PRODUCER m = Some 0" "load_u64 H_CONSUMER m = Some 0"
    using here keep by (simp_all add: ring_layout)
qed

lemma ring_create_Ok:
  assumes "ring_create succeeds cap ss = Some (Ok m)"
  shows "ring_header cap ss m" and "ring_validate m = Some (Ok ())"
    and "counter H_PRODUCER m = 0" and "counter H_CONSUMER m = 0"
proof -
  from assms obtain len where len: "total_len cap ss = Ok len" "\<not> unat len < HEADER_LEN"
    and init: "ring_init cap ss (replicate (unat len) 0) = Some m"
    by (auto simp: ring_create_def ring_map_def os_def split: result.splits if_splits)
  then have "HEADER_LEN \<le> length (replicate (unat len) (0 :: u8))" by simp
  note facts = ring_create_facts [OF init this]
  from facts(6,7) show "counter H_PRODUCER m = 0" "counter H_CONSUMER m = 0" by (simp_all add: counter_def)
  from facts len unat_bound [of len] show "ring_header cap ss m"
    by (simp add: ring_header_def total_len_Ok_iff)
  from facts len show "ring_validate m = Some (Ok ())" by (simp add: ring_validate_def)
qed

lemma ring_ops_keep_validation:
  assumes valid: "ring_validate m = Some (Ok ())" and hdr: "ring_header cap ss m" and cap: "cap \<noteq> 0"
  shows "length payload \<le> unat ss \<Longrightarrow> ring_validate (ring_put cap ss p payload m) = Some (Ok ())"
    and "ring_validate (ring_advance c m) = Some (Ok ())"
proof -
  let ?s = "unat p mod unat cap"
  have lt: "?s < unat cap" using cap by (simp add: unat_gt_0)
  note range = slot_in_range [OF hdr lt]
  show "ring_validate (ring_advance c m) = Some (Ok ())"
    unfolding ring_advance_def using range valid by (simp add: ring_validate_poke ring_layout)
  assume "length payload \<le> unat ss"
  with range valid show "ring_validate (ring_put cap ss p payload m) = Some (Ok ())"
    unfolding ring_put_def Let_def by (simp add: ring_validate_poke ring_layout)
qed

text \<open>A ring of four slots of eight bytes, used as the concrete instance below.\<close>

definition small_ring :: bytes where
  "small_ring = (case ring_create (\<lambda>_. True) 4 8 of Some (Ok m) \<Rightarrow> m | _ \<Rightarrow> [])"

lemma small_ring_created: "ring_create (\<lambda>_. True) 4 8 = Some (Ok small_ring)"
proof -
  have len: "total_len 4 8 = Ok 80" by (simp add: total_len_Ok_iff ring_layout)
  obtain m where "ring_init 4 8 (replicate 80 0) = Some m"
    using ring_init_eq [of "replicate 80 0"] by (simp add: ring_layout)
  then have "ring_create (\<lambda>_. True) 4 8 = Some (Ok m)"
    by (simp add: ring_create_def len os_def ring_map_def HEADER_LEN_def)
  then show ?thesis by (simp add: small_ring_def)
qed

lemmas small_ring_facts = ring_create_Ok [OF small_ring_created]

lemma small_ring_inv: "ring_inv 4 8 small_ring" "ring_content 4 8 small_ring = []"
  using small_ring_facts by (simp_all add: ring_inv_def ring_pending_def ring_content_def)

text \<open>
  C9. The \<^verbatim>\<open>unsafe\<close> blocks of the ring are in bounds. On a mapping that passed \<^verbatim>\<open>validate\<close> and has a
  non-zero capacity, whatever the counters and the slots contain (a peer may have written
  anything there), \<^verbatim>\<open>send\<close> and \<^verbatim>\<open>recv\<close> access only bytes of the mapping, do not panic, and leave
  a mapping that still validates.
\<close>

theorem ring_memory_safe:
  assumes "ring_validate m = Some (Ok ())" and "ring_capacity m = Some cap" and "cap \<noteq> 0"
  shows "(\<exists>res m'. ring_send ep payload m = Some (res, m') \<and> res \<noteq> Panic \<and> ring_validate m' = Some (Ok ())) \<and>
    (\<exists>res m'. ring_recv ep m = Some (res, m') \<and> res \<noteq> Panic \<and> ring_validate m' = Some (Ok ()))"
proof (cases "ep_status ep = WOk")
  case True
  from assms(1) obtain cap' ss where hdr: "ring_header cap' ss m" by (rule ring_validate_Ok)
  with assms(2,3) have cap: "cap' \<noteq> 0" by (simp add: ring_header_def ring_capacity_def)
  note keep = ring_ops_keep_validation [OF assms(1) hdr cap]
  have "unat (counter H_CONSUMER m) mod unat cap' < unat cap'" using cap by (simp add: unat_gt_0)
  note recv = ring_recv_eq [OF hdr True cap counters_loaded [OF hdr] slot_loads(1) [OF hdr this]]
  show ?thesis
    using keep assms(1) unfolding ring_send_eq [OF hdr True counters_loaded [OF hdr]] recv by auto
next
  case False
  with assms(1) show ?thesis by (simp add: ring_send_def ring_recv_def)
qed

theorem ring_memory_safe_witness:
  "\<exists>res m'. ring_send (endpoint_new \<lparr>wc_id = 1, wc_rights = WireRights 0\<rparr>) [112, 107] small_ring = Some (res, m') \<and>
     res \<noteq> Panic \<and> ring_validate m' = Some (Ok ())"
proof -
  have "ring_capacity small_ring = Some 4"
    using small_ring_facts(1) by (simp add: ring_capacity_def ring_header_def)
  from ring_memory_safe [OF small_ring_facts(2) this] show ?thesis by simp
qed



text \<open>
  C39. A ring made by \<^verbatim>\<open>create\<close> can be opened by a peer and starts empty: whenever \<^verbatim>\<open>create\<close> succeeds,
  \<^verbatim>\<open>open\<close> on the same bytes succeeds (if the operating system lets it), and for a capacity that
  divides \<open>2 ^ 64\<close> the ring invariant holds with no message in the ring.
\<close>

theorem ring_create_open:
  assumes "ring_create succeeds cap ss = Some (Ok m)" and "succeeds' OpenFile" and "succeeds' Metadata"
    and "succeeds' Mmap"
  shows "ring_open succeeds' m = Some (Ok m) \<and> ring_capacity m = Some cap \<and> ring_slot_size m = Some ss \<and>
    (unat cap dvd 2 ^ 64 \<longrightarrow> ring_inv cap ss m \<and> ring_content cap ss m = [])"
proof -
  note made = ring_create_Ok [OF assms(1)]
  from made(1) have "HEADER_LEN \<le> length m" by (simp add: ring_header_def)
  with made assms(2-4) show ?thesis
    by (auto simp: ring_open_def os_def ring_map_def ring_capacity_def ring_slot_size_def ring_header_def
        ring_inv_def ring_content_def ring_pending_def)
qed

theorem ring_create_open_witness:
  "ring_open (\<lambda>_. True) small_ring = Some (Ok small_ring) \<and> ring_content 4 8 small_ring = []"
  using ring_create_open [OF small_ring_created, of "\<lambda>_. True"] by simp

section \<open>Where the contract ends\<close>

lemma take_ring_raw:
  assumes hdr: "ring_header cap ss m" and cap: "cap \<noteq> 0" and some: "counter H_CONSUMER m \<noteq> counter H_PRODUCER m"
    and s: "s = unat (counter H_CONSUMER m) mod unat cap" and len: "slot_len ss s m \<le> ss"
  shows "take_ring wc m = Some (slot_msg ss s m, ring_advance (counter H_CONSUMER m) m)"
proof -
  have "s < unat cap" using cap s by (simp add: unat_gt_0)
  note loads = slot_loads [OF hdr this]
  from ring_recv_eq [OF hdr ep_status_new cap counters_loaded [OF hdr] loads(1) [unfolded s], of wc]
    loads(2) [OF len] some len show ?thesis
    by (simp add: take_ring_def s not_less [symmetric])
qed

text \<open>
  C40. The wrap of the counters, for a capacity that does not divide \<open>2 ^ 64\<close>. With three slots and
  both counters at their last value, two sends are accepted but go to the same slot: the first
  message is lost and the second is delivered twice. The manifest allows any non-zero capacity.
\<close>

theorem ring_wrap_loses_message:
  assumes hdr: "ring_header 3 ss m" and "1 \<le> unat ss"
    and "counter H_PRODUCER m = - 1" and "counter H_CONSUMER m = - 1"
  shows "\<exists>m'. chan_exec (put_ring wc) (take_ring wc') [Put [a], Put [b], Take, Take] m = ([[a], [b]], [[b], [b]], m')"
proof -
  have last: "unat (- 1 :: u64) mod unat (3 :: u32) = 0" by (simp add: unsigned_minus_1_eq_mask mask_eq_exp_minus_1)
  have fits: "length [a] \<le> unat ss" "length [b] \<le> unat ss" using assms(2) by simp_all
  define m1 where "m1 = ring_put 3 ss (- 1) [a] m"
  note f1 = ring_put_frame [OF hdr _ fits(1), where p = "- 1", folded m1_def, simplified]
  define m2 where "m2 = ring_put 3 ss 0 [b] m1"
  note f2 = ring_put_frame [OF f1(1) _ fits(2), where p = 0, folded m2_def, simplified]
  have s2: "slot_len ss 0 m2 = 1" "slot_msg ss 0 m2 = [b]"
    using ring_put_slot [OF f1(1) _ fits(2), where p = 0 and s = 0, folded m2_def] by simp_all
  define m3 where "m3 = ring_advance (- 1) m2"
  note f3 = ring_advance_frame [OF f2(1), where c = "- 1", folded m3_def, simplified]
  have s3: "slot_len ss 0 m3 = 1" "slot_msg ss 0 m3 = [b]"
    using slot_same [OF f3(4) [of 0]] s2 by simp_all
  have small: "(1 :: u32) \<le> ss" using assms(2) by (simp add: word_le_nat_alt)
  have put1: "put_ring wc [a] m = Some m1"
    using assms fits by (simp add: put_ring_eq [OF hdr] ring_pending_def m1_def)
  have put2: "put_ring wc [b] m1 = Some m2"
    using assms(4) fits f1(2,3) by (simp add: put_ring_eq [OF f1(1)] ring_pending_def m2_def)
  have take3: "take_ring wc' m2 = Some ([b], m3)"
    using take_ring_raw [OF f2(1), where s = 0] assms(4) f1(3) f2(2,3) s2 small last by (simp add: m3_def)
  have "take_ring wc' m3 = Some ([b], ring_advance 0 m3)"
    using take_ring_raw [OF f3(1), where s = 0] f3(2,3) f2(2) s3 small by simp
  with put1 put2 take3 show ?thesis by simp
qed

definition last_ring :: bytes where
  "last_ring = poke H_CONSUMER (le_bytes 8 (unat (- 1 :: u64))) (poke H_PRODUCER (le_bytes 8 (unat (- 1 :: u64)))
     (case ring_create (\<lambda>_. True) 3 8 of Some (Ok m) \<Rightarrow> m | _ \<Rightarrow> []))"

lemma last_ring_facts: "ring_header 3 8 last_ring" "counter H_PRODUCER last_ring = - 1" "counter H_CONSUMER last_ring = - 1"
proof -
  have len: "total_len 3 8 = Ok 68" by (simp add: total_len_Ok_iff ring_layout)
  obtain m where "ring_init 3 8 (replicate 68 0) = Some m"
    using ring_init_eq [of "replicate 68 0"] by (simp add: ring_layout)
  then have made: "ring_create (\<lambda>_. True) 3 8 = Some (Ok m)"
    by (simp add: ring_create_def len os_def ring_map_def HEADER_LEN_def)
  note hdr = ring_create_Ok(1) [OF made]
  let ?last = "le_bytes 8 (unat (- 1 :: u64))"
  have fit: "H_CONSUMER + length ?last \<le> length m" using hdr by (simp add: ring_header_def ring_layout)
  let ?m1 = "poke H_PRODUCER ?last m"
  have eq: "last_ring = poke H_CONSUMER ?last ?m1" by (simp only: last_ring_def made option.case result.case)
  have h1: "ring_header 3 8 ?m1" using fit by (intro ring_header_poke hdr) (simp_all add: ring_layout)
  have fit1: "H_CONSUMER + length ?last \<le> length ?m1" using fit by (simp add: ring_layout)
  show "ring_header 3 8 last_ring" unfolding eq using fit1 by (intro ring_header_poke h1) (simp_all add: ring_layout)
  have "counter H_PRODUCER last_ring = counter H_PRODUCER ?m1"
    unfolding eq using fit1 by (intro counter_poke_other) (simp_all add: ring_layout)
  also have "\<dots> = - 1" using fit by (intro counter_poke_same) (simp add: ring_layout)
  finally show "counter H_PRODUCER last_ring = - 1" .
  show "counter H_CONSUMER last_ring = - 1" unfolding eq using fit1 by (intro counter_poke_same) simp
qed

theorem ring_wrap_loses_message_witness:
  "\<exists>m'. chan_exec (put_ring \<lparr>wc_id = 1, wc_rights = WireRights 4\<rparr>) (take_ring \<lparr>wc_id = 2, wc_rights = WireRights 8\<rparr>)
     [Put [1], Put [2], Take, Take] last_ring = ([[1], [2]], [[2], [2]], m')"
  by (rule ring_wrap_loses_message [OF last_ring_facts(1) _ last_ring_facts(2,3)]) simp

text \<open>
  The header is trusted after it was checked. A peer that rewrites the \<^verbatim>\<open>slot_size\<close> field of a
  mapping that has passed \<^verbatim>\<open>validate\<close> makes the other side's next \<^verbatim>\<open>send\<close> write outside the
  mapping: the bounds argument in the \<^verbatim>\<open>SAFETY\<close> comment holds only while the header is not changed.
\<close>

theorem ring_header_rewrite_unsafe:
  "\<exists>m. ring_validate small_ring = Some (Ok ()) \<and> store_u32 H_SLOT_SIZE 4096 small_ring = Some m \<and>
     ring_send (endpoint_new wc) (replicate 100 0) m = None"
proof -
  from small_ring_facts(1) have hdr: "load_u32 H_CAPACITY small_ring = Some 4" "length small_ring = 80"
    by (simp_all add: ring_header_def ring_layout)
  then obtain m where st: "store_u32 H_SLOT_SIZE 4096 small_ring = Some m"
    by (simp add: store_u32_def write_at_def ring_layout)
  note w = st [unfolded store_u32_def]
  have "length m = 80" using write_at_length [OF w] hdr by simp
  moreover have "load_u32 H_SLOT_SIZE m = Some 4096" by (rule load_store_same(1) [OF st])
  moreover have "load_u32 H_CAPACITY m = Some 4" "load_u64 H_PRODUCER m = Some 0" "load_u64 H_CONSUMER m = Some 0"
    using load_write_disjoint [OF w] hdr counters_loaded [OF small_ring_facts(1)] small_ring_facts(3,4)
    by (simp_all add: ring_layout)
  ultimately have "ring_send (endpoint_new wc) (replicate 100 0) m = None"
    by (simp add: ring_send_def slot_ptr_def store_u32_def write_at_def unat_slot_stride ring_layout)
  with st small_ring_facts(2) show ?thesis by blast
qed

end
