(* ===== verification/Host_Calls.thy ===== *)
theory Host_Calls
  imports Wire_Protocol Manifest Shared_Ring
begin

text \<open>
  How the three processes of the hosted prototype talk to their host: the calls they make of the operating
  system and of each other, and \<^verbatim>\<open>crates/court-hosted-linux/src/control.rs\<close> on top of them. A process is
  a function of the answers its calls get. It runs on a list of answers, keeps a log of its calls,
  and stops with the error \<open>EPending\<close> at the first call that has no answer yet. So a statement for
  all lists of answers is a statement for every behaviour of the host and of the peers.
\<close>

section \<open>Calls and answers\<close>

text \<open>Connections are numbered. A message on a connection is a line of JSON; paths are strings.\<close>

datatype Call =
    CreateDir string
  | RemoveFile string
  | BindSocket string
  | OpenTrace string
  | RecordLine WireTrace
  | CreateRing string u32 u32
  | EnvVar string
  | CurrentExe
  | Exists string
  | Spawn string "string list" string
  | AcceptConn
  | SetTimeouts nat
  | RecvOn nat
  | SendOn nat WireMessage
  | WaitChild string
  | ConnectTo string
  | OpenRing string
  | SendRing string EndpointState bytes
  | RecvRing string EndpointState
  | PastDeadline
  | SleepMs nat

datatype Answer =
    ADone
  | AFailed
  | AMessage WireMessage
  | AClosed
  | AConn nat
  | ACode "int option"
  | AText string
  | AFlag bool
  | ARing RingError
  | ASent "(unit, WireStatus) result"
  | ARecvd "(bytes option, WireStatus) result"

text \<open>
  \<^verbatim>\<open>Box<dyn Error>\<close>: the errors of the crates, a failed call, and the messages the code formats, with the
  values they are built from. \<open>EPending\<close> is not an error of the program: it marks where it waits.
\<close>

datatype LinuxError =
    EPending
  | ECall Call
  | EManifest ManifestError
  | ECore CkError
  | ERing RingError
  | EText string
  | EName string string
  | EMessage string WireMessage
  | EStatus string WireStatus
  | EExit string "int option"

record Io =
  io_in :: "Answer list"
  io_log :: "Call list"

type_synonym 'a LinuxResult = "('a, LinuxError) result"

definition perform :: "Call \<Rightarrow> Io \<Rightarrow> Answer LinuxResult \<times> Io" where
  "perform c io = (case io_in io of
      [] \<Rightarrow> (Err EPending, io\<lparr>io_log := io_log io @ [c]\<rparr>)
    | a # rest \<Rightarrow> (Ok a, \<lparr>io_in = rest, io_log = io_log io @ [c]\<rparr>))"

text \<open>A call of which only success matters.\<close>

definition call :: "Call \<Rightarrow> Io \<Rightarrow> unit LinuxResult \<times> Io" where
  "call c io = try_st (perform c io) (\<lambda>a io. (if a = ADone then Ok () else Err (ECall c), io))"

section \<open>The control channel\<close>

definition peer_new :: "nat \<Rightarrow> Io \<Rightarrow> nat LinuxResult \<times> Io" where
  "peer_new conn io = try_st (call (SetTimeouts conn) io) (\<lambda>_ io. (Ok conn, io))"

fun connect_from :: "nat \<Rightarrow> string \<Rightarrow> Io \<Rightarrow> nat LinuxResult \<times> Io" where
  "connect_from 0 path io = (Err (EName ''failed to connect to '' path), io)"
| "connect_from (Suc n) path io = try_st (perform (ConnectTo path) io) (\<lambda>a io. case a of
      AConn conn \<Rightarrow> peer_new conn io
    | _ \<Rightarrow> try_st (perform (SleepMs 20) io) (\<lambda>_ io. connect_from n path io))"

definition connect_with_retry :: "string \<Rightarrow> Io \<Rightarrow> nat LinuxResult \<times> Io" where
  "connect_with_retry path io = connect_from 100 path io"

definition peer_send :: "nat \<Rightarrow> WireMessage \<Rightarrow> Io \<Rightarrow> unit LinuxResult \<times> Io" where
  "peer_send conn m io = call (SendOn conn m) io"

definition peer_recv :: "nat \<Rightarrow> Io \<Rightarrow> WireMessage LinuxResult \<times> Io" where
  "peer_recv conn io = try_st (perform (RecvOn conn) io) (\<lambda>a io. (case a of
      AMessage m \<Rightarrow> Ok m
    | AClosed \<Rightarrow> Err (EText ''control channel closed'')
    | _ \<Rightarrow> Err (ECall (RecvOn conn)), io))"

section \<open>What calls do\<close>

lemma perform_log [simp]: "io_log (snd (perform c io)) = io_log io @ [c]"
  by (simp add: perform_def split: list.split)

lemma perform_not_Panic [simp]: "fst (perform c io) \<noteq> Panic"
  by (simp add: perform_def split: list.split)

lemma call_log [simp]: "io_log (snd (call c io)) = io_log io @ [c]"
  by (simp add: call_def perform_def try_st_def split: list.split)

lemma peer_send_log [simp]: "io_log (snd (peer_send conn m io)) = io_log io @ [SendOn conn m]"
  by (simp add: peer_send_def)

lemma peer_recv_log [simp]: "io_log (snd (peer_recv conn io)) = io_log io @ [RecvOn conn]"
  by (simp add: peer_recv_def perform_def try_st_def split: list.split)

end
