(* ===== verification/Root_Daemon.thy ===== *)
theory Root_Daemon
  imports Host_Calls Hosted_Invariant "HOL-Library.AList"
begin

text \<open>
  The Root Court daemon of the hosted prototype, \<^verbatim>\<open>crates/court-hosted-linux/src/root.rs\<close>: it builds the in-process Root
  from a manifest, starts the court processes and drives the scenario of the policy over their
  control connections. Hash maps are association lists; where the code iterates over one, the order
  is an argument. A call that does not return is \<open>Panic\<close>.
\<close>

section \<open>State\<close>

record RootConfig =
  cfg_run_dir :: string
  cfg_manifest :: ManifestFile
  cfg_policy :: PolicyFile

text \<open>The orders in which the hash maps keyed by court, and by court and path, are iterated.\<close>

record HashOrder =
  court_order :: "string list \<Rightarrow> string list"
  key_order :: "(string \<times> string) list \<Rightarrow> (string \<times> string) list"

record RootState =
  rs_root :: HostedRoot
  court_ids :: "(string \<times> CourtId) list"
  descriptors :: "(string \<times> Descriptor) list"
  caps_by_id :: "(u64 \<times> CapId) list"
  caps_by_key :: "((string \<times> string) \<times> CapId \<times> Rights) list"
  court_roles :: "(string \<times> CourtRole) list"
  rs_policy :: PolicyFile
  ring_info :: "(string \<times> WireRingInfo) list"
  rs_demo :: WireDemoConfig

type_synonym daemon = "RootState \<times> Io"

type_synonym peers = "(string \<times> nat) list"

definition on_io :: "(Io \<Rightarrow> 'a LinuxResult \<times> Io) \<Rightarrow> daemon \<Rightarrow> 'a LinuxResult \<times> daemon" where
  "on_io f d = (case f (snd d) of (res, io) \<Rightarrow> (res, (fst d, io)))"

text \<open>\<^verbatim>\<open>ck(state.root.op(..))\<close>: an operation of the in-process Root, its error converted.\<close>

definition ck_error :: "'a CkResult \<Rightarrow> 'a LinuxResult" where
  "ck_error res = (case res of Ok a \<Rightarrow> Ok a | Err e \<Rightarrow> Err (ECore e) | Panic \<Rightarrow> Panic)"

definition ck :: "(HostedRoot \<Rightarrow> 'a CkResult \<times> HostedRoot) \<Rightarrow> daemon \<Rightarrow> 'a LinuxResult \<times> daemon" where
  "ck op d = (case op (rs_root (fst d)) of (res, root) \<Rightarrow> (ck_error res, ((fst d)\<lparr>rs_root := root\<rparr>, snd d)))"

text \<open>\<^verbatim>\<open>HostedRoot::revoke\<close>, whose loop is partial in the model.\<close>

definition revoke_total :: "CapId \<Rightarrow> HostedRoot \<Rightarrow> unit CkResult \<times> HostedRoot" where
  "revoke_total cap r = (case hosted_revoke cap r of Some x \<Rightarrow> x | None \<Rightarrow> (Panic, r))"

definition get_or :: "('k \<times> 'v) list \<Rightarrow> 'k \<Rightarrow> LinuxError \<Rightarrow> 'v LinuxResult" where
  "get_or m k e = ok_or (map_of m k) e"

definition record_trace :: "WireTrace \<Rightarrow> daemon \<Rightarrow> unit LinuxResult \<times> daemon" where
  "record_trace event d = on_io (call (RecordLine event)) d"

definition record_trace_from :: "nat \<Rightarrow> string \<Rightarrow> daemon \<Rightarrow> unit LinuxResult \<times> daemon" where
  "record_trace_from peer label d = try_st (on_io (peer_recv peer) d) (\<lambda>m d. case m of
      MTrace event \<Rightarrow> record_trace event d
    | other \<Rightarrow> (Err (EMessage (''expected '' @ label @ '' trace, got '') other), d))"

definition wire_cap :: "CapId \<Rightarrow> Rights \<Rightarrow> WireCap" where
  "wire_cap cap rights = \<lparr>wc_id = cap_raw cap, wc_rights = from_rights rights\<rparr>"

section \<open>Names of ring files\<close>

text \<open>\<^verbatim>\<open>str::split\<close> at a character, and \<^verbatim>\<open>Path::join\<close> with a relative name.\<close>

fun split_at :: "char \<Rightarrow> string \<Rightarrow> string list" where
  "split_at c [] = [[]]"
| "split_at c (x # xs) = (if x = c then [] # split_at c xs else (case split_at c xs of
     [] \<Rightarrow> [[x]] | part # parts \<Rightarrow> (x # part) # parts))"

definition trim_matches :: "char \<Rightarrow> string \<Rightarrow> string" where
  "trim_matches c s = rev (dropWhile (\<lambda>x. x = c) (rev (dropWhile (\<lambda>x. x = c) s)))"

definition path_join :: "string \<Rightarrow> string \<Rightarrow> string" where
  "path_join dir name = (if dir = [] \<or> last dir = CHR ''/'' then dir @ name else dir @ ''/'' @ name)"

definition ring_file_name :: "string \<Rightarrow> string" where
  "ring_file_name path = (let parts = filter (\<lambda>part. part \<noteq> []) (split_at CHR ''/'' path);
     stem = (if 2 \<le> length parts then parts ! (length parts - 2) @ ''-'' @ parts ! (length parts - 1)
       else map (\<lambda>x. if x = CHR ''/'' then CHR ''-'' else x) (trim_matches CHR ''/'' path))
     in stem @ ''.ring'')"

section \<open>Building the state\<close>

fun add_courts :: "CourtManifest list \<Rightarrow> daemon \<Rightarrow> unit LinuxResult \<times> daemon" where
  "add_courts [] d = (Ok (), d)"
| "add_courts (court # rest) d = try_st (ck (create_court (cm_name court)) d) (\<lambda>cid (st, io).
     add_courts rest (st\<lparr>court_ids := AList.update (cm_name court) cid (court_ids st),
       court_roles := AList.update (cm_name court) (cm_role court) (court_roles st)\<rparr>, io))"

definition create_ring :: "string \<Rightarrow> u32 \<Rightarrow> u32 \<Rightarrow> Io \<Rightarrow> unit LinuxResult \<times> Io" where
  "create_ring path cap slot_size io = try_st (perform (CreateRing path cap slot_size) io) (\<lambda>a io.
     (case a of ADone \<Rightarrow> Ok () | ARing e \<Rightarrow> Err (ERing e) | _ \<Rightarrow> Err (ECall (CreateRing path cap slot_size)), io))"

definition transport_of :: "ManifestTransport \<Rightarrow> CorridorTransport" where
  "transport_of t = (case t of ManifestSharedRing \<Rightarrow> SharedRingTransport)"

definition add_corridor :: "string \<Rightarrow> CorridorManifest \<Rightarrow> daemon \<Rightarrow> unit LinuxResult \<times> daemon" where
  "add_corridor run_dir corridor d =
     try_in (get_or (court_ids (fst d)) (co_from corridor) (EName ''missing court '' (co_from corridor))) d (\<lambda>from.
     try_in (get_or (court_ids (fst d)) (co_to corridor) (EName ''missing court '' (co_to corridor))) d (\<lambda>to.
     try_st (ck (create_corridor (co_path corridor) from to (transport_of (co_transport corridor)) (unat (co_capacity corridor))) d) (\<lambda>_ d.
     try_st (ck (hosted_lookup from (co_path corridor)) d) (\<lambda>descriptor (st, io).
     let st = st\<lparr>descriptors := AList.update (co_path corridor) descriptor (descriptors st)\<rparr>;
       ring_path = path_join run_dir (ring_file_name (co_path corridor)) in
     try_st (on_io (create_ring ring_path (co_capacity corridor) (co_slot_size corridor)) (st, io)) (\<lambda>_ (st, io).
     (Ok (), (st\<lparr>ring_info := AList.update (co_path corridor)
        \<lparr>ri_path = ring_path, ri_capacity = co_capacity corridor, ri_slot_size = co_slot_size corridor\<rparr> (ring_info st)\<rparr>, io)))))))"

fun add_corridors :: "string \<Rightarrow> CorridorManifest list \<Rightarrow> daemon \<Rightarrow> unit LinuxResult \<times> daemon" where
  "add_corridors run_dir [] d = (Ok (), d)"
| "add_corridors run_dir (corridor # rest) d = try_st (add_corridor run_dir corridor d) (\<lambda>_ d. add_corridors run_dir rest d)"

definition empty_state :: "PolicyFile \<Rightarrow> RootState" where
  "empty_state policy = \<lparr>rs_root = hosted_new, court_ids = [], descriptors = [], caps_by_id = [], caps_by_key = [],
     court_roles = [], rs_policy = policy, ring_info = [], rs_demo = \<lparr>demo_path = [], demo_payload = []\<rparr>\<rparr>"

definition build_state :: "RootConfig \<Rightarrow> string \<Rightarrow> Io \<Rightarrow> unit LinuxResult \<times> daemon" where
  "build_state config trace_path io =
     try_st (add_courts (mf_courts (cfg_manifest config)) (empty_state (cfg_policy config), io)) (\<lambda>_ d.
     try_st (add_corridors (cfg_run_dir config) (mf_corridors (cfg_manifest config)) d) (\<lambda>_ (st, io).
     case mf_corridors (cfg_manifest config) of
       [] \<Rightarrow> (Err (EText ''manifest must define at least one corridor''), (st, io))
     | corridor # _ \<Rightarrow> on_io (call (OpenTrace trace_path)) (st\<lparr>rs_demo := \<lparr>demo_path = co_path corridor,
           demo_payload = packet_payload (mf_demo (cfg_manifest config))\<rparr>\<rparr>, io)))"

section \<open>Starting and accepting the courts\<close>

definition court_role :: "RootState \<Rightarrow> string \<Rightarrow> string LinuxResult" where
  "court_role st court = (case map_of (court_roles st) court of
      Some role \<Rightarrow> Ok (as_process_role role)
    | None \<Rightarrow> Err (EName ''unknown court '' court))"

text \<open>\<^verbatim>\<open>Path::parent\<close> of an absolute path.\<close>

definition path_parent :: "string \<Rightarrow> string option" where
  "path_parent path = (if path = ''/'' \<or> path = [] then None
     else (let dir = rev (dropWhile (\<lambda>x. x \<noteq> CHR ''/'') (rev path)) in
       Some (if dir = ''/'' then dir else butlast dir)))"

text \<open>The program of a court and the arguments that come before those of \<^verbatim>\<open>spawn_court\<close>.\<close>

definition court_command :: "string \<Rightarrow> Io \<Rightarrow> (string \<times> string list) LinuxResult \<times> Io" where
  "court_command role io =
     (if role \<noteq> ''app'' \<and> role \<noteq> ''net'' then (Err (EName ''unknown court role '' role), io)
      else try_st (perform (EnvVar (if role = ''app'' then ''CK_APP_BIN'' else ''CK_NET_BIN'')) io) (\<lambda>a io. case a of
        AText path \<Rightarrow> (Ok (path, []), io)
      | _ \<Rightarrow> try_st (perform CurrentExe io) (\<lambda>a io. case a of
          AText current \<Rightarrow>
            let fallback = (Ok (current, [''--court-role'', role]));
              bin_name = (if role = ''app'' then ''ck-app'' else ''ck-net'') in
            (case path_parent current of
               None \<Rightarrow> (fallback, io)
             | Some dir \<Rightarrow> try_st (perform (Exists (path_join dir bin_name)) io) (\<lambda>a io.
                 (if a = AFlag True then Ok (path_join dir bin_name, []) else fallback, io)))
        | _ \<Rightarrow> (Err (ECall CurrentExe), io))))"

definition spawn_court_process :: "string \<Rightarrow> string \<Rightarrow> string \<Rightarrow> Io \<Rightarrow> unit LinuxResult \<times> Io" where
  "spawn_court_process role court sock_path io = try_st (court_command role io) (\<lambda>(program, args) io.
     call (Spawn program (args @ [''--root-sock'', sock_path, ''--court'', court]) court) io)"

fun spawn_all :: "string \<Rightarrow> string list \<Rightarrow> daemon \<Rightarrow> unit LinuxResult \<times> daemon" where
  "spawn_all sock_path [] d = (Ok (), d)"
| "spawn_all sock_path (court # rest) d = try_in (court_role (fst d) court) d (\<lambda>role.
     try_st (on_io (spawn_court_process role court sock_path) d) (\<lambda>_ d. spawn_all sock_path rest d))"

definition spawn_courts :: "HashOrder \<Rightarrow> string \<Rightarrow> daemon \<Rightarrow> string list LinuxResult \<times> daemon" where
  "spawn_courts ho sock_path d = (let names = court_order ho (map fst (court_ids (fst d))) in
     try_st (spawn_all sock_path names d) (\<lambda>_ d. (Ok names, d)))"

definition accept_peer :: "WireDemoConfig \<Rightarrow> peers \<Rightarrow> Io \<Rightarrow> peers LinuxResult \<times> Io" where
  "accept_peer demo peers io = try_st (perform AcceptConn io) (\<lambda>a io. case a of
      AConn conn \<Rightarrow>
        try_st (peer_new conn io) (\<lambda>peer io.
        try_st (peer_recv peer io) (\<lambda>m io. case m of
            MHello court \<Rightarrow> try_st (peer_send peer (MHelloAck WOk court demo) io) (\<lambda>_ io.
              (Ok (AList.update court peer peers), io))
          | other \<Rightarrow> (Err (EMessage ''expected hello, got '' other), io)))
    | _ \<Rightarrow> (Err (ECall AcceptConn), io))"

function accept_peers :: "nat \<Rightarrow> WireDemoConfig \<Rightarrow> peers \<Rightarrow> Io \<Rightarrow> peers LinuxResult \<times> Io" where
  "accept_peers count demo peers io = (if length peers < count
     then (case accept_peer demo peers io of
         (Ok peers', io') \<Rightarrow> accept_peers count demo peers' io'
       | (Err e, io') \<Rightarrow> (Err e, io')
       | (Panic, io') \<Rightarrow> (Panic, io'))
     else (Ok peers, io))"
  by pat_completeness auto

lemma accept_peer_consumes: "accept_peer demo peers io = (Ok peers', io') \<Longrightarrow> length (io_in io') < length (io_in io)"
  by (auto simp: accept_peer_def perform_def peer_new_def peer_recv_def peer_send_def call_def
      split: list.splits Answer.splits WireMessage.splits if_splits try_splits)

termination accept_peers
  by (relation "measure (\<lambda>(count, demo, peers, io). length (io_in io))") (auto dest!: accept_peer_consumes [OF sym])

declare accept_peers.simps [simp del]

section \<open>The phases of the scenario\<close>

record ResolvedGrant =
  rg_court :: string
  rg_path :: string
  rg_rights :: Rights

fun resolve_grants :: "GrantPolicy list \<Rightarrow> ResolvedGrant list LinuxResult" where
  "resolve_grants [] = Ok []"
| "resolve_grants (grant # rest) = (case parse_rights (gp_rights grant) of
      Ok rights \<Rightarrow> and_then (resolve_grants rest) (\<lambda>gs.
        Ok (\<lparr>rg_court = gp_court grant, rg_path = gp_path grant, rg_rights = rights\<rparr> # gs))
    | Err e \<Rightarrow> Err (EManifest e)
    | Panic \<Rightarrow> Panic)"

definition state_policy_grants :: "RootState \<Rightarrow> ResolvedGrant list LinuxResult" where
  "state_policy_grants st = resolve_grants (pf_grants (rs_policy st))"

definition handle_lookup :: "nat \<Rightarrow> string \<Rightarrow> daemon \<Rightarrow> unit LinuxResult \<times> daemon" where
  "handle_lookup app app_name d = try_st (on_io (peer_recv app) d) (\<lambda>m d.
     let unexpected = (Err (EMessage ''expected app lookup, got '' m), d) in
     case m of
       MLookup path \<Rightarrow>
         if path = demo_path (rs_demo (fst d))
         then try_in (get_or (court_ids (fst d)) app_name (EName ''unknown app court '' app_name)) d (\<lambda>app_id.
           try_st (ck (hosted_lookup app_id path) d) (\<lambda>descriptor d.
           try_st (record_trace (with_path path (trace_new ''lookup'' app_name WOk)) d) (\<lambda>_ d.
           on_io (peer_send app (MLookupResult WOk (Some (from_descriptor descriptor)))) d)))
         else unexpected
     | _ \<Rightarrow> unexpected)"

text \<open>The status of an \<^verbatim>\<open>open\<close> of the in-process Root: \<^verbatim>\<open>match .. { Ok(_) => Ok, Err(error) => error.into() }\<close>.\<close>

definition open_status ::
  "CourtId \<Rightarrow> Descriptor \<Rightarrow> CapId option \<Rightarrow> Rights \<Rightarrow> daemon \<Rightarrow> WireStatus LinuxResult \<times> daemon" where
  "open_status court descriptor cap rights d = (case hosted_open court descriptor cap rights (rs_root (fst d)) of
     (res, root) \<Rightarrow> (case res of Ok _ \<Rightarrow> Ok WOk | Err e \<Rightarrow> Ok (status_from e) | Panic \<Rightarrow> Panic,
       ((fst d)\<lparr>rs_root := root\<rparr>, snd d)))"

definition handle_denied_open :: "nat \<Rightarrow> string \<Rightarrow> daemon \<Rightarrow> unit LinuxResult \<times> daemon" where
  "handle_denied_open app app_name d = try_st (on_io (peer_recv app) d) (\<lambda>m d.
     let unexpected = (Err (EMessage ''expected app unauthorized open, got '' m), d) in
     case m of
       MOpen path cap rights \<Rightarrow>
         if cap = None \<and> path = demo_path (rs_demo (fst d)) \<and> contains (to_rights rights) SEND
         then try_in (get_or (court_ids (fst d)) app_name (EName ''unknown app court '' app_name)) d (\<lambda>app_id.
           try_in (get_or (descriptors (fst d)) path (EName ''unknown descriptor '' path)) d (\<lambda>descriptor.
           try_st (open_status app_id descriptor None SEND d) (\<lambda>status d.
           try_st (record_trace (with_path path (trace_new ''open_denied'' app_name status)) d) (\<lambda>_ d.
           on_io (peer_send app (MOpenResult status None None)) d))))
         else unexpected
     | _ \<Rightarrow> unexpected)"

definition handle_app_lookup_and_denied_open :: "nat \<Rightarrow> string \<Rightarrow> daemon \<Rightarrow> unit LinuxResult \<times> daemon" where
  "handle_app_lookup_and_denied_open app app_name d =
     try_st (handle_lookup app app_name d) (\<lambda>_ d. handle_denied_open app app_name d)"

text \<open>The answer to an open of the court, on the capability number it presents.\<close>

definition handle_open :: "nat \<Rightarrow> string \<Rightarrow> CourtId \<Rightarrow> Descriptor \<Rightarrow> string \<Rightarrow> daemon \<Rightarrow> unit LinuxResult \<times> daemon" where
  "handle_open peer court cid descriptor path d = try_st (on_io (peer_recv peer) d) (\<lambda>m d.
     let unexpected = (Err (EMessage (''expected '' @ court @ '' open, got '') m), d) in
     case m of
       MOpen request_path cap request_rights \<Rightarrow>
         (case cap of
            None \<Rightarrow> unexpected
          | Some request_cap \<Rightarrow>
              if request_path \<noteq> path then unexpected
              else (case map_of (caps_by_id (fst d)) (wc_id request_cap) of
                Some core_cap \<Rightarrow>
                  try_st (open_status cid descriptor (Some core_cap) (to_rights request_rights) d) (\<lambda>status d.
                  try_st (record_trace (with_path path (trace_new ''open'' court status)) d) (\<lambda>_ d.
                  if status = WOk
                  then try_in (get_or (ring_info (fst d)) path (EName ''missing ring info for '' path)) d (\<lambda>ring.
                    on_io (peer_send peer (MOpenResult status (Some request_cap) (Some ring))) d)
                  else try_st (on_io (peer_send peer (MOpenResult status None None)) d) (\<lambda>_ d.
                    (Err (EStatus (court @ '' open failed: '') status), d))))
              | None \<Rightarrow> try_st (on_io (peer_send peer (MOpenResult WBadCap None None)) d) (\<lambda>_ d.
                  (Err (EText ''client opened with unknown cap''), d))))
     | _ \<Rightarrow> unexpected)"

definition handle_grant_and_open :: "nat \<Rightarrow> string \<Rightarrow> string \<Rightarrow> Rights \<Rightarrow> daemon \<Rightarrow> CapId LinuxResult \<times> daemon" where
  "handle_grant_and_open peer court path rights d =
     try_in (get_or (court_ids (fst d)) court (EName ''unknown court '' court)) d (\<lambda>cid.
     try_in (get_or (descriptors (fst d)) path (EName ''unknown descriptor '' path)) d (\<lambda>descriptor.
     try_st (ck (grant_corridor_cap cid descriptor rights) d) (\<lambda>cap (st, io).
     let st = st\<lparr>caps_by_id := AList.update (cap_raw cap) cap (caps_by_id st),
       caps_by_key := AList.update (court, path) (cap, rights) (caps_by_key st)\<rparr> in
     try_st (record_trace (with_detail (court @ '':'' @ digits (unat (cap_raw cap))) (with_path path (trace_new ''grant'' ''root'' WOk))) (st, io)) (\<lambda>_ d.
     try_st (on_io (peer_send peer (MGrant path (wire_cap cap rights))) d) (\<lambda>_ d.
     try_st (handle_open peer court cid descriptor path d) (\<lambda>_ d. (Ok cap, d)))))))"

definition peer_of :: "peers \<Rightarrow> string \<Rightarrow> nat LinuxResult" where
  "peer_of peers court = get_or peers court (EName ''court did not connect to root: '' court)"

fun run_grants :: "peers \<Rightarrow> ResolvedGrant list \<Rightarrow> daemon \<Rightarrow> unit LinuxResult \<times> daemon" where
  "run_grants peers [] d = (Ok (), d)"
| "run_grants peers (grant # rest) d = try_in (peer_of peers (rg_court grant)) d (\<lambda>peer.
     try_st (handle_grant_and_open peer (rg_court grant) (rg_path grant) (rg_rights grant) d) (\<lambda>_ d.
     run_grants peers rest d))"

fun run_revokes :: "peers \<Rightarrow> RevokePolicy list \<Rightarrow> daemon \<Rightarrow> unit LinuxResult \<times> daemon" where
  "run_revokes peers [] d = (Ok (), d)"
| "run_revokes peers (revoke # rest) d =
     try_in (get_or (caps_by_key (fst d)) (rp_court revoke, rp_path revoke) (EName (''no cap for revoke court='' @ rp_court revoke @ '' path='') (rp_path revoke))) d
       (\<lambda>(cap, rights).
     try_st (ck (revoke_total cap) d) (\<lambda>_ d.
     try_st (record_trace (with_path (rp_path revoke) (trace_new ''revoke'' ''root'' WOk)) d) (\<lambda>_ d.
     try_in (peer_of peers (rp_court revoke)) d (\<lambda>peer.
     try_st (on_io (peer_send peer (MRevoke (wire_cap cap rights))) d) (\<lambda>_ d.
     try_st (record_trace_from peer ''revoke'' d) (\<lambda>_ d. run_revokes peers rest d))))))"

text \<open>\<^verbatim>\<open>Child::wait\<close> gives the exit code, if the child has one.\<close>

definition wait_child :: "string \<Rightarrow> Io \<Rightarrow> int option LinuxResult \<times> Io" where
  "wait_child name io = try_st (perform (WaitChild name) io) (\<lambda>a io. (case a of
     ACode code \<Rightarrow> Ok code | _ \<Rightarrow> Err (ECall (WaitChild name)), io))"

definition expect_child_success :: "string \<Rightarrow> Io \<Rightarrow> unit LinuxResult \<times> Io" where
  "expect_child_success name io = try_st (wait_child name io) (\<lambda>status io.
     (if status = Some 0 then Ok () else Err (EExit name status), io))"

definition expect_child_exit :: "string \<Rightarrow> int \<Rightarrow> Io \<Rightarrow> unit LinuxResult \<times> Io" where
  "expect_child_exit name expected io = try_st (wait_child name io) (\<lambda>status io.
     (if status = Some expected then Ok () else Err (EExit name status), io))"

fun run_faults :: "peers \<Rightarrow> string list \<Rightarrow> FaultPolicy list \<Rightarrow> daemon \<Rightarrow> peers LinuxResult \<times> daemon" where
  "run_faults peers kids [] d = (Ok peers, d)"
| "run_faults peers kids (fault # rest) d = try_in (peer_of peers (fp_court fault)) d (\<lambda>peer.
     try_st (on_io (peer_send peer (MFault (fp_reason fault))) d) (\<lambda>_ d.
     try_st (record_trace_from peer ''fault'' d) (\<lambda>_ d.
     if fp_court fault \<notin> set kids then (Err (EName ''missing child for '' (fp_court fault)), d)
     else try_st (on_io (expect_child_exit (fp_court fault) 42) d) (\<lambda>_ d.
     try_in (get_or (court_ids (fst d)) (fp_court fault) (EName ''unknown court '' (fp_court fault))) d (\<lambda>cid.
     try_st (ck (fault_court cid) d) (\<lambda>_ d.
     try_st (record_trace (with_path (demo_path (rs_demo (fst d))) (trace_new ''court_fault'' ''root'' WFault)) d) (\<lambda>_ d.
     run_faults (AList.delete (fp_court fault) peers) kids rest d)))))))"

fun run_peer_down :: "peers \<Rightarrow> PeerDownPolicy list \<Rightarrow> daemon \<Rightarrow> unit LinuxResult \<times> daemon" where
  "run_peer_down peers [] d = (Ok (), d)"
| "run_peer_down peers (peer_down # rest) d = try_in (peer_of peers (dp_court peer_down)) d (\<lambda>peer.
     try_st (on_io (peer_send peer (MPeerDown (dp_path peer_down))) d) (\<lambda>_ d.
     try_st (record_trace (with_path (dp_path peer_down) (trace_new ''peer_down'' ''root'' WPeerDown)) d) (\<lambda>_ d.
     try_st (record_trace_from peer ''peer_down'' d) (\<lambda>_ d.
     try_st (on_io (peer_recv peer) d) (\<lambda>m d.
     let unexpected = (Err (EMessage ''expected DemoDone, got '' m), d) in
     case m of
       MDemoDone court status \<Rightarrow>
         if status = WOk \<and> court = dp_court peer_down
         then try_st (record_trace (trace_new ''demo_done'' court WOk) d) (\<lambda>_ d. run_peer_down peers rest d)
         else unexpected
     | _ \<Rightarrow> unexpected)))))"

fun wait_children :: "peers \<Rightarrow> string list \<Rightarrow> daemon \<Rightarrow> unit LinuxResult \<times> daemon" where
  "wait_children peers [] d = (Ok (), d)"
| "wait_children peers (court # rest) d =
     (if map_of peers court \<noteq> None
      then try_st (on_io (expect_child_success court) d) (\<lambda>_ d. wait_children peers rest d)
      else wait_children peers rest d)"

definition find_app_court :: "HashOrder \<Rightarrow> RootState \<Rightarrow> string LinuxResult" where
  "find_app_court ho st = ok_or (find (\<lambda>court. map_of (court_roles st) court = Some AppRole) (court_order ho (map fst (court_roles st))))
     (EText ''manifest must include one app court for MVP-0C'')"

definition find_recv_grant_court :: "HashOrder \<Rightarrow> RootState \<Rightarrow> string LinuxResult" where
  "find_recv_grant_court ho st = ok_or (map_option fst (find (\<lambda>key. case map_of (caps_by_key st) key of
       Some (_, rights) \<Rightarrow> contains rights RECV | None \<Rightarrow> False) (key_order ho (map fst (caps_by_key st)))))
     (EText ''policy must grant one recv cap'')"

section \<open>The daemon\<close>

text \<open>Everything after the courts have connected; the state it drops at the end is its second component.\<close>

definition run_phases :: "HashOrder \<Rightarrow> peers \<Rightarrow> string list \<Rightarrow> daemon \<Rightarrow> unit LinuxResult \<times> daemon" where
  "run_phases ho peers kids d =
     try_in (find_app_court ho (fst d)) d (\<lambda>app_name.
     try_in (peer_of peers app_name) d (\<lambda>app.
     try_st (handle_app_lookup_and_denied_open app app_name d) (\<lambda>_ d.
     try_in (state_policy_grants (fst d)) d (\<lambda>grants.
     try_st (run_grants peers grants d) (\<lambda>_ d.
     try_st (record_trace_from app ''app send'' d) (\<lambda>_ d.
     try_in (find_recv_grant_court ho (fst d)) d (\<lambda>recv_court.
     try_in (peer_of peers recv_court) d (\<lambda>recv_peer.
     try_st (record_trace_from recv_peer ''receiver recv'' d) (\<lambda>_ d.
     try_st (run_revokes peers (pf_revokes (rs_policy (fst d))) d) (\<lambda>_ d.
     try_st (run_faults peers kids (pf_faults (rs_policy (fst d))) d) (\<lambda>peers d.
     try_st (run_peer_down peers (pf_peer_down (rs_policy (fst d))) d) (\<lambda>_ d.
     wait_children peers (court_order ho kids) d))))))))))))"

definition run_manifest_demo :: "HashOrder \<Rightarrow> RootConfig \<Rightarrow> Io \<Rightarrow> unit LinuxResult \<times> daemon" where
  "run_manifest_demo ho config io =
     (let d = (empty_state (cfg_policy config), io); sock_path = path_join (cfg_run_dir config) ''root.sock'';
        trace_path = path_join (cfg_run_dir config) ''trace.ndjson'' in
     case validate (cfg_manifest config) (cfg_policy config) of
       Err e \<Rightarrow> (Err (EManifest e), d)
     | Panic \<Rightarrow> (Panic, d)
     | Ok _ \<Rightarrow>
       try_st (on_io (call (CreateDir (cfg_run_dir config))) d) (\<lambda>_ d.
       try_st (on_io (perform (RemoveFile sock_path)) d) (\<lambda>_ d.
       try_st (on_io (call (BindSocket sock_path)) d) (\<lambda>_ d.
       try_st (build_state config trace_path (snd d)) (\<lambda>_ d.
       try_st (record_trace (with_path (demo_path (rs_demo (fst d))) (trace_new ''lookup'' ''root'' WOk)) d) (\<lambda>_ d.
       try_st (spawn_courts ho sock_path d) (\<lambda>kids d.
       try_st (on_io (accept_peers (length kids) (rs_demo (fst d)) []) d) (\<lambda>peers d.
       run_phases ho peers kids d))))))))"

end
