(* ===== verification/Daemon_Safety.thy ===== *)
theory Daemon_Safety
  imports Root_Daemon
begin

text \<open>
  What the Root daemon does whatever its host and the connected processes answer: it changes the in-process
  Root only through its operations, keeps the tables it has built, and the calls it logs are of the
  kinds its phases allow.
\<close>

section \<open>What a phase may do\<close>

text \<open>The tables that are fixed once the state is built.\<close>

definition same_tables :: "RootState \<Rightarrow> RootState \<Rightarrow> bool" where
  "same_tables st st' \<longleftrightarrow> court_ids st' = court_ids st \<and> descriptors st' = descriptors st \<and> court_roles st' = court_roles st \<and>
     rs_policy st' = rs_policy st \<and> ring_info st' = ring_info st \<and> rs_demo st' = rs_demo st"

definition appends :: "(Call \<Rightarrow> bool) \<Rightarrow> Io \<Rightarrow> Io \<Rightarrow> bool" where
  "appends A io io' \<longleftrightarrow> (\<exists>cs. io_log io' = io_log io @ cs \<and> (\<forall>c\<in>set cs. A c))"

text \<open>\<open>drives A d (res, d')\<close>: from \<open>d\<close> to \<open>d'\<close> only calls in \<open>A\<close> were made and only operations of the Root were used.\<close>

definition drives :: "(Call \<Rightarrow> bool) \<Rightarrow> daemon \<Rightarrow> 'a LinuxResult \<times> daemon \<Rightarrow> bool" where
  "drives A d m \<longleftrightarrow> appends A (snd d) (snd (snd m)) \<and> same_tables (fst d) (fst (snd m)) \<and>
     prefix (trace (rs_root (fst d))) (trace (rs_root (fst (snd m)))) \<and>
     (fst m \<noteq> Panic \<longrightarrow> (\<exists>ops. hosted_run (rs_root (fst d)) ops (rs_root (fst (snd m)))))"

named_theorems drives_intros

lemma appends_refl [simp]: "appends A io io"
  by (simp add: appends_def)

lemma appends_trans: "appends A io io' \<Longrightarrow> appends A io' io'' \<Longrightarrow> appends A io io''"
  by (auto simp: appends_def)

lemma appends_mono: "appends A io io' \<Longrightarrow> (\<And>c. A c \<Longrightarrow> B c) \<Longrightarrow> appends B io io'"
  by (auto simp: appends_def)

lemma same_tables_refl [simp]: "same_tables st st"
  by (simp add: same_tables_def)

lemma same_tables_trans: "same_tables st st' \<Longrightarrow> same_tables st' st'' \<Longrightarrow> same_tables st st''"
  by (simp add: same_tables_def)

lemma drives_same [drives_intros]: "drives A d (res, d)"
  by (auto simp: drives_def intro: run_nil)

lemma drives_try_st [drives_intros]:
  assumes "drives A d m" and "\<And>a. fst m = Ok a \<Longrightarrow> same_tables (fst d) (fst (snd m)) \<Longrightarrow> drives A (snd m) (k a (snd m))"
  shows "drives A d (try_st m k)"
proof (cases "fst m")
  case (Ok a)
  then have "try_st m k = k a (snd m)" by (cases m) simp
  with assms Ok show ?thesis
    by (auto simp: drives_def intro: appends_trans same_tables_trans run_trans prefix_order.order_trans)
qed (use assms(1) in \<open>cases m; simp add: drives_def\<close>)+

lemma drives_try_in [drives_intros]:
  assumes "\<And>a. res = Ok a \<Longrightarrow> drives A d (k a)"
  shows "drives A d (try_in res d k)"
  using assms by (cases res) (auto intro: drives_same)

lemma drives_if [drives_intros]: "(b \<Longrightarrow> drives A d m) \<Longrightarrow> (\<not> b \<Longrightarrow> drives A d m') \<Longrightarrow> drives A d (if b then m else m')"
  by simp

lemma drives_io:
  assumes "appends A (snd d) (snd (f (snd d)))"
  shows "drives A d (on_io f d)"
  using assms by (auto simp: drives_def on_io_def split: prod.splits intro: run_nil)

lemma appends_call [simp]: "A c \<Longrightarrow> appends A io (snd (call c io))"
  by (simp add: appends_def)

lemma appends_perform [simp]: "A c \<Longrightarrow> appends A io (snd (perform c io))"
  by (simp add: appends_def)

lemma appends_send [simp]: "A (SendOn c m) \<Longrightarrow> appends A io (snd (peer_send c m io))"
  by (simp add: appends_def)

lemma appends_recv [simp]: "A (RecvOn c) \<Longrightarrow> appends A io (snd (peer_recv c io))"
  by (simp add: appends_def)

lemma appends_try_st:
  assumes "appends A io (snd m)" and "\<And>a. fst m = Ok a \<Longrightarrow> appends A (snd m) (snd (k a (snd m)))"
  shows "appends A io (snd (try_st m k))"
proof (cases "fst m")
  case (Ok a)
  then have "try_st m k = k a (snd m)" by (cases m) simp
  with assms Ok show ?thesis by (auto intro: appends_trans)
qed (use assms(1) in \<open>cases m; simp\<close>)+

lemma drives_send [drives_intros]: "A (SendOn c m) \<Longrightarrow> drives A d (on_io (peer_send c m) d)"
  by (rule drives_io) (simp add: peer_send_def)

lemma drives_recv [drives_intros]: "A (RecvOn c) \<Longrightarrow> drives A d (on_io (peer_recv c) d)"
  by (rule drives_io) (simp add: appends_def)

lemma drives_record [drives_intros]: "A (RecordLine ev) \<Longrightarrow> drives A d (record_trace ev d)"
  unfolding record_trace_def by (rule drives_io) simp

lemma trace_prefix:
  "prefix (trace r) (trace (snd (create_court name r)))" "prefix (trace r) (trace (snd (create_corridor path a b transport cp r)))"
  "prefix (trace r) (trace (snd (hosted_lookup court path r)))" "prefix (trace r) (trace (snd (grant_corridor_cap court desc rights r)))"
  "prefix (trace r) (trace (snd (fault_court court r)))" "prefix (trace r) (trace (snd (revoke_total cap r)))"
  "prefix (trace r) (trace (snd (hosted_open court desc co rights r)))"
  by (auto simp: hosted_op_defs revoke_total_def in_registry_def Let_def split: try_splits if_splits option.splits result.splits prod.splits)

lemma drives_ck:
  assumes "\<And>res root. op (rs_root (fst d)) = (res, root) \<Longrightarrow> res \<noteq> Panic \<Longrightarrow> \<exists>l. hosted_step (rs_root (fst d)) l root"
    and "prefix (trace (rs_root (fst d))) (trace (snd (op (rs_root (fst d)))))"
  shows "drives A d (ck op d)"
proof -
  obtain res root where op: "op (rs_root (fst d)) = (res, root)" by fastforce
  have "\<exists>ops. hosted_run (rs_root (fst d)) ops root" if "ck_error res \<noteq> Panic"
  proof -
    from that have "res \<noteq> Panic" by (auto simp: ck_error_def)
    with assms(1) [OF op] show ?thesis by (blast intro: run_cons run_nil)
  qed
  then show ?thesis using assms(2) by (simp add: drives_def ck_def op same_tables_def)
qed

lemma drives_ck_ops [drives_intros]:
  "drives A d (ck (create_court name) d)" "drives A d (ck (create_corridor path a b transport cp) d)"
  "drives A d (ck (hosted_lookup court path) d)" "drives A d (ck (grant_corridor_cap court desc rights) d)"
  "drives A d (ck (fault_court court) d)" "drives A d (ck (revoke_total cap) d)"
  by (rule drives_ck, rule exI, erule (1) hosted_step.intros, rule trace_prefix)+
    (rule drives_ck, auto simp: revoke_total_def trace_prefix [unfolded revoke_total_def] split: option.splits intro: step_revoke)

lemma drives_open [drives_intros]: "drives A d (open_status court desc cap rights d)"
proof -
  obtain res root where op: "hosted_open court desc cap rights (rs_root (fst d)) = (res, root)" by fastforce
  have "\<exists>ops. hosted_run (rs_root (fst d)) ops root" if "res \<noteq> Panic"
    using run_cons [where step = hosted_step, OF step_open [OF op that] run_nil] by blast
  then show ?thesis using trace_prefix(7) [of "rs_root (fst d)" court desc cap rights]
    by (auto simp: drives_def open_status_def op same_tables_def split: result.splits)
qed

section \<open>The phases\<close>

text \<open>Calls that carry no ring: anything but an \<^verbatim>\<open>OpenResult\<close> with ring information.\<close>

fun ring_sent :: "Call \<Rightarrow> (nat \<times> WireRingInfo) option" where
  "ring_sent (SendOn c (MOpenResult status cap (Some ring))) = Some (c, ring)"
| "ring_sent _ = None"

abbreviation no_ring :: "Call \<Rightarrow> bool" where
  "no_ring c \<equiv> ring_sent c = None"

lemma drives_mono: "drives A d m \<Longrightarrow> (\<And>c. A c \<Longrightarrow> B c) \<Longrightarrow> drives B d m"
  by (auto simp: drives_def intro: appends_mono)

lemma record_trace_from_drives [drives_intros]: "drives no_ring d (record_trace_from c label d)"
  unfolding record_trace_from_def
  by (intro drives_intros) (auto split: WireMessage.split intro!: drives_intros)

lemma handle_lookup_drives [drives_intros]: "drives no_ring d (handle_lookup app name d)"
  unfolding handle_lookup_def Let_def
  by (intro drives_intros) (auto split: WireMessage.split intro!: drives_intros)

lemma handle_denied_open_drives [drives_intros]: "drives no_ring d (handle_denied_open app name d)"
  unfolding handle_denied_open_def Let_def
  by (intro drives_intros) (auto split: WireMessage.split intro!: drives_intros)

lemma handle_app_drives [drives_intros]: "drives no_ring d (handle_app_lookup_and_denied_open app name d)"
  unfolding handle_app_lookup_and_denied_open_def by (intro drives_intros)

lemma drives_wait [drives_intros]:
  "drives no_ring d (on_io (expect_child_exit name code) d)" "drives no_ring d (on_io (expect_child_success name) d)"
  by (rule drives_io, simp add: expect_child_exit_def expect_child_success_def wait_child_def appends_try_st)+

lemma run_revokes_drives: "drives no_ring d (run_revokes peers revokes d)"
proof (induction revokes arbitrary: d)
  case (Cons r rest)
  show ?case by (auto intro!: drives_intros Cons.IH)
qed (simp add: drives_same)

lemma run_faults_drives: "drives no_ring d (run_faults peers kids faults d)"
proof (induction faults arbitrary: d peers)
  case (Cons f rest)
  show ?case by (auto intro!: drives_intros Cons.IH)
qed (simp add: drives_same)

lemma run_peer_down_drives: "drives no_ring d (run_peer_down peers downs d)"
proof (induction downs arbitrary: d)
  case (Cons p rest)
  show ?case by (auto intro!: drives_intros Cons.IH simp: Let_def split: WireMessage.split)
qed (simp add: drives_same)

lemma wait_children_drives: "drives no_ring d (wait_children peers kids d)"
proof (induction kids arbitrary: d)
  case (Cons k rest)
  show ?case by (auto intro!: drives_intros Cons.IH)
qed (simp add: drives_same)

section \<open>Rings go where the policy says\<close>

text \<open>
  A ring sent on a connection is justified: the policy grants its path to the court of the connection, and the
  in-process Root has opened it for that court.
\<close>

definition ring_justified :: "peers \<Rightarrow> daemon \<Rightarrow> nat \<Rightarrow> WireRingInfo \<Rightarrow> bool" where
  "ring_justified peers d c ring \<longleftrightarrow> (\<exists>g\<in>set (pf_grants (rs_policy (fst d))). \<exists>cid cap rights.
     map_of peers (gp_court g) = Some c \<and> map_of (ring_info (fst d)) (gp_path g) = Some ring \<and>
     map_of (court_ids (fst d)) (gp_court g) = Some cid \<and> EvOpened cid (gp_path g) cap rights \<in> set (trace (rs_root (fst d))))"

definition rings_ok :: "peers \<Rightarrow> daemon \<Rightarrow> bool" where
  "rings_ok peers d \<longleftrightarrow> (\<forall>call\<in>set (io_log (snd d)). \<forall>c ring. ring_sent call = Some (c, ring) \<longrightarrow> ring_justified peers d c ring)"

lemma ring_justified_drives: "drives A d m \<Longrightarrow> ring_justified peers d c ring \<Longrightarrow> ring_justified peers (snd m) c ring"
  by (fastforce simp: ring_justified_def drives_def same_tables_def dest: set_mono_prefix)

lemma rings_ok_quiet: "drives no_ring d m \<Longrightarrow> rings_ok peers d \<Longrightarrow> rings_ok peers (snd m)"
  using ring_justified_drives [of no_ring d m peers] by (fastforce simp: rings_ok_def drives_def appends_def)

lemma hosted_open_opened:
  "hosted_open court desc cap rights r = (Ok x, r') \<Longrightarrow> \<exists>cap. EvOpened court (desc_path desc) cap rights \<in> set (trace r')"
  by (auto simp: hosted_open_def deny_open_def split: try_splits option.splits if_splits result.splits)

lemma open_status_opened:
  assumes "open_status cid desc cap rights d = (Ok WOk, d')"
  shows "\<exists>cap. EvOpened cid (desc_path desc) cap rights \<in> set (trace (rs_root (fst d')))"
proof -
  obtain res root where op: "hosted_open cid desc cap rights (rs_root (fst d)) = (res, root)" by fastforce
  with assms obtain x where "res = Ok x" using status_from_not_local by (fastforce simp: open_status_def split: result.splits)
  with assms op hosted_open_opened [of cid desc cap rights "rs_root (fst d)" x root] show ?thesis
    by (auto simp: open_status_def)
qed

lemma rings_ok_try_st:
  assumes "drives no_ring d m" and "rings_ok peers d"
    and "\<And>a d'. m = (Ok a, d') \<Longrightarrow> same_tables (fst d) (fst d') \<Longrightarrow> rings_ok peers d' \<Longrightarrow> rings_ok peers (snd (k a d'))"
  shows "rings_ok peers (snd (try_st m k))"
proof -
  obtain res d' where m: "m = (res, d')" by (rule prod.exhaust)
  have ok: "rings_ok peers d'" using rings_ok_quiet [OF assms(1,2)] m by simp
  moreover have "same_tables (fst d) (fst d')" using assms(1) m by (simp add: drives_def)
  ultimately show ?thesis using assms(3) [of _ d'] m by (cases res) simp_all
qed

lemma rings_ok_send:
  assumes "rings_ok peers d" and "ring_justified peers d c ring"
  shows "rings_ok peers (snd (on_io (peer_send c (MOpenResult status cap (Some ring))) d))"
proof -
  let ?d = "snd (on_io (peer_send c (MOpenResult status cap (Some ring))) d)"
  have log: "io_log (snd ?d) = io_log (snd d) @ [SendOn c (MOpenResult status cap (Some ring))]" and st: "fst ?d = fst d"
    by (simp_all add: on_io_def split: prod.splits) (metis peer_send_log snd_conv)
  from assms show ?thesis unfolding rings_ok_def log ring_justified_def st by auto
qed

lemma handle_open_rings:
  assumes "rings_ok peers d" and "g \<in> set (pf_grants (rs_policy (fst d)))" and "map_of peers (gp_court g) = Some peer"
    and "map_of (court_ids (fst d)) (gp_court g) = Some cid" and "desc_path desc = gp_path g"
  shows "rings_ok peers (snd (handle_open peer court cid desc (gp_path g) d))"
  unfolding handle_open_def Let_def
proof (rule rings_ok_try_st [OF drives_recv assms(1)], goal_cases)
  case (2 m d1)
  have quiet: "rings_ok peers (snd (Err e, d1))" for e :: LinuxError using 2(3) by simp
  show ?case
  proof (cases m)
    case (MOpen p cap rights)
    show ?thesis
    proof (cases "cap = None \<or> p \<noteq> gp_path g \<or> map_of (caps_by_id (fst d1)) (wc_id (the cap)) = None")
      case True
      have "rings_ok peers (snd (try_st (on_io (peer_send peer (MOpenResult WBadCap None None)) d1) (\<lambda>_ d. (Err e, d))))" for e
        by (rule rings_ok_try_st [OF drives_send 2(3)]) simp_all
      with True 2(3) show ?thesis by (auto simp: MOpen split: option.split)
    next
      case False
      then obtain rc core where c: "cap = Some rc" "p = gp_path g" "map_of (caps_by_id (fst d1)) (wc_id rc) = Some core" by auto
      have "rings_ok peers (snd (try_st (open_status cid desc (Some core) (to_rights rights) d1) (\<lambda>status d.
          try_st (record_trace (with_path (gp_path g) (trace_new ''open'' court status)) d) (\<lambda>_ d.
          if status = WOk then try_in (get_or (ring_info (fst d)) (gp_path g) (EName ''missing ring info for '' (gp_path g))) d (\<lambda>ring.
            on_io (peer_send peer (MOpenResult status (Some rc) (Some ring))) d)
          else try_st (on_io (peer_send peer (MOpenResult status None None)) d) (\<lambda>_ d.
            (Err (EStatus (court @ '' open failed: '') status), d))))))"
      proof (rule rings_ok_try_st [OF drives_open 2(3)], goal_cases)
        case (1 status d2)
        show ?case
        proof (rule rings_ok_try_st [OF drives_record 1(3)], goal_cases)
          case (2 u d3)
          note t = \<open>same_tables (fst d) (fst d1)\<close> 1(2) 2(2)
          show ?case
          proof (cases "status = WOk")
            case True
            have "ring_justified peers d3 peer ring" if "map_of (ring_info (fst d3)) (gp_path g) = Some ring" for ring
            proof -
              from open_status_opened [OF 1(1) [unfolded True]] obtain cap
                where "EvOpened cid (gp_path g) cap (to_rights rights) \<in> set (trace (rs_root (fst d2)))" using assms(5) by auto
              moreover have "drives no_ring d2 (Ok u, d3)"
                using drives_record [of no_ring "with_path (gp_path g) (trace_new ''open'' court status)" d2] 2(1) by simp
              ultimately have "EvOpened cid (gp_path g) cap (to_rights rights) \<in> set (trace (rs_root (fst d3)))"
                by (auto simp: drives_def dest: set_mono_prefix)
              with that t assms(2-4) show ?thesis by (auto simp: ring_justified_def same_tables_def)
            qed
            with True 2(3) show ?thesis by (auto simp: get_or_def ok_or_def rings_ok_send split: option.split)
          next
            case False
            have "rings_ok peers (snd (try_st (on_io (peer_send peer (MOpenResult status None None)) d3) (\<lambda>_ d.
                (Err (EStatus (court @ '' open failed: '') status), d))))"
              by (rule rings_ok_try_st [OF drives_send 2(3)]) simp_all
            with False show ?thesis by simp
          qed
        qed simp
      qed
      with c show ?thesis by (simp add: MOpen)
    qed
  qed (use 2(3) in simp_all)
qed simp

lemma rings_ok_caps [simp]: "rings_ok peers (st\<lparr>caps_by_id := x, caps_by_key := y\<rparr>, io) = rings_ok peers (st, io)"
  by (simp add: rings_ok_def ring_justified_def)

definition descriptors_ok :: "RootState \<Rightarrow> bool" where
  "descriptors_ok st \<longleftrightarrow> (\<forall>path desc. map_of (descriptors st) path = Some desc \<longrightarrow> desc_path desc = path)"

lemma handle_grant_rings:
  assumes "rings_ok peers d" and "g \<in> set (pf_grants (rs_policy (fst d)))" and "map_of peers (gp_court g) = Some peer"
    and "descriptors_ok (fst d)"
  shows "rings_ok peers (snd (handle_grant_and_open peer (gp_court g) (gp_path g) rights d))"
proof (cases "map_of (court_ids (fst d)) (gp_court g) = None \<or> map_of (descriptors (fst d)) (gp_path g) = None")
  case True
  with assms(1) show ?thesis by (auto simp: handle_grant_and_open_def get_or_def ok_or_def split: option.split)
next
  case False
  then obtain cid desc where c: "map_of (court_ids (fst d)) (gp_court g) = Some cid" and
    desc: "map_of (descriptors (fst d)) (gp_path g) = Some desc" by auto
  with assms(4) have path: "desc_path desc = gp_path g" by (auto simp: descriptors_ok_def)
  show ?thesis
    unfolding handle_grant_and_open_def get_or_def ok_or_def c desc option.case try_in_simps Let_def
  proof (rule rings_ok_try_st [OF drives_ck_ops(4) assms(1)], goal_cases)
    case (1 cap d1)
    obtain st io where d1: "d1 = (st, io)" by (rule prod.exhaust)
    let ?st = "st\<lparr>caps_by_id := AList.update (cap_raw cap) cap (caps_by_id st),
       caps_by_key := AList.update (gp_court g, gp_path g) (cap, rights) (caps_by_key st)\<rparr>"
    have ok: "rings_ok peers (?st, io)" using 1(3) d1 by simp
    show ?case
      unfolding d1 prod.case
    proof (rule rings_ok_try_st [OF drives_record ok], goal_cases)
      case (2 u d2)
      note r2 = 2
      show ?case
      proof (rule rings_ok_try_st [OF drives_send r2(3)], goal_cases)
        case (2 v d3)
        note t = 1(2) [unfolded d1] r2(2) 2(2)
        have "rings_ok peers (snd (handle_open peer (gp_court g) cid desc (gp_path g) d3))"
          by (rule handle_open_rings [OF 2(3)]) (use assms(2,3) c path t in \<open>auto simp: same_tables_def\<close>)
        then show ?case by (cases "handle_open peer (gp_court g) cid desc (gp_path g) d3"; cases "fst (handle_open peer (gp_court g) cid desc (gp_path g) d3)") simp_all
      qed simp
    qed simp
  qed
qed

text \<open>The whole of a grant, of the grants and of the phases, without a bound on the calls.\<close>

abbreviation any_call :: "Call \<Rightarrow> bool" where
  "any_call c \<equiv> True"

lemma drives_any: "drives A d m \<Longrightarrow> drives any_call d m"
  by (rule drives_mono) simp_all

lemma drives_caps: "drives A ((fst d)\<lparr>caps_by_id := x, caps_by_key := y\<rparr>, snd d) m \<Longrightarrow> drives A d m"
  by (simp add: drives_def same_tables_def)

lemma handle_open_drives: "drives any_call d (handle_open peer court cid desc path d)"
  unfolding handle_open_def Let_def
  by (intro drives_intros) (auto split: WireMessage.split option.split intro!: drives_intros)

lemma handle_grant_drives: "drives any_call d (handle_grant_and_open peer court path rights d)"
  unfolding handle_grant_and_open_def Let_def
proof (intro drives_try_in drives_try_st [OF drives_ck_ops(4)], goal_cases)
  case (1 cid desc cap)
  let ?d = "snd (ck (grant_corridor_cap cid desc rights) d)"
  show ?case
    unfolding split_beta
    by (rule drives_caps [where x = "AList.update (cap_raw cap) cap (caps_by_id (fst ?d))"
          and y = "AList.update (court, path) (cap, rights) (caps_by_key (fst ?d))"])
      (intro drives_try_st drives_record drives_send handle_open_drives drives_same TrueI)
qed

lemma run_grants_drives: "drives any_call d (run_grants peers grants d)"
proof (induction grants arbitrary: d)
  case (Cons g rest)
  show ?case by (auto intro!: drives_intros Cons.IH handle_grant_drives)
qed (simp add: drives_same)

lemma run_phases_drives: "drives any_call d (run_phases ho peers kids d)"
  unfolding run_phases_def
  by (auto intro!: drives_intros run_grants_drives intro: drives_any [OF handle_app_drives]
      drives_any [OF record_trace_from_drives] drives_any [OF run_revokes_drives] drives_any [OF run_faults_drives]
      drives_any [OF run_peer_down_drives] drives_any [OF wait_children_drives])

lemma resolve_grants_from:
  "resolve_grants gs = Ok rs \<Longrightarrow> r \<in> set rs \<Longrightarrow> \<exists>g\<in>set gs. rg_court r = gp_court g \<and> rg_path r = gp_path g \<and> parse_rights (gp_rights g) = Ok (rg_rights r)"
proof (induction gs arbitrary: rs)
  case (Cons g gs)
  from Cons.prems(1) obtain rights rs' where "parse_rights (gp_rights g) = Ok rights" "resolve_grants gs = Ok rs'"
    "rs = \<lparr>rg_court = gp_court g, rg_path = gp_path g, rg_rights = rights\<rparr> # rs'"
    by (auto split: result.splits simp: and_then_Ok_iff)
  with Cons.IH [of rs'] Cons.prems(2) show ?case by auto
qed simp

lemma run_grants_rings:
  assumes "rings_ok peers d" and "descriptors_ok (fst d)"
    and "\<forall>r\<in>set grants. \<exists>g\<in>set (pf_grants (rs_policy (fst d))). rg_court r = gp_court g \<and> rg_path r = gp_path g"
  shows "rings_ok peers (snd (run_grants peers grants d))"
  using assms
proof (induction grants arbitrary: d)
  case (Cons r rest)
  then obtain g where g: "g \<in> set (pf_grants (rs_policy (fst d)))" "rg_court r = gp_court g" "rg_path r = gp_path g" by auto
  show ?case
  proof (cases "map_of peers (gp_court g)")
    case None
    with Cons.prems(1) g(2) show ?thesis by (simp add: peer_of_def get_or_def ok_or_def)
  next
    case (Some peer)
    obtain res d1 where h: "handle_grant_and_open peer (gp_court g) (gp_path g) (rg_rights r) d = (res, d1)" by (rule prod.exhaust)
    have ok: "rings_ok peers d1"
      using handle_grant_rings [OF Cons.prems(1) g(1) Some Cons.prems(2), of "rg_rights r"] h by simp
    have t: "same_tables (fst d) (fst d1)"
      using handle_grant_drives [of d peer "gp_court g" "gp_path g" "rg_rights r"] h by (simp add: drives_def)
    with Cons.IH [OF ok] Cons.prems(2,3) ok h Some g(2,3) show ?thesis
      by (cases res) (simp_all add: peer_of_def get_or_def ok_or_def descriptors_ok_def same_tables_def)
  qed
qed simp

lemma run_phases_rings:
  assumes "rings_ok peers d" and "descriptors_ok (fst d)"
  shows "rings_ok peers (snd (run_phases ho peers kids d))"
proof -
  have try_in: "rings_ok peers (snd (try_in res d' k))"
    if "rings_ok peers d'" "\<And>a. res = Ok a \<Longrightarrow> rings_ok peers (snd (k a))" for res :: "'a LinuxResult" and d' and k :: "'a \<Rightarrow> unit LinuxResult \<times> daemon"
    using that by (cases res) simp_all
  have grants: "rings_ok peers (snd (try_st (run_grants peers gs d') k))"
    if ok: "rings_ok peers d'" and t: "same_tables (fst d) (fst d')" and gs: "state_policy_grants (fst d') = Ok gs"
      and k: "\<And>u d''. rings_ok peers d'' \<Longrightarrow> rings_ok peers (snd (k u d''))" for gs d' and k :: "unit \<Rightarrow> daemon \<Rightarrow> unit LinuxResult \<times> daemon"
  proof -
    have "rings_ok peers (snd (run_grants peers gs d'))"
    proof (rule run_grants_rings [OF ok])
      show "descriptors_ok (fst d')" using assms(2) t by (simp add: descriptors_ok_def same_tables_def)
      show "\<forall>r\<in>set gs. \<exists>g\<in>set (pf_grants (rs_policy (fst d'))). rg_court r = gp_court g \<and> rg_path r = gp_path g"
        using resolve_grants_from gs unfolding state_policy_grants_def by blast
    qed
    with k show ?thesis by (cases "run_grants peers gs d'"; cases "fst (run_grants peers gs d')") simp_all
  qed
  note quiet = rings_ok_try_st [OF record_trace_from_drives] rings_ok_try_st [OF run_revokes_drives] rings_ok_try_st [OF run_faults_drives]
    rings_ok_try_st [OF run_peer_down_drives] rings_ok_quiet [OF wait_children_drives]
  show ?thesis
    unfolding run_phases_def
    by (rule try_in [OF assms(1)], rule try_in [OF assms(1)], rule rings_ok_try_st [OF handle_app_drives assms(1)], rule try_in, assumption,
      rule grants, assumption+) (assumption | rule try_in quiet)+
qed

section \<open>Building the state\<close>

definition courts_named :: "RootState \<Rightarrow> bool" where
  "courts_named st \<longleftrightarrow> (\<forall>name cid. map_of (court_ids st) name = Some cid \<longrightarrow>
     (\<exists>k. courts (rs_root st) cid = Some k \<and> court_name k = name))"

text \<open>The in-process Root is reachable from its initial state, and the courts have the names of the table.\<close>

definition rooted :: "RootState \<Rightarrow> bool" where
  "rooted st \<longleftrightarrow> (\<exists>ops. hosted_run hosted_new ops (rs_root st)) \<and> courts_named st"

definition built :: "string \<Rightarrow> PolicyFile \<Rightarrow> daemon \<Rightarrow> bool" where
  "built run_dir policy d \<longleftrightarrow> descriptors_ok (fst d) \<and> rs_policy (fst d) = policy \<and> (\<forall>c\<in>set (io_log (snd d)). no_ring c) \<and>
     (\<forall>path ring. map_of (ring_info (fst d)) path = Some ring \<longrightarrow> ri_path ring = path_join run_dir (ring_file_name path))"

lemma rooted_inv: "rooted st \<Longrightarrow> hosted_inv (rs_root st)"
  using hosted_sys.invar_run hosted_inv_new by (auto simp: rooted_def)

lemma rooted_drives:
  assumes "drives A d m" and "fst m \<noteq> Panic" and "rooted (fst d)"
  shows "rooted (fst (snd m))"
proof -
  from assms obtain ops ops' where run: "hosted_run hosted_new ops (rs_root (fst d))" "hosted_run (rs_root (fst d)) ops' (rs_root (fst (snd m)))"
    and n: "courts_named (fst d)" and t: "same_tables (fst d) (fst (snd m))" by (auto simp: drives_def rooted_def)
  have "hosted_grows (rs_root (fst d)) (rs_root (fst (snd m)))"
    by (rule hosted_sys.grows_run [OF run(2) rooted_inv [OF assms(3)]])
  then have "courts_named (fst (snd m))"
    using n t hosted_grows_courtD unfolding courts_named_def same_tables_def by metis
  with run_trans [OF run(2) run(1)] show ?thesis by (auto simp: rooted_def)
qed

lemma built_drives: "drives no_ring d m \<Longrightarrow> built run_dir policy d \<Longrightarrow> built run_dir policy (snd m)"
  by (auto simp: built_def drives_def appends_def same_tables_def descriptors_ok_def)

definition builds :: "string \<Rightarrow> PolicyFile \<Rightarrow> 'a LinuxResult \<times> daemon \<Rightarrow> bool" where
  "builds run_dir policy m \<longleftrightarrow> built run_dir policy (snd m) \<and> (fst m \<noteq> Panic \<longrightarrow> rooted (fst (snd m)))"

lemma builds_drives: "drives no_ring d m \<Longrightarrow> builds run_dir policy (Ok (), d) \<Longrightarrow> builds run_dir policy m"
  by (auto simp: builds_def intro: built_drives rooted_drives)

lemma builds_try_st:
  assumes "builds run_dir policy m" and "\<And>a d'. m = (Ok a, d') \<Longrightarrow> builds run_dir policy (Ok (), d') \<Longrightarrow> builds run_dir policy (k a d')"
  shows "builds run_dir policy (try_st m k)"
  using assms(1) assms(2) [of _ "snd m"] by (cases m; cases "fst m") (auto simp: builds_def)

lemma create_court_named:
  assumes "rooted (fst d)" and "ck (create_court name) d = (Ok cid, (st, io))"
  shows "rooted (st\<lparr>court_ids := AList.update name cid (court_ids st), court_roles := x\<rparr>)"
proof -
  have "rooted st" using rooted_drives [OF drives_ck_ops(1) [of no_ring d name] _ assms(1)] assms(2) by simp
  moreover have "\<exists>k. courts (rs_root st) cid = Some k \<and> court_name k = name"
    using assms(2) by (auto simp: ck_def ck_error_def create_court_def Let_def split: try_splits result.splits prod.splits)
  ultimately show ?thesis by (auto simp: rooted_def courts_named_def update_conv')
qed

lemma add_courts_builds: "builds run_dir policy (Ok (), d) \<Longrightarrow> builds run_dir policy (add_courts cs d)"
proof (induction cs arbitrary: d)
  case (Cons c cs)
  show ?case
    unfolding add_courts.simps
  proof (rule builds_try_st [OF builds_drives [OF drives_ck_ops(1) Cons.prems]], clarify)
    fix cid st io
    assume c: "ck (create_court (cm_name c)) d = (Ok cid, (st, io))" and b: "builds run_dir policy (Ok (), (st, io))"
    let ?st = "st\<lparr>court_ids := AList.update (cm_name c) cid (court_ids st), court_roles := AList.update (cm_name c) (cm_role c) (court_roles st)\<rparr>"
    have "rooted ?st" using create_court_named [OF _ c] Cons.prems by (simp add: builds_def)
    with b have "builds run_dir policy (Ok (), (?st, io))" by (simp add: builds_def built_def descriptors_ok_def)
    then show "builds run_dir policy (add_courts cs (?st, io))" by (rule Cons.IH)
  qed
qed (simp add: builds_def)

lemma lookup_path:
  assumes "rooted (fst d)" and "ck (hosted_lookup court path) d = (Ok desc, d')"
  shows "desc_path desc = path"
  using assms(2) rooted_inv [OF assms(1)]
  by (auto simp: ck_def ck_error_def hosted_lookup_def Let_def hosted_inv_defs ok_or_def
      split: try_splits result.splits prod.splits option.splits)

lemma add_corridor_builds:
  assumes "builds run_dir policy (Ok (), d)"
  shows "builds run_dir policy (add_corridor run_dir corridor d)"
proof -
  have err: "builds run_dir policy (Err e, d)" for e using assms by (simp add: builds_def)
  have ring: "drives no_ring d' (on_io (create_ring p cap ss) d')" for p cap ss d'
    by (rule drives_io) (simp add: create_ring_def appends_try_st)
  have "builds run_dir policy (try_st (ck (create_corridor path a b transport cap) d) (\<lambda>_ d.
      try_st (ck (hosted_lookup a (co_path corridor)) d) (\<lambda>descriptor (st, io).
      try_st (on_io (create_ring (path_join run_dir (ring_file_name (co_path corridor))) (co_capacity corridor) (co_slot_size corridor))
        (st\<lparr>descriptors := AList.update (co_path corridor) descriptor (descriptors st)\<rparr>, io)) (\<lambda>_ (st, io).
      (Ok (), (st\<lparr>ring_info := AList.update (co_path corridor) \<lparr>ri_path = path_join run_dir (ring_file_name (co_path corridor)),
        ri_capacity = co_capacity corridor, ri_slot_size = co_slot_size corridor\<rparr> (ring_info st)\<rparr>, io))))))"
    for path a b transport cap
  proof (rule builds_try_st [OF builds_drives [OF drives_ck_ops(2) assms]], goal_cases)
    case (1 ob d1)
    note b1 = 1(2)
    show ?case
    proof (rule builds_try_st [OF builds_drives [OF drives_ck_ops(3) b1]], clarify, goal_cases)
      case (1 desc st io)
      then have "desc_path desc = co_path corridor" using lookup_path [of d1] b1 by (simp add: builds_def)
      with 1(2) have "builds run_dir policy (Ok (), (st\<lparr>descriptors := AList.update (co_path corridor) desc (descriptors st)\<rparr>, io))"
        by (auto simp: builds_def built_def descriptors_ok_def rooted_def courts_named_def update_conv')
      then show ?case
        by (rule builds_try_st [OF builds_drives [OF ring]])
          (auto simp: builds_def built_def descriptors_ok_def rooted_def courts_named_def update_conv' split: if_splits)
    qed
  qed
  with err show ?thesis by (auto simp: add_corridor_def get_or_def ok_or_def Let_def split: option.split)
qed

lemma add_corridors_builds: "builds run_dir policy (Ok (), d) \<Longrightarrow> builds run_dir policy (add_corridors run_dir cs d)"
proof (induction cs arbitrary: d)
  case (Cons c cs)
  show ?case
    unfolding add_corridors.simps by (rule builds_try_st [OF add_corridor_builds [OF Cons.prems] Cons.IH])
qed (simp add: builds_def)

lemma build_state_builds:
  assumes "\<forall>c\<in>set (io_log io). no_ring c"
  shows "builds (cfg_run_dir config) (cfg_policy config) (build_state config trace_path io)"
proof -
  have "rooted (empty_state policy)" for policy by (auto simp: rooted_def courts_named_def empty_state_def intro: run_nil)
  with assms have b: "builds (cfg_run_dir config) (cfg_policy config) (Ok (), (empty_state (cfg_policy config), io))"
    by (simp add: builds_def built_def descriptors_ok_def empty_state_def)
  have demo: "builds run_dir policy (on_io (call (OpenTrace p)) (st\<lparr>rs_demo := x\<rparr>, io))"
    if "builds run_dir policy (Ok (), (st, io))" for run_dir policy p st x io
    by (rule builds_drives [OF drives_io]) (use that in \<open>auto simp: builds_def built_def descriptors_ok_def rooted_def courts_named_def\<close>)
  show ?thesis
    unfolding build_state_def
  proof (rule builds_try_st [OF add_courts_builds [OF b]], rule builds_try_st [OF add_corridors_builds], assumption, clarify, goal_cases)
    case (1 _ _ st io')
    then have "builds (cfg_run_dir config) (cfg_policy config) (Err e, (st, io'))" for e by (simp add: builds_def)
    with 1 show ?case by (auto split: list.split intro: demo)
  qed
qed

section \<open>The courts connect\<close>

lemma court_command_appends: "appends no_ring io (snd (court_command role io))"
  by (cases "io_in io"; cases "tl (io_in io)"; cases "tl (tl (io_in io))")
    (auto simp: court_command_def appends_def perform_def Let_def split: Answer.split option.split)

lemma spawn_all_drives: "drives no_ring d (spawn_all sock names d)"
proof (induction names arbitrary: d)
  case (Cons c rest)
  show ?case
    by (auto intro!: drives_intros Cons.IH drives_io appends_try_st court_command_appends simp: spawn_court_process_def split_beta)
qed (simp add: drives_same)

lemma spawn_courts_drives: "drives no_ring d (spawn_courts ho sock d)"
  unfolding spawn_courts_def Let_def by (intro drives_try_st spawn_all_drives drives_same)

text \<open>Every connected peer has been acknowledged under the name it is registered with.\<close>

definition acked :: "WireDemoConfig \<Rightarrow> peers \<Rightarrow> Io \<Rightarrow> bool" where
  "acked demo peers io \<longleftrightarrow> (\<forall>court c. map_of peers court = Some c \<longrightarrow> SendOn c (MHelloAck WOk court demo) \<in> set (io_log io))"

lemma acked_appends: "acked demo peers io \<Longrightarrow> appends A io io' \<Longrightarrow> acked demo peers io'"
  by (auto simp: acked_def appends_def)

lemma accept_peer_appends: "appends no_ring io (snd (accept_peer demo peers io))"
  unfolding accept_peer_def peer_new_def
  by (auto intro!: appends_try_st split: Answer.split WireMessage.split)

lemma accept_peer_acked:
  assumes "accept_peer demo peers io = (Ok peers', io')" and "acked demo peers io"
  shows "acked demo peers' io'"
proof -
  have "appends no_ring io io'" using accept_peer_appends [of io demo peers] assms(1) by simp
  with assms(2) have old: "acked demo peers io'" by (rule acked_appends)
  from assms(1) obtain c court io1 where "peer_send c (MHelloAck WOk court demo) io1 = (Ok (), io')" "peers' = AList.update court c peers"
    by (auto simp: accept_peer_def peer_new_def split: try_splits Answer.splits WireMessage.splits)
  with old peer_send_log [of c "MHelloAck WOk court demo" io1] show ?thesis by (auto simp: acked_def update_conv')
qed

lemma accept_peers_appends: "appends no_ring io (snd (accept_peers count demo peers io))"
proof (induction count demo peers io rule: accept_peers.induct)
  case (1 count demo peers io)
  from accept_peer_appends [of io demo peers] 1 show ?case
    by (subst accept_peers.simps) (auto split: prod.split result.split intro: appends_trans)
qed

lemma accept_peers_acked:
  "accept_peers count demo peers io = (Ok peers', io') \<Longrightarrow> acked demo peers io \<Longrightarrow> acked demo peers' io'"
proof (induction count demo peers io rule: accept_peers.induct)
  case (1 count demo peers io)
  show ?case
  proof (cases "length peers < count")
    case True
    with 1(2) obtain p io1 where a: "accept_peer demo peers io = (Ok p, io1)" and rest: "accept_peers count demo p io1 = (Ok peers', io')"
      by (subst (asm) accept_peers.simps) (auto split: prod.splits result.splits)
    from 1(1) [OF True a [symmetric] refl rest accept_peer_acked [OF a 1(3)]] show ?thesis .
  next
    case False
    with 1(2,3) show ?thesis by (simp add: accept_peers.simps)
  qed
qed

section \<open>The daemon\<close>

text \<open>What holds when the daemon has ended, whatever ended it.\<close>

definition daemon_ok :: "RootConfig \<Rightarrow> 'a LinuxResult \<times> daemon \<Rightarrow> bool" where
  "daemon_ok config m \<longleftrightarrow> (case m of (res, (st, io)) \<Rightarrow> (res \<noteq> Panic \<longrightarrow> rooted st) \<and>
     (\<forall>cl\<in>set (io_log io). \<forall>c ring. ring_sent cl = Some (c, ring) \<longrightarrow>
       (\<exists>g\<in>set (pf_grants (cfg_policy config)). \<exists>cid cap rights. SendOn c (MHelloAck WOk (gp_court g) (rs_demo st)) \<in> set (io_log io) \<and>
         ri_path ring = path_join (cfg_run_dir config) (ring_file_name (gp_path g)) \<and> map_of (court_ids st) (gp_court g) = Some cid \<and>
         EvOpened cid (gp_path g) cap rights \<in> set (trace (rs_root st)))))"

abbreviation config_builds :: "RootConfig \<Rightarrow> 'a LinuxResult \<times> daemon \<Rightarrow> bool" where
  "config_builds config \<equiv> builds (cfg_run_dir config) (cfg_policy config)"

lemma daemon_ok_builds: "config_builds config m \<Longrightarrow> daemon_ok config m"
  by (auto simp: builds_def built_def daemon_ok_def split: prod.splits)

lemma run_phases_ok:
  assumes "config_builds config (Ok (), d)" and "acked (rs_demo (fst d)) peers (snd d)"
  shows "daemon_ok config (run_phases ho peers kids d)"
proof -
  obtain res st io where m: "run_phases ho peers kids d = (res, (st, io))" by (metis surj_pair)
  have dr: "drives any_call d (res, (st, io))" using run_phases_drives [of d ho peers kids] m by simp
  have b: "built (cfg_run_dir config) (cfg_policy config) d" and "rooted (fst d)" using assms(1) by (simp_all add: builds_def)
  then have "rooted st" if "res \<noteq> Panic" using rooted_drives [OF dr] that by simp
  moreover have t: "same_tables (fst d) st" and "appends any_call (snd d) io" using dr by (simp_all add: drives_def)
  then have ack: "acked (rs_demo st) peers io" using acked_appends [OF assms(2)] by (auto simp: same_tables_def)
  have "rings_ok peers d" "descriptors_ok (fst d)" using b by (auto simp: rings_ok_def built_def)
  then have "rings_ok peers (st, io)" using run_phases_rings [of peers d ho kids] m by simp
  moreover have "rs_policy st = cfg_policy config" "ri_path ring = path_join (cfg_run_dir config) (ring_file_name path)"
    if "map_of (ring_info st) path = Some ring" for path ring using b t that by (simp_all add: built_def same_tables_def)
  ultimately show ?thesis
    using ack unfolding m daemon_ok_def rings_ok_def ring_justified_def acked_def prod.case fst_conv snd_conv by fastforce
qed

text \<open>The daemon fails before its courts have connected, or it goes through its phases with acknowledged peers.\<close>

definition connects :: "HashOrder \<Rightarrow> RootConfig \<Rightarrow> unit LinuxResult \<times> daemon \<Rightarrow> bool" where
  "connects ho config m \<longleftrightarrow> config_builds config m \<and> fst m \<noteq> Ok () \<or>
     (\<exists>peers kids d. m = run_phases ho peers kids d \<and> config_builds config (Ok (), d) \<and> acked (rs_demo (fst d)) peers (snd d))"

lemma connects_try_st:
  assumes "config_builds config m" and "\<And>a d'. m = (Ok a, d') \<Longrightarrow> config_builds config (Ok (), d') \<Longrightarrow> connects ho config (k a d')"
  shows "connects ho config (try_st m k)"
proof -
  obtain res d' where m: "m = (res, d')" by (rule prod.exhaust)
  from assms(1) m have "config_builds config (Ok (), d')" if "res \<noteq> Panic" using that by (simp add: builds_def)
  with assms m show ?thesis by (cases res) (auto simp: connects_def builds_def)
qed

lemma run_manifest_demo_connects: "connects ho config (run_manifest_demo ho config \<lparr>io_in = answers, io_log = []\<rparr>)"
proof -
  let ?d = "(empty_state (cfg_policy config), \<lparr>io_in = answers, io_log = []\<rparr>)"
  have start: "config_builds config (res, ?d)" for res :: "unit LinuxResult"
    by (auto simp: builds_def built_def descriptors_ok_def rooted_def courts_named_def empty_state_def intro: run_nil)
  have accept: "connects ho config (try_st (on_io (accept_peers n (rs_demo (fst d)) []) d) (\<lambda>peers d. run_phases ho peers kids d))"
    if "config_builds config (Ok (), d)" for n d kids
  proof (rule connects_try_st [OF builds_drives [OF drives_io [where f = "accept_peers n (rs_demo (fst d)) []", OF accept_peers_appends] that]])
    fix peers d' assume a: "on_io (accept_peers n (rs_demo (fst d)) []) d = (Ok peers, d')" and b: "config_builds config (Ok (), d')"
    from a have "acked (rs_demo (fst d')) peers (snd d')"
      using accept_peers_acked [of n "rs_demo (fst d)" "[]" "snd d" peers "snd d'"] by (auto simp: on_io_def acked_def split: prod.splits)
    with b show "connects ho config (run_phases ho peers kids d')" by (auto simp: connects_def)
  qed
  note io = connects_try_st [OF builds_drives [OF drives_io]]
  show ?thesis
  proof (cases "validate (cfg_manifest config) (cfg_policy config)")
    case (Ok u)
    show ?thesis
      unfolding run_manifest_demo_def Let_def Ok result.case
      by (rule io [OF _ start], simp, rule io, simp, assumption, rule io, simp, assumption,
        rule connects_try_st [OF build_state_builds], simp add: builds_def built_def,
        rule connects_try_st [OF builds_drives [OF drives_record]], simp, assumption,
        rule connects_try_st [OF builds_drives [OF spawn_courts_drives]], assumption, rule accept, assumption)
  qed (use start in \<open>simp_all add: connects_def run_manifest_demo_def Let_def\<close>)
qed

lemma run_manifest_demo_ok: "daemon_ok config (run_manifest_demo ho config \<lparr>io_in = answers, io_log = []\<rparr>)"
  using run_manifest_demo_connects [of ho config answers] daemon_ok_builds run_phases_ok unfolding connects_def by metis

end
