(* ===== verification/Daemon_Policy.thy ===== *)
theory Daemon_Policy
  imports Daemon_Safety
begin

text \<open>
  What a successful run of the Root daemon has done: every grant of the policy was opened, every revocation and
  every fault took effect in the in-process Root, and none of it was undone by what followed.
\<close>

section \<open>Effects that last\<close>

definition opened :: "RootState \<Rightarrow> string \<Rightarrow> string \<Rightarrow> bool" where
  "opened st court path \<longleftrightarrow> (\<exists>cid cap rights. map_of (court_ids st) court = Some cid \<and> EvOpened cid path cap rights \<in> set (trace (rs_root st)))"

definition cap_dead :: "RootState \<Rightarrow> CapId \<Rightarrow> bool" where
  "cap_dead st cap \<longleftrightarrow> (\<exists>k. caps (cap_registry (rs_root st)) cap = Some k \<and> cap_revoked k)"

definition court_dead :: "RootState \<Rightarrow> string \<Rightarrow> bool" where
  "court_dead st court \<longleftrightarrow> (\<exists>cid k. map_of (court_ids st) court = Some cid \<and> courts (rs_root st) cid = Some k \<and>
     court_name k = court \<and> court_state k = Faulted)"

lemma lasting:
  assumes "drives A d (Ok x, d')" and "rooted (fst d)"
  shows "opened (fst d) court path \<Longrightarrow> opened (fst d') court path"
    and "cap_dead (fst d) cap \<Longrightarrow> cap_dead (fst d') cap"
    and "court_dead (fst d) court \<Longrightarrow> court_dead (fst d') court"
    and "rooted (fst d')"
proof -
  from assms(1) obtain ops where run: "hosted_run (rs_root (fst d)) ops (rs_root (fst d'))" and t: "same_tables (fst d) (fst d')"
    and p: "prefix (trace (rs_root (fst d))) (trace (rs_root (fst d')))" by (auto simp: drives_def)
  have g: "hosted_grows (rs_root (fst d)) (rs_root (fst d'))"
    by (rule hosted_sys.grows_run [OF run rooted_inv [OF assms(2)]])
  show "opened (fst d') court path" if "opened (fst d) court path"
    using that t set_mono_prefix [OF p] by (auto simp: opened_def same_tables_def)
  show "cap_dead (fst d') cap" if "cap_dead (fst d) cap"
  proof -
    from that obtain k where k: "caps (cap_registry (rs_root (fst d))) cap = Some k" "cap_revoked k" by (auto simp: cap_dead_def)
    from hosted_grows_capD [OF g k(1)] k(2) show ?thesis by (auto simp: cap_dead_def)
  qed
  show "court_dead (fst d') court" if "court_dead (fst d) court"
  proof -
    from that obtain cid k where k: "map_of (court_ids (fst d)) court = Some cid" "courts (rs_root (fst d)) cid = Some k"
      "court_name k = court" "court_state k = Faulted" by (auto simp: court_dead_def)
    from hosted_grows_courtD [OF g k(2)] k t show ?thesis by (auto simp: court_dead_def same_tables_def)
  qed
  show "rooted (fst d')" using rooted_drives [OF assms(1) _ assms(2)] by simp
qed

section \<open>Each phase\<close>

lemma handle_open_opened:
  assumes "handle_open peer court cid desc path d = (Ok x, d')" and "desc_path desc = path" and "map_of (court_ids (fst d)) court = Some cid"
    and "rooted (fst d)"
  shows "opened (fst d') court path"
proof -
  from assms(1) obtain m d1 where m: "on_io (peer_recv peer) d = (Ok m, d1)"
    by (auto simp: handle_open_def try_st_Ok_iff)
  have d1: "drives any_call d (Ok m, d1)" using drives_recv [of any_call peer d] m by simp
  from assms(1) m obtain rc rights where mo: "m = MOpen path (Some rc) rights"
    by (cases m) (auto simp: handle_open_def Let_def split: option.splits if_splits try_splits)
  from assms(1) obtain core status d2 d3 ring where
    op: "open_status cid desc (Some core) (to_rights rights) d1 = (Ok WOk, d2)"
    and r: "record_trace (with_path path (trace_new ''open'' court WOk)) d2 = (Ok (), d3)"
    and s: "on_io (peer_send peer (MOpenResult WOk (Some rc) (Some ring))) d3 = (Ok x, d')"
    unfolding handle_open_def m mo by (auto simp: Let_def split: option.splits if_splits try_splits)
  have d2: "drives any_call d1 (Ok WOk, d2)" using drives_open [of any_call d1 cid desc "Some core" "to_rights rights"] op by simp
  have d3: "drives any_call d2 (Ok (), d3)" using drives_record [of any_call "with_path path (trace_new ''open'' court WOk)" d2] r by simp
  have d4: "drives any_call d3 (Ok x, d')" using drives_send [of any_call peer "MOpenResult WOk (Some rc) (Some ring)" d3] s by simp
  note r1 = lasting(4) [OF d1 assms(4)]
  note r2 = lasting(4) [OF d2 r1]
  have "opened (fst d2) court path"
    using open_status_opened [OF op] assms(2,3) d1 d2 by (auto simp: opened_def drives_def same_tables_def)
  then show ?thesis by (intro lasting(1) [OF d4 lasting(4) [OF d3 r2]] lasting(1) [OF d3 r2])
qed

lemma handle_grant_opened:
  assumes "handle_grant_and_open peer court path rights d = (Ok cap, d')" and "descriptors_ok (fst d)" and "rooted (fst d)"
  shows "opened (fst d') court path"
proof -
  from assms(1) obtain cid desc st io u d2 d3 where
    c: "map_of (court_ids (fst d)) court = Some cid" "map_of (descriptors (fst d)) path = Some desc"
    and g: "ck (grant_corridor_cap cid desc rights) d = (Ok cap, (st, io))"
    and r: "record_trace (with_detail (court @ '':'' @ digits (unat (cap_raw cap))) (with_path path (trace_new ''grant'' ''root'' WOk)))
      (st\<lparr>caps_by_id := AList.update (cap_raw cap) cap (caps_by_id st), caps_by_key := AList.update (court, path) (cap, rights) (caps_by_key st)\<rparr>, io) = (Ok (), d2)"
    and s: "on_io (peer_send peer (MGrant path (wire_cap cap rights))) d2 = (Ok (), d3)"
    and ho: "handle_open peer court cid desc path d3 = (Ok u, d')"
    by (auto simp: handle_grant_and_open_def Let_def get_or_def ok_or_def split: try_splits option.splits)
  have "drives any_call d (Ok cap, (st, io))" using drives_ck_ops(4) [of any_call d cid desc rights] g by simp
  from lasting(4) [OF this assms(3)] this have st: "rooted st" "same_tables (fst d) st" by (simp_all add: drives_def)
  have d2: "fst d2 = st\<lparr>caps_by_id := AList.update (cap_raw cap) cap (caps_by_id st), caps_by_key := AList.update (court, path) (cap, rights) (caps_by_key st)\<rparr>"
    using r by (auto simp: record_trace_def on_io_def split: prod.splits)
  have d3: "fst d3 = fst d2" using s by (auto simp: on_io_def split: prod.splits)
  show ?thesis
    by (rule handle_open_opened [OF ho]) (use assms(2) c st d2 d3 in \<open>auto simp: descriptors_ok_def same_tables_def rooted_def courts_named_def\<close>)
qed

lemma run_grants_opened:
  assumes "run_grants peers gs d = (Ok (), d')" and "descriptors_ok (fst d)" and "rooted (fst d)"
  shows "\<forall>g\<in>set gs. opened (fst d') (rg_court g) (rg_path g)"
  using assms
proof (induction gs arbitrary: d)
  case (Cons g gs)
  then obtain peer cap d1 where h: "handle_grant_and_open peer (rg_court g) (rg_path g) (rg_rights g) d = (Ok cap, d1)"
    and rest: "run_grants peers gs d1 = (Ok (), d')"
    by (auto simp: try_in_Ok_iff try_st_Ok_iff)
  have d1: "drives any_call d (Ok cap, d1)"
    using handle_grant_drives [of d peer "rg_court g" "rg_path g" "rg_rights g"] h by simp
  note r1 = lasting(4) [OF d1 Cons.prems(3)]
  have desc: "descriptors_ok (fst d1)" using Cons.prems(2) d1 by (simp add: descriptors_ok_def drives_def same_tables_def)
  have "drives any_call d1 (Ok (), d')" using run_grants_drives [of d1 peers gs] rest by simp
  from lasting(1) [OF this r1 handle_grant_opened [OF h Cons.prems(2,3)]] Cons.IH [OF rest desc r1] show ?case by simp
qed simp

text \<open>After the grants the table of capabilities stays as it is.\<close>

lemma same_caps:
  "on_io f d = (res, d') \<Longrightarrow> fst d' = fst d" "record_trace ev d = (res', d') \<Longrightarrow> fst d' = fst d"
  "ck op d = (res'', d') \<Longrightarrow> caps_by_key (fst d') = caps_by_key (fst d)"
  by (auto simp: on_io_def record_trace_def ck_def split: prod.splits)

lemma record_trace_from_fst: "record_trace_from c label d = (Ok (), d') \<Longrightarrow> fst d' = fst d"
proof -
  assume a: "record_trace_from c label d = (Ok (), d')"
  then obtain m d1 where m: "on_io (peer_recv c) d = (Ok m, d1)" by (auto simp: record_trace_from_def try_st_Ok_iff)
  from a m obtain ev where "record_trace ev d1 = (Ok (), d')" by (cases m) (auto simp: record_trace_from_def)
  from same_caps(1) [OF m] same_caps(2) [OF this] show ?thesis by simp
qed

lemma revoke_kills:
  assumes "ck (revoke_total cap) d = (Ok (), d')" and "rooted (fst d)"
  shows "cap_dead (fst d') cap"
proof -
  have "cap_inv (cap_registry (rs_root (fst d)))" using rooted_inv [OF assms(2)] by (simp add: hosted_inv_def)
  from revoke_cap_eq [OF this, of cap] assms(1) show ?thesis
    by (auto simp: ck_def ck_error_def revoke_total_def hosted_revoke_def cap_dead_def caps_revoke_tree
        split: if_splits result.splits option.splits)
qed

lemma run_revokes_done:
  assumes "run_revokes peers rs d = (Ok (), d')" and "rooted (fst d)"
  shows "caps_by_key (fst d') = caps_by_key (fst d) \<and>
    (\<forall>r\<in>set rs. \<exists>cap rights. map_of (caps_by_key (fst d')) (rp_court r, rp_path r) = Some (cap, rights) \<and> cap_dead (fst d') cap)"
  using assms
proof (induction rs arbitrary: d)
  case (Cons r rs)
  then obtain cap rights peer d1 d2 d3 d4 where c: "map_of (caps_by_key (fst d)) (rp_court r, rp_path r) = Some (cap, rights)"
    and k: "ck (revoke_total cap) d = (Ok (), d1)"
    and t: "record_trace (with_path (rp_path r) (trace_new ''revoke'' ''root'' WOk)) d1 = (Ok (), d2)"
    and s: "on_io (peer_send peer (MRevoke (wire_cap cap rights))) d2 = (Ok (), d3)"
    and f: "record_trace_from peer ''revoke'' d3 = (Ok (), d4)" and rest: "run_revokes peers rs d4 = (Ok (), d')"
    by (auto simp: try_in_Ok_iff try_st_Ok_iff get_or_def ok_or_def split: option.splits)
  have e: "fst d4 = fst d1" using same_caps(2) [OF t] same_caps(1) [OF s] record_trace_from_fst [OF f] by simp
  have "drives no_ring d (Ok (), d1)" using drives_ck_ops(6) [of no_ring d cap] k by simp
  from lasting(4) [OF this Cons.prems(2)] have r4: "rooted (fst d4)" by (simp add: e)
  have dead: "cap_dead (fst d4) cap" using revoke_kills [OF k Cons.prems(2)] by (simp add: e)
  have "drives no_ring d4 (Ok (), d')" using run_revokes_drives [of d4 peers rs] rest by simp
  from lasting(2) [OF this r4 dead] Cons.IH [OF rest r4] same_caps(3) [OF k] e c show ?case by auto
qed simp

lemma fault_kills:
  assumes "ck (fault_court cid) d = (Ok (), d')" and "rooted (fst d)" and "map_of (court_ids (fst d)) court = Some cid"
  shows "court_dead (fst d') court"
proof -
  from assms(2,3) obtain k where "courts (rs_root (fst d)) cid = Some k" "court_name k = court"
    by (auto simp: rooted_def courts_named_def)
  with assms(1,3) show ?thesis by (auto simp: ck_def ck_error_def fault_court_def court_dead_def)
qed

lemma run_faults_done:
  assumes "run_faults peers kids fs d = (Ok peers', d')" and "rooted (fst d)"
  shows "caps_by_key (fst d') = caps_by_key (fst d) \<and> (\<forall>f\<in>set fs. court_dead (fst d') (fp_court f))"
  using assms
proof (induction fs arbitrary: d peers)
  case (Cons f fs)
  then obtain cid peer d1 d2 d3 d4 d5 where s: "on_io (peer_send peer (MFault (fp_reason f))) d = (Ok (), d1)"
    and t: "record_trace_from peer ''fault'' d1 = (Ok (), d2)" and w: "on_io (expect_child_exit (fp_court f) 42) d2 = (Ok (), d3)"
    and c: "map_of (court_ids (fst d3)) (fp_court f) = Some cid" and k: "ck (fault_court cid) d3 = (Ok (), d4)"
    and t': "record_trace (with_path (demo_path (rs_demo (fst d4))) (trace_new ''court_fault'' ''root'' WFault)) d4 = (Ok (), d5)"
    and rest: "run_faults (AList.delete (fp_court f) peers) kids fs d5 = (Ok peers', d')"
    by (auto simp: try_in_Ok_iff try_st_Ok_iff get_or_def ok_or_def split: option.splits if_splits)
  have e: "fst d3 = fst d" using same_caps(1) [OF s] record_trace_from_fst [OF t] same_caps(1) [OF w] by simp
  have e': "fst d5 = fst d4" using same_caps(2) [OF t'] .
  have r3: "rooted (fst d3)" using Cons.prems(2) e by simp
  have "drives no_ring d3 (Ok (), d4)" using drives_ck_ops(5) [of no_ring d3 cid] k by simp
  from lasting(4) [OF this r3] have r5: "rooted (fst d5)" by (simp add: e')
  have dead: "court_dead (fst d5) (fp_court f)" using fault_kills [OF k r3 c] by (simp add: e')
  have "drives no_ring d5 (Ok peers', d')" using run_faults_drives [of d5 "AList.delete (fp_court f) peers" kids fs] rest by simp
  from lasting(3) [OF this r5 dead] Cons.IH [OF rest r5] same_caps(3) [OF k] e e' show ?case by auto
qed simp

lemma run_peer_down_fst: "run_peer_down peers ps d = (Ok (), d') \<Longrightarrow> fst d' = fst d"
proof (induction ps arbitrary: d)
  case (Cons p ps)
  then obtain peer m d1 d2 d3 d4 where pe: "peer_of peers (dp_court p) = Ok peer" and s: "on_io (peer_send peer (MPeerDown (dp_path p))) d = (Ok (), d1)"
    and t: "record_trace (with_path (dp_path p) (trace_new ''peer_down'' ''root'' WPeerDown)) d1 = (Ok (), d2)"
    and f: "record_trace_from peer ''peer_down'' d2 = (Ok (), d3)" and m: "on_io (peer_recv peer) d3 = (Ok m, d4)"
    by (auto simp: try_in_Ok_iff try_st_Ok_iff)
  from Cons.prems obtain ev d5 where "record_trace ev d4 = (Ok (), d5)" "run_peer_down peers ps d5 = (Ok (), d')"
    by (cases m) (auto simp: pe s t f m try_st_Ok_iff Let_def split: if_split_asm)
  from same_caps(2) [OF this(1)] Cons.IH [OF this(2)] same_caps(1) [OF s] same_caps(2) [OF t] record_trace_from_fst [OF f] same_caps(1) [OF m]
  show ?case by simp
qed simp

lemma wait_children_fst: "wait_children peers kids d = (Ok (), d') \<Longrightarrow> fst d' = fst d"
proof (induction kids arbitrary: d)
  case (Cons k kids)
  then show ?case by (auto simp: try_st_Ok_iff dest: same_caps(1) split: if_split_asm)
qed simp

section \<open>The whole scenario\<close>

definition policy_done :: "PolicyFile \<Rightarrow> RootState \<Rightarrow> bool" where
  "policy_done policy st \<longleftrightarrow> (\<forall>g\<in>set (pf_grants policy). opened st (gp_court g) (gp_path g)) \<and>
     (\<forall>r\<in>set (pf_revokes policy). \<exists>cap rights. map_of (caps_by_key st) (rp_court r, rp_path r) = Some (cap, rights) \<and> cap_dead st cap) \<and>
     (\<forall>f\<in>set (pf_faults policy). court_dead st (fp_court f))"

lemma resolve_grants_to:
  "resolve_grants gs = Ok rs \<Longrightarrow> g \<in> set gs \<Longrightarrow> \<exists>r\<in>set rs. rg_court r = gp_court g \<and> rg_path r = gp_path g"
proof (induction gs arbitrary: rs)
  case (Cons h gs)
  from Cons.prems(1) obtain rights rs' where "parse_rights (gp_rights h) = Ok rights" "resolve_grants gs = Ok rs'"
    "rs = \<lparr>rg_court = gp_court h, rg_path = gp_path h, rg_rights = rights\<rparr> # rs'"
    by (auto split: result.splits)
  with Cons.IH [of rs'] Cons.prems(2) show ?case by auto
qed simp

lemma run_phases_done:
  assumes "run_phases ho peers kids d = (Ok (), d')" and "rooted (fst d)" and "descriptors_ok (fst d)"
  shows "policy_done (rs_policy (fst d)) (fst d')"
proof -
  from assms(1) obtain app_name app recv_peer grants peers' d1 d2 d3 d4 d5 d6 d7 where
    h: "handle_app_lookup_and_denied_open app app_name d = (Ok (), d1)" and gs: "state_policy_grants (fst d1) = Ok grants"
    and g: "run_grants peers grants d1 = (Ok (), d2)" and t3: "record_trace_from app ''app send'' d2 = (Ok (), d3)"
    and t4: "record_trace_from recv_peer ''receiver recv'' d3 = (Ok (), d4)"
    and r: "run_revokes peers (pf_revokes (rs_policy (fst d4))) d4 = (Ok (), d5)"
    and f: "run_faults peers kids (pf_faults (rs_policy (fst d5))) d5 = (Ok peers', d6)"
    and p: "run_peer_down peers' (pf_peer_down (rs_policy (fst d6))) d6 = (Ok (), d7)"
    and w: "wait_children peers' (court_order ho kids) d7 = (Ok (), d')"
    unfolding run_phases_def by (auto simp: try_in_Ok_iff try_st_Ok_iff)
  have s1: "drives no_ring d (Ok (), d1)" using handle_app_drives [of d app app_name] h by simp
  have s2: "drives any_call d1 (Ok (), d2)" using run_grants_drives [of d1 peers grants] g by simp
  have s5: "drives no_ring d4 (Ok (), d5)" using run_revokes_drives [of d4 peers "pf_revokes (rs_policy (fst d4))"] r by simp
  have s6: "drives no_ring d5 (Ok peers', d6)" using run_faults_drives [of d5 peers kids "pf_faults (rs_policy (fst d5))"] f by simp
  have e4: "fst d4 = fst d2" using record_trace_from_fst [OF t3] record_trace_from_fst [OF t4] by simp
  have e': "fst d' = fst d6" using run_peer_down_fst [OF p] wait_children_fst [OF w] by simp
  note r1 = lasting(4) [OF s1 assms(2)]
  have r4: "rooted (fst d4)" using lasting(4) [OF s2 r1] e4 by simp
  note r5 = lasting(4) [OF s5 r4]
  have pol: "rs_policy (fst d1) = rs_policy (fst d)" "rs_policy (fst d4) = rs_policy (fst d)" "rs_policy (fst d5) = rs_policy (fst d)"
    using s1 s2 s5 e4 by (simp_all add: drives_def same_tables_def)
  have desc: "descriptors_ok (fst d1)" using assms(3) s1 by (simp add: descriptors_ok_def drives_def same_tables_def)
  have "opened (fst d6) (gp_court x) (gp_path x)" if "x \<in> set (pf_grants (rs_policy (fst d)))" for x
  proof -
    from resolve_grants_to [of _ grants x] gs that pol(1) obtain y where "y \<in> set grants" "rg_court y = gp_court x" "rg_path y = gp_path x"
      by (auto simp: state_policy_grants_def)
    with run_grants_opened [OF g desc r1] have "opened (fst d4) (gp_court x) (gp_path x)" by (auto simp: e4)
    then show ?thesis by (intro lasting(1) [OF s6 r5] lasting(1) [OF s5 r4])
  qed
  moreover have "\<exists>cap rights. map_of (caps_by_key (fst d6)) (rp_court x, rp_path x) = Some (cap, rights) \<and> cap_dead (fst d6) cap"
    if "x \<in> set (pf_revokes (rs_policy (fst d)))" for x
  proof -
    from run_revokes_done [OF r r4] that pol(2) obtain cap rights where
      "map_of (caps_by_key (fst d5)) (rp_court x, rp_path x) = Some (cap, rights)" "cap_dead (fst d5) cap" by auto
    with run_faults_done [OF f r5] lasting(2) [OF s6 r5] show ?thesis by auto
  qed
  ultimately show ?thesis using run_faults_done [OF f r5] pol(3) by (simp add: policy_done_def e')
qed

lemma run_manifest_demo_done:
  assumes "run_manifest_demo ho config \<lparr>io_in = answers, io_log = []\<rparr> = (Ok (), (st, io))"
  shows "policy_done (cfg_policy config) st"
proof -
  from run_manifest_demo_connects [of ho config answers] assms obtain peers kids d
    where r: "run_phases ho peers kids d = (Ok (), (st, io))" and b: "config_builds config (Ok (), d)" by (auto simp: connects_def)
  then have "rooted (fst d)" "descriptors_ok (fst d)" "rs_policy (fst d) = cfg_policy config" by (simp_all add: builds_def built_def)
  with run_phases_done [OF r] show ?thesis by simp
qed

end
