(* ===== verification/Packet_Rx.thy ===== *)
theory Packet_Rx
  imports Daemon_Policy Hosted_Demo
begin

text \<open>
  The scenario compiled into the hosted prototype, \<^verbatim>\<open>fixtures/packet-rx\<close>: its manifest and policy, and the run of the
  Root daemon in which every call succeeds and the two courts answer as their programs do.
\<close>

section \<open>Manifest and policy\<close>

definition packet_rx_manifest :: ManifestFile where
  "packet_rx_manifest = \<lparr>mf_version = 1,
     mf_courts = [\<lparr>cm_name = ''app'', cm_role = AppRole\<rparr>, \<lparr>cm_name = ''net0'', cm_role = NetRole\<rparr>],
     mf_corridors = [\<lparr>co_path = ''/court/net0/packet/rx'', co_transport = ManifestSharedRing, co_from = ''app'', co_to = ''net0'',
       co_capacity = 64, co_slot_size = 2048\<rparr>],
     mf_demo = \<lparr>packet_payload = ''mvp0c-packet''\<rparr>\<rparr>"

definition packet_rx_policy :: PolicyFile where
  "packet_rx_policy = \<lparr>pf_version = 1,
     pf_grants = [\<lparr>gp_court = ''net0'', gp_path = ''/court/net0/packet/rx'', gp_rights = [''recv'', ''observe'']\<rparr>,
       \<lparr>gp_court = ''app'', gp_path = ''/court/net0/packet/rx'', gp_rights = [''send'', ''observe'']\<rparr>],
     pf_revokes = [\<lparr>rp_court = ''app'', rp_path = ''/court/net0/packet/rx'', rp_after = ''recv''\<rparr>],
     pf_faults = [\<lparr>fp_court = ''net0'', fp_after = ''revoke'', fp_reason = ''mvp0c simulated net court crash''\<rparr>],
     pf_peer_down = [\<lparr>dp_court = ''app'', dp_path = ''/court/net0/packet/rx'', dp_after = ''fault''\<rparr>]\<rparr>"

definition run_packet_rx_demo :: "HashOrder \<Rightarrow> string \<Rightarrow> Io \<Rightarrow> unit LinuxResult \<times> daemon" where
  "run_packet_rx_demo ho run_dir io =
     run_manifest_demo ho \<lparr>cfg_run_dir = run_dir, cfg_manifest = packet_rx_manifest, cfg_policy = packet_rx_policy\<rparr> io"

lemma bitor_NONE: "bitor NONE r = r"
  by (cases r) (simp add: bitor_def NONE_def)

lemma packet_rx_rights:
  "parse_rights [''recv'', ''observe''] = Ok (bitor RECV OBSERVE)" "parse_rights [''send'', ''observe''] = Ok (bitor SEND OBSERVE)"
  by (simp_all add: parse_rights_def right_of.simps bitor_NONE)

lemma packet_rx_contains:
  "contains (bitor RECV OBSERVE) RECV" "\<not> contains (bitor RECV OBSERVE) SEND" "contains (bitor SEND OBSERVE) SEND" "\<not> contains (bitor SEND OBSERVE) RECV"
  by (simp_all add: contains_def bitor_def rights_defs)

lemma packet_rx_valid: "validate packet_rx_manifest packet_rx_policy = Ok ()"
  by (simp add: validate_def packet_rx_manifest_def packet_rx_policy_def require_schema_def SCHEMA_VERSION_def packet_rx_rights
      packet_rx_contains require_court_def require_path_def require_phase_before_def phase_index_def PHASE_ORDER_def)

lemma packet_rx_ring: "ring_file_name ''/court/net0/packet/rx'' = ''packet-rx.ring''"
  by (simp add: ring_file_name_def Let_def)

lemma wire_send_recv: "to_rights (from_rights SEND) = SEND" "to_rights (from_rights RECV) = RECV" "contains SEND SEND"
  by (simp_all add: to_rights_def from_rights_def add_right_def Let_def rights_defs bitor_def contains_def)

section \<open>The in-process Root\<close>

text \<open>Its state once the corridor exists, with the parts that still change.\<close>

definition rx_state :: "CapRegistry \<Rightarrow> CapId set \<Rightarrow> CapId set \<Rightarrow> (CourtId \<rightharpoonup> Court) \<Rightarrow> TraceEvent list \<Rightarrow> HostedRoot" where
  "rx_state reg a n cs evs = \<lparr>next_court = 2, next_object = 1, courts = cs, cspaces = [CourtId 1 \<mapsto> a, CourtId 2 \<mapsto> n],
     cap_registry = reg, namespace = rx_ns, corridors = [ObjectId 1 \<mapsto> rx_queue\<lparr>endpoints := (CourtId 1, CourtId 2)\<rparr>],
     root_caps = [ObjectId 1 \<mapsto> CapId 1], trace = evs\<rparr>"

definition rx_reg1 :: CapRegistry where
  "rx_reg1 = \<lparr>next_cap = 1, caps = [CapId 1 \<mapsto> root_capability (ObjectId 1)], children = Map.empty\<rparr>"

definition rx_reg2 :: CapRegistry where
  "rx_reg2 = \<lparr>next_cap = 2, caps = [CapId 1 \<mapsto> root_capability (ObjectId 1), CapId 2 \<mapsto> rx_granted (bitor RECV OBSERVE)],
     children = [CapId 1 \<mapsto> [CapId 2]]\<rparr>"

definition rx_reg3 :: "bool \<Rightarrow> CapRegistry" where
  "rx_reg3 dead = \<lparr>next_cap = 3, caps = [CapId 1 \<mapsto> root_capability (ObjectId 1), CapId 2 \<mapsto> rx_granted (bitor RECV OBSERVE),
     CapId 3 \<mapsto> (rx_granted (bitor SEND OBSERVE))\<lparr>cap_revoked := dead\<rparr>], children = [CapId 1 \<mapsto> [CapId 2, CapId 3]]\<rparr>"

lemma rx_state_running [simp]:
  "require_running_court (rx_state reg a n rx_courts evs) (CourtId 1) = Ok ()" "require_running_court (rx_state reg a n rx_courts evs) (CourtId 2) = Ok ()"
  by (simp_all add: rx_state_def)

lemma rx_state_lookup:
  "hosted_lookup (CourtId 1) rx_path (rx_state reg a n rx_courts evs) =
     (Ok rx_desc, rx_state reg a n rx_courts (evs @ [EvNamespaceLookup (CourtId 1) rx_path True]))"
  by (simp add: hosted_lookup_def Let_def) (simp add: rx_state_def ns_lookup_def rx_ns_def push_trace_def)

lemma rx_state_denied:
  "hosted_open (CourtId 1) rx_desc None SEND (rx_state reg a n rx_courts evs) =
     (Err NoRight, rx_state reg a n rx_courts (evs @ [EvOpenDenied (CourtId 1) rx_path NoRight]))"
  by (simp add: hosted_open_def deny_open_def) (simp add: rx_state_def push_trace_def rx_desc_def)

lemma rx_state_grants:
  "grant_corridor_cap (CourtId 2) rx_desc (bitor RECV OBSERVE) (rx_state rx_reg1 {} {} rx_courts evs) =
     (Ok (CapId 2), rx_state rx_reg2 {} {CapId 2} rx_courts (evs @ [EvCapGranted (CourtId 2) (CapId 2) (ObjectId 1) (bitor RECV OBSERVE)]))"
  "grant_corridor_cap (CourtId 1) rx_desc (bitor SEND OBSERVE) (rx_state rx_reg2 {} {CapId 2} rx_courts evs) =
     (Ok (CapId 3), rx_state (rx_reg3 False) {CapId 3} {CapId 2} rx_courts (evs @ [EvCapGranted (CourtId 1) (CapId 3) (ObjectId 1) (bitor SEND OBSERVE)]))"
  by (simp_all add: grant_corridor_cap_def rx_state_running)
    (simp_all add: rx_state_def rx_reg1_def rx_reg2_def rx_reg3_def rx_grant_defs rx_granted_def push_trace_def fun_upd_twist)

lemma rx_state_opens:
  "hosted_open (CourtId 2) rx_desc (Some (CapId 2)) RECV (rx_state rx_reg2 {} {CapId 2} rx_courts evs) =
     (Ok (CapId 2), rx_state rx_reg2 {} {CapId 2} rx_courts (evs @ [EvOpened (CourtId 2) rx_path (CapId 2) RECV]))"
  "hosted_open (CourtId 1) rx_desc (Some (CapId 3)) SEND (rx_state (rx_reg3 False) {CapId 3} {CapId 2} rx_courts evs) =
     (Ok (CapId 3), rx_state (rx_reg3 False) {CapId 3} {CapId 2} rx_courts (evs @ [EvOpened (CourtId 1) rx_path (CapId 3) SEND]))"
  by (simp_all add: hosted_open_def)
    (simp_all add: rx_state_def rx_reg2_def rx_reg3_def cspace_contains_def authorize_def rx_granted_def packet_rx_contains rx_desc_def push_trace_def)

definition rx_faulted :: "CourtId \<rightharpoonup> Court" where
  "rx_faulted = rx_courts(CourtId 2 \<mapsto> \<lparr>court_id = CourtId 2, court_name = ''net0'', court_state = Faulted\<rparr>)"

lemma rx_state_revoke:
  "revoke_total (CapId 3) (rx_state (rx_reg3 False) a n rx_courts evs) =
     (Ok (), rx_state (rx_reg3 True) a n rx_courts (evs @ [EvCapRevoked (CapId 3)]))"
proof -
  have "revoke_cap (CapId 3) (rx_reg3 False) = Some (Ok (), rx_reg3 True)"
    by (simp add: revoke_cap_def revoke_loop_Cons rx_reg3_def mark_revoked_def fun_upd_twist)
  then show ?thesis by (simp add: revoke_total_def hosted_revoke_def rx_state_def push_trace_def)
qed

lemma rx_state_fault:
  "fault_court (CourtId 2) (rx_state reg a n rx_courts evs) = (Ok (), rx_state reg a n rx_faulted (evs @ [EvCourtFaulted (CourtId 2)]))"
  by (simp add: fault_court_def rx_state_def push_trace_def rx_courts_def rx_faulted_def)

section \<open>The daemon\<close>

text \<open>Calls with their answers.\<close>

lemma perform_answer: "perform c \<lparr>io_in = a # rest, io_log = log\<rparr> = (Ok a, \<lparr>io_in = rest, io_log = log @ [c]\<rparr>)"
  by (simp add: perform_def)

lemma perform_none: "perform c \<lparr>io_in = [], io_log = log\<rparr> = (Err EPending, \<lparr>io_in = [], io_log = log @ [c]\<rparr>)"
  by (simp add: perform_def)

lemma call_done: "call c \<lparr>io_in = ADone # rest, io_log = log\<rparr> = (Ok (), \<lparr>io_in = rest, io_log = log @ [c]\<rparr>)"
  by (simp add: call_def perform_answer)

lemma recv_message: "peer_recv c \<lparr>io_in = AMessage m # rest, io_log = log\<rparr> = (Ok m, \<lparr>io_in = rest, io_log = log @ [RecvOn c]\<rparr>)"
  by (simp add: peer_recv_def perform_answer)

lemmas io_run = perform_answer call_done recv_message peer_send_def peer_new_def on_io_def record_trace_def get_or_def ok_or_def

definition rx_ring_info :: "string \<Rightarrow> WireRingInfo" where
  "rx_ring_info dir = \<lparr>ri_path = path_join dir ''packet-rx.ring'', ri_capacity = 64, ri_slot_size = 2048\<rparr>"

definition rx_demo :: WireDemoConfig where
  "rx_demo = \<lparr>demo_path = rx_path, demo_payload = ''mvp0c-packet''\<rparr>"

definition rx_daemon :: "string \<Rightarrow> HostedRoot \<Rightarrow> (u64 \<times> CapId) list \<Rightarrow> ((string \<times> string) \<times> CapId \<times> Rights) list \<Rightarrow> RootState" where
  "rx_daemon dir root ids keys = \<lparr>rs_root = root, court_ids = [(''app'', CourtId 1), (''net0'', CourtId 2)],
     descriptors = [(rx_path, rx_desc)], caps_by_id = ids, caps_by_key = keys,
     court_roles = [(''app'', AppRole), (''net0'', NetRole)], rs_policy = packet_rx_policy,
     ring_info = [(rx_path, rx_ring_info dir)], rs_demo = rx_demo\<rparr>"

lemma rx_daemon_sel [simp]:
  "rs_root (rx_daemon dir root ids keys) = root" "court_ids (rx_daemon dir root ids keys) = [(''app'', CourtId 1), (''net0'', CourtId 2)]"
  "descriptors (rx_daemon dir root ids keys) = [(rx_path, rx_desc)]" "caps_by_id (rx_daemon dir root ids keys) = ids"
  "caps_by_key (rx_daemon dir root ids keys) = keys" "court_roles (rx_daemon dir root ids keys) = [(''app'', AppRole), (''net0'', NetRole)]"
  "rs_policy (rx_daemon dir root ids keys) = packet_rx_policy" "ring_info (rx_daemon dir root ids keys) = [(rx_path, rx_ring_info dir)]"
  "rs_demo (rx_daemon dir root ids keys) = rx_demo" "(rx_daemon dir root ids keys)\<lparr>rs_root := root'\<rparr> = rx_daemon dir root' ids keys"
  "(rx_daemon dir root ids keys)\<lparr>caps_by_id := ids', caps_by_key := keys'\<rparr> = rx_daemon dir root ids' keys'"
  by (simp_all add: rx_daemon_def)

definition rx_events0 :: "TraceEvent list" where
  "rx_events0 = rx_trace @ [EvNamespaceLookup (CourtId 1) rx_path True]"

lemma rx_build:
  "build_state \<lparr>cfg_run_dir = dir, cfg_manifest = packet_rx_manifest, cfg_policy = packet_rx_policy\<rparr> tp
     \<lparr>io_in = ADone # ADone # rest, io_log = log\<rparr> =
   (Ok (), (rx_daemon dir (rx_state rx_reg1 {} {} rx_courts rx_events0) [] [],
     \<lparr>io_in = rest, io_log = log @ [CreateRing (path_join dir ''packet-rx.ring'') 64 2048, OpenTrace tp]\<rparr>))"
proof -
  let ?st = "\<lambda>root. (empty_state packet_rx_policy)\<lparr>rs_root := root, court_ids := [(''app'', CourtId 1), (''net0'', CourtId 2)],
    court_roles := [(''app'', AppRole), (''net0'', NetRole)]\<rparr>"
  let ?io = "\<lparr>io_in = ADone # ADone # rest, io_log = log\<rparr>"
  have courts: "add_courts (mf_courts packet_rx_manifest) (empty_state packet_rx_policy, ?io) = (Ok (), (?st rx_s2, ?io))"
    by (simp add: packet_rx_manifest_def ck_def ck_error_def empty_state_def rx_s1_step rx_s2_step app_court_def net_court_def)
  have corridor: "create_corridor rx_path (CourtId 1) (CourtId 2) SharedRingTransport 64 rx_s2 =
      (Ok (ObjectId 1), rx_state rx_reg1 {} {} rx_courts rx_trace)"
    by (simp add: rx_s2_eq create_corridor_def rx_defs Let_def in_registry_def mint_root_def alloc_cap_def empty_registry_def rx_state_def
        rx_reg1_def root_capability_def rx_ns_def ns_bind_def corridor_new_def rx_queue_def push_trace_def rx_trace_def)
  show ?thesis
    by (simp add: build_state_def courts)
      (simp add: packet_rx_manifest_def add_corridor_def io_run create_ring_def ck_def ck_error_def transport_of_def
        corridor [unfolded rx_path_def] rx_state_lookup [unfolded rx_path_def] packet_rx_ring Let_def empty_state_def rx_daemon_def
        rx_ring_info_def rx_demo_def rx_path_def rx_events0_def)
qed

text \<open>Starting the courts from the directory of the daemon's own program, in either order.\<close>

definition spawn_answers :: "Answer list" where
  "spawn_answers = [AFailed, AText ''/ck/ck-root'', AFlag True, ADone]"

definition spawn_calls :: "string \<Rightarrow> string \<Rightarrow> Call list" where
  "spawn_calls sock name = (let (var, prog) = (if name = ''app'' then (''CK_APP_BIN'', ''/ck/ck-app'') else (''CK_NET_BIN'', ''/ck/ck-net'')) in
     [EnvVar var, CurrentExe, Exists prog, Spawn prog [''--root-sock'', sock, ''--court'', name] name])"

lemma rx_spawn:
  assumes "court_order ho [''app'', ''net0''] = [a, b]" and "{a, b} = {''app'', ''net0''}"
  shows "spawn_courts ho sock (rx_daemon dir root ids keys, \<lparr>io_in = spawn_answers @ spawn_answers @ rest, io_log = log\<rparr>) =
    (Ok [a, b], (rx_daemon dir root ids keys, \<lparr>io_in = rest, io_log = log @ spawn_calls sock a @ spawn_calls sock b\<rparr>))"
proof -
  have parent: "path_parent ''/ck/ck-root'' = Some ''/ck''" by (simp add: path_parent_def Let_def)
  have one: "spawn_all sock (name # more) (rx_daemon dir root ids keys, \<lparr>io_in = spawn_answers @ rest, io_log = log\<rparr>) =
      spawn_all sock more (rx_daemon dir root ids keys, \<lparr>io_in = rest, io_log = log @ spawn_calls sock name\<rparr>)"
    if "name = ''app'' \<or> name = ''net0''" for name more rest log
    using that by (auto simp: court_role_def as_process_role_def spawn_court_process_def court_command_def io_run spawn_answers_def
        spawn_calls_def parent path_join_def Let_def)
  have "a = ''app'' \<or> a = ''net0''" "b = ''app'' \<or> b = ''net0''" using assms(2) by blast+
  with one show ?thesis using assms(1) by (simp add: spawn_courts_def Let_def)
qed

definition hello_answers :: "nat \<Rightarrow> string \<Rightarrow> Answer list" where
  "hello_answers c name = [AConn c, ADone, AMessage (MHello name), ADone]"

definition hello_calls :: "nat \<Rightarrow> string \<Rightarrow> Call list" where
  "hello_calls c name = [AcceptConn, SetTimeouts c, RecvOn c, SendOn c (MHelloAck WOk name rx_demo)]"

lemma rx_accept:
  assumes "a \<noteq> b"
  shows "accept_peers 2 rx_demo [] \<lparr>io_in = hello_answers ca a @ hello_answers cb b @ rest, io_log = log\<rparr> =
    (Ok [(a, ca), (b, cb)], \<lparr>io_in = rest, io_log = log @ hello_calls ca a @ hello_calls cb b\<rparr>)"
  using assms by (simp add: accept_peers.simps accept_peer_def io_run hello_answers_def hello_calls_def)

text \<open>The phases, with the answers of the courts.\<close>

definition rx_send :: WireTrace where
  "rx_send = with_len 12 (with_path rx_path (trace_new ''send'' ''app'' WOk))"

definition rx_recv :: WireTrace where
  "rx_recv = with_detail ''mvp0c-packet'' (with_len 12 (with_path rx_path (trace_new ''recv'' ''net0'' WOk)))"

definition rx_after_revoke :: WireTrace where
  "rx_after_revoke = with_path rx_path (trace_new ''send_after_revoke'' ''app'' WRevoked)"

definition rx_fault :: WireTrace where
  "rx_fault = with_detail ''mvp0c simulated net court crash'' (with_path rx_path (trace_new ''fault'' ''net0'' WFault))"

definition rx_down :: WireTrace where
  "rx_down = with_path rx_path (trace_new ''peer_down'' ''app'' WPeerDown)"

definition rx_wire_net :: WireCap where
  "rx_wire_net = wire_cap (CapId 2) (bitor RECV OBSERVE)"

definition rx_wire_app :: WireCap where
  "rx_wire_app = wire_cap (CapId 3) (bitor SEND OBSERVE)"

definition phase_answers :: "Answer list" where
  "phase_answers =
    [AMessage (MLookup rx_path), ADone, ADone, AMessage (MOpen rx_path None (from_rights SEND)), ADone, ADone,
     ADone, ADone, AMessage (MOpen rx_path (Some rx_wire_net) (from_rights RECV)), ADone, ADone,
     ADone, ADone, AMessage (MOpen rx_path (Some rx_wire_app) (from_rights SEND)), ADone, ADone,
     AMessage (MTrace rx_send), ADone, AMessage (MTrace rx_recv), ADone,
     ADone, ADone, AMessage (MTrace rx_after_revoke), ADone,
     ADone, AMessage (MTrace rx_fault), ADone, ACode (Some 42), ADone,
     ADone, ADone, AMessage (MTrace rx_down), ADone, AMessage (MDemoDone ''app'' WOk), ADone, ACode (Some 0)]"

definition rx_line :: "string \<Rightarrow> string \<Rightarrow> WireStatus \<Rightarrow> WireTrace" where
  "rx_line event court status = with_path rx_path (trace_new event court status)"

definition phase_calls :: "string \<Rightarrow> nat \<Rightarrow> nat \<Rightarrow> Call list" where
  "phase_calls dir ca cn =
    [RecvOn ca, RecordLine (rx_line ''lookup'' ''app'' WOk), SendOn ca (MLookupResult WOk (Some (from_descriptor rx_desc))),
     RecvOn ca, RecordLine (rx_line ''open_denied'' ''app'' WNoRight), SendOn ca (MOpenResult WNoRight None None),
     RecordLine (with_detail ''net0:2'' (rx_line ''grant'' ''root'' WOk)), SendOn cn (MGrant rx_path rx_wire_net),
     RecvOn cn, RecordLine (rx_line ''open'' ''net0'' WOk), SendOn cn (MOpenResult WOk (Some rx_wire_net) (Some (rx_ring_info dir))),
     RecordLine (with_detail ''app:3'' (rx_line ''grant'' ''root'' WOk)), SendOn ca (MGrant rx_path rx_wire_app),
     RecvOn ca, RecordLine (rx_line ''open'' ''app'' WOk), SendOn ca (MOpenResult WOk (Some rx_wire_app) (Some (rx_ring_info dir))),
     RecvOn ca, RecordLine rx_send, RecvOn cn, RecordLine rx_recv,
     RecordLine (rx_line ''revoke'' ''root'' WOk), SendOn ca (MRevoke rx_wire_app), RecvOn ca, RecordLine rx_after_revoke,
     SendOn cn (MFault ''mvp0c simulated net court crash''), RecvOn cn, RecordLine rx_fault, WaitChild ''net0'',
     RecordLine (rx_line ''court_fault'' ''root'' WFault),
     SendOn ca (MPeerDown rx_path), RecordLine (rx_line ''peer_down'' ''root'' WPeerDown), RecvOn ca, RecordLine rx_down,
     RecvOn ca, RecordLine (trace_new ''demo_done'' ''app'' WOk), WaitChild ''app'']"

definition rx_events1 :: "TraceEvent list" where
  "rx_events1 = rx_events0 @ [EvNamespaceLookup (CourtId 1) rx_path True, EvOpenDenied (CourtId 1) rx_path NoRight]"

definition rx_events2 :: "TraceEvent list" where
  "rx_events2 = rx_events1 @ [EvCapGranted (CourtId 2) (CapId 2) (ObjectId 1) (bitor RECV OBSERVE), EvOpened (CourtId 2) rx_path (CapId 2) RECV,
     EvCapGranted (CourtId 1) (CapId 3) (ObjectId 1) (bitor SEND OBSERVE), EvOpened (CourtId 1) rx_path (CapId 3) SEND]"

definition rx_events3 :: "TraceEvent list" where
  "rx_events3 = rx_events2 @ [EvCapRevoked (CapId 3), EvCourtFaulted (CourtId 2)]"

definition rx_keys :: "((string \<times> string) \<times> CapId \<times> Rights) list" where
  "rx_keys = [((''net0'', rx_path), CapId 2, bitor RECV OBSERVE), ((''app'', rx_path), CapId 3, bitor SEND OBSERVE)]"

definition rx_final :: "string \<Rightarrow> RootState" where
  "rx_final dir = rx_daemon dir (rx_state (rx_reg3 True) {CapId 3} {CapId 2} rx_faulted rx_events3) [(2, CapId 2), (3, CapId 3)] rx_keys"

lemma rx_phase_app:
  "handle_app_lookup_and_denied_open ca ''app'' (rx_daemon dir (rx_state rx_reg1 {} {} rx_courts rx_events0) [] [],
     \<lparr>io_in = take 6 phase_answers @ rest, io_log = log\<rparr>) =
   (Ok (), (rx_daemon dir (rx_state rx_reg1 {} {} rx_courts rx_events1) [] [], \<lparr>io_in = rest, io_log = log @ take 6 (phase_calls dir ca cn)\<rparr>))"
  by (simp add: handle_app_lookup_and_denied_open_def handle_lookup_def handle_denied_open_def io_run phase_answers_def phase_calls_def rx_demo_def
      ck_def ck_error_def rx_state_lookup rx_state_denied open_status_def wire_send_recv rx_events1_def rx_line_def)

lemma digits_small: "digits 2 = ''2''" "digits 3 = ''3''"
  by (simp_all add: digits.simps char_of_def bit_0)

lemma rx_phase_grants:
  assumes "map_of peers ''app'' = Some ca" and "map_of peers ''net0'' = Some cn" and "resolve_grants (pf_grants packet_rx_policy) = Ok gs"
  shows "run_grants peers gs (rx_daemon dir (rx_state rx_reg1 {} {} rx_courts rx_events1) [] [],
     \<lparr>io_in = take 10 (drop 6 phase_answers) @ rest, io_log = log\<rparr>) =
   (Ok (), (rx_daemon dir (rx_state (rx_reg3 False) {CapId 3} {CapId 2} rx_courts rx_events2) [(2, CapId 2), (3, CapId 3)] rx_keys,
     \<lparr>io_in = rest, io_log = log @ take 10 (drop 6 (phase_calls dir ca cn))\<rparr>))"
proof -
  have gs: "gs = [\<lparr>rg_court = ''net0'', rg_path = rx_path, rg_rights = bitor RECV OBSERVE\<rparr>, \<lparr>rg_court = ''app'', rg_path = rx_path, rg_rights = bitor SEND OBSERVE\<rparr>]"
    using assms(3) by (simp add: packet_rx_policy_def packet_rx_rights rx_path_def)
  show ?thesis
    by (simp add: gs peer_of_def assms(1,2) handle_grant_and_open_def handle_open_def io_run phase_answers_def phase_calls_def Let_def
        ck_def ck_error_def rx_state_grants rx_state_opens open_status_def wire_send_recv rx_events2_def rx_line_def rx_keys_def
        digits_small rx_wire_net_def rx_wire_app_def wire_cap_def)
qed

lemma two_orders:
  assumes "distinct xs" and "set xs = {a, b}" and "a \<noteq> b"
  shows "xs = [a, b] \<or> xs = [b, a]"
proof -
  have "length xs = 2" using assms distinct_card [of xs] by simp
  then obtain x y where "xs = [x, y]" by (auto simp: length_Suc_conv numeral_2_eq_2)
  with assms show ?thesis by (auto simp: doubleton_eq_iff)
qed

lemma rx_phase_tail:
  assumes "map_of peers ''app'' = Some ca" and "map_of peers ''net0'' = Some cn" and "''net0'' \<in> set names"
    and "set (court_order ho names) = {''app'', ''net0''}" "distinct (court_order ho names)"
  shows "try_st (run_revokes peers (pf_revokes packet_rx_policy) (rx_daemon dir (rx_state (rx_reg3 False) {CapId 3} {CapId 2} rx_courts rx_events2)
      [(2, CapId 2), (3, CapId 3)] rx_keys, \<lparr>io_in = drop 20 phase_answers @ rest, io_log = log\<rparr>)) (\<lambda>_ d.
    try_st (run_faults peers names (pf_faults (rs_policy (fst d))) d) (\<lambda>peers d.
    try_st (run_peer_down peers (pf_peer_down (rs_policy (fst d))) d) (\<lambda>_ d.
    wait_children peers (court_order ho names) d))) =
   (Ok (), (rx_final dir, \<lparr>io_in = rest, io_log = log @ drop 20 (phase_calls dir ca cn)\<rparr>))"
proof -
  have "court_order ho names = [''app'', ''net0''] \<or> court_order ho names = [''net0'', ''app'']"
    using two_orders [OF assms(5,4)] by simp
  then show ?thesis
    by (auto simp: packet_rx_policy_def peer_of_def assms(1-3) io_run phase_answers_def phase_calls_def Let_def rx_keys_def rx_path_def
        ck_def ck_error_def rx_state_revoke rx_state_fault record_trace_from_def expect_child_exit_def expect_child_success_def wait_child_def
        rx_final_def rx_events3_def rx_line_def rx_wire_app_def delete_conv' rx_demo_def)
qed

text \<open>The choices the hash maps leave open: an order of the courts, an order of the capability keys.\<close>

definition any_order :: "HashOrder \<Rightarrow> bool" where
  "any_order ho \<longleftrightarrow> (\<forall>xs. distinct xs \<longrightarrow> distinct (court_order ho xs) \<and> set (court_order ho xs) = set xs) \<and>
     (\<forall>xs. distinct xs \<longrightarrow> distinct (key_order ho xs) \<and> set (key_order ho xs) = set xs)"

lemma find_unique:
  assumes "x \<in> set xs" and "P x" and "\<forall>y\<in>set xs. P y \<longrightarrow> y = x"
  shows "find P xs = Some x"
proof -
  from assms(1,2) obtain y where y: "find P xs = Some y" by (cases "find P xs") (auto simp: find_None_iff)
  then have "y \<in> set xs" "P y" by (auto simp: find_Some_iff)
  with assms(3) y show ?thesis by blast
qed

lemma rx_phases:
  assumes "map_of peers ''app'' = Some ca" and "map_of peers ''net0'' = Some cn" and "set names = {''app'', ''net0''}" "distinct names"
    and "any_order ho"
  shows "run_phases ho peers names (rx_daemon dir (rx_state rx_reg1 {} {} rx_courts rx_events0) [] [],
     \<lparr>io_in = phase_answers @ rest, io_log = log\<rparr>) = (Ok (), (rx_final dir, \<lparr>io_in = rest, io_log = log @ phase_calls dir ca cn\<rparr>))"
proof -
  have app: "find_app_court ho (rx_daemon dir root ids keys) = Ok ''app''" for root ids keys
  proof -
    have "set (court_order ho [''app'', ''net0'']) = {''app'', ''net0''}" using assms(5) by (simp add: any_order_def)
    then have "find (\<lambda>c. map_of [(''app'', AppRole), (''net0'', NetRole)] c = Some AppRole) (court_order ho [''app'', ''net0'']) = Some ''app''"
      by (intro find_unique) auto
    then show ?thesis by (simp add: find_app_court_def ok_or_def)
  qed
  have recv: "find_recv_grant_court ho (rx_daemon dir root ids rx_keys) = Ok ''net0''" for root ids
  proof -
    let ?ks = "key_order ho [(''net0'', rx_path), (''app'', rx_path)]"
    have "set ?ks = {(''net0'', rx_path), (''app'', rx_path)}" using assms(5) by (simp add: any_order_def)
    then have "find (\<lambda>key. case map_of rx_keys key of Some (_, rights) \<Rightarrow> contains rights RECV | None \<Rightarrow> False) ?ks = Some (''net0'', rx_path)"
      by (intro find_unique) (auto simp: rx_keys_def packet_rx_contains)
    then show ?thesis by (simp add: find_recv_grant_court_def ok_or_def rx_keys_def)
  qed
  obtain gs where gs: "resolve_grants (pf_grants packet_rx_policy) = Ok gs" by (simp add: packet_rx_policy_def packet_rx_rights)
  have ord: "set (court_order ho names) = {''app'', ''net0''}" "distinct (court_order ho names)" using assms(3-5) by (simp_all add: any_order_def)
  define A1 A2 A4 where "A1 = take 6 phase_answers" and "A2 = take 10 (drop 6 phase_answers)" and "A4 = drop 20 phase_answers"
  define C1 C2 C4 where "C1 = take 6 (phase_calls dir ca cn)" and "C2 = take 10 (drop 6 (phase_calls dir ca cn))" and "C4 = drop 20 (phase_calls dir ca cn)"
  have answers: "phase_answers = A1 @ A2 @ [AMessage (MTrace rx_send), ADone, AMessage (MTrace rx_recv), ADone] @ A4"
    by (simp add: phase_answers_def A1_def A2_def A4_def)
  have calls: "phase_calls dir ca cn = C1 @ C2 @ [RecvOn ca, RecordLine rx_send, RecvOn cn, RecordLine rx_recv] @ C4"
    by (simp add: phase_calls_def C1_def C2_def C4_def)
  note stages = rx_phase_app [of ca dir _ _ cn, folded A1_def C1_def] rx_phase_grants [OF assms(1,2) gs, of dir, folded A2_def C2_def]
    rx_phase_tail [OF assms(1,2) _ ord, of dir rest, folded A4_def C4_def]
  show ?thesis
    unfolding answers calls run_phases_def
    using assms(3) by (simp add: app peer_of_def get_or_def ok_or_def assms(1,2) stages state_policy_grants_def gs recv record_trace_from_def record_trace_def
        on_io_def recv_message call_done)
qed

text \<open>The whole run: its answers, its calls, its final state.\<close>

definition root_answers :: "string \<Rightarrow> nat \<Rightarrow> string \<Rightarrow> nat \<Rightarrow> Answer list" where
  "root_answers x cx y cy = [ADone, ADone, ADone, ADone, ADone, ADone] @ spawn_answers @ spawn_answers @ hello_answers cx x @ hello_answers cy y @ phase_answers"

definition root_calls :: "string \<Rightarrow> string \<Rightarrow> string \<Rightarrow> string \<Rightarrow> nat \<Rightarrow> string \<Rightarrow> nat \<Rightarrow> nat \<Rightarrow> nat \<Rightarrow> Call list" where
  "root_calls dir a b x cx y cy ca cn = (let sock = path_join dir ''root.sock'' in
     [CreateDir dir, RemoveFile sock, BindSocket sock, CreateRing (path_join dir ''packet-rx.ring'') 64 2048,
      OpenTrace (path_join dir ''trace.ndjson''), RecordLine (rx_line ''lookup'' ''root'' WOk)] @
     spawn_calls sock a @ spawn_calls sock b @ hello_calls cx x @ hello_calls cy y @ phase_calls dir ca cn)"

lemma rx_run:
  assumes "any_order ho" and "court_order ho [''app'', ''net0''] = [a, b]" and "{(x, cx), (y, cy)} = {(''app'', ca), (''net0'', cn)}"
  shows "run_packet_rx_demo ho dir \<lparr>io_in = root_answers x cx y cy @ rest, io_log = []\<rparr> =
    (Ok (), (rx_final dir, \<lparr>io_in = rest, io_log = root_calls dir a b x cx y cy ca cn\<rparr>))"
proof -
  have "set (court_order ho [''app'', ''net0'']) = {''app'', ''net0''}" "distinct (court_order ho [''app'', ''net0''])"
    using assms(1) by (simp_all add: any_order_def)
  then have ab: "{a, b} = {''app'', ''net0''}" "distinct [a, b]" unfolding assms(2) by simp_all
  have xy: "x \<noteq> y" "map_of [(x, cx), (y, cy)] ''app'' = Some ca" "map_of [(x, cx), (y, cy)] ''net0'' = Some cn"
    using assms(3) by (auto simp: doubleton_eq_iff)
  have ring: "rx_line ''lookup'' ''root'' WOk = with_path (demo_path rx_demo) (trace_new ''lookup'' ''root'' WOk)" by (simp add: rx_line_def rx_demo_def)
  have phases: "run_phases ho [(x, cx), (y, cy)] [a, b] (rx_daemon dir (rx_state rx_reg1 {} {} rx_courts rx_events0) [] [],
      \<lparr>io_in = phase_answers @ rest, io_log = log\<rparr>) = (Ok (), (rx_final dir, \<lparr>io_in = rest, io_log = log @ phase_calls dir ca cn\<rparr>))" for log
    by (rule rx_phases [OF xy(2,3) _ ab(2) assms(1)]) (use ab(1) in simp)
  show ?thesis
    unfolding run_packet_rx_demo_def run_manifest_demo_def root_answers_def root_calls_def
    by (simp add: packet_rx_valid Let_def on_io_def call_done perform_answer rx_build record_trace_def ring
        rx_spawn [OF assms(2) ab(1)] rx_accept [OF xy(1), unfolded numeral_2_eq_2] phases)
qed

end
