(* ===== verification/Daemon_Properties.thy ===== *)
theory Daemon_Properties
  imports Packet_Rx
begin

text \<open>
  The properties of the Root daemon of the hosted prototype, with the compiled-in scenario as their instance.
\<close>

definition sample_order :: HashOrder where
  "sample_order = \<lparr>court_order = (\<lambda>xs. xs), key_order = (\<lambda>xs. xs)\<rparr>"

definition sample_config :: RootConfig where
  "sample_config = \<lparr>cfg_run_dir = ''/run/ck'', cfg_manifest = packet_rx_manifest, cfg_policy = packet_rx_policy\<rparr>"

lemma sample_order_any: "any_order sample_order" "court_order sample_order [''app'', ''net0''] = [''app'', ''net0'']"
  by (simp_all add: sample_order_def any_order_def)

lemma sample_daemon_run:
  "run_manifest_demo sample_order sample_config \<lparr>io_in = root_answers ''app'' 0 ''net0'' 1, io_log = []\<rparr> =
     (Ok (), (rx_final ''/run/ck'', \<lparr>io_in = [], io_log = root_calls ''/run/ck'' ''app'' ''net0'' ''app'' 0 ''net0'' 1 0 1\<rparr>))"
  using rx_run [OF sample_order_any, of "''app''" 0 "''net0''" 1 0 1 "''/run/ck''" "[]"]
  by (simp add: run_packet_rx_demo_def sample_config_def)

text \<open>Two corridors whose paths end alike.\<close>

definition twin_manifest :: ManifestFile where
  "twin_manifest = packet_rx_manifest\<lparr>mf_corridors := [hd (mf_corridors packet_rx_manifest),
     (hd (mf_corridors packet_rx_manifest))\<lparr>co_path := ''/court/net1/packet/rx''\<rparr>]\<rparr>"

lemma twin_ring: "ring_file_name ''/court/net1/packet/rx'' = ''packet-rx.ring''"
  by (simp add: ring_file_name_def Let_def)

text \<open>
  C11. A ring is disclosed only by policy. Whatever the host answers and whatever the connected processes send,
  honest or not: if the daemon sends ring information on a connection, then the policy grants the ring's
  path to a court, the connection is the one acknowledged as that court, the ring is the file of that
  path, and the in-process Root has authorized and recorded the open for that court.
\<close>

theorem rings_follow_policy:
  assumes "run_manifest_demo ho config \<lparr>io_in = answers, io_log = []\<rparr> = (res, (st, io))"
    and "SendOn c (MOpenResult status cap (Some ring)) \<in> set (io_log io)"
  shows "\<exists>g\<in>set (pf_grants (cfg_policy config)). \<exists>cid k rights.
    SendOn c (MHelloAck WOk (gp_court g) (rs_demo st)) \<in> set (io_log io) \<and>
    ri_path ring = path_join (cfg_run_dir config) (ring_file_name (gp_path g)) \<and>
    map_of (court_ids st) (gp_court g) = Some cid \<and> EvOpened cid (gp_path g) k rights \<in> set (trace (rs_root st))"
proof -
  have "daemon_ok config (res, (st, io))" using run_manifest_demo_ok [of config ho answers] assms(1) by simp
  with assms(2) show ?thesis unfolding daemon_ok_def prod.case by (auto dest!: bspec)
qed

theorem rings_follow_policy_witness:
  "\<exists>g\<in>set (pf_grants packet_rx_policy). \<exists>cid k rights. gp_path g = rx_path \<and> EvOpened cid (gp_path g) k rights \<in> set rx_events3"
proof -
  have "SendOn 1 (MOpenResult WOk (Some rx_wire_net) (Some (rx_ring_info ''/run/ck''))) \<in>
      set (io_log \<lparr>io_in = [], io_log = root_calls ''/run/ck'' ''app'' ''net0'' ''app'' 0 ''net0'' 1 0 1\<rparr>)"
    by (simp add: root_calls_def phase_calls_def Let_def)
  from rings_follow_policy [OF sample_daemon_run this] show ?thesis
    by (auto simp: sample_config_def rx_final_def rx_state_def packet_rx_policy_def rx_path_def)
qed



text \<open>
  C12. A successful run has carried out the policy: every grant was opened by its court, the capability of every
  revocation is revoked, and every faulted court is faulted, in the Root the daemon ends with. So no
  later phase undoes an earlier one.
\<close>

theorem policy_carried_out:
  assumes "run_manifest_demo ho config \<lparr>io_in = answers, io_log = []\<rparr> = (Ok (), (st, io))"
  shows "(\<forall>g\<in>set (pf_grants (cfg_policy config)). \<exists>cid cap rights.
      map_of (court_ids st) (gp_court g) = Some cid \<and> EvOpened cid (gp_path g) cap rights \<in> set (trace (rs_root st))) \<and>
    (\<forall>r\<in>set (pf_revokes (cfg_policy config)). \<exists>cap rights k. map_of (caps_by_key st) (rp_court r, rp_path r) = Some (cap, rights) \<and>
      caps (cap_registry (rs_root st)) cap = Some k \<and> cap_revoked k) \<and>
    (\<forall>f\<in>set (pf_faults (cfg_policy config)). \<exists>cid k. map_of (court_ids st) (fp_court f) = Some cid \<and>
      courts (rs_root st) cid = Some k \<and> court_name k = fp_court f \<and> court_state k = Faulted)"
  using run_manifest_demo_done [OF assms] by (simp add: policy_done_def opened_def cap_dead_def court_dead_def)

theorem policy_carried_out_witness:
  "\<exists>k. caps (cap_registry (rs_root (rx_final ''/run/ck''))) (CapId 3) = Some k \<and> cap_revoked k"
  using policy_carried_out [OF sample_daemon_run] by (simp add: sample_config_def packet_rx_policy_def rx_final_def rx_keys_def rx_path_def)

text \<open>
  The file of a ring does not identify its corridor: only the last two parts of a path go into the name of
  its file. A manifest with the corridors \<^verbatim>\<open>/court/net0/packet/rx\<close> and \<^verbatim>\<open>/court/net1/packet/rx\<close> is valid, and
  the daemon creates both rings in the same file, so the two corridors share one memory.
\<close>

theorem ring_files_collide:
  "validate twin_manifest packet_rx_policy = Ok () \<and>
   (\<exists>c1 c2. mf_corridors twin_manifest = [c1, c2] \<and> co_path c1 \<noteq> co_path c2 \<and> ring_file_name (co_path c1) = ring_file_name (co_path c2))"
  by (simp add: twin_manifest_def packet_rx_ring twin_ring validate_def packet_rx_manifest_def packet_rx_policy_def require_schema_def
      SCHEMA_VERSION_def packet_rx_rights packet_rx_contains require_court_def require_path_def require_phase_before_def phase_index_def PHASE_ORDER_def)

end
