(* ===== verification/Utf8.thy ===== *)
theory Utf8
  imports CK_Prelude
begin

text \<open>
  What the programs use of Rust's strings: a string is the list of its UTF-8 bytes, \<^verbatim>\<open>from_utf8_lossy\<close> replaces what is
  not UTF-8, and \<^verbatim>\<open>from_utf8\<close> refuses it.
\<close>

definition as_bytes :: "string \<Rightarrow> bytes" where
  "as_bytes s = map of_char s"

text \<open>
  The bytes the next character takes, and whether they are one: a lead byte, a second byte in the range the
  lead byte allows, continuation bytes.
\<close>

definition continuation :: "u8 \<Rightarrow> bool" where
  "continuation b \<longleftrightarrow> 0x80 \<le> b \<and> b \<le> 0xBF"

definition second_ok :: "u8 \<Rightarrow> u8 \<Rightarrow> bool" where
  "second_ok a b \<longleftrightarrow> continuation b \<and> (a = 0xE0 \<longrightarrow> 0xA0 \<le> b) \<and> (a = 0xED \<longrightarrow> b \<le> 0x9F) \<and>
     (a = 0xF0 \<longrightarrow> 0x90 \<le> b) \<and> (a = 0xF4 \<longrightarrow> b \<le> 0x8F)"

definition utf8_char :: "bytes \<Rightarrow> nat \<times> bool" where
  "utf8_char bs = (case bs of
      [] \<Rightarrow> (0, False)
    | a # rest \<Rightarrow>
        let width = (if a < 0x80 then 1 else if 0xC2 \<le> a \<and> a \<le> 0xDF then 2
            else if 0xE0 \<le> a \<and> a \<le> 0xEF then 3 else if 0xF0 \<le> a \<and> a \<le> 0xF4 then 4 else 0 :: nat);
          good = (case rest of [] \<Rightarrow> 0 | b # rest \<Rightarrow> if second_ok a b then Suc (length (takeWhile continuation rest)) else 0)
        in if width = 0 then (1, False) else if width \<le> Suc good then (width, True) else (Suc good, False))"

lemma utf8_char_pos: "bs \<noteq> [] \<Longrightarrow> 0 < fst (utf8_char bs)"
  by (cases bs) (auto simp: utf8_char_def Let_def)

function from_utf8_lossy :: "bytes \<Rightarrow> string" where
  "from_utf8_lossy bs = (if bs = [] then [] else (case utf8_char bs of (n, valid) \<Rightarrow>
     (if valid then map (\<lambda>b. char_of (unat b)) (take n bs) else [char_of (0xEF :: nat), char_of (0xBF :: nat), char_of (0xBD :: nat)]) @
     from_utf8_lossy (drop n bs)))"
  by pat_completeness auto
termination from_utf8_lossy
  by (relation "measure length") (auto simp: prod_eq_iff intro!: diff_less utf8_char_pos)

declare from_utf8_lossy.simps [simp del]

function from_utf8 :: "bytes \<Rightarrow> string option" where
  "from_utf8 bs = (if bs = [] then Some [] else (case utf8_char bs of (n, valid) \<Rightarrow>
     if valid then map_option (\<lambda>rest. map (\<lambda>b. char_of (unat b)) (take n bs) @ rest) (from_utf8 (drop n bs)) else None))"
  by pat_completeness auto
termination from_utf8
  by (relation "measure length") (auto simp: prod_eq_iff intro!: diff_less utf8_char_pos)

declare from_utf8.simps [simp del]

end
