(* ===== verification/Court_Processes.thy ===== *)
theory Court_Processes
  imports Host_Calls Utf8
begin

text \<open>
  The court processes of the hosted prototype, \<^verbatim>\<open>app.rs\<close> and \<^verbatim>\<open>net.rs\<close> of \<^verbatim>\<open>crates/court-hosted-linux/src\<close>, and the
  command lines of the three programs under \<^verbatim>\<open>bin\<close>.
\<close>

section \<open>The app court\<close>

record CourtConfig =
  cc_root_sock :: string
  cc_court :: string

definition expect_hello_ack :: "nat \<Rightarrow> string \<Rightarrow> Io \<Rightarrow> WireDemoConfig LinuxResult \<times> Io" where
  "expect_hello_ack peer court io = try_st (peer_recv peer io) (\<lambda>m io.
     let unexpected = (Err (EMessage ''unexpected hello ack: '' m), io) in
     case m of
       MHelloAck status ack demo \<Rightarrow> if status = WOk \<and> ack = court then (Ok demo, io) else unexpected
     | _ \<Rightarrow> unexpected)"

definition open_ring :: "string \<Rightarrow> Io \<Rightarrow> unit LinuxResult \<times> Io" where
  "open_ring path io = try_st (perform (OpenRing path) io) (\<lambda>a io.
     (case a of ADone \<Rightarrow> Ok () | ARing e \<Rightarrow> Err (ERing e) | _ \<Rightarrow> Err (ECall (OpenRing path)), io))"

definition send_ring :: "string \<Rightarrow> EndpointState \<Rightarrow> bytes \<Rightarrow> Io \<Rightarrow> WireStatus LinuxResult \<times> Io" where
  "send_ring ring endpoint payload io = try_st (perform (SendRing ring endpoint payload) io) (\<lambda>a io. (case a of
      ASent (Ok _) \<Rightarrow> Ok WOk
    | ASent (Err status) \<Rightarrow> Ok status
    | ASent Panic \<Rightarrow> Panic
    | _ \<Rightarrow> Err (ECall (SendRing ring endpoint payload)), io))"

text \<open>Waiting for a grant on the demo's path, opening with it and mapping the ring.\<close>

definition expect_grant :: "nat \<Rightarrow> string \<Rightarrow> string \<Rightarrow> Io \<Rightarrow> WireCap LinuxResult \<times> Io" where
  "expect_grant peer what path io = try_st (peer_recv peer io) (\<lambda>m io.
     let unexpected = (Err (EMessage (''expected '' @ what @ '' grant, got '') m), io) in
     case m of
       MGrant p cap \<Rightarrow> if p = path then (Ok cap, io) else unexpected
     | _ \<Rightarrow> unexpected)"

definition open_granted :: "nat \<Rightarrow> string \<Rightarrow> WireCap \<Rightarrow> Rights \<Rightarrow> Io \<Rightarrow> WireRingInfo LinuxResult \<times> Io" where
  "open_granted peer path cap rights io =
     try_st (peer_send peer (MOpen path (Some cap) (from_rights rights)) io) (\<lambda>_ io.
     try_st (peer_recv peer io) (\<lambda>m io.
     let unexpected = (Err (EMessage ''expected successful open, got '' m), io) in
     case m of
       MOpenResult status _ ring \<Rightarrow> (case ring of
           Some ring \<Rightarrow> if status = WOk then (Ok ring, io) else unexpected
         | None \<Rightarrow> unexpected)
     | _ \<Rightarrow> unexpected))"

text \<open>One turn of the loop at the end of \<^verbatim>\<open>run\<close>: the endpoint to go on with, or none to return.\<close>

definition app_turn ::
  "nat \<Rightarrow> string \<Rightarrow> string \<Rightarrow> WireCap \<Rightarrow> string \<Rightarrow> EndpointState \<Rightarrow> Io \<Rightarrow> EndpointState option LinuxResult \<times> Io" where
  "app_turn peer court path cap ring endpoint io = try_st (peer_recv peer io) (\<lambda>m io.
     let unexpected = (Err (EMessage ''unexpected app message: '' m), io) in
     case m of
       MRevoke revoked \<Rightarrow>
         if wc_id revoked = wc_id cap
         then let endpoint = ep_mark_revoked endpoint in
           try_st (send_ring ring endpoint (as_bytes ''after-revoke'') io) (\<lambda>status io.
           try_st (peer_send peer (MTrace (with_path path (trace_new ''send_after_revoke'' court status))) io) (\<lambda>_ io.
           (Ok (Some endpoint), io)))
         else unexpected
     | MPeerDown p \<Rightarrow>
         if p = path
         then let endpoint = ep_mark_peer_down endpoint in
           try_st (peer_send peer (MTrace (with_path path (trace_new ''peer_down'' court (ep_status endpoint)))) io) (\<lambda>_ io.
           try_st (peer_send peer (MDemoDone court WOk) io) (\<lambda>_ io. (Ok None, io)))
         else unexpected
     | _ \<Rightarrow> unexpected)"

function app_loop :: "nat \<Rightarrow> string \<Rightarrow> string \<Rightarrow> WireCap \<Rightarrow> string \<Rightarrow> EndpointState \<Rightarrow> Io \<Rightarrow> unit LinuxResult \<times> Io" where
  "app_loop peer court path cap ring endpoint io = (case app_turn peer court path cap ring endpoint io of
      (Ok (Some endpoint'), io') \<Rightarrow> app_loop peer court path cap ring endpoint' io'
    | (Ok None, io') \<Rightarrow> (Ok (), io')
    | (Err e, io') \<Rightarrow> (Err e, io')
    | (Panic, io') \<Rightarrow> (Panic, io'))"
  by pat_completeness auto

lemma app_turn_consumes: "app_turn peer court path cap ring endpoint io = (Ok x, io') \<Longrightarrow> length (io_in io') < length (io_in io)"
  by (auto simp: app_turn_def perform_def peer_recv_def peer_send_def send_ring_def call_def Let_def
      split: list.splits Answer.splits WireMessage.splits result.splits if_splits try_splits)

termination app_loop
  by (relation "measure (\<lambda>(peer, court, path, cap, ring, endpoint, io). length (io_in io))")
    (auto dest!: app_turn_consumes [OF sym])

declare app_loop.simps [simp del]

definition app_run :: "CourtConfig \<Rightarrow> Io \<Rightarrow> unit LinuxResult \<times> Io" where
  "app_run config io =
     try_st (connect_with_retry (cc_root_sock config) io) (\<lambda>peer io.
     try_st (peer_send peer (MHello (cc_court config)) io) (\<lambda>_ io.
     try_st (expect_hello_ack peer (cc_court config) io) (\<lambda>demo io.
     try_st (peer_send peer (MLookup (demo_path demo)) io) (\<lambda>_ io.
     try_st (peer_recv peer io) (\<lambda>m io.
     let unexpected = (Err (EMessage ''unexpected lookup response: '' m), io) in
     case m of
       MLookupResult status descriptor \<Rightarrow> (case descriptor of
           None \<Rightarrow> unexpected
         | Some descriptor \<Rightarrow>
           if status \<noteq> WOk then unexpected
           else
             try_st (peer_send peer (MOpen (wd_path descriptor) None (from_rights SEND)) io) (\<lambda>_ io.
             try_st (peer_recv peer io) (\<lambda>m io.
             let unexpected = (Err (EMessage ''expected NO_RIGHT open response, got '' m), io) in
             case m of
               MOpenResult status _ _ \<Rightarrow>
                 if status \<noteq> WNoRight then unexpected
                 else
                   try_st (expect_grant peer ''SEND'' (demo_path demo) io) (\<lambda>cap io.
                   try_st (open_granted peer (wd_path descriptor) cap SEND io) (\<lambda>ring_info io.
                   let ring = ri_path ring_info; endpoint = endpoint_new cap; payload = as_bytes (demo_payload demo) in
                   try_st (open_ring ring io) (\<lambda>_ io.
                   try_st (send_ring ring endpoint payload io) (\<lambda>status io.
                   if status \<noteq> WOk then (Err (EStatus ''send failed: '' status), io)
                   else
                     try_st (peer_send peer (MTrace (with_len (length payload) (with_path (demo_path demo)
                       (trace_new ''send'' (cc_court config) WOk)))) io) (\<lambda>_ io.
                     app_loop peer (cc_court config) (demo_path demo) cap ring endpoint io)))))
             | _ \<Rightarrow> unexpected)))
     | _ \<Rightarrow> unexpected)))))"

section \<open>The net court\<close>

text \<open>
  The loop that polls the ring until its deadline. Each turn asks the clock first, so the loop ends when the
  answers do.
\<close>

definition poll_turn :: "string \<Rightarrow> EndpointState \<Rightarrow> Io \<Rightarrow> bytes option LinuxResult \<times> Io" where
  "poll_turn ring endpoint io = try_st (perform PastDeadline io) (\<lambda>a io.
     if a = AFlag True then (Err (EText ''timed out waiting for packet''), io)
     else try_st (perform (RecvRing ring endpoint) io) (\<lambda>a io. case a of
        ARecvd (Ok (Some packet)) \<Rightarrow> (Ok (Some packet), io)
      | ARecvd (Ok None) \<Rightarrow> try_st (perform (SleepMs 10) io) (\<lambda>_ io. (Ok None, io))
      | ARecvd (Err status) \<Rightarrow> (Err (EStatus ''recv failed: '' status), io)
      | ARecvd Panic \<Rightarrow> (Panic, io)
      | _ \<Rightarrow> (Err (ECall (RecvRing ring endpoint)), io)))"

function poll_ring :: "string \<Rightarrow> EndpointState \<Rightarrow> Io \<Rightarrow> bytes LinuxResult \<times> Io" where
  "poll_ring ring endpoint io = (case poll_turn ring endpoint io of
      (Ok None, io') \<Rightarrow> poll_ring ring endpoint io'
    | (Ok (Some packet), io') \<Rightarrow> (Ok packet, io')
    | (Err e, io') \<Rightarrow> (Err e, io')
    | (Panic, io') \<Rightarrow> (Panic, io'))"
  by pat_completeness auto

lemma poll_turn_consumes: "poll_turn ring endpoint io = (Ok x, io') \<Longrightarrow> length (io_in io') < length (io_in io)"
  by (auto simp: poll_turn_def perform_def split: list.splits Answer.splits result.splits option.splits if_splits try_splits)

termination poll_ring
  by (relation "measure (\<lambda>(ring, endpoint, io). length (io_in io))") (auto dest!: poll_turn_consumes [OF sym])

declare poll_ring.simps [simp del]

text \<open>\<^verbatim>\<open>std::process::exit(42)\<close> ends the process: the result is the exit code.\<close>

definition net_run :: "CourtConfig \<Rightarrow> Io \<Rightarrow> int LinuxResult \<times> Io" where
  "net_run config io =
     try_st (connect_with_retry (cc_root_sock config) io) (\<lambda>peer io.
     try_st (peer_send peer (MHello (cc_court config)) io) (\<lambda>_ io.
     try_st (expect_hello_ack peer (cc_court config) io) (\<lambda>demo io.
     try_st (expect_grant peer ''RECV'' (demo_path demo) io) (\<lambda>cap io.
     try_st (open_granted peer (demo_path demo) cap RECV io) (\<lambda>ring_info io.
     let ring = ri_path ring_info; endpoint = endpoint_new cap in
     try_st (open_ring ring io) (\<lambda>_ io.
     try_st (poll_ring ring endpoint io) (\<lambda>packet io.
     try_st (peer_send peer (MTrace (with_detail (from_utf8_lossy packet) (with_len (length packet) (with_path (demo_path demo)
       (trace_new ''recv'' (cc_court config) WOk))))) io) (\<lambda>_ io.
     try_st (peer_recv peer io) (\<lambda>m io. case m of
         MFault reason \<Rightarrow> try_st (peer_send peer (MTrace (with_detail reason (with_path (demo_path demo)
           (trace_new ''fault'' (cc_court config) WFault)))) io) (\<lambda>_ io. (Ok 42, io))
       | other \<Rightarrow> (Err (EMessage ''unexpected net message: '' other), io))))))))))"

section \<open>Command lines\<close>

fun value_of :: "string list \<Rightarrow> string \<Rightarrow> string option" where
  "value_of (a # b # rest) flag = (if a = flag then Some b else value_of (b # rest) flag)"
| "value_of _ flag = None"

definition required_value :: "string list \<Rightarrow> string \<Rightarrow> string LinuxResult" where
  "required_value args flag = ok_or (value_of args flag) (EName ''missing '' flag)"

definition court_config :: "string list \<Rightarrow> CourtConfig LinuxResult" where
  "court_config args = and_then (required_value args ''--root-sock'') (\<lambda>sock.
     and_then (required_value args ''--court'') (\<lambda>court. Ok \<lparr>cc_root_sock = sock, cc_court = court\<rparr>))"

text \<open>What \<^verbatim>\<open>ck-root\<close> does with its arguments.\<close>

datatype RootCommand =
    PrintUsage
  | RunApp CourtConfig
  | RunNet CourtConfig
  | RunManifest string string string
  | RunBuiltin string

definition ck_root :: "string list \<Rightarrow> RootCommand LinuxResult" where
  "ck_root args =
     (if ''--help'' \<in> set args \<or> ''-h'' \<in> set args then Ok PrintUsage
      else case value_of args ''--court-role'' of
        Some role \<Rightarrow> and_then (court_config args) (\<lambda>config.
          if role = ''app'' then Ok (RunApp config)
          else if role = ''net'' then Ok (RunNet config)
          else Err (EName ''unknown --court-role '' role))
      | None \<Rightarrow> (case (value_of args ''--manifest'', value_of args ''--policy'', value_of args ''--demo'') of
            (Some manifest, Some policy, None) \<Rightarrow>
              and_then (required_value args ''--run-dir'') (\<lambda>run_dir. Ok (RunManifest run_dir manifest policy))
          | (None, None, Some demo) \<Rightarrow>
              if demo \<noteq> ''packet-rx'' then Err (EName ''unsupported demo '' demo)
              else and_then (required_value args ''--run-dir'') (\<lambda>run_dir. Ok (RunBuiltin run_dir))
          | (Some _, None, _) \<Rightarrow> Err (EText ''--manifest and --policy must be supplied together'')
          | (None, Some _, _) \<Rightarrow> Err (EText ''--manifest and --policy must be supplied together'')
          | (Some _, Some _, Some _) \<Rightarrow> Err (EText ''use either --demo or --manifest/--policy, not both'')
          | (None, None, None) \<Rightarrow> Err (EText ''missing --demo or --manifest/--policy'')))"

text \<open>The exit code of a program: \<^verbatim>\<open>main\<close> prints an error and exits with 1; a panic exits with 101.\<close>

definition exit_code :: "int LinuxResult \<Rightarrow> int" where
  "exit_code res = (case res of Ok code \<Rightarrow> code | Err _ \<Rightarrow> 1 | Panic \<Rightarrow> 101)"

end
