(* ===== verification/Court_Safety.thy ===== *)
theory Court_Safety
  imports Court_Processes
begin

text \<open>
  What the app court does to its ring, for every behaviour of the daemon and of the host: it sends once with the
  endpoint it was granted, and after that only with endpoints it has marked, which the ring refuses.
\<close>

section \<open>The sends in a log\<close>

definition ring_sends :: "Io \<Rightarrow> Call list" where
  "ring_sends io = filter (\<lambda>c. case c of SendRing ring ep payload \<Rightarrow> True | _ \<Rightarrow> False) (io_log io)"

definition marked_send :: "Call \<Rightarrow> bool" where
  "marked_send c = (case c of SendRing ring ep payload \<Rightarrow> ep_revoked ep | _ \<Rightarrow> False)"

lemma ring_send_revoked: "ep_revoked ep \<Longrightarrow> ring_send ep payload m = Some (Err (ep_status ep), m)"
  by (simp add: ring_send_def ep_status_def)

lemma perform_sends: "ring_sends (snd (perform c io)) = ring_sends io @ (if \<exists>ring ep payload. c = SendRing ring ep payload then [c] else [])"
  by (cases c) (auto simp: perform_def ring_sends_def split: list.splits)

text \<open>A step that sends nothing, and a rule to go through one.\<close>

definition keeps :: "Io \<Rightarrow> 'a LinuxResult \<times> Io \<Rightarrow> bool" where
  "keeps io rs \<longleftrightarrow> ring_sends (snd rs) = ring_sends io"

lemma keeps_try: "keeps io rs \<Longrightarrow> (\<And>x io'. ring_sends io' = ring_sends io \<Longrightarrow> keeps io' (k x io')) \<Longrightarrow> keeps io (try_st rs k)"
  by (cases rs; cases "fst rs") (auto simp: keeps_def)

lemma keeps_end [simp]: "keeps io (res, io') = (ring_sends io' = ring_sends io)"
  by (simp add: keeps_def)

lemma keeps_perform: "\<forall>ring ep payload. c \<noteq> SendRing ring ep payload \<Longrightarrow> keeps io (perform c io)"
  by (simp add: keeps_def perform_sends)

lemma keeps_call: "\<forall>ring ep payload. c \<noteq> SendRing ring ep payload \<Longrightarrow> keeps io (call c io)"
  unfolding call_def by (rule keeps_try) (simp_all add: keeps_perform)

lemma keeps_peer: "keeps io (peer_send p m io)" "keeps io (peer_recv p io)" "keeps io (peer_new p io)"
  unfolding peer_send_def peer_recv_def peer_new_def
  by (rule keeps_call keeps_try; simp add: keeps_call keeps_perform)+

lemma keeps_connect: "keeps io (connect_with_retry sock io)"
proof -
  have "keeps io (connect_from n sock io)" for n
  proof (induction n arbitrary: io)
    case (Suc n)
    have "keeps io' (try_st (perform (SleepMs 20) io') (\<lambda>_ io. connect_from n sock io))" for io'
      by (rule keeps_try) (simp_all add: keeps_perform Suc)
    then show ?case by (auto intro!: keeps_try simp: keeps_perform keeps_peer split: Answer.splits)
  qed simp
  then show ?thesis by (simp add: connect_with_retry_def)
qed

lemma keeps_steps:
  "keeps io (expect_hello_ack p court io)" "keeps io (expect_grant p what path io)" "keeps io (open_ring path io)"
  unfolding expect_hello_ack_def expect_grant_def open_ring_def
  by (rule keeps_try; simp add: keeps_peer keeps_perform Let_def split: WireMessage.splits)+

lemma keeps_open_granted: "keeps io (open_granted p path cap rights io)"
  unfolding open_granted_def Let_def
  by (intro keeps_try) (auto simp: keeps_peer split: WireMessage.splits option.splits)

lemma send_ring_sends: "ring_sends (snd (send_ring ring ep payload io)) = ring_sends io @ [SendRing ring ep payload]"
  using perform_sends [of "SendRing ring ep payload" io]
  by (cases "perform (SendRing ring ep payload) io"; cases "fst (perform (SendRing ring ep payload) io)") (simp_all add: send_ring_def)

section \<open>The loop only sends what is refused\<close>

definition adds_marked :: "Io \<Rightarrow> 'a LinuxResult \<times> Io \<Rightarrow> bool" where
  "adds_marked io rs \<longleftrightarrow> (\<exists>new. ring_sends (snd rs) = ring_sends io @ new \<and> list_all marked_send new)"

lemma keeps_adds: "keeps io rs \<Longrightarrow> adds_marked io rs"
  by (simp add: keeps_def adds_marked_def)

lemma adds_try: "adds_marked io rs \<Longrightarrow> (\<And>x io'. adds_marked io' (k x io')) \<Longrightarrow> adds_marked io (try_st rs k)"
  by (cases rs; cases "fst rs") (auto simp: adds_marked_def, metis append.assoc list_all_append)

lemma adds_send: "ep_revoked ep \<Longrightarrow> adds_marked io (send_ring ring ep payload io)"
  by (simp add: adds_marked_def send_ring_sends marked_send_def)

lemma adds_turn: "adds_marked io (app_turn p court path cap ring ep io)"
proof -
  have "ep_revoked (ep_mark_revoked ep)" by (simp add: ep_mark_revoked_def)
  then show ?thesis unfolding app_turn_def Let_def
    by (auto intro!: adds_try adds_send keeps_adds [OF keeps_peer(1)] keeps_adds [OF keeps_peer(2)] split: WireMessage.splits) (simp_all add: adds_marked_def)
qed

lemma adds_loop: "adds_marked io (app_loop p court path cap ring ep io)"
proof (induction p court path cap ring ep io rule: app_loop.induct)
  case (1 p court path cap ring ep io)
  have turn: "adds_marked io (app_turn p court path cap ring ep io)" by (rule adds_turn)
  obtain res io' where r: "app_turn p court path cap ring ep io = (res, io')" by force
  show ?case
  proof (cases "\<exists>ep'. res = Ok (Some ep')")
    case True
    then obtain ep' where ep: "res = Ok (Some ep')" by blast
    from 1 [OF r [symmetric] ep refl] turn show ?thesis
      unfolding app_loop.simps [of p court path cap ring ep io] r ep by (auto simp: adds_marked_def)
  next
    case False
    with turn show ?thesis unfolding app_loop.simps [of p court path cap ring ep io] r
      by (auto simp: adds_marked_def split: result.splits option.splits)
  qed
qed

section \<open>The whole run\<close>

definition one_live :: "'a LinuxResult \<times> Io \<Rightarrow> bool" where
  "one_live rs \<longleftrightarrow> list_all marked_send (tl (ring_sends (snd rs)))"

definition calm :: "'a LinuxResult \<times> Io \<Rightarrow> bool" where
  "calm rs \<longleftrightarrow> ring_sends (snd rs) = []"

lemma keeps_calm: "keeps io rs \<Longrightarrow> ring_sends io = [] \<Longrightarrow> calm rs"
  by (simp add: keeps_def calm_def)

lemmas calm_steps = keeps_connect [THEN keeps_calm] keeps_steps [THEN keeps_calm] keeps_open_granted [THEN keeps_calm] keeps_peer [THEN keeps_calm]

lemma one_live_try: "calm rs \<Longrightarrow> (\<And>x io'. ring_sends io' = [] \<Longrightarrow> one_live (k x io')) \<Longrightarrow> one_live (try_st rs k)"
  by (cases rs; cases "fst rs") (auto simp: calm_def one_live_def)

lemma one_live_end: "ring_sends io = [] \<Longrightarrow> one_live (res, io)"
  by (simp add: one_live_def)

lemma one_live_first:
  "ring_sends io = [] \<Longrightarrow> (\<And>x io'. adds_marked io' (k x io')) \<Longrightarrow> one_live (try_st (send_ring ring ep payload io) k)"
  using send_ring_sends [of ring ep payload io]
  by (cases "send_ring ring ep payload io"; cases "fst (send_ring ring ep payload io)") (auto simp: one_live_def adds_marked_def, metis append.simps list.sel(3) append_Nil)

lemma app_one_live:
  assumes "ring_sends io = []"
  shows "one_live (app_run config io)"
proof -
  have tail: "adds_marked io' (try_st (peer_send p m io') (\<lambda>_ io. app_loop p court path cap ring ep io))" for io' p m court path cap ring ep
    by (intro adds_try keeps_adds keeps_peer adds_loop)
  show ?thesis unfolding app_run_def Let_def
    by (auto intro!: one_live_try one_live_first one_live_end assms calm_steps tail
        split: WireMessage.splits option.splits) (simp_all add: adds_marked_def)
qed

end
