(* ===== verification/Hosted_System.thy ===== *)
theory Hosted_System
  imports Daemon_Properties Court_Safety
begin

text \<open>
  The three processes of the hosted prototype together. A schedule is a list of calls of the daemon and of the
  courts with their answers; the host decides which answers are possible: a message is received after it was
  sent and in that order, a court connects after the socket is bound and acts after it was spawned, the bytes of
  a ring are what \<^verbatim>\<open>shm_ring.rs\<close> makes of them, and a child is waited for after it exited. The packet_rx
  scenario is such a schedule, and it is what the three programs do.
\<close>

section \<open>The host\<close>

datatype Proc = Daemon | Child string

datatype Event = Does Proc Call Answer | Exits Proc int

text \<open>
  What the processes share: the bound sockets, the children with their arguments, the connections not yet
  accepted, who is at the other end of a connection, the messages on their way to a process and from whom,
  the files of the rings, and the exit codes.
\<close>

record Host =
  h_listening :: "string set"
  h_children :: "string \<rightharpoonup> string list"
  h_backlog :: "Proc list"
  h_link :: "Proc \<times> nat \<rightharpoonup> Proc"
  h_inbox :: "Proc \<times> Proc \<Rightarrow> WireMessage list"
  h_rings :: "string \<rightharpoonup> bytes"
  h_codes :: "Proc \<rightharpoonup> int"

definition idle_host :: Host where
  "idle_host = \<lparr>h_listening = {}, h_children = Map.empty, h_backlog = [], h_link = Map.empty, h_inbox = (\<lambda>_. []),
     h_rings = Map.empty, h_codes = Map.empty\<rparr>"

definition ring_op :: "string \<Rightarrow> (bytes \<Rightarrow> (Answer \<times> bytes) option) \<Rightarrow> Answer \<Rightarrow> Host \<Rightarrow> Host option" where
  "ring_op path f a h = Option.bind (h_rings h path) (\<lambda>m. Option.bind (f m) (\<lambda>(a', m').
     if a = a' then Some (h\<lparr>h_rings := (h_rings h)(path \<mapsto> m')\<rparr>) else None))"

text \<open>Calls that only look at the environment, the clock or the trace file can have any answer.\<close>

definition host_step :: "Proc \<Rightarrow> Call \<Rightarrow> Answer \<Rightarrow> Host \<Rightarrow> Host option" where
  "host_step p c a h = (case c of
      BindSocket sock \<Rightarrow> if a = ADone then Some (h\<lparr>h_listening := insert sock (h_listening h)\<rparr>) else Some h
    | CreateRing path cap slot \<Rightarrow> (case ring_create (\<lambda>_. True) cap slot of
          Some (Ok m) \<Rightarrow> if a = ADone then Some (h\<lparr>h_rings := (h_rings h)(path \<mapsto> m)\<rparr>) else None
        | _ \<Rightarrow> None)
    | Spawn prog args name \<Rightarrow> if a = ADone \<and> h_children h name = None then Some (h\<lparr>h_children := (h_children h)(name \<mapsto> args)\<rparr>) else None
    | ConnectTo sock \<Rightarrow> (case a of
          AConn k \<Rightarrow> if sock \<in> h_listening h \<and> h_link h (p, k) = None
            then Some (h\<lparr>h_link := (h_link h)((p, k) \<mapsto> Daemon), h_backlog := h_backlog h @ [p]\<rparr>) else None
        | _ \<Rightarrow> Some h)
    | AcceptConn \<Rightarrow> (case (a, h_backlog h) of
          (AConn k, q # qs) \<Rightarrow> if h_link h (p, k) = None then Some (h\<lparr>h_link := (h_link h)((p, k) \<mapsto> q), h_backlog := qs\<rparr>) else None
        | _ \<Rightarrow> None)
    | SendOn k m \<Rightarrow> (case h_link h (p, k) of
          Some q \<Rightarrow> if a = ADone then Some (h\<lparr>h_inbox := (h_inbox h)((q, p) := h_inbox h (q, p) @ [m])\<rparr>) else None
        | None \<Rightarrow> None)
    | RecvOn k \<Rightarrow> (case h_link h (p, k) of
          Some q \<Rightarrow> (case h_inbox h (p, q) of
              m # ms \<Rightarrow> if a = AMessage m then Some (h\<lparr>h_inbox := (h_inbox h)((p, q) := ms)\<rparr>) else None
            | [] \<Rightarrow> None)
        | None \<Rightarrow> None)
    | WaitChild name \<Rightarrow> if h_codes h (Child name) \<noteq> None \<and> a = ACode (h_codes h (Child name)) then Some h else None
    | OpenRing path \<Rightarrow> ring_op path (\<lambda>m. case ring_open (\<lambda>_. True) m of Some (Ok m') \<Rightarrow> Some (ADone, m') | _ \<Rightarrow> None) a h
    | SendRing path ep payload \<Rightarrow> ring_op path (\<lambda>m. map_option (apfst ASent) (ring_send ep payload m)) a h
    | RecvRing path ep \<Rightarrow> ring_op path (\<lambda>m. map_option (apfst ARecvd) (ring_recv ep m)) a h
    | _ \<Rightarrow> Some h)"

text \<open>A process acts while it runs: a child from its spawn to its exit.\<close>

definition alive :: "Proc \<Rightarrow> Host \<Rightarrow> bool" where
  "alive p h \<longleftrightarrow> h_codes h p = None \<and> (case p of Daemon \<Rightarrow> True | Child name \<Rightarrow> h_children h name \<noteq> None)"

fun happens :: "Event list \<Rightarrow> Host \<Rightarrow> Host option" where
  "happens [] h = Some h"
| "happens (Does p c a # es) h = (if alive p h then Option.bind (host_step p c a h) (happens es) else None)"
| "happens (Exits p code # es) h = (if alive p h then happens es (h\<lparr>h_codes := (h_codes h)(p \<mapsto> code)\<rparr>) else None)"

text \<open>The part of a process in a schedule, and when a program behaves that way.\<close>

fun history :: "Proc \<Rightarrow> Event list \<Rightarrow> (Call \<times> Answer) list" where
  "history p [] = []"
| "history p (Does q c a # es) = (if p = q then (c, a) # history p es else history p es)"
| "history p (Exits q code # es) = history p es"

definition behaves :: "(Io \<Rightarrow> 'r LinuxResult \<times> Io) \<Rightarrow> Proc \<Rightarrow> Event list \<Rightarrow> 'r LinuxResult \<Rightarrow> bool" where
  "behaves prog p es res \<longleftrightarrow> prog \<lparr>io_in = map snd (history p es), io_log = []\<rparr> =
     (res, \<lparr>io_in = [], io_log = map fst (history p es)\<rparr>)"

lemma happens_append: "happens (es @ fs) h = Option.bind (happens es h) (happens fs)"
  by (induction es h rule: happens.induct) (auto simp: Option.bind_eq_None_conv split: Option.bind_splits)

lemma history_append: "history p (es @ fs) = history p es @ history p fs"
  by (induction p es rule: history.induct) simp_all

section \<open>The courts\<close>

definition connect_answers :: "nat \<Rightarrow> nat \<Rightarrow> Answer list" where
  "connect_answers tries conn = concat (replicate tries [AFailed, ADone]) @ [AConn conn, ADone]"

definition connect_calls :: "nat \<Rightarrow> string \<Rightarrow> nat \<Rightarrow> Call list" where
  "connect_calls tries sock conn = concat (replicate tries [ConnectTo sock, SleepMs 20]) @ [ConnectTo sock, SetTimeouts conn]"

lemma connect_from_run:
  assumes "tries < n"
  shows "connect_from n sock \<lparr>io_in = connect_answers tries conn @ rest, io_log = log\<rparr> =
    (Ok conn, \<lparr>io_in = rest, io_log = log @ connect_calls tries sock conn\<rparr>)"
  using assms
proof (induction tries arbitrary: n log)
  case 0
  then obtain k where "n = Suc k" by (cases n) simp_all
  then show ?case by (simp add: connect_answers_def connect_calls_def perform_answer call_done peer_new_def)
next
  case (Suc tries)
  then obtain k where n: "n = Suc k" "tries < k" by (cases n) simp_all
  have a: "connect_answers (Suc tries) conn @ rest = AFailed # ADone # connect_answers tries conn @ rest" by (simp add: connect_answers_def)
  show ?case unfolding a n(1) using Suc.IH [OF n(2)] by (simp add: perform_answer connect_calls_def)
qed

lemma connect_run:
  "tries < 100 \<Longrightarrow> connect_with_retry sock \<lparr>io_in = connect_answers tries conn @ rest, io_log = log\<rparr> =
    (Ok conn, \<lparr>io_in = rest, io_log = log @ connect_calls tries sock conn\<rparr>)"
  unfolding connect_with_retry_def by (rule connect_from_run)

abbreviation rx_payload :: bytes where
  "rx_payload \<equiv> as_bytes ''mvp0c-packet''"

definition app_answers :: "string \<Rightarrow> Answer list" where
  "app_answers dir =
    [ADone, AMessage (MHelloAck WOk ''app'' rx_demo), ADone, AMessage (MLookupResult WOk (Some (from_descriptor rx_desc))),
     ADone, AMessage (MOpenResult WNoRight None None), AMessage (MGrant rx_path rx_wire_app),
     ADone, AMessage (MOpenResult WOk (Some rx_wire_app) (Some (rx_ring_info dir))), ADone, ASent (Ok ()), ADone,
     AMessage (MRevoke rx_wire_app), ASent (Err WRevoked), ADone, AMessage (MPeerDown rx_path), ADone, ADone]"

definition app_calls :: "string \<Rightarrow> nat \<Rightarrow> Call list" where
  "app_calls dir p = (let ring = ri_path (rx_ring_info dir); ep = endpoint_new rx_wire_app in
    [SendOn p (MHello ''app''), RecvOn p, SendOn p (MLookup rx_path), RecvOn p,
     SendOn p (MOpen rx_path None (from_rights SEND)), RecvOn p, RecvOn p,
     SendOn p (MOpen rx_path (Some rx_wire_app) (from_rights SEND)), RecvOn p, OpenRing ring, SendRing ring ep rx_payload, SendOn p (MTrace rx_send),
     RecvOn p, SendRing ring (ep_mark_revoked ep) (as_bytes ''after-revoke''), SendOn p (MTrace rx_after_revoke), RecvOn p,
     SendOn p (MTrace rx_down), SendOn p (MDemoDone ''app'' WOk)])"

lemma app_rx_run:
  assumes "tries < 100"
  shows "app_run \<lparr>cc_root_sock = sock, cc_court = ''app''\<rparr> \<lparr>io_in = connect_answers tries p @ app_answers dir, io_log = []\<rparr> =
    (Ok (), \<lparr>io_in = [], io_log = connect_calls tries sock p @ app_calls dir p\<rparr>)"
proof -
  have len: "length rx_payload = 12" by (simp add: as_bytes_def)
  have desc: "wd_path (from_descriptor rx_desc) = rx_path" by (simp add: from_descriptor_def rx_desc_def)
  show ?thesis
    unfolding app_run_def CourtConfig.simps connect_run [OF assms] try_st_simps app_answers_def
    by (simp add: peer_send_def call_done expect_hello_ack_def recv_message rx_demo_def desc expect_grant_def open_granted_def open_ring_def
        send_ring_def perform_answer app_loop.simps app_turn_def app_calls_def Let_def rx_send_def rx_after_revoke_def rx_down_def len
        ep_status_marked)
qed

text \<open>The net court polls the ring any number of times before the packet is there.\<close>

definition net_answers :: "string \<Rightarrow> nat \<Rightarrow> Answer list" where
  "net_answers dir polls =
    [ADone, AMessage (MHelloAck WOk ''net0'' rx_demo), AMessage (MGrant rx_path rx_wire_net),
     ADone, AMessage (MOpenResult WOk (Some rx_wire_net) (Some (rx_ring_info dir))), ADone] @
    concat (replicate polls [AFlag False, ARecvd (Ok None), ADone]) @ [AFlag False, ARecvd (Ok (Some rx_payload)),
     ADone, AMessage (MFault ''mvp0c simulated net court crash''), ADone]"

definition net_calls :: "string \<Rightarrow> nat \<Rightarrow> nat \<Rightarrow> Call list" where
  "net_calls dir p polls = (let ring = ri_path (rx_ring_info dir); ep = endpoint_new rx_wire_net in
    [SendOn p (MHello ''net0''), RecvOn p, RecvOn p,
     SendOn p (MOpen rx_path (Some rx_wire_net) (from_rights RECV)), RecvOn p, OpenRing ring] @
    concat (replicate polls [PastDeadline, RecvRing ring ep, SleepMs 10]) @ [PastDeadline, RecvRing ring ep,
     SendOn p (MTrace rx_recv), RecvOn p, SendOn p (MTrace rx_fault)])"

lemma poll_ring_run:
  "poll_ring ring ep \<lparr>io_in = concat (replicate polls [AFlag False, ARecvd (Ok None), ADone]) @ AFlag False # ARecvd (Ok (Some packet)) # rest, io_log = log\<rparr> =
    (Ok packet, \<lparr>io_in = rest, io_log = log @ concat (replicate polls [PastDeadline, RecvRing ring ep, SleepMs 10]) @ [PastDeadline, RecvRing ring ep]\<rparr>)"
  by (induction polls arbitrary: log) (simp_all add: poll_ring.simps [of ring ep "\<lparr>io_in = AFlag False # _, io_log = _\<rparr>"] poll_turn_def perform_answer)

lemma lossy_ascii:
  assumes "\<forall>b\<in>set bs. b < 0x80"
  shows "from_utf8_lossy bs = map (\<lambda>b. char_of (unat b)) bs"
  using assms
proof (induction bs)
  case (Cons b bs)
  then have "utf8_char (b # bs) = (1, True)" by (simp add: utf8_char_def Let_def)
  with Cons show ?case by (simp add: from_utf8_lossy.simps [of "b # bs"])
qed (simp add: from_utf8_lossy.simps)

lemma rx_payload_text: "from_utf8_lossy rx_payload = ''mvp0c-packet''" "length rx_payload = 12"
proof -
  show "length rx_payload = 12" by (simp add: as_bytes_def)
  have "\<forall>b\<in>set rx_payload. b < 0x80" by (simp add: as_bytes_def)
  then show "from_utf8_lossy rx_payload = ''mvp0c-packet''" by (simp add: lossy_ascii) (simp add: as_bytes_def char_of_def bit_0)
qed

lemma net_rx_run:
  assumes "tries < 100"
  shows "net_run \<lparr>cc_root_sock = sock, cc_court = ''net0''\<rparr> \<lparr>io_in = connect_answers tries p @ net_answers dir polls, io_log = []\<rparr> =
    (Ok 42, \<lparr>io_in = [], io_log = connect_calls tries sock p @ net_calls dir p polls\<rparr>)"
  unfolding net_run_def CourtConfig.simps connect_run [OF assms] try_st_simps net_answers_def
  by (simp add: peer_send_def call_done expect_hello_ack_def recv_message rx_demo_def expect_grant_def open_granted_def open_ring_def
      perform_answer poll_ring_run net_calls_def Let_def rx_recv_def rx_fault_def rx_payload_text)

section \<open>The ring\<close>

definition rx_ring :: bytes where
  "rx_ring = (case ring_create (\<lambda>_. True) 64 2048 of Some (Ok m) \<Rightarrow> m | _ \<Rightarrow> [])"

lemma rx_ring_created: "ring_create (\<lambda>_. True) 64 2048 = Some (Ok rx_ring)"
proof -
  have len: "total_len 64 2048 = Ok 131360" by (simp add: total_len_Ok_iff ring_layout)
  obtain m where "ring_init 64 2048 (replicate 131360 0) = Some m"
    using ring_init_eq [of "replicate 131360 0"] by (simp add: ring_layout)
  then have "ring_create (\<lambda>_. True) 64 2048 = Some (Ok m)" by (simp add: ring_create_def len os_def ring_map_def HEADER_LEN_def)
  then show ?thesis by (simp add: rx_ring_def)
qed

lemma rx_ring_inv: "ring_inv 64 2048 rx_ring" "ring_content 64 2048 rx_ring = []"
  using ring_create_Ok [OF rx_ring_created] by (simp_all add: ring_inv_def ring_pending_def ring_content_def)

lemma ring_recv_empty:
  assumes "ring_inv cap ss m" and "ring_content cap ss m = []"
  shows "ring_recv (endpoint_new wc) m = Some (Ok None, m)"
  using counters_loaded [of cap ss m] assms by (simp add: ring_recv_def ring_inv_def ring_content_Nil_iff)

lemma rx_ring_run:
  "\<exists>m1 m2. ring_send (endpoint_new wa) rx_payload rx_ring = Some (Ok (), m1) \<and> ring_recv (endpoint_new wn) m1 = Some (Ok (Some rx_payload), m2) \<and>
    ring_content 64 2048 m2 = []"
proof -
  obtain m1 where put: "put_ring wa rx_payload rx_ring = Some m1"
    using ring.put_ok [OF rx_ring_inv(1), of rx_payload wa] rx_ring_inv(2) by (auto simp: rx_payload_text)
  note m1 = ring.put_content [OF rx_ring_inv(1) put]
  then obtain m2 where get: "take_ring wn m1 = Some (rx_payload, m2)" "ring_content 64 2048 m2 = []"
    using ring.take_content [of 64 2048 m1 rx_payload "[]" wn] rx_ring_inv(2) by auto
  have "ring_send (endpoint_new wa) rx_payload rx_ring = Some (Ok (), m1)" using put by (auto simp: put_ring_def split: option.splits result.splits)
  moreover have "ring_recv (endpoint_new wn) m1 = Some (Ok (Some rx_payload), m2)"
    using get by (auto simp: take_ring_def split: option.splits result.splits)
  ultimately show ?thesis using get by blast
qed

section \<open>The schedule\<close>

definition message :: "Proc \<Rightarrow> nat \<Rightarrow> Proc \<Rightarrow> nat \<Rightarrow> WireMessage \<Rightarrow> Event list" where
  "message p c q d m = [Does p (SendOn c m) ADone, Does q (RecvOn d) (AMessage m)]"

abbreviation does :: "Proc \<Rightarrow> Call list \<Rightarrow> Answer list \<Rightarrow> Event list" where
  "does p \<equiv> map2 (Does p)"

definition rx_start :: "string \<Rightarrow> string \<Rightarrow> string \<Rightarrow> Event list" where
  "rx_start dir a b = (let sock = path_join dir ''root.sock'' in
     does Daemon [CreateDir dir, RemoveFile sock, BindSocket sock, CreateRing (path_join dir ''packet-rx.ring'') 64 2048,
       OpenTrace (path_join dir ''trace.ndjson''), RecordLine (rx_line ''lookup'' ''root'' WOk)] [ADone, ADone, ADone, ADone, ADone, ADone] @
     does Daemon (spawn_calls sock a) spawn_answers @ does Daemon (spawn_calls sock b) spawn_answers)"

text \<open>A court connects after some failed attempts, is accepted, and says hello.\<close>

definition rx_join :: "string \<Rightarrow> (string \<Rightarrow> nat) \<Rightarrow> (string \<Rightarrow> nat) \<Rightarrow> (string \<Rightarrow> nat) \<Rightarrow> string \<Rightarrow> Event list" where
  "rx_join sock conn fd tries z =
     does (Child z) (connect_calls (tries z) sock (fd z)) (connect_answers (tries z) (fd z)) @
     does Daemon [AcceptConn, SetTimeouts (conn z)] [AConn (conn z), ADone] @
     message (Child z) (fd z) Daemon (conn z) (MHello z) @ message Daemon (conn z) (Child z) (fd z) (MHelloAck WOk z rx_demo)"

definition rx_polls :: "string \<Rightarrow> nat \<Rightarrow> Event list" where
  "rx_polls ring polls = concat (replicate polls
     (does (Child ''net0'') [PastDeadline, RecvRing ring (endpoint_new rx_wire_net), SleepMs 10] [AFlag False, ARecvd (Ok None), ADone]))"

definition rx_talk :: "string \<Rightarrow> (string \<Rightarrow> nat) \<Rightarrow> (string \<Rightarrow> nat) \<Rightarrow> nat \<Rightarrow> Event list" where
  "rx_talk dir conn fd polls =
    (let ring = ri_path (rx_ring_info dir);
       tell = (\<lambda>z. message Daemon (conn z) (Child z) (fd z)); hear = (\<lambda>z. message (Child z) (fd z) Daemon (conn z));
       note_line = (\<lambda>line. [Does Daemon (RecordLine line) ADone]); app = ''app''; net = ''net0'' in
     hear app (MLookup rx_path) @ note_line (rx_line ''lookup'' app WOk) @ tell app (MLookupResult WOk (Some (from_descriptor rx_desc))) @
     hear app (MOpen rx_path None (from_rights SEND)) @ note_line (rx_line ''open_denied'' app WNoRight) @ tell app (MOpenResult WNoRight None None) @
     note_line (with_detail ''net0:2'' (rx_line ''grant'' ''root'' WOk)) @ tell net (MGrant rx_path rx_wire_net) @
     hear net (MOpen rx_path (Some rx_wire_net) (from_rights RECV)) @ note_line (rx_line ''open'' net WOk) @
     tell net (MOpenResult WOk (Some rx_wire_net) (Some (rx_ring_info dir))) @ [Does (Child net) (OpenRing ring) ADone] @
     note_line (with_detail ''app:3'' (rx_line ''grant'' ''root'' WOk)) @ tell app (MGrant rx_path rx_wire_app) @
     hear app (MOpen rx_path (Some rx_wire_app) (from_rights SEND)) @ note_line (rx_line ''open'' app WOk) @
     tell app (MOpenResult WOk (Some rx_wire_app) (Some (rx_ring_info dir))) @ [Does (Child app) (OpenRing ring) ADone] @
     rx_polls ring polls @ [Does (Child app) (SendRing ring (endpoint_new rx_wire_app) rx_payload) (ASent (Ok ()))] @
     hear app (MTrace rx_send) @ note_line rx_send @
     does (Child net) [PastDeadline, RecvRing ring (endpoint_new rx_wire_net)] [AFlag False, ARecvd (Ok (Some rx_payload))] @
     hear net (MTrace rx_recv) @ note_line rx_recv @
     note_line (rx_line ''revoke'' ''root'' WOk) @ tell app (MRevoke rx_wire_app) @
     [Does (Child app) (SendRing ring (ep_mark_revoked (endpoint_new rx_wire_app)) (as_bytes ''after-revoke'')) (ASent (Err WRevoked))] @
     hear app (MTrace rx_after_revoke) @ note_line rx_after_revoke @
     tell net (MFault ''mvp0c simulated net court crash'') @ hear net (MTrace rx_fault) @ note_line rx_fault @
     [Exits (Child net) 42, Does Daemon (WaitChild net) (ACode (Some 42))] @ note_line (rx_line ''court_fault'' ''root'' WFault) @
     tell app (MPeerDown rx_path) @ note_line (rx_line ''peer_down'' ''root'' WPeerDown) @ hear app (MTrace rx_down) @ note_line rx_down @
     hear app (MDemoDone app WOk) @ note_line (trace_new ''demo_done'' app WOk) @
     [Exits (Child app) 0, Does Daemon (WaitChild app) (ACode (Some 0))])"

definition rx_schedule ::
  "string \<Rightarrow> string \<Rightarrow> string \<Rightarrow> string \<Rightarrow> string \<Rightarrow> (string \<Rightarrow> nat) \<Rightarrow> (string \<Rightarrow> nat) \<Rightarrow> (string \<Rightarrow> nat) \<Rightarrow> nat \<Rightarrow> Event list" where
  "rx_schedule dir a b x y conn fd tries polls = (let sock = path_join dir ''root.sock'' in
     rx_start dir a b @ rx_join sock conn fd tries x @ rx_join sock conn fd tries y @ rx_talk dir conn fd polls)"

section \<open>Its parts are the runs of the programs\<close>

lemma history_does: "length cs = length as \<Longrightarrow> history p (does q cs as) = (if p = q then zip cs as else [])"
  by (induction cs as rule: list_induct2) auto

lemma history_message [simp]:
  "history r (message p c q d m) = (if r = p then [(SendOn c m, ADone)] else []) @ (if r = q then [(RecvOn d, AMessage m)] else [])"
  by (simp add: message_def)

lemma connect_length: "length (connect_calls tries sock p) = length (connect_answers tries p)"
  unfolding connect_calls_def connect_answers_def by (induction tries) simp_all

lemma spawn_length [simp]: "length (spawn_calls sock a) = 4" "length spawn_answers = 4"
  by (simp_all add: spawn_calls_def spawn_answers_def Let_def)

lemma history_polls:
  "history p (rx_polls ring polls) = (if p = Child ''net0'' then zip (concat (replicate polls [PastDeadline, RecvRing ring (endpoint_new rx_wire_net), SleepMs 10]))
     (concat (replicate polls [AFlag False, ARecvd (Ok None), ADone])) else [])"
  by (induction polls) (auto simp: rx_polls_def history_append)

lemmas rx_lists = history_append history_does Let_def

lemma history_start:
  "history p (rx_start dir a b) = (if p = Daemon
     then zip ([CreateDir dir, RemoveFile (path_join dir ''root.sock''), BindSocket (path_join dir ''root.sock''),
         CreateRing (path_join dir ''packet-rx.ring'') 64 2048, OpenTrace (path_join dir ''trace.ndjson''), RecordLine (rx_line ''lookup'' ''root'' WOk)] @
         spawn_calls (path_join dir ''root.sock'') a @ spawn_calls (path_join dir ''root.sock'') b)
       ([ADone, ADone, ADone, ADone, ADone, ADone] @ spawn_answers @ spawn_answers) else [])"
  by (simp add: rx_start_def rx_lists)

lemma history_join:
  "history p (rx_join sock conn fd tries z) =
    (if p = Daemon then zip (hello_calls (conn z) z) (hello_answers (conn z) z)
     else if p = Child z then zip (connect_calls (tries z) sock (fd z) @ [SendOn (fd z) (MHello z), RecvOn (fd z)])
       (connect_answers (tries z) (fd z) @ [ADone, AMessage (MHelloAck WOk z rx_demo)])
     else [])"
  by (simp add: rx_join_def rx_lists connect_length hello_calls_def hello_answers_def)

lemma history_talk_daemon: "history Daemon (rx_talk dir conn fd polls) = zip (phase_calls dir (conn ''app'') (conn ''net0'')) phase_answers"
  by (simp add: rx_talk_def rx_lists history_polls phase_calls_def phase_answers_def)

lemma history_talk_app: "history (Child ''app'') (rx_talk dir conn fd polls) = zip (drop 2 (app_calls dir (fd ''app''))) (drop 2 (app_answers dir))"
  by (simp add: rx_talk_def rx_lists history_polls app_calls_def app_answers_def)

lemma history_talk_net:
  "history (Child ''net0'') (rx_talk dir conn fd polls) = zip (drop 2 (net_calls dir (fd ''net0'') polls)) (drop 2 (net_answers dir polls))"
proof -
  have "length (concat (replicate polls [PastDeadline, RecvRing ring ep, SleepMs 10])) =
      length (concat (replicate polls [AFlag False, ARecvd (Ok None), ADone]))" for ring ep by (induction polls) simp_all
  then show ?thesis by (simp add: rx_talk_def rx_lists history_polls net_calls_def net_answers_def)
qed

lemma rx_lengths:
  "length (hello_calls c z) = length (hello_answers c z)" "length (phase_calls dir ca cn) = length phase_answers"
  "length (app_calls dir p) = length (app_answers dir)" "length (net_calls dir p polls) = length (net_answers dir polls)"
proof -
  show "length (net_calls dir p polls) = length (net_answers dir polls)"
    unfolding net_calls_def net_answers_def Let_def by (induction polls) simp_all
qed (simp_all add: hello_calls_def hello_answers_def phase_calls_def phase_answers_def app_calls_def app_answers_def Let_def)

lemma history_daemon:
  "history Daemon (rx_schedule dir a b x y conn fd tries polls) =
    zip (root_calls dir a b x (conn x) y (conn y) (conn ''app'') (conn ''net0'')) (root_answers x (conn x) y (conn y))"
  by (simp add: rx_schedule_def Let_def history_append history_start history_join history_talk_daemon root_calls_def root_answers_def rx_lengths)

lemma history_app:
  assumes "x = ''app'' \<and> y = ''net0'' \<or> x = ''net0'' \<and> y = ''app''"
  shows "history (Child ''app'') (rx_schedule dir a b x y conn fd tries polls) =
    zip (connect_calls (tries ''app'') (path_join dir ''root.sock'') (fd ''app'') @ app_calls dir (fd ''app''))
      (connect_answers (tries ''app'') (fd ''app'') @ app_answers dir)"
  using assms by (auto simp: rx_schedule_def Let_def history_append history_start history_join history_talk_app connect_length app_calls_def app_answers_def)

lemma history_net:
  assumes "x = ''app'' \<and> y = ''net0'' \<or> x = ''net0'' \<and> y = ''app''"
  shows "history (Child ''net0'') (rx_schedule dir a b x y conn fd tries polls) =
    zip (connect_calls (tries ''net0'') (path_join dir ''root.sock'') (fd ''net0'') @ net_calls dir (fd ''net0'') polls)
      (connect_answers (tries ''net0'') (fd ''net0'') @ net_answers dir polls)"
  using assms by (auto simp: rx_schedule_def Let_def history_append history_start history_join history_talk_net connect_length net_calls_def net_answers_def)

lemma behaves_zip:
  "length cs = length as \<Longrightarrow> history p es = zip cs as \<Longrightarrow>
    behaves prog p es res \<longleftrightarrow> prog \<lparr>io_in = as, io_log = []\<rparr> = (res, \<lparr>io_in = [], io_log = cs\<rparr>)"
  by (simp add: behaves_def)

section \<open>The host allows it\<close>

definition court_args :: "string \<Rightarrow> string \<Rightarrow> string list" where
  "court_args dir z = [''--root-sock'', path_join dir ''root.sock'', ''--court'', z]"

definition rx_host :: "string \<Rightarrow> (Proc \<times> nat \<rightharpoonup> Proc) \<Rightarrow> bytes \<Rightarrow> (Proc \<rightharpoonup> int) \<Rightarrow> Host" where
  "rx_host dir link ring codes = \<lparr>h_listening = {path_join dir ''root.sock''},
     h_children = [''app'' \<mapsto> court_args dir ''app'', ''net0'' \<mapsto> court_args dir ''net0''], h_backlog = [],
     h_link = link, h_inbox = (\<lambda>_. []), h_rings = [ri_path (rx_ring_info dir) \<mapsto> ring], h_codes = codes\<rparr>"

lemma alive_upd [simp]:
  "alive p (h\<lparr>h_inbox := i\<rparr>) = alive p h" "alive p (h\<lparr>h_link := l\<rparr>) = alive p h" "alive p (h\<lparr>h_backlog := b\<rparr>) = alive p h"
  "alive p (h\<lparr>h_rings := r\<rparr>) = alive p h" "alive p (h\<lparr>h_listening := s\<rparr>) = alive p h"
  by (simp_all add: alive_def split: Proc.splits)

lemma host_message:
  assumes "alive p h" and "alive q h" and "h_link h (p, c) = Some q" and "h_link h (q, d) = Some p" and "h_inbox h (q, p) = []"
  shows "happens (message p c q d m) h = Some h"
proof -
  have "(h_inbox h)((q, p) := []) = h_inbox h" using assms(5) by (metis fun_upd_triv)
  with assms show ?thesis by (simp add: message_def host_step_def)
qed

lemma happens_start:
  assumes "a = ''app'' \<and> b = ''net0'' \<or> a = ''net0'' \<and> b = ''app''"
  shows "happens (rx_start dir a b) idle_host = Some (rx_host dir Map.empty rx_ring Map.empty)"
proof -
  have twist: "[''net0'' \<mapsto> u, ''app'' \<mapsto> v] = [''app'' \<mapsto> v, ''net0'' \<mapsto> u]" for u v :: "string list" by (rule fun_upd_twist) simp
  from assms show ?thesis
    by (elim disjE) (simp_all add: rx_start_def spawn_calls_def spawn_answers_def Let_def idle_host_def alive_def host_step_def rx_ring_created
        rx_host_def court_args_def rx_ring_info_def twist)
qed

lemma happens_connect:
  assumes "alive p h" and "sock \<in> h_listening h" and "h_link h (p, k) = None"
  shows "happens (does p (connect_calls tries sock k) (connect_answers tries k)) h =
    Some (h\<lparr>h_link := (h_link h)((p, k) \<mapsto> Daemon), h_backlog := h_backlog h @ [p]\<rparr>)"
  using assms unfolding connect_calls_def connect_answers_def by (induction tries) (simp_all add: host_step_def)

lemma happens_join:
  assumes "z = ''app'' \<or> z = ''net0''" and "link (Child z, fd z) = None" and "link (Daemon, conn z) = None"
  shows "happens (rx_join (path_join dir ''root.sock'') conn fd tries z) (rx_host dir link ring Map.empty) =
    Some (rx_host dir (link((Child z, fd z) \<mapsto> Daemon, (Daemon, conn z) \<mapsto> Child z)) ring Map.empty)"
proof -
  have alive: "alive (Child z) (rx_host dir link' ring Map.empty)" "alive Daemon (rx_host dir link' ring Map.empty)" for link'
    using assms(1) by (auto simp: alive_def rx_host_def)
  let ?h = "rx_host dir (link((Child z, fd z) \<mapsto> Daemon, (Daemon, conn z) \<mapsto> Child z)) ring Map.empty"
  have link: "h_link ?h (Child z, fd z) = Some Daemon" "h_link ?h (Daemon, conn z) = Some (Child z)" "h_inbox ?h k = []" for k
    by (simp_all add: rx_host_def)
  note talk = host_message [OF alive link(1,2,3)] host_message [OF alive(2,1) link(2,1,3)]
  have conn: "happens (does (Child z) (connect_calls (tries z) (path_join dir ''root.sock'') (fd z)) (connect_answers (tries z) (fd z)))
      (rx_host dir link ring Map.empty) = Some ((rx_host dir (link((Child z, fd z) \<mapsto> Daemon)) ring Map.empty)\<lparr>h_backlog := [Child z]\<rparr>)"
    using assms(1,2) by (subst happens_connect) (auto simp: alive_def rx_host_def)
  have accept: "happens (does Daemon [AcceptConn, SetTimeouts (conn z)] [AConn (conn z), ADone])
      ((rx_host dir (link((Child z, fd z) \<mapsto> Daemon)) ring Map.empty)\<lparr>h_backlog := [Child z]\<rparr>) = Some ?h"
    using assms(3) by (simp add: host_step_def alive_def rx_host_def)
  show ?thesis unfolding rx_join_def happens_append conn bind.bind_lunit accept talk ..
qed

lemma happens_ring:
  assumes "alive p (rx_host dir link ring codes)"
  shows "ring_open (\<lambda>_. True) ring = Some (Ok ring) \<Longrightarrow>
      happens [Does p (OpenRing (ri_path (rx_ring_info dir))) ADone] (rx_host dir link ring codes) = Some (rx_host dir link ring codes)"
    "ring_send ep payload ring = Some (sent, ring') \<Longrightarrow>
      happens [Does p (SendRing (ri_path (rx_ring_info dir)) ep payload) (ASent sent)] (rx_host dir link ring codes) = Some (rx_host dir link ring' codes)"
    "ring_recv ep ring = Some (got, ring') \<Longrightarrow>
      happens [Does p PastDeadline (AFlag False), Does p (RecvRing (ri_path (rx_ring_info dir)) ep) (ARecvd got)] (rx_host dir link ring codes) =
        Some (rx_host dir link ring' codes)"
  using assms by (simp_all add: host_step_def ring_op_def rx_host_def alive_def)

lemma happens_polls:
  assumes "alive (Child ''net0'') (rx_host dir link rx_ring codes)"
  shows "happens (rx_polls (ri_path (rx_ring_info dir)) polls) (rx_host dir link rx_ring codes) = Some (rx_host dir link rx_ring codes)"
proof -
  let ?ep = "endpoint_new rx_wire_net" and ?ring = "ri_path (rx_ring_info dir)" and ?h = "rx_host dir link rx_ring codes"
  have block: "happens ([Does (Child ''net0'') PastDeadline (AFlag False), Does (Child ''net0'') (RecvRing ?ring ?ep) (ARecvd (Ok None))] @
      [Does (Child ''net0'') (SleepMs 10) ADone]) ?h = Some ?h"
    unfolding happens_append happens_ring(3) [OF assms ring_recv_empty [OF rx_ring_inv]] using assms by (simp add: host_step_def)
  have repeat: "happens (concat (replicate polls es)) ?h = Some ?h" if "happens es ?h = Some ?h" for es
    by (induction polls) (simp_all add: happens_append that)
  show ?thesis unfolding rx_polls_def by (rule repeat) (use block in simp)
qed

lemma rx_ring_opens: "ring_open (\<lambda>_. True) rx_ring = Some (Ok rx_ring)"
proof -
  note made = ring_create_Ok [OF rx_ring_created]
  from made(1) have "HEADER_LEN \<le> length rx_ring" by (simp add: ring_header_def)
  with made show ?thesis by (simp add: ring_open_def os_def ring_map_def)
qed

lemma happens_talk:
  assumes link: "\<And>z. z = ''app'' \<or> z = ''net0'' \<Longrightarrow> link (Child z, fd z) = Some Daemon \<and> link (Daemon, conn z) = Some (Child z)"
  shows "\<exists>m. happens (rx_talk dir conn fd polls) (rx_host dir link rx_ring Map.empty) =
      Some (rx_host dir link m [Child ''net0'' \<mapsto> 42, Child ''app'' \<mapsto> 0]) \<and> ring_content 64 2048 m = []"
proof -
  obtain m1 m2 where ring: "ring_send (endpoint_new rx_wire_app) rx_payload rx_ring = Some (Ok (), m1)"
      "ring_recv (endpoint_new rx_wire_net) m1 = Some (Ok (Some rx_payload), m2)" and drained: "ring_content 64 2048 m2 = []"
    using rx_ring_run by blast
  have refused: "ring_send (ep_mark_revoked (endpoint_new rx_wire_app)) payload m2 = Some (Err WRevoked, m2)" for payload
    by (simp add: ring_send_revoked ep_mark_revoked_def ep_status_def endpoint_new_def)
  have alive: "alive p (rx_host dir link m codes)" if "codes p = None" "p = Daemon \<or> p = Child ''app'' \<or> p = Child ''net0''" for p m codes
    using that by (auto simp: alive_def rx_host_def)
  have tell: "happens (message Daemon (conn z) (Child z) (fd z) msg) (rx_host dir link m codes) = Some (rx_host dir link m codes)"
    and hear: "happens (message (Child z) (fd z) Daemon (conn z) msg) (rx_host dir link m codes) = Some (rx_host dir link m codes)"
    if "z = ''app'' \<or> z = ''net0''" "codes Daemon = None" "codes (Child z) = None" for z m codes msg
  proof -
    have "h_link (rx_host dir link m codes) (Child z, fd z) = Some Daemon" "h_link (rx_host dir link m codes) (Daemon, conn z) = Some (Child z)"
      "h_inbox (rx_host dir link m codes) k = []" for k using link [OF that(1)] by (simp_all add: rx_host_def)
    then show "happens (message Daemon (conn z) (Child z) (fd z) msg) (rx_host dir link m codes) = Some (rx_host dir link m codes)"
      "happens (message (Child z) (fd z) Daemon (conn z) msg) (rx_host dir link m codes) = Some (rx_host dir link m codes)"
      using that by (auto intro!: host_message alive)
  qed
  have line: "happens [Does Daemon (RecordLine l) ADone] (rx_host dir link m codes) = Some (rx_host dir link m codes)"
    if "codes Daemon = None" for l m codes using that by (simp add: host_step_def alive)
  have exit: "happens [Exits (Child z) k, Does Daemon (WaitChild z) (ACode (Some k))] (rx_host dir link m codes) =
      Some (rx_host dir link m (codes(Child z \<mapsto> k)))" if "z = ''app'' \<or> z = ''net0''" "codes Daemon = None" "codes (Child z) = None" for z k m codes
    using that by (auto simp: alive_def rx_host_def host_step_def)
  show ?thesis
    by (rule exI [of _ m2])
      (simp add: rx_talk_def Let_def happens_append tell hear line exit drained happens_polls alive happens_ring(1) [OF alive rx_ring_opens]
        happens_ring(2) [OF alive ring(1)] happens_ring(3) [OF alive ring(2)] happens_ring(2) [OF alive refused] del: happens.simps append.simps append_Cons)
qed

lemma happens_schedule:
  assumes "a = ''app'' \<and> b = ''net0'' \<or> a = ''net0'' \<and> b = ''app''" and "x = ''app'' \<and> y = ''net0'' \<or> x = ''net0'' \<and> y = ''app''"
    and "conn ''app'' \<noteq> conn ''net0''"
  shows "\<exists>link m. happens (rx_schedule dir a b x y conn fd tries polls) idle_host =
      Some (rx_host dir link m [Child ''net0'' \<mapsto> 42, Child ''app'' \<mapsto> 0]) \<and> ring_content 64 2048 m = []"
proof -
  define link where "link = [(Child x, fd x) \<mapsto> Daemon, (Daemon, conn x) \<mapsto> Child x, (Child y, fd y) \<mapsto> Daemon, (Daemon, conn y) \<mapsto> Child y]"
  have xy: "x = ''app'' \<or> x = ''net0''" "y = ''app'' \<or> y = ''net0''" "x \<noteq> y" "conn x \<noteq> conn y" using assms(2,3) by auto
  note joins = happens_join [OF xy(1), of Map.empty fd conn dir tries rx_ring, simplified]
    happens_join [OF xy(2), of "[(Child x, fd x) \<mapsto> Daemon, (Daemon, conn x) \<mapsto> Child x]" fd conn dir tries rx_ring]
  have ends: "link (Child z, fd z) = Some Daemon \<and> link (Daemon, conn z) = Some (Child z)" if "z = ''app'' \<or> z = ''net0''" for z
    using that assms(2) xy(3,4) by (auto simp: link_def)
  show ?thesis
    using happens_talk [of link fd conn dir polls, OF ends] xy(3,4)
    by (simp add: rx_schedule_def Let_def happens_append happens_start [OF assms(1)] joins link_def) blast
qed

section \<open>The scenario end to end\<close>

text \<open>
  C14. The packet_rx scenario runs from start to end across its three processes. Whatever order the daemon's maps
  are iterated in, in whichever order the courts connect, however often (below 100 times) a court fails to connect
  and however often the net court polls the empty ring, there is a schedule that the host allows in which the daemon, the
  app court and the net court, each started on the arguments the daemon spawns it with, run to their
  ends: the daemon and the app court succeed, the net court exits with 42, no message is left unread, and the
  ring has given up its packet.
\<close>

theorem packet_rx_end_to_end:
  assumes "any_order ho" and "court_order ho [''app'', ''net0''] = [a, b]" and "set [x, y] = {''app'', ''net0''}"
    and "conn ''app'' \<noteq> conn ''net0''" and "\<And>z. tries z < 100"
    and es_def: "es = rx_schedule dir a b x y conn fd tries polls"
  shows "\<exists>h app net m. happens es idle_host = Some h \<and>
    behaves (\<lambda>io. let (res, d, io') = run_packet_rx_demo ho dir io in (res, io')) Daemon es (Ok ()) \<and>
    map_option court_config (h_children h ''app'') = Some (Ok app) \<and> behaves (app_run app) (Child ''app'') es (Ok ()) \<and>
    map_option court_config (h_children h ''net0'') = Some (Ok net) \<and> behaves (net_run net) (Child ''net0'') es (Ok 42) \<and>
    h_codes h = [Child ''net0'' \<mapsto> exit_code (Ok 42), Child ''app'' \<mapsto> exit_code (Ok 0)] \<and>
    (\<forall>p q. h_inbox h (p, q) = []) \<and> h_rings h (path_join dir ''packet-rx.ring'') = Some m \<and> ring_content 64 2048 m = []"
proof -
  have "set (court_order ho [''app'', ''net0'']) = {''app'', ''net0''}" using assms(1) by (simp add: any_order_def)
  then have ab: "a = ''app'' \<and> b = ''net0'' \<or> a = ''net0'' \<and> b = ''app''" unfolding assms(2) by (auto simp: doubleton_eq_iff)
  have xy: "x = ''app'' \<and> y = ''net0'' \<or> x = ''net0'' \<and> y = ''app''" using assms(3) by (auto simp: doubleton_eq_iff)
  from happens_schedule [OF ab xy assms(4)] obtain link m where
    host: "happens es idle_host = Some (rx_host dir link m [Child ''net0'' \<mapsto> 42, Child ''app'' \<mapsto> 0])" "ring_content 64 2048 m = []"
    unfolding es_def by blast
  have conns: "{(x, conn x), (y, conn y)} = {(''app'', conn ''app''), (''net0'', conn ''net0'')}" using xy by auto
  have len: "length (root_calls dir a b x (conn x) y (conn y) (conn ''app'') (conn ''net0'')) = length (root_answers x (conn x) y (conn y))"
    by (simp add: root_calls_def root_answers_def Let_def rx_lengths)
  have root: "behaves (\<lambda>io. let (res, d, io') = run_packet_rx_demo ho dir io in (res, io')) Daemon es (Ok ())"
    using rx_run [OF assms(1,2) conns, of dir "[]"] by (simp add: behaves_zip [OF len history_daemon] es_def)
  let ?config = "\<lambda>z. \<lparr>cc_root_sock = path_join dir ''root.sock'', cc_court = z\<rparr>"
  have app: "behaves (app_run (?config ''app'')) (Child ''app'') es (Ok ())"
    using app_rx_run [OF assms(5)] by (simp add: behaves_zip [OF _ history_app [OF xy]] es_def connect_length rx_lengths)
  have net: "behaves (net_run (?config ''net0'')) (Child ''net0'') es (Ok 42)"
    using net_rx_run [OF assms(5)] by (simp add: behaves_zip [OF _ history_net [OF xy]] es_def connect_length rx_lengths)
  have "last (path_join dir ''root.sock'') = CHR ''k''" by (simp add: path_join_def)
  then have "path_join dir ''root.sock'' \<noteq> ''--court''" by auto
  then have args: "court_config (court_args dir z) = Ok (?config z)" for z
    by (simp add: court_config_def court_args_def required_value_def ok_or_def)
  show ?thesis
    by (rule exI [of _ "rx_host dir link m [Child ''net0'' \<mapsto> 42, Child ''app'' \<mapsto> 0]"], rule exI [of _ "?config ''app''"],
        rule exI [of _ "?config ''net0''"], rule exI [of _ m])
      (use host root app net in \<open>simp add: rx_host_def args exit_code_def rx_ring_info_def\<close>)
qed

theorem packet_rx_end_to_end_witness:
  "\<exists>h. happens (rx_schedule ''/run/ck'' ''app'' ''net0'' ''net0'' ''app'' (\<lambda>z. if z = ''app'' then 8 else 7) (\<lambda>z. 3) (\<lambda>z. 2) 5) idle_host = Some h \<and>
    h_codes h (Child ''net0'') = Some 42 \<and> h_codes h (Child ''app'') = Some 0"
proof -
  have "set [''net0'', ''app''] = {''app'', ''net0''}" by auto
  from packet_rx_end_to_end [OF sample_order_any this, of "\<lambda>z. if z = ''app'' then 8 else 7" "\<lambda>z. 2", OF _ _ refl, of "''/run/ck''" "\<lambda>z. 3" 5]
  obtain h where "happens (rx_schedule ''/run/ck'' ''app'' ''net0'' ''net0'' ''app'' (\<lambda>z. if z = ''app'' then 8 else 7) (\<lambda>z. 3) (\<lambda>z. 2) 5) idle_host = Some h"
    "h_codes h = [Child ''net0'' \<mapsto> exit_code (Ok 42), Child ''app'' \<mapsto> exit_code (Ok 0)]" by auto
  then show ?thesis by (simp add: exit_code_def)
qed

text \<open>
  C15. The app court obeys a revocation. Whatever the daemon, the host and the ring answer, the court puts at most
  one message on its ring: each later send in its run uses an endpoint it has marked as revoked, which the ring refuses
  without a change to its bytes.
\<close>

theorem app_obeys_revocation:
  assumes "app_run config \<lparr>io_in = answers, io_log = []\<rparr> = (res, io)"
    and "io_log io = before @ SendRing ring ep payload # after" and "SendRing ring' ep' payload' \<in> set before"
  shows "ep_revoked ep \<and> (\<exists>status. ring_send ep payload m = Some (Err status, m))"
proof -
  have "one_live (app_run config \<lparr>io_in = answers, io_log = []\<rparr>)" by (rule app_one_live) (simp add: ring_sends_def)
  then have tail: "list_all marked_send (tl (ring_sends io))" by (simp add: one_live_def assms(1))
  let ?send = "\<lambda>c. case c of SendRing ring ep payload \<Rightarrow> True | _ \<Rightarrow> False"
  have "SendRing ring' ep' payload' \<in> set (filter ?send before)" using assms(3) by simp
  then obtain c cs where "filter ?send before = c # cs" by (cases "filter ?send before") simp_all
  with tail have "marked_send (SendRing ring ep payload)" by (simp add: ring_sends_def assms(2))
  then show ?thesis by (simp add: marked_send_def ring_send_revoked)
qed

theorem app_obeys_revocation_witness:
  "ring_send (ep_mark_revoked (endpoint_new rx_wire_app)) (as_bytes ''after-revoke'') rx_ring =
    Some (Err WRevoked, rx_ring)"
proof -
  let ?c = "\<lparr>cc_root_sock = ''/run/ck/root.sock'', cc_court = ''app''\<rparr>" and ?l = "app_calls ''/run/ck'' 3"
  have run: "app_run ?c \<lparr>io_in = connect_answers 0 3 @ app_answers ''/run/ck'', io_log = []\<rparr> = (Ok (), \<lparr>io_in = [], io_log = connect_calls 0 ''/run/ck/root.sock'' 3 @ ?l\<rparr>)"
    by (rule app_rx_run) simp
  have split: "?l = take 13 ?l @ SendRing (ri_path (rx_ring_info ''/run/ck'')) (ep_mark_revoked (endpoint_new rx_wire_app)) (as_bytes ''after-revoke'') # drop 14 ?l"
    by (simp add: app_calls_def Let_def)
  have first: "SendRing (ri_path (rx_ring_info ''/run/ck'')) (endpoint_new rx_wire_app) rx_payload \<in> set (take 13 ?l)" by (simp add: app_calls_def Let_def)
  have "\<exists>status. ring_send (ep_mark_revoked (endpoint_new rx_wire_app)) (as_bytes ''after-revoke'') rx_ring = Some (Err status, rx_ring)"
    using app_obeys_revocation [OF run, of "connect_calls 0 ''/run/ck/root.sock'' 3 @ take 13 ?l", simplified, OF split disjI2 [OF first]] by blast
  then show ?thesis by (simp add: ring_send_def ep_status_marked endpoint_new_def)
qed

end
