(* ===== verification/Kernel_Stacks.thy ===== *)
theory Kernel_Stacks
  imports Courtlet_Progress
begin

text \<open>
  The kernel stacks of the CPUs, \<^verbatim>\<open>crates/root-court/src/stack.rs\<close>: \<^verbatim>\<open>alloc_all\<close> takes 64 KiB per CPU from the page
  allocator and keeps the top of each in a table; \<^verbatim>\<open>switch_to\<close> leaves the bootloader's stack for one of
  them.
\<close>

definition MAX_CPUS :: nat where "MAX_CPUS = 8"
definition KSTACK_PAGES :: u64 where "KSTACK_PAGES = 16"
definition KSTACK_SIZE :: u64 where "KSTACK_SIZE = KSTACK_PAGES * 0x1000"

text \<open>The table \<^verbatim>\<open>TOPS\<close> of \<^verbatim>\<open>MAX_CPUS\<close> words, zero at first.\<close>

definition TOPS :: "u64 list" where "TOPS = replicate MAX_CPUS 0"

fun alloc_stacks :: "nat list \<Rightarrow> u64 list \<times> Machine \<Rightarrow> (unit, string) result \<times> u64 list \<times> Machine" where
  "alloc_stacks [] s = (Ok (), s)"
| "alloc_stacks (cpu # rest) (tops, mc) = (case alloc_pages KSTACK_PAGES (mc_bump mc) of
      None \<Rightarrow> (Err ''kernel stack alloc failed'', (tops, mc))
    | Some ((phys, virt), b) \<Rightarrow>
        let top = saturating_add virt KSTACK_SIZE AND NOT 0xF in
        alloc_stacks rest (tops[cpu := top], mc\<lparr>mc_bump := b, mc_mem := mem_zero phys (unat KSTACK_SIZE) (mc_mem mc)\<rparr>))"

definition alloc_all :: "nat \<Rightarrow> u64 list \<times> Machine \<Rightarrow> (unit, string) result \<times> u64 list \<times> Machine" where
  "alloc_all ncpu s = (if ncpu = 0 \<or> MAX_CPUS < ncpu then (Err ''cpu count for kernel stacks'', s) else alloc_stacks [0..<ncpu] s)"

definition stack_top :: "u64 list \<Rightarrow> nat \<Rightarrow> u64" where
  "stack_top tops cpu = (if MAX_CPUS \<le> cpu then 0 else tops ! cpu)"

text \<open>
  \<^verbatim>\<open>switch_to\<close>: the stack pointer the continuation starts with, and the word pushed below the new top, as the
  address and value of a store.
\<close>

definition switch_to :: "u64 \<Rightarrow> u64 \<times> u64 \<times> u64" where
  "switch_to new_rsp = (let rsp = new_rsp - 8 in (rsp, rsp, 0))"

section \<open>The stacks\<close>

lemma KSTACK: "unat KSTACK_PAGES = 16" "unat KSTACK_SIZE = 16 * 4096" "KSTACK_SIZE = 0x10000"
  by (simp_all add: KSTACK_PAGES_def KSTACK_SIZE_def)

text \<open>\<open>p\<close> is a stack that ends at \<open>rsp\<close> in the direct map: pages of data of its own.\<close>

definition stack_at :: "Machine \<Rightarrow> u64 set \<Rightarrow> u64 \<Rightarrow> u64 \<Rightarrow> bool" where
  "stack_at mc S p rsp \<longleftrightarrow> data_pages mc S p 16 \<and> unat rsp = unat (ba_hhdm (mc_bump mc)) + unat p + 0x10000 \<and>
     mem_bytes (mc_mem mc) p 0x10000 = replicate 0x10000 0"

lemma stack_top_value:
  assumes "16 dvd unat (ba_hhdm b)" and "aligned p" and "unat (ba_hhdm b) + unat p + 0x10000 < 2 ^ 64"
  shows "unat (saturating_add (bump_virt b p) KSTACK_SIZE AND NOT 0xF) = unat (ba_hhdm b) + unat p + 0x10000"
proof -
  have v: "unat (bump_virt b p) = unat (ba_hhdm b) + unat p" using assms(3) by (simp add: bump_virt_def unat_add_no_overflow)
  then have "saturating_add (bump_virt b p) KSTACK_SIZE = bump_virt b p + 0x10000" using assms(3) by (simp add: saturating_add_def KSTACK)
  moreover have u: "unat (bump_virt b p + 0x10000) = unat (ba_hhdm b) + unat p + 0x10000" using v assms(3) by (simp add: unat_add_no_overflow)
  moreover have "16 dvd unat (bump_virt b p + 0x10000)"
    unfolding u using assms(1) dvd_trans [OF _ assms(2), of 16] by (intro dvd_add) simp_all
  moreover have "(0xF :: u64) = mask 4" by (simp add: mask_eq_exp_minus_1)
  ultimately show ?thesis using unat_and_not_mask [of "bump_virt b p + 0x10000" 4] by simp
qed

lemma stack_at_evolves:
  assumes "stack_at mc S p rsp" and "evolves {} (mc, S) (mc', S)"
  shows "stack_at mc' S p rsp"
proof -
  have "data_pages mc S p 16" using assms(1) by (simp add: stack_at_def)
  from mem_bytes_evolves [OF this assms(2)] data_pages_evolves [OF this assms(2)] assms(1) evolvesD(4) [OF assms(2)]
  show ?thesis by (simp add: stack_at_def same_pool_def)
qed

lemma alloc_stacks_result:
  assumes "spaces_ok mc S" and "16 dvd unat (ba_hhdm (mc_bump mc))" and "unat (ba_hhdm (mc_bump mc)) + unat (ba_end (mc_bump mc)) < 2 ^ 64"
    and "distinct cpus" and "\<forall>c\<in>set cpus. c < length tops" and "alloc_stacks cpus (tops, mc) = (res, (tops', mc'))"
  shows "evolves {} (mc, S) (mc', S) \<and> length tops' = length tops \<and> res \<in> {Ok (), Err ''kernel stack alloc failed''} \<and>
    (res = Ok () \<longrightarrow> (\<forall>c. c \<notin> set cpus \<longrightarrow> tops' ! c = tops ! c) \<and> (\<exists>ps. (\<forall>c\<in>set cpus. stack_at mc' S (ps c) (tops' ! c) \<and>
        span (ps c) 0x10000 \<inter> owned_mem (mc_bump mc) = {}) \<and>
      (\<forall>c\<in>set cpus. \<forall>d\<in>set cpus. c \<noteq> d \<longrightarrow> span (ps c) 0x10000 \<inter> span (ps d) 0x10000 = {})))"
  using assms
proof (induction cpus arbitrary: tops mc)
  case Nil
  then show ?case by (simp add: evolves_refl)
next
  case (Cons c cpus)
  show ?case
  proof (cases "alloc_pages KSTACK_PAGES (mc_bump mc)")
    case None
    with Cons.prems(6) have "res = Err ''kernel stack alloc failed''" "tops' = tops" "mc' = mc" by auto
    with Cons.prems(1) show ?thesis by (simp add: evolves_refl)
  next
    case (Some a)
    then obtain p v b where a: "alloc_pages KSTACK_PAGES (mc_bump mc) = Some ((p, v), b)" by (metis surj_pair)
    let ?mc = "mc\<lparr>mc_bump := b, mc_mem := mem_zero p (16 * 4096) (mc_mem mc)\<rparr>"
    let ?top = "saturating_add v KSTACK_SIZE AND NOT 0xF"
    have out: "\<forall>x. x \<notin> span p (unat KSTACK_PAGES * 4096) \<longrightarrow> mem_zero p (16 * 4096) (mc_mem mc) x = mc_mem mc x"
      by (simp add: KSTACK mem_zero_out)
    note new = new_data [OF Cons.prems(1) a out, unfolded KSTACK]
    note f = alloc_pages_Some [OF treeD(1) [OF spaces_okD(2) [OF Cons.prems(1) spaces_okD(1) [OF Cons.prems(1)]]] a]
    have top: "unat ?top = unat (ba_hhdm b) + unat p + 0x10000"
      unfolding f(2) using stack_top_value [OF Cons.prems(2) new(4)] Cons.prems(3) f(6,8) by (simp add: KSTACK)
    have rest: "alloc_stacks cpus (tops[c := ?top], ?mc) = (res, (tops', mc'))" using Cons.prems(6) a by (simp add: KSTACK Let_def)
    have hyps: "16 dvd unat (ba_hhdm (mc_bump ?mc))" "unat (ba_hhdm (mc_bump ?mc)) + unat (ba_end (mc_bump ?mc)) < 2 ^ 64"
      "distinct cpus" "\<forall>d\<in>set cpus. d < length (tops[c := ?top])" using Cons.prems(2-5) f(5,6) by simp_all
    note ih = Cons.IH [OF evolvesD(1) [OF new(1)] hyps rest]
    then have e: "evolves {} (?mc, S) (mc', S)" by simp
    have zero: "mem_bytes (mc_mem ?mc) p (16 * 4096) = replicate (16 * 4096) 0"
      using mem_bytes_filled [of "[]" "16 * 4096" p "mc_mem mc"] new(5) by (simp add: mem_write_def)
    have here: "stack_at mc' S p ?top"
      by (rule stack_at_evolves [OF _ e]) (use new(2,4,5) zero top in \<open>simp add: stack_at_def data_pages_def\<close>)
    have own: "span p 0x10000 \<subseteq> owned_mem b" using new(2) data_mem_owned [of _ ?mc S] by fastforce
    have grow: "owned_mem (mc_bump mc) \<subseteq> owned_mem b" using same_pool_owned [OF evolvesD(4) [OF new(1)]] by simp
    have "\<exists>ps. (\<forall>d\<in>set (c # cpus). stack_at mc' S (ps d) (tops' ! d) \<and> span (ps d) 0x10000 \<inter> owned_mem (mc_bump mc) = {}) \<and>
        (\<forall>d\<in>set (c # cpus). \<forall>d'\<in>set (c # cpus). d \<noteq> d' \<longrightarrow> span (ps d) 0x10000 \<inter> span (ps d') 0x10000 = {})"
      if res: "res = Ok ()"
    proof -
      from ih res obtain ps where ps: "\<forall>d\<in>set cpus. stack_at mc' S (ps d) (tops' ! d) \<and> span (ps d) 0x10000 \<inter> owned_mem b = {}"
        "\<forall>d\<in>set cpus. \<forall>d'\<in>set cpus. d \<noteq> d' \<longrightarrow> span (ps d) 0x10000 \<inter> span (ps d') 0x10000 = {}" by auto
      have "tops' ! c = ?top" using ih res Cons.prems(4,5) by simp
      with ps here new(3) own grow Cons.prems(4) show ?thesis
        by (intro exI [of _ "ps(c := p)"]) (auto simp: disjoint_iff subset_iff)
    qed
    moreover have "tops' ! d = tops ! d" if "res = Ok ()" "d \<notin> set (c # cpus)" for d using ih that by auto
    ultimately show ?thesis using ih evolves_trans [OF new(1) e] by simp
  qed
qed

lemma alloc_stacks_room:
  assumes "spaces_ok mc S" and "room (k + 16 * length cpus) (mc_bump mc)"
  shows "\<exists>tops' mc'. alloc_stacks cpus (tops, mc) = (Ok (), (tops', mc')) \<and> room k (mc_bump mc')"
  using assms
proof (induction cpus arbitrary: tops mc)
  case (Cons c cpus)
  note tree = treeD(1) [OF spaces_okD(2) [OF Cons.prems(1) spaces_okD(1) [OF Cons.prems(1)]]]
  have "room (unat KSTACK_PAGES + (k + 16 * length cpus)) (mc_bump mc)" using Cons.prems(2) by (simp add: KSTACK algebra_simps)
  from alloc_pages_room [OF tree this] obtain p v b where a: "alloc_pages KSTACK_PAGES (mc_bump mc) = Some ((p, v), b)"
    and r: "room (k + 16 * length cpus) b" .
  let ?mc = "mc\<lparr>mc_bump := b, mc_mem := mem_zero p (16 * 4096) (mc_mem mc)\<rparr>"
  have "spaces_ok ?mc S" by (rule evolvesD(1) [OF new_data(1) [OF Cons.prems(1) a]]) (simp add: KSTACK mem_zero_out)
  from Cons.IH [OF this] r a show ?case by (simp add: KSTACK Let_def)
qed simp

lemma alloc_all_room:
  assumes "spaces_ok mc S" and "0 < n" "n \<le> MAX_CPUS" and "room (k + 16 * n) (mc_bump mc)"
  obtains tops' mc' where "alloc_all n (tops, mc) = (Ok (), (tops', mc'))" "room k (mc_bump mc')"
  using alloc_stacks_room [of mc S k "[0..<n]" tops] assms by (auto simp: alloc_all_def)

end
