(* ===== verification/Descriptor_Tables.thy ===== *)
theory Descriptor_Tables
  imports Kernel_Stacks
begin

text \<open>
  The descriptor tables of the CPUs, \<^verbatim>\<open>gdt.rs\<close> and the table part of \<^verbatim>\<open>idt.rs\<close> under \<^verbatim>\<open>crates/root-court/src\<close>. What
  the processor makes of a descriptor is its own decoding of the bits; the addresses of the statics
  come from the linker and are an argument.
\<close>

section \<open>Segments\<close>

definition KERNEL_CS :: u16 where "KERNEL_CS = 0x08"
definition KERNEL_DS :: u16 where "KERNEL_DS = 0x10"
definition KERNEL_TSS :: u16 where "KERNEL_TSS = 0x18"
definition IST_BYTES :: nat where "IST_BYTES = 16 * 1024"
definition GDT_LEN :: nat where "GDT_LEN = 5"
definition KERNEL_CODE :: u64 where "KERNEL_CODE = 0x00209A0000000000"
definition KERNEL_DATA :: u64 where "KERNEL_DATA = 0x0000920000000000"

text \<open>Sizes of the elements of the statics: a packed TSS, a GDT aligned to 16 bytes.\<close>

definition TSS_SIZE :: nat where "TSS_SIZE = 104"
definition GDT_SIZE :: nat where "GDT_SIZE = 48"

record Tss =
  tss_reserved0 :: u32
  tss_rsp0 :: u64
  tss_rsp1 :: u64
  tss_rsp2 :: u64
  tss_reserved1 :: u64
  tss_ist :: "u64 list"
  tss_reserved2 :: u64
  tss_reserved3 :: u16
  tss_iomap_base :: u16

record Statics =
  gdts_at :: u64
  tsss_at :: u64
  ists_at :: u64
  idt_at :: u64
  isr_stub_table :: u64

definition tss_descriptor :: "u64 \<Rightarrow> u64 \<Rightarrow> u64 \<times> u64" where
  "tss_descriptor base limit =
     ((limit AND 0xFFFF) OR push_bit 16 (base AND 0xFFFFFF) OR push_bit 40 0x89 OR push_bit 48 (drop_bit 16 limit AND 0xF) OR
        push_bit 56 (drop_bit 24 base AND 0xFF),
      drop_bit 32 base)"

definition empty_tss :: Tss where
  "empty_tss = \<lparr>tss_reserved0 = 0, tss_rsp0 = 0, tss_rsp1 = 0, tss_rsp2 = 0, tss_reserved1 = 0, tss_ist = replicate 7 0,
     tss_reserved2 = 0, tss_reserved3 = 0, tss_iomap_base = 0\<rparr>"

definition tss_of :: "Statics \<Rightarrow> nat \<Rightarrow> Tss" where
  "tss_of at cpu = \<lparr>tss_reserved0 = 0, tss_rsp0 = 0, tss_rsp1 = 0, tss_rsp2 = 0, tss_reserved1 = 0,
     tss_ist = [ists_at at + of_nat (cpu * IST_BYTES) + of_nat IST_BYTES, 0, 0, 0, 0, 0, 0],
     tss_reserved2 = 0, tss_reserved3 = 0, tss_iomap_base = of_nat TSS_SIZE\<rparr>"

definition gdt_of :: "Statics \<Rightarrow> nat \<Rightarrow> u64 list" where
  "gdt_of at cpu = (let (tss_lo, tss_hi) = tss_descriptor (tsss_at at + of_nat (cpu * TSS_SIZE)) (of_nat TSS_SIZE - 1) in
     [0, KERNEL_CODE, KERNEL_DATA, tss_lo, tss_hi])"

text \<open>\<^verbatim>\<open>gdt::init\<close> fills the tables of every CPU.\<close>

definition gdt_init :: "Statics \<Rightarrow> u64 list list \<times> Tss list" where
  "gdt_init at = (map (gdt_of at) [0..<MAX_CPUS], map (tss_of at) [0..<MAX_CPUS])"

text \<open>
  The registers \<^verbatim>\<open>gdt::load\<close> sets. \<^verbatim>\<open>ltr\<close> faults on a descriptor that is not an available TSS, and marks it busy;
  the descriptor is read from the table \<^verbatim>\<open>lgdt\<close> has loaded.
\<close>

record CpuRegs =
  gdtr_limit :: u16
  gdtr_base :: u64
  cs :: u16
  segs :: u16
  tr :: u16
  tr_base :: u64
  tr_limit :: u64

definition desc_type :: "u64 \<Rightarrow> u64" where "desc_type lo = drop_bit 40 lo AND 0x1F"

definition desc_base :: "u64 \<Rightarrow> u64 \<Rightarrow> u64" where
  "desc_base lo hi = (drop_bit 16 lo AND 0xFFFFFF) OR push_bit 24 (drop_bit 56 lo AND 0xFF) OR push_bit 32 hi"

definition desc_limit :: "u64 \<Rightarrow> u64" where
  "desc_limit lo = (lo AND 0xFFFF) OR push_bit 16 (drop_bit 48 lo AND 0xF)"

definition ltr :: "u16 \<Rightarrow> u64 list \<Rightarrow> (u64 list \<times> u64 \<times> u64) option" where
  "ltr sel gdt = (let i = unat sel div 8; lo = gdt ! i in
     if desc_type lo \<noteq> 9 \<or> \<not> bit lo 47 then None
     else Some (gdt[i := lo OR push_bit 41 1], desc_base lo (gdt ! Suc i), desc_limit lo))"

definition gdt_load :: "Statics \<Rightarrow> nat \<Rightarrow> u64 list list \<Rightarrow> (CpuRegs, string) result \<times> u64 list list" where
  "gdt_load at cpu gdts = (if MAX_CPUS \<le> cpu then (Err ''cpu id exceeds per-CPU GDT slots'', gdts)
     else (case ltr KERNEL_TSS (gdts ! cpu) of
         None \<Rightarrow> (Panic, gdts)
       | Some (gdt, base, limit) \<Rightarrow>
           (Ok \<lparr>gdtr_limit = of_nat (GDT_LEN * 8 - 1), gdtr_base = gdts_at at + of_nat (cpu * GDT_SIZE), cs = KERNEL_CS, segs = KERNEL_DS,
              tr = KERNEL_TSS, tr_base = base, tr_limit = limit\<rparr>, gdts[cpu := gdt])))"

section \<open>Interrupt gates\<close>

definition STUB_STRIDE :: u64 where "STUB_STRIDE = 16"

definition stub :: "Statics \<Rightarrow> u8 \<Rightarrow> u64" where
  "stub at vec = isr_stub_table at + ucast vec * STUB_STRIDE"

record IdtEntry =
  offset_low :: u16
  selector :: u16
  ist :: u8
  flags :: u8
  offset_mid :: u16
  offset_high :: u32
  reserved :: u32

definition empty_entry :: IdtEntry where
  "empty_entry = \<lparr>offset_low = 0, selector = 0, ist = 0, flags = 0, offset_mid = 0, offset_high = 0, reserved = 0\<rparr>"

definition gate :: "u64 \<Rightarrow> u8 \<Rightarrow> IdtEntry" where
  "gate offset i = \<lparr>offset_low = ucast offset, selector = KERNEL_CS, ist = i, flags = 0x8E,
     offset_mid = ucast (drop_bit 16 offset), offset_high = ucast (drop_bit 32 offset), reserved = 0\<rparr>"

definition idt_init :: "Statics \<Rightarrow> IdtEntry list \<Rightarrow> (unit, string) result \<times> IdtEntry list" where
  "idt_init at idt = (if stub at 1 - stub at 0 \<noteq> STUB_STRIDE then (Err ''ISR stub stride is not 16 bytes'', idt)
     else (Ok (), fold (\<lambda>vec idt. idt[vec := gate (stub at (of_nat vec)) (if vec = 8 then 1 else 0)]) [0..<256] idt))"

text \<open>The operand of \<^verbatim>\<open>lidt\<close>: limit and base.\<close>

definition idt_load :: "Statics \<Rightarrow> u16 \<times> u64" where
  "idt_load at = (256 * 16 - 1, idt_at at)"

text \<open>The address the processor takes from a gate.\<close>

definition gate_offset :: "IdtEntry \<Rightarrow> u64" where
  "gate_offset e = ucast (offset_low e) OR push_bit 16 (ucast (offset_mid e)) OR push_bit 32 (ucast (offset_high e))"

section \<open>Round trips\<close>

lemma gate_offset_gate: "gate_offset (gate offset i) = offset"
proof (rule bit_word_eqI)
  fix n :: nat
  assume "n < LENGTH(64)"
  then show "bit (gate_offset (gate offset i)) n \<longleftrightarrow> bit offset n"
    by (cases "n < 32") (auto simp: gate_offset_def gate_def bit_simps)
qed

text \<open>The descriptor bit by bit: limit in 0-15 and 48-51, base in 16-39 and 56-63, access byte 0x89 in 40-47.\<close>

lemma masks_of_descriptors: "0xFFFF = (mask 16 :: u64)" "0xFFFFFF = (mask 24 :: u64)" "0xFF = (mask 8 :: u64)" "0xF = (mask 4 :: u64)"
  "0x1F = (mask 5 :: u64)"
  by (simp_all add: mask_eq_exp_minus_1)

lemma access_byte: "bit (push_bit 40 0x89 :: u64) n \<longleftrightarrow> n = 40 \<or> n = 43 \<or> n = 47"
proof -
  have "push_bit 40 0x89 = push_bit 40 1 OR push_bit 43 1 OR push_bit 47 (1 :: u64)" by simp
  then have "bit (push_bit 40 0x89 :: u64) n \<longleftrightarrow> bit (push_bit 40 1 OR push_bit 43 1 OR push_bit 47 (1 :: u64)) n" by (rule arg_cong)
  also have "\<dots> \<longleftrightarrow> n = 40 \<or> n = 43 \<or> n = 47"
    unfolding bit_or_iff bit_push_bit_iff bit_1_iff possible_bit_word by auto
  finally show ?thesis .
qed

lemma bit_tss_low: "bit (fst (tss_descriptor base limit)) n \<longleftrightarrow>
    (n < 16 \<and> bit limit n) \<or> (16 \<le> n \<and> n < 40 \<and> bit base (n - 16)) \<or> n = 40 \<or> n = 43 \<or> n = 47 \<or>
    (48 \<le> n \<and> n < 52 \<and> bit limit (n - 32)) \<or> (56 \<le> n \<and> n < 64 \<and> bit base (n - 32))"
proof -
  define acc :: u64 where "acc = push_bit 40 0x89"
  have acc: "bit acc n \<longleftrightarrow> n = 40 \<or> n = 43 \<or> n = 47" unfolding acc_def by (rule access_byte)
  consider "n < 16" | "16 \<le> n" "n < 40" | "40 \<le> n" "n < 48" | "48 \<le> n" "n < 52" | "52 \<le> n" "n < 56" | "56 \<le> n" "n < 64" | "64 \<le> n"
    by linarith
  then show ?thesis
    unfolding tss_descriptor_def masks_of_descriptors fst_conv acc_def [symmetric]
    by cases (simp_all add: bit_or_iff bit_and_iff bit_push_bit_iff bit_drop_bit_eq bit_mask_iff acc less_diff_conv2)
qed

lemma tss_descriptor_high: "bit (snd (tss_descriptor base limit)) n \<longleftrightarrow> bit base (32 + n)"
  by (simp add: tss_descriptor_def bit_drop_bit_eq)

lemma bit_9_high: "5 \<le> n \<Longrightarrow> \<not> bit (9 :: u64) n"
proof -
  have "take_bit 5 9 = (9 :: u64)" by simp
  then show "5 \<le> n \<Longrightarrow> \<not> bit (9 :: u64) n" by (metis bit_take_bit_iff linorder_not_le)
qed

lemma tss_descriptor_base: "desc_base (fst (tss_descriptor base limit)) (snd (tss_descriptor base limit)) = base"
proof (rule bit_word_eqI)
  fix n :: nat
  assume "n < LENGTH(64)"
  then consider "n < 24" | "24 \<le> n" "n < 32" | "32 \<le> n" "n < 64" by fastforce
  then show "bit (desc_base (fst (tss_descriptor base limit)) (snd (tss_descriptor base limit))) n \<longleftrightarrow> bit base n"
    unfolding desc_base_def masks_of_descriptors
    by cases (simp_all add: bit_or_iff bit_and_iff bit_push_bit_iff bit_drop_bit_eq bit_mask_iff bit_tss_low less_diff_conv2 tss_descriptor_high)
qed

lemma tss_descriptor_limit:
  assumes "limit < 2 ^ 16"
  shows "desc_limit (fst (tss_descriptor base limit)) = limit"
proof (rule bit_word_eqI)
  fix n :: nat
  assume "n < LENGTH(64)"
  from assms have "unat limit < 2 ^ 16" by (simp add: word_less_nat_alt)
  then have "take_bit 16 limit = limit" by (simp add: word_unat_eq_iff unsigned_take_bit_eq take_bit_nat_eq_self_iff)
  then have small: "\<not> bit limit k" if "16 \<le> k" for k
    using that by (metis bit_take_bit_iff linorder_not_le)
  consider "n < 16" | "16 \<le> n" "n < 20" | "20 \<le> n" by linarith
  then show "bit (desc_limit (fst (tss_descriptor base limit))) n \<longleftrightarrow> bit limit n"
    unfolding desc_limit_def masks_of_descriptors
    by cases (simp_all add: bit_or_iff bit_and_iff bit_push_bit_iff bit_drop_bit_eq bit_mask_iff bit_tss_low less_diff_conv2 small)
qed

lemma tss_descriptor_type: "desc_type (fst (tss_descriptor base limit)) = 9" "bit (fst (tss_descriptor base limit)) 47"
proof -
  show "bit (fst (tss_descriptor base limit)) 47" by (simp add: bit_tss_low)
  show "desc_type (fst (tss_descriptor base limit)) = 9"
  proof (rule bit_word_eqI)
    fix n :: nat
    assume "n < LENGTH(64)"
    show "bit (desc_type (fst (tss_descriptor base limit))) n \<longleftrightarrow> bit (9 :: u64) n"
    proof (cases "n < 5")
      case True
      then consider "n = 0" | "n = 1" | "n = 2" | "n = 3" | "n = 4" by linarith
      then show ?thesis
        unfolding desc_type_def masks_of_descriptors
        by cases (simp_all add: bit_and_iff bit_drop_bit_eq bit_mask_iff bit_tss_low bit_numeral_rec)
    next
      case False
      then have "5 \<le> n" by simp
      with bit_9_high [OF this] False show ?thesis
        unfolding desc_type_def masks_of_descriptors bit_and_iff bit_mask_iff by blast
    qed
  qed
qed

section \<open>Loading\<close>

text \<open>What \<^verbatim>\<open>gdt::load\<close> leaves in the registers of a CPU.\<close>

definition loaded :: "Statics \<Rightarrow> nat \<Rightarrow> CpuRegs" where
  "loaded at cpu = \<lparr>gdtr_limit = 39, gdtr_base = gdts_at at + of_nat (cpu * 48), cs = 0x08, segs = 0x10, tr = 0x18,
     tr_base = tsss_at at + of_nat (cpu * 104), tr_limit = 103\<rparr>"

lemma ltr_fresh:
  "\<exists>gdt. ltr KERNEL_TSS (gdt_of at cpu) = Some (gdt, tsss_at at + of_nat (cpu * 104), 103)"
proof -
  obtain lo hi where d: "tss_descriptor (tsss_at at + of_nat (cpu * 104)) 103 = (lo, hi)" by (rule prod.exhaust)
  have "desc_base lo hi = tsss_at at + of_nat (cpu * 104)" "desc_limit lo = 103" "desc_type lo = 9" "bit lo 47"
    using tss_descriptor_base [of "tsss_at at + of_nat (cpu * 104)" 103] tss_descriptor_limit [of 103 "tsss_at at + of_nat (cpu * 104)"]
      tss_descriptor_type [of "tsss_at at + of_nat (cpu * 104)" 103] d by simp_all
  with d show ?thesis by (simp add: ltr_def gdt_of_def KERNEL_TSS_def TSS_SIZE_def Let_def)
qed

lemma gdt_load_fresh:
  assumes "cpu < MAX_CPUS" and "gdts ! cpu = gdt_of at cpu" and "length gdts = MAX_CPUS"
  shows "\<exists>gdt. gdt_load at cpu gdts = (Ok (loaded at cpu), gdts[cpu := gdt])"
proof -
  obtain gdt where "ltr KERNEL_TSS (gdt_of at cpu) = Some (gdt, tsss_at at + of_nat (cpu * 104), 103)"
    using ltr_fresh by blast
  with assms show ?thesis
    by (auto simp: gdt_load_def loaded_def GDT_LEN_def GDT_SIZE_def KERNEL_CS_def KERNEL_DS_def KERNEL_TSS_def)
qed

lemma gdt_load_busy:
  assumes "cpu < MAX_CPUS" and "gdts ! cpu = gdt_of at cpu" and "length gdts = MAX_CPUS"
    and "gdt_load at cpu gdts = (Ok regs, gdts')"
  shows "gdt_load at cpu gdts' = (Panic, gdts')"
proof -
  obtain lo hi where d: "gdt_of at cpu = [0, KERNEL_CODE, KERNEL_DATA, lo, hi]"
    unfolding gdt_of_def by (metis (no_types, lifting) case_prod_conv surj_pair)
  have "bit (desc_type (lo OR push_bit 41 1)) 1"
    unfolding desc_type_def masks_of_descriptors by (simp add: bit_simps)
  then have "desc_type (lo OR push_bit 41 1) \<noteq> 9" by (auto simp: bit_numeral_rec)
  with assms d show ?thesis
    by (auto simp: gdt_load_def ltr_def KERNEL_TSS_def Let_def split: if_splits)
qed

text \<open>CPUs load their tables one after another.\<close>

primrec load_each :: "Statics \<Rightarrow> nat list \<Rightarrow> u64 list list \<Rightarrow> (CpuRegs, string) result list" where
  "load_each at [] gdts = []"
| "load_each at (cpu # cpus) gdts = (let (res, gdts') = gdt_load at cpu gdts in res # load_each at cpus gdts')"

lemma load_each_fresh:
  assumes "distinct cpus" and "\<forall>cpu\<in>set cpus. cpu < MAX_CPUS \<and> gdts ! cpu = gdt_of at cpu" and "length gdts = MAX_CPUS"
  shows "load_each at cpus gdts = map (\<lambda>cpu. Ok (loaded at cpu)) cpus"
  using assms
proof (induction cpus arbitrary: gdts)
  case (Cons cpu cpus)
  then obtain gdt where "gdt_load at cpu gdts = (Ok (loaded at cpu), gdts[cpu := gdt])" using gdt_load_fresh by fastforce
  moreover have "load_each at cpus (gdts[cpu := gdt]) = map (\<lambda>cpu. Ok (loaded at cpu)) cpus"
    using Cons.prems by (intro Cons.IH) (auto simp: nth_list_update)
  ultimately show ?case by simp
qed simp

section \<open>The interrupt table\<close>

lemma idt_fill:
  assumes "length idt = 256" and "n \<le> 256"
  shows "length (fold (\<lambda>vec idt. idt[vec := f vec]) [0..<n] idt) = 256 \<and>
    (\<forall>i<256. fold (\<lambda>vec idt. idt[vec := f vec]) [0..<n] idt ! i = (if i < n then f i else idt ! i))"
  using assms(2) by (induction n) (use assms(1) in \<open>auto simp: nth_list_update less_Suc_eq\<close>)

lemma idt_init_gates:
  assumes "length idt = 256"
  shows "\<exists>idt'. idt_init at idt = (Ok (), idt') \<and> length idt' = 256 \<and>
    (\<forall>vec<256. idt' ! vec = gate (stub at (of_nat vec)) (if vec = 8 then 1 else 0))"
proof -
  have "stub at 1 - stub at 0 = STUB_STRIDE" by (simp add: stub_def)
  with idt_fill [OF assms order_refl] show ?thesis by (simp add: idt_init_def)
qed

end
