(* ===== verification/Serial.thy ===== *)
theory Serial
  imports CK_Prelude
begin

text \<open>
  The serial port and the exits, \<^verbatim>\<open>crates/root-court/src/serial.rs\<close>, over what the code does to the devices of its CPU. The
  status register of the port is read until the transmitter is empty: the model gets the values it
  reads as a list, and has not returned when the list ends.
\<close>

datatype Effect =
    Outb u16 u8
  | Wrmsr u32 u32 u32
  | LoadCr3 u64
  | Sti
  | Cli
  | Hlt
  | Print string

text \<open>
  \<^verbatim>\<open>Print\<close> stands for the bytes of a line on the port: \<open>write_str\<close> below says what they are. The other effects are
  single instructions.
\<close>

definition COM1 :: u16 where "COM1 = 0x3F8"
definition ISA_DEBUG_EXIT :: u16 where "ISA_DEBUG_EXIT = 0xF4"

definition serial_init :: "Effect list" where
  "serial_init = [Outb (COM1 + 1) 0x00, Outb (COM1 + 3) 0x80, Outb COM1 0x03, Outb (COM1 + 1) 0x00, Outb (COM1 + 3) 0x03,
     Outb (COM1 + 2) 0xC7, Outb (COM1 + 4) 0x0B]"

fun write_byte :: "u8 \<Rightarrow> u8 list \<Rightarrow> (Effect list \<times> u8 list) option" where
  "write_byte byte [] = None"
| "write_byte byte (status # later) = (if status AND 0x20 = 0 then write_byte byte later else Some ([Outb COM1 byte], later))"

fun write_bytes :: "u8 list \<Rightarrow> u8 list \<Rightarrow> (Effect list \<times> u8 list) option" where
  "write_bytes [] seen = Some ([], seen)"
| "write_bytes (byte # rest) seen = (case write_byte byte seen of
      None \<Rightarrow> None
    | Some (out, seen) \<Rightarrow> (case write_bytes rest seen of None \<Rightarrow> None | Some (outs, seen) \<Rightarrow> Some (out @ outs, seen)))"

text \<open>A newline goes out as carriage return and newline.\<close>

fun crlf :: "u8 list \<Rightarrow> u8 list" where
  "crlf [] = []"
| "crlf (byte # rest) = (if byte = 10 then 13 # byte # crlf rest else byte # crlf rest)"

definition write_str :: "string \<Rightarrow> u8 list \<Rightarrow> (Effect list \<times> u8 list) option" where
  "write_str s seen = write_bytes (crlf (map of_char s)) seen"

definition println :: "string \<Rightarrow> Effect list" where
  "println line = [Print (line @ [char_of (10 :: nat)])]"

definition hcf :: "Effect list" where
  "hcf = [Cli, Hlt]"

definition qemu_exit_success :: "Effect list" where
  "qemu_exit_success = Outb ISA_DEBUG_EXIT 0x10 # hcf"

definition qemu_exit_failure :: "Effect list" where
  "qemu_exit_failure = Outb ISA_DEBUG_EXIT 0x11 # hcf"

section \<open>What arrives\<close>

definition ready :: "u8 list \<Rightarrow> nat" where
  "ready seen = length (filter (\<lambda>status. status AND 0x20 \<noteq> 0) seen)"

lemma write_byte_ready:
  "write_byte byte seen = (if ready seen = 0 then None else Some ([Outb COM1 byte], tl (dropWhile (\<lambda>status. status AND 0x20 = 0) seen)))"
  by (induction byte seen rule: write_byte.induct) (simp_all add: ready_def)

lemma ready_after: "ready seen \<noteq> 0 \<Longrightarrow> ready (tl (dropWhile (\<lambda>status. status AND 0x20 = 0) seen)) = ready seen - 1"
  by (induction seen) (auto simp: ready_def)

lemma write_bytes_ready:
  "length bytes \<le> ready seen \<Longrightarrow> \<exists>seen'. write_bytes bytes seen = Some (map (Outb COM1) bytes, seen')"
proof (induction bytes arbitrary: seen)
  case (Cons byte rest)
  then have "ready seen \<noteq> 0" by auto
  moreover from Cons ready_after [OF this] obtain seen' where
    "write_bytes rest (tl (dropWhile (\<lambda>status. status AND 0x20 = 0) seen)) = Some (map (Outb COM1) rest, seen')" by fastforce
  ultimately show ?case by (simp add: write_byte_ready)
qed simp

lemma write_bytes_only:
  "write_bytes bytes seen = Some (out, seen') \<Longrightarrow> out = map (Outb COM1) bytes"
  by (induction bytes arbitrary: seen out) (auto simp: write_byte_ready split: option.splits prod.splits if_splits)

text \<open>A terminal that drops the carriage returns shows the text, if it has none of its own.\<close>

lemma crlf_shows: "13 \<notin> set bytes \<Longrightarrow> filter (\<lambda>byte. byte \<noteq> 13) (crlf bytes) = bytes"
  by (induction bytes) auto

lemma crlf_length: "length (crlf bytes) = length bytes + length (filter (\<lambda>byte. byte = 10) bytes)"
  by (induction bytes) auto

end
