(* ===== verification/Interrupts.thy ===== *)
theory Interrupts
  imports Descriptor_Tables Serial
begin

text \<open>
  The path of an interrupt, \<^verbatim>\<open>idt_stubs.s\<close> and \<^verbatim>\<open>isr_common\<close>, \<^verbatim>\<open>isr_dispatch\<close> of \<^verbatim>\<open>crates/root-court/src/idt.rs\<close>, and the local
  interrupt controller of \<^verbatim>\<open>apic.rs\<close>. The assembly is a sequence of pushes and pops on the general registers,
  the stack pointer and memory in words of eight bytes.
\<close>

section \<open>Registers and the stack\<close>

datatype Reg = RAX | RBX | RCX | RDX | RSI | RDI | RBP | R8 | R9 | R10 | R11 | R12 | R13 | R14 | R15

record Cpu =
  regs :: "Reg \<Rightarrow> u64"
  rsp :: u64
  words :: "u64 \<Rightarrow> u64"

definition push_word :: "u64 \<Rightarrow> Cpu \<Rightarrow> Cpu" where
  "push_word w c = c\<lparr>rsp := rsp c - 8, words := (words c)(rsp c - 8 := w)\<rparr>"

definition push_reg :: "Reg \<Rightarrow> Cpu \<Rightarrow> Cpu" where
  "push_reg r c = push_word (regs c r) c"

definition pop_reg :: "Reg \<Rightarrow> Cpu \<Rightarrow> Cpu" where
  "pop_reg r c = c\<lparr>regs := (regs c)(r := words c (rsp c)), rsp := rsp c + 8\<rparr>"

section \<open>Delivery and stubs\<close>

text \<open>What the processor pushes when it delivers an interrupt: the state to return to, and for some vectors an error code.\<close>

record Return =
  ret_rip :: u64
  ret_cs :: u64
  ret_rflags :: u64
  ret_rsp :: u64
  ret_ss :: u64

definition error_code_vectors :: "nat set" where
  "error_code_vectors = {8, 10, 11, 12, 13, 14, 17, 21}"

definition deliver :: "nat \<Rightarrow> u64 \<Rightarrow> Return \<Rightarrow> Cpu \<Rightarrow> Cpu" where
  "deliver vec err ret c =
     (let c = push_word (ret_rip ret) (push_word (ret_cs ret) (push_word (ret_rflags ret) (push_word (ret_rsp ret) (push_word (ret_ss ret) c))))
      in if vec \<in> error_code_vectors then push_word err c else c)"

text \<open>The stub of a vector pushes a zero where the processor pushed no error code, then the vector.\<close>

definition isr_stub :: "nat \<Rightarrow> Cpu \<Rightarrow> Cpu" where
  "isr_stub vec c = push_word (of_nat vec) (if vec \<in> error_code_vectors then c else push_word 0 c)"

section \<open>The common handler\<close>

definition saved :: "Reg list" where
  "saved = [RAX, RBX, RCX, RDX, RSI, RDI, RBP, R8, R9, R10, R11, R12, R13, R14, R15]"

text \<open>\<^verbatim>\<open>InterruptFrame\<close>: the words from the stack pointer up, in the order of its fields.\<close>

definition frame_words :: "Cpu \<Rightarrow> nat \<Rightarrow> u64" where
  "frame_words c i = words c (rsp c + of_nat (8 * i))"

record InterruptFrame =
  fr_regs :: "Reg \<Rightarrow> u64"
  fr_vector :: u64
  fr_error :: u64
  fr_return :: Return

fun frame_slot :: "Reg \<Rightarrow> nat" where
  "frame_slot R15 = 0"
| "frame_slot R14 = 1"
| "frame_slot R13 = 2"
| "frame_slot R12 = 3"
| "frame_slot R11 = 4"
| "frame_slot R10 = 5"
| "frame_slot R9 = 6"
| "frame_slot R8 = 7"
| "frame_slot RBP = 8"
| "frame_slot RDI = 9"
| "frame_slot RSI = 10"
| "frame_slot RDX = 11"
| "frame_slot RCX = 12"
| "frame_slot RBX = 13"
| "frame_slot RAX = 14"

definition frame_at :: "Cpu \<Rightarrow> InterruptFrame" where
  "frame_at c = \<lparr>fr_regs = (\<lambda>r. frame_words c (frame_slot r)), fr_vector = frame_words c 15, fr_error = frame_words c 16,
     fr_return = \<lparr>ret_rip = frame_words c 17, ret_cs = frame_words c 18, ret_rflags = frame_words c 19,
       ret_rsp = frame_words c 20, ret_ss = frame_words c 21\<rparr>\<rparr>"

text \<open>
  \<^verbatim>\<open>isr_common\<close>: save the registers, pass the stack pointer as the frame, align the stack, call, and undo. The
  call is an argument, a function of the processor with the aligned stack; the result is the state
  \<^verbatim>\<open>iretq\<close> starts from.
\<close>

definition isr_save :: "Cpu \<Rightarrow> Cpu" where
  "isr_save c = fold push_reg saved c"

definition isr_enter :: "Cpu \<Rightarrow> Cpu" where
  "isr_enter c = (let c = isr_save c in c\<lparr>regs := (regs c)(RDI := rsp c, RBP := rsp c), rsp := rsp c AND NOT 0xF\<rparr>)"

definition isr_restore :: "Cpu \<Rightarrow> Cpu" where
  "isr_restore c = (let c = fold pop_reg (rev saved) (c\<lparr>rsp := regs c RBP\<rparr>) in c\<lparr>rsp := rsp c + 16\<rparr>)"

definition isr_common :: "(Cpu \<Rightarrow> Cpu) \<Rightarrow> Cpu \<Rightarrow> Cpu" where
  "isr_common dispatch c = isr_restore (dispatch (isr_enter c))"

text \<open>\<^verbatim>\<open>iretq\<close> pops what the processor pushed.\<close>

definition iretq :: "Cpu \<Rightarrow> Return \<times> Cpu" where
  "iretq c = (\<lparr>ret_rip = frame_words c 0, ret_cs = frame_words c 1, ret_rflags = frame_words c 2, ret_rsp = frame_words c 3,
     ret_ss = frame_words c 4\<rparr>, c\<lparr>rsp := frame_words c 3\<rparr>)"

text \<open>
  What the handler keeps, by the calling convention: \<^verbatim>\<open>rbp\<close>, and the 22 words of the frame, which it has by a
  shared reference.
\<close>

definition keeps_frame :: "Cpu \<Rightarrow> Cpu \<Rightarrow> bool" where
  "keeps_frame c c' \<longleftrightarrow> regs c' RBP = regs c RBP \<and>
     (\<forall>i<22. words c' (regs c RDI + of_nat (8 * i)) = words c (regs c RDI + of_nat (8 * i)))"

section \<open>The interrupt controller\<close>

definition TIMER_VECTOR :: u8 where "TIMER_VECTOR = 0x20"
definition IPI_VECTOR :: u8 where "IPI_VECTOR = 0x30"
definition SPURIOUS_VECTOR :: u8 where "SPURIOUS_VECTOR = 0xFF"
definition IA32_APIC_BASE :: u32 where "IA32_APIC_BASE = 0x1B"
definition APIC_BASE_ENABLE :: u64 where "APIC_BASE_ENABLE = push_bit 11 1"
definition APIC_BASE_X2APIC :: u64 where "APIC_BASE_X2APIC = push_bit 10 1"
definition MSR_APIC_ID :: u32 where "MSR_APIC_ID = 0x802"
definition MSR_EOI :: u32 where "MSR_EOI = 0x80B"
definition MSR_SVR :: u32 where "MSR_SVR = 0x80F"
definition MSR_ICR :: u32 where "MSR_ICR = 0x830"
definition MSR_LVT_TIMER :: u32 where "MSR_LVT_TIMER = 0x832"
definition MSR_TIMER_INIT :: u32 where "MSR_TIMER_INIT = 0x838"
definition MSR_TIMER_DIV :: u32 where "MSR_TIMER_DIV = 0x83E"
definition SVR_APIC_ENABLE :: u64 where "SVR_APIC_ENABLE = push_bit 8 1"
definition LVT_MASK :: u64 where "LVT_MASK = push_bit 16 1"
definition LVT_PERIODIC :: u64 where "LVT_PERIODIC = push_bit 17 1"
definition TIMER_DIVIDE_BY_1 :: u64 where "TIMER_DIVIDE_BY_1 = 11"
definition ICR_DEST_SELF :: u64 where "ICR_DEST_SELF = push_bit 18 1"
definition ICR_DEST_ALL_EXCL_SELF :: u64 where "ICR_DEST_ALL_EXCL_SELF = push_bit 18 3"
definition PIC1_DATA :: u16 where "PIC1_DATA = 0x21"
definition PIC2_DATA :: u16 where "PIC2_DATA = 0xA1"

text \<open>A model-specific register is written and read as two halves of 32 bits.\<close>

definition wrmsr :: "u32 \<Rightarrow> u64 \<Rightarrow> Effect" where
  "wrmsr msr val = Wrmsr msr (ucast val) (ucast (drop_bit 32 val))"

definition rdmsr :: "u32 \<times> u32 \<Rightarrow> u64" where
  "rdmsr halves = (case halves of (lo, hi) \<Rightarrow> push_bit 32 (ucast hi) OR ucast lo)"

definition mask_legacy_pic :: "Effect list" where
  "mask_legacy_pic = [Outb PIC1_DATA 0xFF, Outb PIC2_DATA 0xFF]"

text \<open>The CPU says whether it has an x2APIC (bit 21 of \<^verbatim>\<open>ecx\<close>) and what the two registers that are read hold.\<close>

record Features =
  cpuid1_ecx :: u32
  apic_base :: "u32 \<times> u32"
  apic_id :: "u32 \<times> u32"

definition has_x2apic :: "Features \<Rightarrow> bool" where
  "has_x2apic f \<longleftrightarrow> cpuid1_ecx f AND push_bit 21 1 \<noteq> 0"

definition apic_id_of :: "Features \<Rightarrow> u32" where
  "apic_id_of f = ucast (rdmsr (apic_id f))"

definition enable_x2apic :: "Features \<Rightarrow> (u32, string) result \<times> Effect list" where
  "enable_x2apic f = (if \<not> has_x2apic f then (Err ''CPUID reports no x2APIC'', [])
     else (Ok (apic_id_of f),
       [wrmsr IA32_APIC_BASE (rdmsr (apic_base f) OR (APIC_BASE_ENABLE OR APIC_BASE_X2APIC)),
        wrmsr MSR_SVR (ucast SPURIOUS_VECTOR OR SVR_APIC_ENABLE),
        wrmsr MSR_LVT_TIMER (LVT_MASK OR ucast TIMER_VECTOR)]))"

definition eoi :: "Effect list" where
  "eoi = [wrmsr MSR_EOI 0]"

definition start_timer :: "u32 \<Rightarrow> Effect list" where
  "start_timer initial_count = [wrmsr MSR_TIMER_DIV TIMER_DIVIDE_BY_1,
     wrmsr MSR_LVT_TIMER (ucast TIMER_VECTOR OR LVT_PERIODIC),
     wrmsr MSR_TIMER_INIT (ucast initial_count)]"

definition mask_timer :: "Effect list" where
  "mask_timer = [wrmsr MSR_LVT_TIMER (LVT_MASK OR ucast TIMER_VECTOR)]"

definition send_ipi_self :: "Effect list" where
  "send_ipi_self = [wrmsr MSR_ICR (ucast IPI_VECTOR OR ICR_DEST_SELF)]"

definition send_ipi_all_except_self :: "Effect list" where
  "send_ipi_all_except_self = [wrmsr MSR_ICR (ucast IPI_VECTOR OR ICR_DEST_ALL_EXCL_SELF)]"

section \<open>Dispatch\<close>

record Counters =
  timer_ticks :: u32
  ipi_pong :: u32

datatype Dispatched = Returns | Exits

text \<open>The report of an unexpected vector is written without the lock of the port.\<close>

definition isr_dispatch :: "u64 \<Rightarrow> InterruptFrame \<Rightarrow> Counters \<Rightarrow> Dispatched \<times> Counters \<times> Effect list" where
  "isr_dispatch cr2 frame k =
     (if fr_vector frame = ucast TIMER_VECTOR then (Returns, k\<lparr>timer_ticks := timer_ticks k + 1\<rparr>, eoi)
      else if fr_vector frame = ucast IPI_VECTOR then (Returns, k\<lparr>ipi_pong := ipi_pong k + 1\<rparr>, eoi)
      else if fr_vector frame = ucast SPURIOUS_VECTOR then (Returns, k, [])
      else (Exits, k, println (''exception vec='' @ digits (unat (fr_vector frame)) @ '' err='' @ hex (unat (fr_error frame)) @ '' rip='' @
        hex (unat (ret_rip (fr_return frame))) @ '' cr2='' @ hex (unat cr2)) @ qemu_exit_failure))"

section \<open>Interrupts are transparent\<close>

lemma below_apart:
  assumes "i < 22"
  shows "(a :: u64) - 8 \<noteq> a + of_nat (8 * i)"
proof
  assume "a - 8 = a + of_nat (8 * i)"
  then have "(of_nat (8 * i + 8) :: u64) = 0" by (simp add: algebra_simps)
  moreover have "unat (of_nat (8 * i + 8) :: u64) = 8 * i + 8"
    using assms by (simp only: unat_of_nat) simp
  ultimately show False by simp
qed

lemma push_word_frame:
  "rsp (push_word w c) = rsp c - 8" "regs (push_word w c) = regs c" "frame_words (push_word w c) 0 = w"
  "i < 22 \<Longrightarrow> frame_words (push_word w c) (Suc i) = frame_words c i"
  using below_apart [of i "rsp c"] by (simp_all add: push_word_def frame_words_def algebra_simps)

lemma fold_push_frame:
  assumes "length ws \<le> 22"
  shows "rsp (fold push_word ws c) = rsp c - of_nat (8 * length ws)" "regs (fold push_word ws c) = regs c"
    "i < length ws \<Longrightarrow> frame_words (fold push_word ws c) i = rev ws ! i"
proof -
  have "rsp (fold push_word ws c) = rsp c - of_nat (8 * length ws) \<and> regs (fold push_word ws c) = regs c \<and>
      (\<forall>i<length ws. frame_words (fold push_word ws c) i = rev ws ! i)"
    using assms
  proof (induction ws rule: rev_induct)
    case (snoc w ws)
    then show ?case by (auto simp: push_word_frame less_Suc_eq_0_disj algebra_simps)
  qed simp
  then show "rsp (fold push_word ws c) = rsp c - of_nat (8 * length ws)" "regs (fold push_word ws c) = regs c"
    "i < length ws \<Longrightarrow> frame_words (fold push_word ws c) i = rev ws ! i" by blast+
qed

lemma fold_push_reg: "fold push_reg rs c = fold push_word (map (regs c) rs) c"
proof (induction rs arbitrary: c)
  case (Cons r rs)
  from Cons.IH [of "push_reg r c"] show ?case by (simp add: push_reg_def push_word_frame)
qed simp

text \<open>The 22 words on the stack when the handler runs, in the order they were pushed.\<close>

definition pushed :: "nat \<Rightarrow> u64 \<Rightarrow> Return \<Rightarrow> (Reg \<Rightarrow> u64) \<Rightarrow> u64 list" where
  "pushed vec err ret rs = [ret_ss ret, ret_rsp ret, ret_rflags ret, ret_cs ret, ret_rip ret,
     if vec \<in> error_code_vectors then err else 0, of_nat vec] @ map rs saved"

lemma isr_save_pushed: "isr_save (isr_stub vec (deliver vec err ret c)) = fold push_word (pushed vec err ret (regs c)) c"
  unfolding isr_save_def fold_push_reg pushed_def fold_append comp_apply
  by (simp add: isr_stub_def deliver_def Let_def push_word_frame)

lemma length_pushed: "length (pushed vec err ret rs) = 22"
  by (simp add: pushed_def saved_def)

lemma fold_pop_frame:
  assumes "distinct rs"
  shows "rsp (fold pop_reg rs c) = rsp c + of_nat (8 * length rs)" "words (fold pop_reg rs c) = words c"
    "i < length rs \<Longrightarrow> regs (fold pop_reg rs c) (rs ! i) = frame_words c i"
proof -
  have "rsp (fold pop_reg rs c) = rsp c + of_nat (8 * length rs) \<and> words (fold pop_reg rs c) = words c \<and>
      (\<forall>i<length rs. regs (fold pop_reg rs c) (rs ! i) = frame_words c i)"
    using assms
  proof (induction rs rule: rev_induct)
    case (snoc r rs)
    then show ?case by (auto simp: pop_reg_def frame_words_def less_Suc_eq nth_append algebra_simps)
  qed simp
  then show "rsp (fold pop_reg rs c) = rsp c + of_nat (8 * length rs)" "words (fold pop_reg rs c) = words c"
    "i < length rs \<Longrightarrow> regs (fold pop_reg rs c) (rs ! i) = frame_words c i" by blast+
qed

lemma saved_slot: "frame_slot r < 15" "rev saved ! frame_slot r = r"
  by (cases r; simp add: saved_def)+

lemma saved_facts: "distinct (rev saved)" "length (rev saved) = 15"
  by (simp_all add: saved_def)

lemma pushed_words:
  "rev (pushed vec err ret rs) ! frame_slot r = rs r"
  "rev (pushed vec err ret rs) ! 15 = of_nat vec"
  "rev (pushed vec err ret rs) ! 16 = (if vec \<in> error_code_vectors then err else 0)"
  "rev (pushed vec err ret rs) ! 17 = ret_rip ret" "rev (pushed vec err ret rs) ! 18 = ret_cs ret"
  "rev (pushed vec err ret rs) ! 19 = ret_rflags ret" "rev (pushed vec err ret rs) ! 20 = ret_rsp ret"
  "rev (pushed vec err ret rs) ! 21 = ret_ss ret"
  by (cases r; simp add: pushed_def saved_def) (simp_all add: pushed_def saved_def)

text \<open>What the handler sees, and what is left when it returns.\<close>

lemma isr_frame:
  assumes "c1 = isr_stub vec (deliver vec err ret c)"
  shows "frame_at (isr_save c1) = \<lparr>fr_regs = regs c, fr_vector = of_nat vec, fr_error = (if vec \<in> error_code_vectors then err else 0), fr_return = ret\<rparr>"
proof -
  have "frame_words (isr_save c1) i = rev (pushed vec err ret (regs c)) ! i" if "i < 22" for i
    unfolding assms isr_save_pushed using that by (intro fold_push_frame(3)) (simp_all add: length_pushed)
  then show ?thesis using saved_slot(1) by (simp add: frame_at_def pushed_words less_trans [OF saved_slot(1)] fun_eq_iff)
qed

lemma isr_returns:
  assumes "c1 = isr_stub vec (deliver vec err ret c)" and "keeps_frame (isr_enter c1) (dispatch (isr_enter c1))"
    and "isr_common dispatch c1 = c2"
  shows "regs c2 = regs c" "iretq c2 = (ret, c2\<lparr>rsp := ret_rsp ret\<rparr>)"
proof -
  let ?s = "isr_save c1" and ?d = "(dispatch (isr_enter c1))\<lparr>rsp := rsp (isr_save c1)\<rparr>"
  have f: "frame_words ?s i = rev (pushed vec err ret (regs c)) ! i" if "i < 22" for i
    unfolding assms(1) isr_save_pushed using that by (intro fold_push_frame(3)) (simp_all add: length_pushed)
  have k: "regs (dispatch (isr_enter c1)) RBP = rsp ?s" "frame_words ?d i = frame_words ?s i" if "i < 22" for i
    using assms(2) that by (simp_all add: keeps_frame_def isr_enter_def Let_def frame_words_def)
  have c2: "c2 = (fold pop_reg (rev saved) ?d)\<lparr>rsp := rsp (fold pop_reg (rev saved) ?d) + 16\<rparr>"
    using assms(3) k(1) [of 0] by (simp add: isr_common_def isr_restore_def Let_def)
  note pop = fold_pop_frame [OF saved_facts(1), unfolded saved_facts(2)]
  show "regs c2 = regs c"
  proof
    fix r
    have "regs c2 r = frame_words ?d (frame_slot r)" unfolding c2 using pop(3) [OF saved_slot(1), of ?d r] by (simp add: saved_slot(2))
    also have "\<dots> = regs c r" using k(2) [of "frame_slot r"] f [of "frame_slot r"] less_trans [OF saved_slot(1), of 22 r] by (simp add: pushed_words)
    finally show "regs c2 r = regs c r" .
  qed
  have up: "frame_words c2 i = frame_words ?d (i + 17)" for i
    unfolding c2 frame_words_def by (simp add: pop algebra_simps)
  have "frame_words c2 i = rev (pushed vec err ret (regs c)) ! (i + 17)" if "i < 5" for i
    unfolding up using k(2) [of "i + 17"] f [of "i + 17"] that by simp
  from this [of 0] this [of 1] this [of 2] this [of 3] this [of 4]
  show "iretq c2 = (ret, c2\<lparr>rsp := ret_rsp ret\<rparr>)" by (simp add: iretq_def pushed_words)
qed

end
