(* ===== verification/Limine.thy ===== *)
theory Limine
  imports Utf8 Bump_Allocator
begin

text \<open>
  The requests of the boot protocol, \<^verbatim>\<open>crates/root-court/src/limine_abi.rs\<close>, and the statics of \<^verbatim>\<open>main.rs\<close> that hold them. A
  response is a pointer the bootloader stores in the request, null when it has none: here an
  option of what it points to.
\<close>

definition COMMON_MAGIC :: "u64 list" where
  "COMMON_MAGIC = [0xc7b1dd30df4c8b88, 0x0a82e883a194f07b]"

definition BASE_REVISION_MAGIC :: "u64 list" where
  "BASE_REVISION_MAGIC = [0xf9562b2d5c95a6c8, 0x6a7b384944536bdc]"

definition REQUESTS_START_MARKER :: "u64 list" where
  "REQUESTS_START_MARKER = [0xf6b8f4b39de7d1ae, 0xfab91a6940fcb9cf, 0x785c6ed015d3e316, 0x181e920a7852b9d9]"

definition REQUESTS_END_MARKER :: "u64 list" where
  "REQUESTS_END_MARKER = [0xadc0e0531bb10d03, 0x9572709f31764c62]"

record BaseRevision =
  br_magic :: "u64 list"
  br_revision :: u64

definition base_revision_new :: "u64 \<Rightarrow> BaseRevision" where
  "base_revision_new revision = \<lparr>br_magic = BASE_REVISION_MAGIC, br_revision = revision\<rparr>"

definition loaded_revision :: "BaseRevision \<Rightarrow> u64" where
  "loaded_revision r = br_magic r ! 1"

definition loaded_revision_valid :: "BaseRevision \<Rightarrow> bool" where
  "loaded_revision_valid r \<longleftrightarrow> loaded_revision r \<noteq> BASE_REVISION_MAGIC ! 1"

definition is_supported :: "BaseRevision \<Rightarrow> bool" where
  "is_supported r \<longleftrightarrow> br_revision r = 0"

record ('e, 'r) Request =
  rq_id :: "u64 list"
  rq_revision :: u64
  rq_response :: "'r option"
  rq_extra :: 'e

definition request_new :: "u64 list \<Rightarrow> 'e \<Rightarrow> ('e, 'r) Request" where
  "request_new rid extra = \<lparr>rq_id = [COMMON_MAGIC ! 0, COMMON_MAGIC ! 1, rid ! 0, rid ! 1], rq_revision = 0, rq_response = None,
     rq_extra = extra\<rparr>"

definition response :: "('e, 'r) Request \<Rightarrow> 'r option" where
  "response r = rq_response r"

section \<open>Responses\<close>

text \<open>A C string is its bytes up to the terminator.\<close>

record BootloaderInfoResponse =
  bi_name :: bytes
  bi_version :: bytes

definition info_text :: "bytes \<Rightarrow> string" where
  "info_text bs = (case from_utf8 bs of Some s \<Rightarrow> s | None \<Rightarrow> ''?'')"

record FirmwareTypeResponse =
  firmware_type :: u64

record HhdmResponse =
  hhdm_offset :: u64

record ExecutableAddressResponse =
  physical_base :: u64
  virtual_base :: u64

record PagingModeResponse =
  paging_mode :: u64

record MemmapResponse =
  mm_entries :: "MemmapEntry list"

record MpInfo =
  processor_id :: u32
  lapic_id :: u32
  goto_address :: u64
  extra_argument :: u64

definition mp_start :: "u64 \<Rightarrow> MpInfo \<Rightarrow> MpInfo" where
  "mp_start entry info = info\<lparr>goto_address := entry\<rparr>"

record MpResponse =
  mp_flags :: u32
  bsp_lapic_id :: u32
  mp_cpus :: "MpInfo list"

definition PAGING_MODE_X86_64_4LVL :: u64 where "PAGING_MODE_X86_64_4LVL = 0"
definition MP_X2APIC :: u64 where "MP_X2APIC = 1"
definition FIRMWARE_UEFI64 :: u64 where "FIRMWARE_UEFI64 = 2"

section \<open>The requests\<close>

definition bootloader_info_request :: "(unit, BootloaderInfoResponse) Request" where
  "bootloader_info_request = request_new [0xf55038d8e2a1202f, 0x279426fcf5f59740] ()"

definition firmware_type_request :: "(unit, FirmwareTypeResponse) Request" where
  "firmware_type_request = request_new [0x8c2f75d90bef28a8, 0x7045a4688eac00c3] ()"

definition hhdm_request :: "(unit, HhdmResponse) Request" where
  "hhdm_request = request_new [0x48dcf1cb8ad2b852, 0x63984e959a98244b] ()"

definition executable_address_request :: "(unit, ExecutableAddressResponse) Request" where
  "executable_address_request = request_new [0x71ba76863cc55f63, 0xb2644a48c516a487] ()"

text \<open>The paging-mode request has three words after the response: mode, greatest and least mode.\<close>

definition paging_mode_request :: "(u64 \<times> u64 \<times> u64, PagingModeResponse) Request" where
  "paging_mode_request = request_new [0x95c1a0edab0944cb, 0xa4e5cb3842f7488a]
     (PAGING_MODE_X86_64_4LVL, PAGING_MODE_X86_64_4LVL, PAGING_MODE_X86_64_4LVL)"

definition stack_size_request :: "u64 \<Rightarrow> (u64, unit) Request" where
  "stack_size_request n = request_new [0x224ef0460a8e8926, 0xe1cb0fc25f46ea3d] n"

definition memmap_request :: "(unit, MemmapResponse) Request" where
  "memmap_request = request_new [0x67cf3d9d378a806f, 0xe304acdfc50c3c62] ()"

definition mp_request :: "u64 \<Rightarrow> (u64, MpResponse) Request" where
  "mp_request flags = request_new [0x95a67b819a1b857e, 0xa0b61b723b6a73e0] flags"

text \<open>The statics of \<^verbatim>\<open>main.rs\<close>, as linked.\<close>

record Requests =
  BASE_REVISION :: BaseRevision
  STACK_SIZE_REQ :: "(u64, unit) Request"
  BOOTLOADER_INFO :: "(unit, BootloaderInfoResponse) Request"
  FIRMWARE :: "(unit, FirmwareTypeResponse) Request"
  HHDM :: "(unit, HhdmResponse) Request"
  EXECUTABLE :: "(unit, ExecutableAddressResponse) Request"
  PAGING_MODE :: "(u64 \<times> u64 \<times> u64, PagingModeResponse) Request"
  MEMMAP :: "(unit, MemmapResponse) Request"
  MP :: "(u64, MpResponse) Request"

definition linked_requests :: Requests where
  "linked_requests = \<lparr>BASE_REVISION = base_revision_new 3, STACK_SIZE_REQ = stack_size_request 0x10000,
     BOOTLOADER_INFO = bootloader_info_request, FIRMWARE = firmware_type_request, HHDM = hhdm_request,
     EXECUTABLE = executable_address_request, PAGING_MODE = paging_mode_request, MEMMAP = memmap_request,
     MP = mp_request MP_X2APIC\<rparr>"

text \<open>No two requests have the same id, and no response is there before the bootloader stores one.\<close>

lemma linked_requests_fresh:
  "distinct [rq_id (STACK_SIZE_REQ linked_requests), rq_id (BOOTLOADER_INFO linked_requests), rq_id (FIRMWARE linked_requests),
     rq_id (HHDM linked_requests), rq_id (EXECUTABLE linked_requests), rq_id (PAGING_MODE linked_requests),
     rq_id (MEMMAP linked_requests), rq_id (MP linked_requests)]"
  "response (HHDM linked_requests) = None" "response (MEMMAP linked_requests) = None" "response (MP linked_requests) = None"
  by (simp_all add: linked_requests_def request_new_def stack_size_request_def bootloader_info_request_def firmware_type_request_def
      hhdm_request_def executable_address_request_def paging_mode_request_def memmap_request_def mp_request_def response_def)

end
