(* ===== verification/Boot.thy ===== *)
theory Boot
  imports Interrupts Limine Courtlets
begin

text \<open>
  The boot of Root Court, \<^verbatim>\<open>crates/root-court/src/main.rs\<close>: \<^verbatim>\<open>kmain\<close> on the bootloader's stack, \<^verbatim>\<open>kmain_on_kstack\<close> on its own, and
  \<^verbatim>\<open>ap_entry\<close> on the other CPUs. What the CPU does to its devices, its output lines included, is
  collected in order. A wait reads a counter that interrupts and other CPUs change: the values it
  reads are an argument, and the boot is still waiting where they end.
\<close>

section \<open>State\<close>

record Hardware =
  hw_at :: Statics
  hw_bounds :: "u64 \<times> u64"
  hw_ap_entry :: u64
  hw_features :: Features
  hw_limine_rsp :: u64
  hw_kernel_rsp :: u64

record Boot =
  bt_mc :: Machine
  bt_tops :: "u64 list"
  bt_gdts :: "u64 list list"
  bt_tsss :: "Tss list"
  bt_idt :: "IdtEntry list"
  bt_regs :: "CpuRegs option"
  bt_idtr :: "(u16 \<times> u64) option"
  bt_root :: RootCourt
  bt_mps :: "MpInfo list"
  bt_ready :: u32
  bt_out :: "Effect list"

text \<open>Why the boot does not go on: it has exited with failure, or waits for more readings.\<close>

datatype Stop = Failed | Waiting

type_synonym 'a booting = "('a, Stop) result \<times> Boot"

definition emit :: "Effect list \<Rightarrow> Boot \<Rightarrow> Boot" where
  "emit es b = b\<lparr>bt_out := bt_out b @ es\<rparr>"

definition say :: "string \<Rightarrow> Boot \<Rightarrow> Boot" where
  "say line b = emit (println line) b"

definition die :: "string \<Rightarrow> Boot \<Rightarrow> 'a booting" where
  "die line b = (Err Failed, emit (println line @ qemu_exit_failure) b)"

definition panic_handler :: "string \<Rightarrow> Effect list" where
  "panic_handler info = println (''panic: '' @ info) @ qemu_exit_failure"

text \<open>A result of the components: \<^verbatim>\<open>if let Err(error) = ...\<close> with the message before it.\<close>

definition or_die :: "string \<Rightarrow> ('a, string) result \<Rightarrow> Boot \<Rightarrow> 'a booting" where
  "or_die what res b = (case res of Ok a \<Rightarrow> (Ok a, b) | Err e \<Rightarrow> die (what @ e) b | Panic \<Rightarrow> (Panic, b))"

definition dec :: "'a::len word \<Rightarrow> string" where "dec w = digits (unat w)"
definition hexw :: "'a::len word \<Rightarrow> string" where "hexw w = hex (unat w)"

section \<open>On the bootloader's stack\<close>

definition greet :: "Requests \<Rightarrow> Boot \<Rightarrow> Boot" where
  "greet rq b =
     (let b = say ''MVP-2 own page tables'' (say ''Court Kernel Root Court'' (emit serial_init b));
        b = (if loaded_revision_valid (BASE_REVISION rq) then say (''limine loaded base revision: '' @ dec (loaded_revision (BASE_REVISION rq))) b
             else say ''limine loaded base revision: (magic word not rewritten)'' b);
        b = (if is_supported (BASE_REVISION rq) then b else say ''warn: limine did not zero the requested base revision'' b);
        b = (if response (STACK_SIZE_REQ rq) = None then b else say ''stack: 64KiB request accepted'' b)
      in case response (BOOTLOADER_INFO rq) of
           None \<Rightarrow> b
         | Some info \<Rightarrow> say (''bootloader: '' @ info_text (bi_name info) @ '' '' @ info_text (bi_version info)) b)"

definition check_firmware :: "Requests \<Rightarrow> Boot \<Rightarrow> unit booting" where
  "check_firmware rq b = (case response (FIRMWARE rq) of
      None \<Rightarrow> die ''error: no firmware type response'' b
    | Some fw \<Rightarrow>
        let kind = (if firmware_type fw = FIRMWARE_UEFI64 then ''uefi64'' else ''other'');
          b = say (''firmware: '' @ kind @ '' ('' @ dec (firmware_type fw) @ '')'') b
        in if firmware_type fw \<noteq> FIRMWARE_UEFI64 then die ''error: expected UEFI64 firmware path'' b else (Ok (), b))"

definition find_hhdm :: "Requests \<Rightarrow> Boot \<Rightarrow> u64 booting" where
  "find_hhdm rq b = (case response (HHDM rq) of
      None \<Rightarrow> die ''error: no HHDM response'' b
    | Some h \<Rightarrow> (Ok (hhdm_offset h), say (''hhdm offset: '' @ hexw (hhdm_offset h)) b))"

fun count_memory :: "MemmapEntry list \<Rightarrow> u64 \<times> u64 \<Rightarrow> u64 \<times> u64" where
  "count_memory [] acc = acc"
| "count_memory (e # es) (regions, usable) =
     count_memory es (regions + 1, if me_kind e = MEMMAP_USABLE then saturating_add usable (me_length e) else usable)"

definition find_memory :: "Requests \<Rightarrow> Boot \<Rightarrow> MemmapEntry list booting" where
  "find_memory rq b = (case response (MEMMAP rq) of
      None \<Rightarrow> die ''error: no memory map'' b
    | Some mm \<Rightarrow>
        let (regions, usable) = count_memory (mm_entries mm) (0, 0);
          b = say (''memory map: '' @ dec regions @ '' regions, '' @ dec usable @ '' usable bytes'') b
        in if usable = 0 then die ''error: no usable memory'' b else (Ok (mm_entries mm), b))"

text \<open>The allocator and the test page: its physical and its virtual address.\<close>

definition start_memory :: "u64 \<Rightarrow> MemmapEntry list \<Rightarrow> Boot \<Rightarrow> (u64 \<times> u64) booting" where
  "start_memory hhdm entries b = (case from_memmap hhdm entries of
      None \<Rightarrow> die ''error: no usable region for bump allocator'' b
    | Some bump \<Rightarrow>
        let b = say (''mm: bump phys '' @ hexw (start_phys bump) @ ''..'' @ hexw (end_phys bump) @ '' ('' @ dec (remaining bump div 1024) @ '' KiB)'') b
        in case alloc_pages 1 bump of
             None \<Rightarrow> die ''error: bump alloc failed'' (b\<lparr>bt_mc := bt_mc b\<lparr>mc_bump := bump\<rparr>\<rparr>)
           | Some ((phys, virt), bump) \<Rightarrow>
               let b = b\<lparr>bt_mc := bt_mc b\<lparr>mc_bump := bump, mc_mem := (mc_mem (bt_mc b))(phys := 0x5A)\<rparr>\<rparr>
               in if mc_mem (bt_mc b) phys \<noteq> 0x5A then die (''error: bump page not writable at '' @ hexw phys) b
                  else (Ok (phys, virt), say (''mm: test page phys='' @ hexw phys @ '' ok'') b))"

definition find_kernel :: "Requests \<Rightarrow> Boot \<Rightarrow> ExecutableAddressResponse booting" where
  "find_kernel rq b = (case response (EXECUTABLE rq) of
      None \<Rightarrow> die ''error: no executable address response'' b
    | Some exec \<Rightarrow> (Ok exec, say (''kernel: virt '' @ hexw (virtual_base exec) @ '' phys '' @ hexw (physical_base exec)) b))"

definition make_tables :: "Hardware \<Rightarrow> Requests \<Rightarrow> u64 \<Rightarrow> ExecutableAddressResponse \<Rightarrow> MemmapEntry list \<Rightarrow> Boot \<Rightarrow> PageMap booting" where
  "make_tables hw rq hhdm exec entries b =
     (let (res, mc) = build (hw_bounds hw) hhdm (physical_base exec) (virtual_base exec) entries (bt_mc b) in
      try_st (or_die ''error: page tables: '' res (b\<lparr>bt_mc := mc\<rparr>)) (\<lambda>pages b.
      let b = say (''paging: kernel '' @ hexw (pm_kernel_virt pages) @ ''..'' @ hexw (pm_kernel_virt pages + pm_kernel_len pages) @ '' -> '' @
            hexw (pm_kernel_phys pages) @ '' ('' @ dec (pm_kernel_len pages div 1024) @ '' KiB)'') b;
        b = say (''paging: hhdm '' @ dec (pm_hhdm_bytes pages div 1024) @ '' KiB in '' @ dec (pm_hhdm_spans pages) @ '' spans, '' @
            dec (pm_table_pages pages) @ '' table pages, pml4 '' @ hexw (pm_pml4_phys pages)) b
      in (Ok pages, case response (PAGING_MODE rq) of
           None \<Rightarrow> b | Some mode \<Rightarrow> say (''paging: limine mode '' @ dec (paging_mode mode)) b)))"

fun position_from :: "nat \<Rightarrow> u32 \<Rightarrow> MpInfo list \<Rightarrow> nat option" where
  "position_from n lapic [] = None"
| "position_from n lapic (cpu # cpus) = (if lapic_id cpu = lapic then Some n else position_from (Suc n) lapic cpus)"

definition cpu_slot :: "MpResponse \<Rightarrow> u32 \<Rightarrow> nat" where
  "cpu_slot mp lapic = (case position_from 0 lapic (mp_cpus mp) of Some n \<Rightarrow> n | None \<Rightarrow> 0)"

definition bsp_slot :: "Requests \<Rightarrow> nat" where
  "bsp_slot rq = (case response (MP rq) of None \<Rightarrow> 0 | Some mp \<Rightarrow> cpu_slot mp (bsp_lapic_id mp))"

text \<open>The number of CPUs, the descriptor tables, the interrupt table and the interrupt controller of this CPU.\<close>

definition check_cpus :: "Requests \<Rightarrow> Boot \<Rightarrow> unit booting" where
  "check_cpus rq b = (case response (MP rq) of
      None \<Rightarrow> (Ok (), b)
    | Some mp \<Rightarrow> if MAX_CPUS < length (mp_cpus mp)
        then die (''error: '' @ digits (length (mp_cpus mp)) @ '' cpus exceed MAX_CPUS='' @ digits MAX_CPUS) b else (Ok (), b))"

definition load_descriptors :: "Hardware \<Rightarrow> nat \<Rightarrow> Boot \<Rightarrow> unit booting" where
  "load_descriptors hw slot b =
     (let (gdts, tsss) = gdt_init (hw_at hw); (res, gdts) = gdt_load (hw_at hw) slot gdts in
      try_st (or_die ''error: gdt load: '' res (b\<lparr>bt_gdts := gdts, bt_tsss := tsss\<rparr>)) (\<lambda>segments b. (Ok (), b\<lparr>bt_regs := Some segments\<rparr>)))"

definition load_interrupts :: "Hardware \<Rightarrow> Boot \<Rightarrow> unit booting" where
  "load_interrupts hw b =
     (let (res, idt) = idt_init (hw_at hw) (bt_idt b) in
      try_st (or_die ''error: idt init: '' res (b\<lparr>bt_idt := idt\<rparr>)) (\<lambda>_ b. (Ok (), b\<lparr>bt_idtr := Some (idt_load (hw_at hw))\<rparr>)))"

definition start_apic :: "Hardware \<Rightarrow> Boot \<Rightarrow> unit booting" where
  "start_apic hw b =
     (let (res, out) = enable_x2apic (hw_features hw) in
      try_st (or_die ''error: '' res (emit (mask_legacy_pic @ out) b)) (\<lambda>lapic b.
      (Ok (), say (''gdt/idt: kernel cs=0x08 tss=0x18 per-cpu max='' @ digits MAX_CPUS) (say (''x2apic: enabled id='' @ hexw lapic) b))))"

text \<open>
  From here the CPU runs on the new page tables, and the test page is read and written through them. A
  missing translation is a page fault.
\<close>

definition read_virt :: "u64 \<Rightarrow> Boot \<Rightarrow> u8 booting" where
  "read_virt va b = (case mmu (mc_cr4 (bt_mc b)) (mc_mem (bt_mc b)) (mc_cr3 (bt_mc b) AND PHYS_MASK) va of
      None \<Rightarrow> (Panic, b) | Some pa \<Rightarrow> (Ok (mc_mem (bt_mc b) pa), b))"

definition write_virt :: "u64 \<Rightarrow> u8 \<Rightarrow> Boot \<Rightarrow> unit booting" where
  "write_virt va v b = (case mmu (mc_cr4 (bt_mc b)) (mc_mem (bt_mc b)) (mc_cr3 (bt_mc b) AND PHYS_MASK) va of
      None \<Rightarrow> (Panic, b) | Some pa \<Rightarrow> (Ok (), b\<lparr>bt_mc := bt_mc b\<lparr>mc_mem := (mc_mem (bt_mc b))(pa := v)\<rparr>\<rparr>))"

definition switch_tables :: "u64 \<Rightarrow> u64 \<Rightarrow> Boot \<Rightarrow> unit booting" where
  "switch_tables pml4 scratch b =
     (let b = emit [LoadCr3 pml4] (b\<lparr>bt_mc := activate pml4 (bt_mc b)\<rparr>) in
      if mc_cr3 (bt_mc b) AND 0x000ffffffffff000 \<noteq> pml4
      then die (''error: CR3 is '' @ hexw (mc_cr3 (bt_mc b)) @ '', expected '' @ hexw pml4) b
      else try_st (read_virt scratch b) (\<lambda>v b.
        if v \<noteq> 0x5A then die ''error: HHDM lost 0x5A after CR3'' b
        else try_st (write_virt scratch 0xA5 b) (\<lambda>_ b.
          try_st (read_virt scratch b) (\<lambda>v b.
          if v \<noteq> 0xA5 then die ''error: HHDM not writable after CR3'' b
          else (Ok (), say (''paging: cr3 '' @ hexw pml4 @ '' hhdm live'') b)))))"

definition cpu_count :: "Requests \<Rightarrow> nat" where
  "cpu_count rq = (case response (MP rq) of None \<Rightarrow> 1 | Some mp \<Rightarrow> length (mp_cpus mp))"

definition make_stacks :: "Hardware \<Rightarrow> Requests \<Rightarrow> Boot \<Rightarrow> unit booting" where
  "make_stacks hw rq b =
     (let (res, tops, mc) = alloc_all (cpu_count rq) (bt_tops b, bt_mc b) in
      try_st (or_die ''error: kernel stacks: '' res (b\<lparr>bt_tops := tops, bt_mc := mc\<rparr>)) (\<lambda>_ b.
      (Ok (), say (''stack: '' @ digits (cpu_count rq) @ '' cpu(s) bsp top='' @ hexw (stack_top (bt_tops b) (bsp_slot rq)) @ '' limine rsp='' @
        hexw (hw_limine_rsp hw)) b)))"

text \<open>\<^verbatim>\<open>kmain\<close> up to the switch of the stack; the result is the stack pointer the continuation starts with.\<close>

definition kmain :: "Hardware \<Rightarrow> Requests \<Rightarrow> Boot \<Rightarrow> u64 booting" where
  "kmain hw rq b =
     try_st (check_firmware rq (greet rq b)) (\<lambda>_ b.
     try_st (find_hhdm rq b) (\<lambda>hhdm b.
     try_st (find_memory rq b) (\<lambda>entries b.
     try_st (start_memory hhdm entries b) (\<lambda>(scratch_phys, scratch_virt) b.
     try_st (find_kernel rq b) (\<lambda>exec b.
     try_st (make_tables hw rq hhdm exec entries b) (\<lambda>pages b.
     try_st (check_cpus rq b) (\<lambda>_ b.
     try_st (load_descriptors hw (bsp_slot rq) b) (\<lambda>_ b.
     try_st (load_interrupts hw b) (\<lambda>_ b.
     try_st (start_apic hw b) (\<lambda>_ b.
     try_st (switch_tables (pm_pml4_phys pages) scratch_virt b) (\<lambda>_ b.
     try_st (make_stacks hw rq b) (\<lambda>_ b.
     (Ok (fst (switch_to (stack_top (bt_tops b) (bsp_slot rq)))), b)))))))))))))"

section \<open>On the kernel's stack\<close>

text \<open>
  What the waits read: the loads of \<^verbatim>\<open>AP_READY\<close>, for each \<^verbatim>\<open>wait_atomic\<close> the time it starts at and its readings of counter and
  time, and the loads of the counters that are printed. The bytes of the images and what they leave
  on their stacks are those of the demo.
\<close>

record Wait =
  wt_start :: u64
  wt_reads :: "(u32 \<times> u64) list"
  wt_after :: u32

record Env =
  env_ready :: "u32 list"
  env_self :: Wait
  env_timer :: Wait
  env_pongs :: Wait
  env_app_image :: bytes
  env_net_image :: bytes
  env_stacks :: "bytes list \<times> bytes list \<times> bytes list"

fun wait_from :: "u64 \<Rightarrow> u32 \<Rightarrow> (u32 \<times> u64) list \<Rightarrow> bool option" where
  "wait_from start want [] = None"
| "wait_from start want ((cell, tsc) # later) =
     (if want \<le> cell then Some True
      else if 8000000000 < tsc - start then Some False
      else wait_from start want later)"

definition wait_atomic :: "Wait \<Rightarrow> u32 \<Rightarrow> Boot \<Rightarrow> bool booting" where
  "wait_atomic w want b = (case wait_from (wt_start w) want (wt_reads w) of None \<Rightarrow> (Err Waiting, b) | Some landed \<Rightarrow> (Ok landed, b))"

text \<open>The loop over \<^verbatim>\<open>AP_READY\<close>, and the load after it.\<close>

fun spin_ready :: "u32 \<Rightarrow> nat \<Rightarrow> u32 list \<Rightarrow> u32 option" where
  "spin_ready expected spins [] = None"
| "spin_ready expected spins (seen # later) =
     (if seen < expected \<and> spins < 8000000 then spin_ready expected (Suc spins) later
      else case later of [] \<Rightarrow> None | now # _ \<Rightarrow> Some now)"

definition expected_aps :: "Requests \<Rightarrow> u32" where
  "expected_aps rq = (case response (MP rq) of None \<Rightarrow> 0 | Some mp \<Rightarrow> saturating_sub (of_nat (length (mp_cpus mp))) 1)"

definition start_aps :: "Hardware \<Rightarrow> Requests \<Rightarrow> Env \<Rightarrow> Boot \<Rightarrow> unit booting" where
  "start_aps hw rq env b = (case response (MP rq) of
      None \<Rightarrow> (Ok (), say ''mp: single cpu (no MP response)'' b)
    | Some mp \<Rightarrow>
        let count = of_nat (length (mp_cpus mp)) :: u32;
          b = say (''mp: '' @ dec count @ '' cpu(s), bsp lapic '' @ dec (bsp_lapic_id mp) @ '', flags '' @ hexw (mp_flags mp)) b;
          b = b\<lparr>bt_mps := map (\<lambda>cpu. if lapic_id cpu \<noteq> bsp_lapic_id mp then mp_start (hw_ap_entry hw) cpu else cpu) (mp_cpus mp)\<rparr>
        in case spin_ready (expected_aps rq) 0 (env_ready env) of
             None \<Rightarrow> (Err Waiting, b)
           | Some now \<Rightarrow>
               let b = say (''ap ready: '' @ dec now @ ''/'' @ dec (expected_aps rq)) b
               in if now \<noteq> expected_aps rq then die ''error: AP bring-up timed out'' b else (Ok (), b))"

definition test_interrupts :: "Requests \<Rightarrow> Env \<Rightarrow> Boot \<Rightarrow> unit booting" where
  "test_interrupts rq env b =
     (let b = emit (start_timer 1000000 @ [Sti] @ send_ipi_self) b in
      try_st (wait_atomic (env_self env) 1 b) (\<lambda>landed b.
      if \<not> landed then die ''error: self IPI did not land'' b
      else try_st (wait_atomic (env_timer env) 3 (say ''ipi: self pong ok'' b)) (\<lambda>ticked b.
      if \<not> ticked then die (''error: x2APIC timer did not tick ('' @ dec (wt_after (env_timer env)) @ '')'') b
      else
        let b = emit mask_timer (say (''timer: ticks='' @ dec (wt_after (env_timer env))) b) in
        try_st (if expected_aps rq = 0 then (Ok (), b)
          else
            let want = 1 + expected_aps rq in
            try_st (wait_atomic (env_pongs env) want (emit send_ipi_all_except_self b)) (\<lambda>answered b.
            if answered then (Ok (), b)
            else die (''error: AP IPI pong '' @ dec (wt_after (env_pongs env)) @ ''/'' @ dec want) b)) (\<lambda>_ b.
        (Ok (), emit [Cli] (say (''ipi pong: '' @ dec (wt_after (env_pongs env)) @ '' (ICR)'') b))))))"

definition kmain_on_kstack :: "Hardware \<Rightarrow> Requests \<Rightarrow> Env \<Rightarrow> Boot \<Rightarrow> unit booting" where
  "kmain_on_kstack hw rq env b =
     (let b = say (''stack: kernel rsp='' @ hexw (hw_kernel_rsp hw)) b;
        (res, (mc, root)) = on_root bootstrap (bt_mc b, root_new) in
      try_st (or_die ''error: object bootstrap failed: '' res (b\<lparr>bt_root := root\<rparr>)) (\<lambda>_ b.
      let b = say (''root objects: courts='' @ digits (court_count (bt_root b)) @ '' caps='' @ digits (cap_count (bt_root b)) @
        '' ns:/court/root='' @ (if root_lookup (bt_root b) ''/court/root'' then ''true'' else ''false'')) b in
      try_st (start_aps hw rq env b) (\<lambda>_ b.
      try_st (test_interrupts rq env b) (\<lambda>_ b.
      case env_stacks env of (s1, s2, s3) \<Rightarrow>
      let (res, (mc, root)) = run_demo (env_app_image env) (env_net_image env) s1 s2 s3 (bt_mc b, bt_root b) in
      try_st (or_die ''error: courtlet demo: '' res (b\<lparr>bt_mc := mc, bt_root := root\<rparr>)) (\<lambda>_ b.
      (Ok (), emit (println (''BOOT_OK cpus='' @ digits (cpu_count rq)) @ qemu_exit_success) b))))))"

text \<open>The whole boot of the first CPU.\<close>

definition bring_up :: "Hardware \<Rightarrow> Requests \<Rightarrow> Env \<Rightarrow> Boot \<Rightarrow> unit booting" where
  "bring_up hw rq env b = try_st (kmain hw rq b) (\<lambda>_ b. kmain_on_kstack hw rq env b)"

section \<open>The other CPUs\<close>

text \<open>
  \<^verbatim>\<open>ap_entry\<close> and \<^verbatim>\<open>ap_on_kstack\<close> on the CPU with these features: its registers when it halts for good, or nothing when it
  stopped before it was ready. It shares the tables, \<^verbatim>\<open>ROOT_CR3\<close> and \<^verbatim>\<open>AP_READY\<close> with the first CPU.
\<close>

record Ap =
  ap_cr3 :: u64
  ap_regs :: CpuRegs
  ap_idtr :: "u16 \<times> u64"
  ap_rsp :: u64
  ap_out :: "Effect list"

definition ap_entry :: "Hardware \<Rightarrow> Requests \<Rightarrow> Features \<Rightarrow> MpInfo \<Rightarrow> Boot \<Rightarrow> (Ap, Effect list) result \<times> Boot" where
  "ap_entry hw rq features info b = (case load_published (bt_mc b) of
      (Ok _, mc) \<Rightarrow>
        let slot = (case response (MP rq) of None \<Rightarrow> 2 ^ 64 - 1 | Some mp \<Rightarrow> cpu_slot mp (lapic_id info));
          (res, gdts) = gdt_load (hw_at hw) slot (bt_gdts b); b = b\<lparr>bt_gdts := gdts\<rparr>
        in (case res of
            Ok segments \<Rightarrow> (case enable_x2apic features of
                (Ok _, out) \<Rightarrow>
                  if stack_top (bt_tops b) slot = 0 then (Err (LoadCr3 (mc_cr3 mc) # out @ hcf), b)
                  else (Ok \<lparr>ap_cr3 = mc_cr3 mc, ap_regs = segments, ap_idtr = idt_load (hw_at hw),
                    ap_rsp = fst (switch_to (stack_top (bt_tops b) slot)), ap_out = LoadCr3 (mc_cr3 mc) # out @ [Sti, Hlt]\<rparr>,
                    b\<lparr>bt_ready := bt_ready b + 1\<rparr>)
              | (_, out) \<Rightarrow> (Err (LoadCr3 (mc_cr3 mc) # out @ hcf), b))
          | Err e \<Rightarrow> (Err (LoadCr3 (mc_cr3 mc) # hcf), b)
          | Panic \<Rightarrow> (Panic, b))
    | _ \<Rightarrow> (Err hcf, b))"

text \<open>CPUs run one after another, with the features of each.\<close>

fun run_aps :: "Hardware \<Rightarrow> Requests \<Rightarrow> (u32 \<Rightarrow> Features) \<Rightarrow> MpInfo list \<Rightarrow> Boot \<Rightarrow> (Ap, Effect list) result list \<times> Boot" where
  "run_aps hw rq features [] b = ([], b)"
| "run_aps hw rq features (info # infos) b = (let (res, b) = ap_entry hw rq (features (lapic_id info)) info b;
     (rest, b) = run_aps hw rq features infos b in (res # rest, b))"

end
