(* ===== verification/Boot_Steps.thy ===== *)
theory Boot_Steps
  imports Boot Kernel_Build
begin

text \<open>
  The steps of the boot one by one. A step that may fail ends with an error line and the failure exit; it
  never faults. A step whose inputs are complete does not fail.
\<close>

section \<open>Outcomes\<close>

text \<open>A boot that failed has written an error line and left through the exit device last.\<close>

definition ended_badly :: "Boot \<Rightarrow> bool" where
  "ended_badly b \<longleftrightarrow> (\<exists>before line. bt_out b = before @ println line @ qemu_exit_failure)"

text \<open>\<open>runs may_stop Q rs\<close>: the step returned with \<open>Q\<close>, or, when \<open>may_stop\<close>, it failed in order or is waiting.\<close>

definition runs :: "bool \<Rightarrow> ('a \<Rightarrow> Boot \<Rightarrow> bool) \<Rightarrow> 'a booting \<Rightarrow> bool" where
  "runs may_stop Q rs \<longleftrightarrow> (case rs of
      (Ok a, b) \<Rightarrow> Q a b
    | (Err Failed, b) \<Rightarrow> may_stop \<and> ended_badly b
    | (Err Waiting, b) \<Rightarrow> may_stop
    | (Panic, b) \<Rightarrow> False)"

lemma runs_Ok [simp]: "runs f Q (Ok a, b) \<longleftrightarrow> Q a b"
  by (simp add: runs_def)

lemma runs_waiting [simp]: "runs f Q (Err Waiting, b) \<longleftrightarrow> f"
  by (simp add: runs_def)

lemma runs_die [simp]: "runs f Q (die line b) \<longleftrightarrow> f"
  by (auto simp: runs_def die_def emit_def ended_badly_def)

lemma try_die [simp]: "try_st (die line b) k = die line b"
  by (simp add: die_def)

lemma runs_try:
  assumes "runs f P rs" and "\<And>a b. P a b \<Longrightarrow> runs f Q (k a b)"
  shows "runs f Q (try_st rs k)"
  using assms by (cases rs; cases "fst rs") (auto simp: runs_def split: Stop.splits)

lemma or_die_Ok [simp]: "or_die what (Ok a) b = (Ok a, b)"
  by (simp add: or_die_def)

lemma runs_or_die:
  assumes "res \<noteq> Panic" and "\<And>e. res = Err e \<Longrightarrow> f" and "\<And>a. res = Ok a \<Longrightarrow> Q a b"
  shows "runs f Q (or_die what res b)"
  using assms by (cases res) (simp_all add: or_die_def)

lemma runs_mono: "runs f P rs \<Longrightarrow> (\<And>a b. P a b \<Longrightarrow> Q a b) \<Longrightarrow> runs f Q rs"
  by (auto simp: runs_def split: prod.splits result.splits Stop.splits)

lemma runs_if: "(c \<Longrightarrow> runs f Q x) \<Longrightarrow> (\<not> c \<Longrightarrow> runs f Q y) \<Longrightarrow> runs f Q (if c then x else y)"
  by simp

text \<open>Output only adds to the output.\<close>

definition quiet :: "Boot \<Rightarrow> Boot \<Rightarrow> bool" where
  "quiet b b' \<longleftrightarrow> b' = b\<lparr>bt_out := bt_out b'\<rparr>"

lemma quiet_fields:
  assumes "quiet b0 b"
  shows "bt_mc b = bt_mc b0" "bt_tops b = bt_tops b0" "bt_gdts b = bt_gdts b0" "bt_tsss b = bt_tsss b0" "bt_idt b = bt_idt b0"
    "bt_regs b = bt_regs b0" "bt_idtr b = bt_idtr b0" "bt_root b = bt_root b0" "bt_mps b = bt_mps b0" "bt_ready b = bt_ready b0"
  by (subst assms [unfolded quiet_def], simp)+

lemma quiet_refl [simp]: "quiet b b"
  by (simp add: quiet_def)

lemma emit_fields [simp]:
  "bt_mc (emit es b) = bt_mc b" "bt_tops (emit es b) = bt_tops b" "bt_gdts (emit es b) = bt_gdts b" "bt_tsss (emit es b) = bt_tsss b"
  "bt_idt (emit es b) = bt_idt b" "bt_regs (emit es b) = bt_regs b" "bt_idtr (emit es b) = bt_idtr b" "bt_root (emit es b) = bt_root b"
  "bt_mps (emit es b) = bt_mps b" "bt_ready (emit es b) = bt_ready b"
  by (simp_all add: emit_def)

lemma say_fields [simp]:
  "bt_mc (say l b) = bt_mc b" "bt_tops (say l b) = bt_tops b" "bt_gdts (say l b) = bt_gdts b" "bt_tsss (say l b) = bt_tsss b"
  "bt_idt (say l b) = bt_idt b" "bt_regs (say l b) = bt_regs b" "bt_idtr (say l b) = bt_idtr b" "bt_root (say l b) = bt_root b"
  "bt_mps (say l b) = bt_mps b" "bt_ready (say l b) = bt_ready b"
  by (simp_all add: say_def)

lemma quiet_emit [simp]: "quiet b (emit es b') \<longleftrightarrow> quiet b b'"
  by (cases b, cases b') (auto simp: quiet_def emit_def)

lemma quiet_say [simp]: "quiet b (say l b') \<longleftrightarrow> quiet b b'"
  by (simp add: say_def)

section \<open>On the bootloader's stack\<close>

lemma greet_quiet: "quiet b (greet rq b)"
  by (simp add: greet_def Let_def split: option.split)

lemma check_firmware_runs:
  assumes "f \<or> (\<exists>fw. response (FIRMWARE rq) = Some fw \<and> firmware_type fw = FIRMWARE_UEFI64)" and "quiet b0 b"
  shows "runs f (\<lambda>_ b. quiet b0 b) (check_firmware rq b)"
  using assms by (auto simp: check_firmware_def Let_def split: option.splits)

lemma find_hhdm_runs:
  assumes "f \<or> response (HHDM rq) \<noteq> None" and "quiet b0 b"
  shows "runs f (\<lambda>hhdm b. quiet b0 b \<and> (\<exists>h. response (HHDM rq) = Some h \<and> hhdm = hhdm_offset h)) (find_hhdm rq b)"
  using assms by (auto simp: find_hhdm_def split: option.splits)

lemma find_kernel_runs:
  assumes "f \<or> response (EXECUTABLE rq) \<noteq> None" and "quiet b0 b"
  shows "runs f (\<lambda>exec b. quiet b0 b \<and> response (EXECUTABLE rq) = Some exec) (find_kernel rq b)"
  using assms by (auto simp: find_kernel_def split: option.splits)

lemma check_cpus_runs:
  assumes "f \<or> cpu_count rq \<le> MAX_CPUS" and "quiet b0 b"
  shows "runs f (\<lambda>_ b. quiet b0 b \<and> cpu_count rq \<le> MAX_CPUS) (check_cpus rq b)"
  using assms by (auto simp: check_cpus_def cpu_count_def MAX_CPUS_def split: option.splits)

text \<open>The usable bytes: a usable entry with a length makes the sum nonzero.\<close>

lemma count_memory_usable:
  "e \<in> set es \<and> me_kind e = MEMMAP_USABLE \<and> me_length e \<noteq> 0 \<or> usable \<noteq> 0 \<Longrightarrow> snd (count_memory es (n, usable)) \<noteq> 0"
proof (induction es arbitrary: n usable)
  case (Cons x es)
  have sat: "saturating_add a c \<noteq> 0" if "a \<noteq> 0 \<or> c \<noteq> 0" for a c :: u64
  proof -
    have "unat a \<noteq> 0 \<or> unat c \<noteq> 0" using that by (simp add: unat_eq_zero)
    then have "unat (saturating_add a c) \<noteq> 0" by (auto simp: unat_saturating_add)
    then show ?thesis by auto
  qed
  show ?case using Cons.prems by (auto intro!: Cons.IH sat)
qed simp

lemma find_memory_runs:
  assumes "f \<or> (\<exists>mm e. response (MEMMAP rq) = Some mm \<and> e \<in> set (mm_entries mm) \<and> me_kind e = MEMMAP_USABLE \<and> me_length e \<noteq> 0)"
    and "quiet b0 b"
  shows "runs f (\<lambda>entries b. quiet b0 b \<and> (\<exists>mm. response (MEMMAP rq) = Some mm \<and> entries = mm_entries mm)) (find_memory rq b)"
proof (cases "response (MEMMAP rq)")
  case None
  with assms show ?thesis by (auto simp: find_memory_def)
next
  case (Some mm)
  obtain n u where c: "count_memory (mm_entries mm) (0, 0) = (n, u)" by (rule prod.exhaust)
  have "u \<noteq> 0 \<or> f"
    using assms(1) count_memory_usable [of _ "mm_entries mm" 0 0] Some c by (cases f) fastforce+
  with Some c assms(2) show ?thesis by (auto simp: find_memory_def Let_def)
qed

section \<open>Memory\<close>

lemma quiet_mc: "quiet b0 b \<Longrightarrow> bt_mc b = bt_mc b0" "quiet b0 b \<Longrightarrow> quiet (b0\<lparr>bt_mc := mc\<rparr>) (b\<lparr>bt_mc := mc\<rparr>)"
  by (cases b0, cases b, auto simp: quiet_def)+

lemma from_memmap_fresh:
  assumes "from_memmap hhdm es = Some bump"
  shows "bump_ok bump" "ba_hhdm bump = hhdm" "\<exists>p v b. alloc_pages 1 bump = Some ((p, v), b)" "ba_cursor bump = ba_start bump"
proof -
  show ok: "bump_ok bump" using assms by (rule from_memmap_Some)
  show "ba_hhdm bump = hhdm" using assms by (auto simp: from_memmap_def Let_def bind_eq_Some_conv split: if_splits)
  have "2 ^ 16 \<le> unat (ba_end bump) - unat (ba_start bump)" using assms by (rule from_memmap_Some) (simp add: bump_pool_def)
  moreover show "ba_cursor bump = ba_start bump" using assms by (auto simp: from_memmap_def Let_def bind_eq_Some_conv split: if_splits)
  ultimately show "\<exists>p v b. alloc_pages 1 bump = Some ((p, v), b)" by (simp add: alloc_pages_eq [OF ok])
qed

lemma start_memory_runs:
  assumes "f \<or> from_memmap hhdm entries \<noteq> None" and q: "quiet b0 b"
  shows "runs f (\<lambda>(phys, virt) b. \<exists>bump bump'. from_memmap hhdm entries = Some bump \<and> alloc_pages 1 bump = Some ((phys, virt), bump') \<and>
    quiet (b0\<lparr>bt_mc := (bt_mc b0)\<lparr>mc_bump := bump', mc_mem := (mc_mem (bt_mc b0))(phys := 0x5A)\<rparr>\<rparr>) b) (start_memory hhdm entries b)"
proof (cases "from_memmap hhdm entries")
  case None
  with assms show ?thesis by (simp add: start_memory_def)
next
  case (Some bump)
  then obtain p v b' where a: "alloc_pages 1 bump = Some ((p, v), b')" using from_memmap_fresh(3) by blast
  have "quiet b0 (say l b)" for l using q by simp
  note up = quiet_mc [OF this]
  show ?thesis using Some a up(2) by (simp add: start_memory_def Let_def up(1) quiet_mc(1) [OF q])
qed

text \<open>Every page of the pool is in the direct map.\<close>

lemma hhdm_maps_pool:
  assumes "from_memmap hhdm es = Some bump" and "memory_mapped hhdm es mc" and "\<forall>e\<in>set es. unat (me_base e) + unat (me_length e) \<le> 2 ^ 52"
    and p: "aligned p" "unat (ba_start bump) \<le> unat p" "unat p + 4096 \<le> unat (ba_end bump)"
  shows "mc_translate mc (mc_kernel_pml4 mc) (hhdm + p) = Some p"
proof -
  from assms(1) obtain e where e: "e \<in> set es" "me_kind e = MEMMAP_USABLE"
    "bump_pool bump \<subseteq> {unat (me_base e) ..< unat (me_base e) + unat (me_length e)}" by (rule from_memmap_Some)
  have "unat p \<in> bump_pool bump" "unat p + 4095 \<in> bump_pool bump" using p by (simp_all add: bump_pool_def)
  with e(3) have r: "unat (me_base e) \<le> unat p" "unat p + 4096 \<le> unat (me_base e) + unat (me_length e)" by fastforce+
  have le: "unat (me_base e) + unat (me_length e) \<le> 2 ^ 52" using assms(3) e(1) by simp
  have "unat (entry_start e) = (unat (me_base e) + 4095) div 4096 * 4096"
    using le by (simp add: entry_start_def align_facts unat_page_up)
  then have "entry_start e \<le> p" using r(1) p(1) by (auto simp: word_le_nat_alt elim!: dvdE)
  moreover have "unat (entry_end e) = (unat (me_base e) + unat (me_length e)) div 4096 * 4096"
    using le by (simp add: entry_end_def align_facts unat_saturating_add)
  then have "p < entry_end e" using r(2) p(1) by (auto simp: word_less_nat_alt elim!: dvdE)
  moreover have "me_length e \<noteq> 0" using r by (auto simp: unat_eq_zero)
  ultimately show ?thesis using assms(2) e(1,2) le by (simp add: memory_mapped_def hhdm_mapped_rev3_def)
qed

section \<open>Page tables\<close>

lemma build_no_panic:
  assumes b: "bump_ok (mc_bump mc)" "unat (ba_end (mc_bump mc)) \<le> 2 ^ 52"
    and kernel: "upper_half kstart (align_up (kend - kstart) PAGE)" and high: "\<forall>e\<in>set entries. entry_high hhdm kphys kvirt e"
  shows "fst (build (kstart, kend) hhdm kphys kvirt entries mc) \<noteq> Panic"
proof (cases rule: alloc_table_cases [of "mapper 0 0 mc"])
  case (ok root mp1)
  have b': "bump_ok (mp_bump (mapper 0 0 mc))" "unat (ba_end (mp_bump (mapper 0 0 mc))) \<le> 2 ^ 52" using b by (simp_all add: mapper_def)
  define mpr where "mpr = mp1\<lparr>mp_pml4 := root, mp_table_pages := 1\<rparr>"
  have mpr: "mapper root 1 (mc\<lparr>mc_bump := mp_bump mp1, mc_mem := mp_mem mp1, mc_kernel_pml4 := root\<rparr>) = mpr"
    by (simp add: mapper_def mpr_def)
  have t1: "mp_tree mpr" using empty_tree(1) [OF b' ok] by (simp add: mpr_def)
  obtain r2 mp2 where k: "map_range kstart (kphys + (kstart - kvirt)) (align_up (kend - kstart) PAGE) mpr = (r2, mp2)" by (rule prod.exhaust)
  note g2 = map_range_high [OF t1 k kernel]
  obtain r3 mp3 where e: "map_entries hhdm kphys kvirt entries (0, 0) mp2 = (r3, mp3)" by (rule prod.exhaust)
  note g3 = map_entries_grows [OF growD(1) [OF conjunct1 [OF g2]] high e]
  obtain r4 mp4 where w: "wrap_la57 root mp3 = (r4, mp4)" by (rule prod.exhaust)
  have "r4 \<noteq> Panic" using wrap_la57_fresh [OF treeD(1,2) [OF growD(1) [OF conjunct1 [OF g3]]] w] by simp
  with ok k e w g2 g3 show ?thesis
    by (cases r2; cases r3; cases r4) (auto simp: build_def Let_def put_back_def mpr split: if_splits)
qed (simp_all add: build_def Let_def put_back_def)

text \<open>The address space the kernel runs on, \<open>K\<close> its root: what the later steps rely on.\<close>

definition memory_ready :: "u64 \<Rightarrow> MemmapEntry list \<Rightarrow> Machine \<Rightarrow> bool" where
  "memory_ready hhdm entries mc \<longleftrightarrow> spaces_ok mc {mc_kernel_pml4 mc} \<and> mc_kernel_pml4 mc \<noteq> 0 \<and> mc_cr4 mc AND CR4_LA57 = 0 \<and>
     memory_mapped hhdm entries mc \<and> aligned hhdm \<and> ba_hhdm (mc_bump mc) = hhdm \<and> unat hhdm + unat (ba_end (mc_bump mc)) < 2 ^ 64"

definition image_mapped :: "u64 \<times> u64 \<Rightarrow> u64 \<Rightarrow> u64 \<Rightarrow> Machine \<Rightarrow> bool" where
  "image_mapped bounds kphys kvirt mc \<longleftrightarrow>
     (let kstart = fst bounds; kphys' = kphys + (kstart - kvirt); len = align_up (snd bounds - kstart) PAGE in
      unat kphys' + unat len \<le> 2 ^ 52 \<longrightarrow> (\<forall>va. unat (va - kstart) < unat len \<longrightarrow>
        mc_translate mc (mc_kernel_pml4 mc) va = Some (kphys' + (va - kstart))))"

definition scratch_ready :: "u64 \<Rightarrow> u64 \<Rightarrow> Machine \<Rightarrow> bool" where
  "scratch_ready hhdm p mc \<longleftrightarrow> p \<in> data_mem mc {mc_kernel_pml4 mc} \<and> mc_mem mc p = 0x5A \<and>
     mc_translate mc (mc_kernel_pml4 mc) (hhdm + p) = Some p"

text \<open>What the boot protocol promises of its answers: the direct map and the kernel lie in the upper half.\<close>

definition answers_sane :: "u64 \<times> u64 \<Rightarrow> u64 \<Rightarrow> u64 \<Rightarrow> u64 \<Rightarrow> MemmapEntry list \<Rightarrow> bool" where
  "answers_sane bounds hhdm kphys kvirt entries \<longleftrightarrow> aligned hhdm \<and> 2 ^ 64 - 2 ^ 47 \<le> unat hhdm \<and>
     upper_half (fst bounds) (align_up (snd bounds - fst bounds) PAGE) \<and>
     (\<forall>e\<in>set entries. unat hhdm + unat (me_base e) + unat (me_length e) < 2 ^ 64 \<and> entry_high hhdm kphys kvirt e)"

lemma pool_sane:
  assumes "from_memmap hhdm entries = Some bump" and "answers_sane bounds hhdm kphys kvirt entries"
  shows "unat hhdm + unat (ba_end bump) < 2 ^ 64" "unat (ba_end bump) \<le> 2 ^ 52" "\<forall>e\<in>set entries. unat (me_base e) + unat (me_length e) \<le> 2 ^ 52"
    "4096 \<le> unat (ba_start bump)"
proof -
  from assms(1) obtain e where e: "e \<in> set entries" "bump_pool bump \<subseteq> {unat (me_base e) ..< unat (me_base e) + unat (me_length e)}"
    "4096 \<le> unat (ba_start bump)" "2 ^ 16 \<le> card (bump_pool bump)" by (rule from_memmap_Some)
  then have "unat (ba_end bump) - 1 \<in> bump_pool bump" by (auto simp: bump_pool_def)
  with e have "unat (ba_end bump) \<le> unat (me_base e) + unat (me_length e)" by fastforce
  with e(1) assms(2) show "unat hhdm + unat (ba_end bump) < 2 ^ 64" "unat (ba_end bump) \<le> 2 ^ 52" by (auto simp: answers_sane_def)
  show "\<forall>e\<in>set entries. unat (me_base e) + unat (me_length e) \<le> 2 ^ 52" using assms(2) by (fastforce simp: answers_sane_def)
  show "4096 \<le> unat (ba_start bump)" by (rule e(3))
qed

lemma root_page:
  assumes "spaces_ok mc S" and "r \<in> S"
  shows "aligned r" "unat r < 2 ^ 52" "unat (ba_start (mc_bump mc)) \<le> unat r"
proof -
  note t = spaces_okD(2) [OF assms]
  from tree_tables [OF t root_table(1)] have r: "aligned r" "page_at r \<subseteq> owned_mem (mc_bump mc)" by auto
  then show "aligned r" by simp
  have "r \<in> page_at r" by (simp add: span_def)
  with r(2) have "unat r \<in> bump_owned (mc_bump mc)" by (auto simp: owned_mem_def)
  then show "unat (ba_start (mc_bump mc)) \<le> unat r" "unat r < 2 ^ 52"
    using treeD(1,2) [OF t] by (auto simp: bump_owned_def bump_ok_def word_le_nat_alt)
qed

lemma make_tables_runs:
  assumes sane: "answers_sane (hw_bounds hw) hhdm (physical_base exec) (virtual_base exec) entries"
    and bump: "from_memmap hhdm entries = Some bump" "alloc_pages 1 bump = Some ((p, v), mc_bump (bt_mc b))"
    and mc: "mc_mem (bt_mc b) p = 0x5A" "mc_cr4 (bt_mc b) AND CR4_LA57 = 0"
    and ready: "f \<or> build_ready (hw_bounds hw) hhdm (physical_base exec) (virtual_base exec) entries \<and>
      room (k + build_pages (hw_bounds hw) hhdm (physical_base exec) (virtual_base exec) entries) (mc_bump (bt_mc b))"
  shows "runs f (\<lambda>pages b'. memory_ready hhdm entries (bt_mc b') \<and> image_mapped (hw_bounds hw) (physical_base exec) (virtual_base exec) (bt_mc b') \<and>
    scratch_ready hhdm p (bt_mc b') \<and> v = hhdm + p \<and> pm_pml4_phys pages = mc_kernel_pml4 (bt_mc b') \<and> (f \<or> room k (mc_bump (bt_mc b'))) \<and>
    quiet (b\<lparr>bt_mc := bt_mc b'\<rparr>) b') (make_tables hw rq hhdm exec entries b)"
proof -
  obtain kstart kend where bounds: "hw_bounds hw = (kstart, kend)" by (rule prod.exhaust)
  let ?kphys = "physical_base exec" and ?kvirt = "virtual_base exec"
  note pool = pool_sane [OF bump(1) sane] and fresh = from_memmap_fresh [OF bump(1)]
  note a = alloc_pages_Some [OF fresh(1) bump(2)]
  have b: "bump_ok (mc_bump (bt_mc b))" "unat (ba_end (mc_bump (bt_mc b))) \<le> 2 ^ 52" using a(3,5) pool(2) by simp_all
  have s: "upper_half kstart (align_up (kend - kstart) PAGE)" "\<forall>e\<in>set entries. entry_high hhdm ?kphys ?kvirt e"
    using sane by (simp_all add: answers_sane_def bounds)
  obtain res mc' where r: "build (hw_bounds hw) hhdm ?kphys ?kvirt entries (bt_mc b) = (res, mc')" by (rule prod.exhaust)
  have np: "res \<noteq> Panic" using build_no_panic [OF b s] r by (simp add: bounds)
  have room: "(\<exists>pm. res = Ok pm) \<and> room k (mc_bump mc')" if "\<not> f"
    using ready that r by (auto elim!: build_room [OF b])
  have Q: "memory_ready hhdm entries mc' \<and> image_mapped (hw_bounds hw) ?kphys ?kvirt mc' \<and> scratch_ready hhdm p mc' \<and>
      pm_pml4_phys pm = mc_kernel_pml4 mc'" if Ok: "res = Ok pm" for pm
  proof -
    note r' = r [unfolded bounds Ok]
    have p: "p = ba_start bump" using a(1) fresh(4) by simp
    from build_result [OF b s r'] have br: "spaces_ok mc' {mc_kernel_pml4 mc'}" "kernel_mapped pm mc'" "memory_mapped hhdm entries mc'"
      "same_pool (mc_bump (bt_mc b)) (mc_bump mc')" "pm_pml4_phys pm = mc_kernel_pml4 mc'"
      "\<And>x. x \<in> owned_mem (mc_bump (bt_mc b)) \<Longrightarrow> mc_mem mc' x = mc_mem (bt_mc b) x \<and> (\<forall>t\<in>tables_of (mc_mem mc') (mc_kernel_pml4 mc'). x \<notin> page_at t)"
      using mc(2) by simp_all
    from r' have m: "mc_cr4 mc' = mc_cr4 (bt_mc b)" "pm_kernel_virt pm = kstart" "pm_kernel_phys pm = ?kphys + (kstart - ?kvirt)"
      "pm_kernel_len pm = align_up (kend - kstart) PAGE" by (rule build_Ok; simp)+
    have pool': "ba_hhdm (mc_bump mc') = hhdm" "ba_start (mc_bump mc') = ba_start bump" "ba_end (mc_bump mc') = ba_end bump"
      using br(4) a fresh(2) by (simp_all add: same_pool_def)
    have "mc_kernel_pml4 mc' \<noteq> 0" using root_page(3) [OF br(1), of "mc_kernel_pml4 mc'"] pool(4) pool'(2) by auto
    then have "memory_ready hhdm entries mc'" using br(1,3) m(1) mc(2) pool' pool(1) sane by (simp add: memory_ready_def answers_sane_def)
    moreover have "image_mapped (hw_bounds hw) ?kphys ?kvirt mc'" using br(2) m by (simp add: image_mapped_def kernel_mapped_def bounds Let_def)
    moreover have own: "p \<in> owned_mem (mc_bump (bt_mc b))" using a by (simp add: owned_mem_def bump_owned_def p)
    then have "p \<in> data_mem mc' {mc_kernel_pml4 mc'}" using br(6) same_pool_owned [OF br(4)] by (auto intro: data_memI)
    moreover have "mc_translate mc' (mc_kernel_pml4 mc') (hhdm + p) = Some p"
      by (rule hhdm_maps_pool [OF bump(1) br(3) pool(3)]) (use a fresh(1) in \<open>auto simp: p bump_ok_def\<close>)
    ultimately show ?thesis using br(5,6) mc(1) own by (simp add: scratch_ready_def)
  qed
  show ?thesis
    unfolding make_tables_def r Let_def prod.case
    by (intro runs_try [OF runs_or_die [where Q = "\<lambda>pm b'. res = Ok pm \<and> b' = b\<lparr>bt_mc := mc'\<rparr>"]])
      (use np room Q a(2) fresh(2) in \<open>auto simp: bump_virt_def split: option.split\<close>)
qed

section \<open>Descriptors and interrupts\<close>

definition descriptors_ready :: "Statics \<Rightarrow> nat \<Rightarrow> Boot \<Rightarrow> bool" where
  "descriptors_ready at slot b \<longleftrightarrow> length (bt_gdts b) = MAX_CPUS \<and> (\<forall>cpu<MAX_CPUS. cpu \<noteq> slot \<longrightarrow> bt_gdts b ! cpu = gdt_of at cpu) \<and>
     bt_tsss b = map (tss_of at) [0..<MAX_CPUS] \<and> bt_regs b = Some (loaded at slot)"

definition interrupts_ready :: "Statics \<Rightarrow> Boot \<Rightarrow> bool" where
  "interrupts_ready at b \<longleftrightarrow> length (bt_idt b) = 256 \<and>
     (\<forall>vec<256. bt_idt b ! vec = gate (stub at (of_nat vec)) (if vec = 8 then 1 else 0)) \<and> bt_idtr b = Some (idt_load at)"

lemma load_descriptors_runs:
  assumes "slot < MAX_CPUS"
  shows "runs f (\<lambda>_ b'. descriptors_ready (hw_at hw) slot b' \<and> bt_mc b' = bt_mc b \<and> bt_tops b' = bt_tops b \<and> bt_idt b' = bt_idt b \<and>
    bt_ready b' = bt_ready b) (load_descriptors hw slot b)"
proof -
  let ?gdts = "map (gdt_of (hw_at hw)) [0..<MAX_CPUS]"
  obtain gdt where "gdt_load (hw_at hw) slot ?gdts = (Ok (loaded (hw_at hw) slot), ?gdts[slot := gdt])"
    using gdt_load_fresh [OF assms, of ?gdts] assms by auto
  then show ?thesis by (simp add: load_descriptors_def gdt_init_def or_die_def descriptors_ready_def)
qed

lemma load_interrupts_runs:
  assumes "length (bt_idt b) = 256"
  shows "runs f (\<lambda>_ b'. interrupts_ready (hw_at hw) b' \<and> bt_mc b' = bt_mc b \<and> bt_tops b' = bt_tops b \<and> bt_ready b' = bt_ready b \<and>
    (descriptors_ready (hw_at hw) slot b' \<longleftrightarrow> descriptors_ready (hw_at hw) slot b)) (load_interrupts hw b)"
proof -
  obtain idt where "idt_init (hw_at hw) (bt_idt b) = (Ok (), idt)" "length idt = 256"
    "\<forall>vec<256. idt ! vec = gate (stub (hw_at hw) (of_nat vec)) (if vec = 8 then 1 else 0)"
    using idt_init_gates [OF assms] by blast
  then show ?thesis by (simp add: load_interrupts_def or_die_def interrupts_ready_def descriptors_ready_def)
qed

lemma start_apic_runs:
  assumes "f \<or> has_x2apic (hw_features hw)"
  shows "runs f (\<lambda>_ b'. quiet b b') (start_apic hw b)"
  using assms by (cases "has_x2apic (hw_features hw)") (simp_all add: start_apic_def enable_x2apic_def or_die_def Let_def)

lemma ready_quiet:
  assumes "quiet b b'"
  shows "descriptors_ready at slot b' \<longleftrightarrow> descriptors_ready at slot b" "interrupts_ready at b' \<longleftrightarrow> interrupts_ready at b"
  by (simp_all add: descriptors_ready_def interrupts_ready_def quiet_fields [OF assms])

lemma ready_fields [simp]:
  "descriptors_ready at slot (b\<lparr>bt_mc := mc\<rparr>) \<longleftrightarrow> descriptors_ready at slot b"
  "descriptors_ready at slot (b\<lparr>bt_tops := tops\<rparr>) \<longleftrightarrow> descriptors_ready at slot b"
  "interrupts_ready at (b\<lparr>bt_mc := mc\<rparr>) \<longleftrightarrow> interrupts_ready at b"
  "interrupts_ready at (b\<lparr>bt_tops := tops\<rparr>) \<longleftrightarrow> interrupts_ready at b"
  by (simp_all add: descriptors_ready_def interrupts_ready_def)

section \<open>The switch to the new tables\<close>

definition running :: "Machine \<Rightarrow> bool" where
  "running mc \<longleftrightarrow> mc_cr3 mc = mc_kernel_pml4 mc \<and> mc_root_cr3 mc = mc_kernel_pml4 mc"

lemma memory_ready_evolves:
  assumes "memory_ready hhdm entries mc" and e: "evolves W (mc, {mc_kernel_pml4 mc}) (mc', {mc_kernel_pml4 mc})"
  shows "memory_ready hhdm entries mc'" "image_mapped bounds kphys kvirt mc \<Longrightarrow> image_mapped bounds kphys kvirt mc'"
    "running mc \<Longrightarrow> running mc'"
proof -
  have regs: "mc_kernel_pml4 mc' = mc_kernel_pml4 mc" "mc_cr4 mc' = mc_cr4 mc" "mc_cr3 mc' = mc_cr3 mc" "mc_root_cr3 mc' = mc_root_cr3 mc"
    using evolves_regs [OF e] by (simp_all, subst evolvesD(3) [OF e], simp)
  have tr: "mc_translate mc' (mc_kernel_pml4 mc) va = Some pa" if "mc_translate mc (mc_kernel_pml4 mc) va = Some pa" for va pa
    using evolvesD(7) [OF e _ that] by simp
  show "memory_ready hhdm entries mc'"
    using assms(1) evolvesD(1,4) [OF e] tr by (auto simp: memory_ready_def regs memory_mapped_def same_pool_def)
  show "image_mapped bounds kphys kvirt mc'" if "image_mapped bounds kphys kvirt mc"
    using that tr by (simp add: image_mapped_def regs Let_def)
  show "running mc'" if "running mc" using that by (simp add: running_def regs)
qed

lemma virt_access:
  assumes "mc_cr4 (bt_mc b) AND CR4_LA57 = 0" and "mc_translate (bt_mc b) (mc_cr3 (bt_mc b) AND PHYS_MASK) va = Some pa"
  shows "read_virt va b = (Ok (mc_mem (bt_mc b) pa), b)"
    and "write_virt va v b = (Ok (), b\<lparr>bt_mc := (bt_mc b)\<lparr>mc_mem := (mc_mem (bt_mc b))(pa := v)\<rparr>\<rparr>)"
  using assms by (simp_all add: read_virt_def write_virt_def mmu_def)

lemma switch_tables_runs:
  assumes ready: "memory_ready hhdm entries (bt_mc b)" and scratch: "scratch_ready hhdm p (bt_mc b)"
    and image: "image_mapped bounds kphys kvirt (bt_mc b)" and pml4: "pml4 = mc_kernel_pml4 (bt_mc b)"
  shows "runs f (\<lambda>_ b'. memory_ready hhdm entries (bt_mc b') \<and> image_mapped bounds kphys kvirt (bt_mc b') \<and> running (bt_mc b') \<and>
    mc_bump (bt_mc b') = mc_bump (bt_mc b) \<and> quiet (b\<lparr>bt_mc := bt_mc b'\<rparr>) b') (switch_tables pml4 (hhdm + p) b)"
proof -
  define mc where "mc = activate pml4 (bt_mc b)"
  let ?K = "mc_kernel_pml4 mc"
  have same: "mc = (bt_mc b)\<lparr>mc_root_cr3 := pml4, mc_cr3 := pml4\<rparr>" by (simp add: mc_def activate_def publish_def)
  have ok: "spaces_ok mc {?K}" using ready by (simp add: memory_ready_def spaces_ok_def same)
  have d: "p \<in> data_mem mc {?K}" "mc_mem mc p = 0x5A" "mc_translate mc ?K (hhdm + p) = Some p"
    using scratch by (simp_all add: scratch_ready_def data_mem_def same)
  have cr: "mc_cr4 mc AND CR4_LA57 = 0" "mc_cr3 mc = ?K" "mc_root_cr3 mc = ?K" "pml4 = ?K" using ready by (simp_all add: memory_ready_def same pml4)
  have K: "?K AND PHYS_MASK = ?K" using frame_id root_page(1,2) [OF ok] by simp
  let ?m = "(mc_mem mc)(p := 0xA5)"
  have out: "\<forall>x. x \<notin> {p} \<longrightarrow> ?m x = mc_mem mc x" by simp
  have W: "{p} \<subseteq> data_mem mc {?K}" using d(1) by simp
  note w = write_data [OF ok W out]
  have tr: "translate ?m ?K (hhdm + p) = Some p" using w(3) [of ?K "hhdm + p"] d(3) by (simp del: fun_upd_apply)
  have r0: "memory_ready hhdm entries mc" "image_mapped bounds kphys kvirt mc" "running mc"
    using ready image cr(2,3)
    by (simp_all only: memory_ready_def image_mapped_def memory_mapped_def spaces_ok_def running_def)
      (simp_all add: same)
  note r1 = memory_ready_evolves [OF r0(1) w(1)]
  have "memory_ready hhdm entries (mc\<lparr>mc_mem := ?m\<rparr>)" "image_mapped bounds kphys kvirt (mc\<lparr>mc_mem := ?m\<rparr>)" "running (mc\<lparr>mc_mem := ?m\<rparr>)"
    using r1 r0 by blast+
  moreover have "mc_bump mc = mc_bump (bt_mc b)" by (simp add: same)
  moreover have "switch_tables pml4 (hhdm + p) b =
      (Ok (), say (''paging: cr3 '' @ hexw pml4 @ '' hhdm live'') ((emit [LoadCr3 pml4] (b\<lparr>bt_mc := mc\<rparr>))\<lparr>bt_mc := mc\<lparr>mc_mem := ?m\<rparr>\<rparr>))"
  proof -
    define b1 where "b1 = emit [LoadCr3 pml4] (b\<lparr>bt_mc := mc\<rparr>)"
    define b2 where "b2 = b1\<lparr>bt_mc := mc\<lparr>mc_mem := ?m\<rparr>\<rparr>"
    have mc1: "bt_mc b1 = mc" "bt_mc b2 = mc\<lparr>mc_mem := ?m\<rparr>" by (simp_all add: b1_def b2_def)
    have v1: "read_virt (hhdm + p) b1 = (Ok 0x5A, b1)" "write_virt (hhdm + p) 0xA5 b1 = (Ok (), b2)"
      using virt_access [of b1 "hhdm + p" p] d(2,3) cr K by (simp_all add: mc1 b2_def del: fun_upd_apply)
    have v2: "read_virt (hhdm + p) b2 = (Ok 0xA5, b2)"
      using virt_access(1) [of b2 "hhdm + p" p] tr cr K by (simp add: mc1)
    have mask: "mc_cr3 (bt_mc b1) AND 0x000ffffffffff000 = pml4" using K cr by (simp add: mc1 PHYS_MASK_def)
    show ?thesis
      unfolding switch_tables_def mc_def [symmetric] b1_def [symmetric] Let_def
      using mask v1 v2 by (simp add: b2_def [symmetric] mc1)
  qed
  ultimately show ?thesis by (simp add: quiet_def emit_def del: fun_upd_apply)
qed

section \<open>Stacks\<close>

definition stacks_ready :: "nat \<Rightarrow> u64 list \<Rightarrow> Machine \<Rightarrow> bool" where
  "stacks_ready n tops mc \<longleftrightarrow> length tops = MAX_CPUS \<and> (\<exists>ps. (\<forall>c<n. stack_at mc {mc_kernel_pml4 mc} (ps c) (tops ! c)) \<and>
     (\<forall>c<n. \<forall>d<n. c \<noteq> d \<longrightarrow> span (ps c) 0x10000 \<inter> span (ps d) 0x10000 = {}))"

lemma make_stacks_runs:
  assumes ready: "memory_ready hhdm entries (bt_mc b)" and image: "image_mapped bounds kphys kvirt (bt_mc b)" and run: "running (bt_mc b)"
    and tops: "length (bt_tops b) = MAX_CPUS" and n: "cpu_count rq \<le> MAX_CPUS"
    and room: "f \<or> 0 < cpu_count rq \<and> room (k + 16 * cpu_count rq) (mc_bump (bt_mc b))"
  shows "runs f (\<lambda>_ b'. memory_ready hhdm entries (bt_mc b') \<and> image_mapped bounds kphys kvirt (bt_mc b') \<and> running (bt_mc b') \<and>
    stacks_ready (cpu_count rq) (bt_tops b') (bt_mc b') \<and> (f \<or> room k (mc_bump (bt_mc b'))) \<and>
    quiet (b\<lparr>bt_tops := bt_tops b', bt_mc := bt_mc b'\<rparr>) b') (make_stacks hw rq b)"
proof -
  let ?n = "cpu_count rq" and ?K = "mc_kernel_pml4 (bt_mc b)"
  obtain res tops' mc' where a: "alloc_all ?n (bt_tops b, bt_mc b) = (res, tops', mc')" by (metis surj_pair)
  have ok: "spaces_ok (bt_mc b) {?K}" using ready by (simp add: memory_ready_def)
  have hyps: "16 dvd unat (ba_hhdm (mc_bump (bt_mc b)))" "unat (ba_hhdm (mc_bump (bt_mc b))) + unat (ba_end (mc_bump (bt_mc b))) < 2 ^ 64"
    using ready dvd_trans [of 16 4096 "unat hhdm"] by (auto simp: memory_ready_def)
  have good: "res = Ok () \<and> room k (mc_bump mc')" if "\<not> f"
    using alloc_all_room [OF ok _ n, of k "bt_tops b"] room that a by auto
  have np: "res \<noteq> Panic \<and> (res = Ok () \<longrightarrow> evolves {} (bt_mc b, {?K}) (mc', {?K}) \<and> stacks_ready ?n tops' mc')"
  proof (cases "?n = 0")
    case False
    with n a have s: "alloc_stacks [0..<?n] (bt_tops b, bt_mc b) = (res, tops', mc')" by (simp add: alloc_all_def)
    have "\<forall>c\<in>set [0..<?n]. c < length (bt_tops b)" using n tops by simp
    note st = alloc_stacks_result [OF ok hyps distinct_upt this s]
    show ?thesis
    proof (intro conjI impI)
      show "res \<noteq> Panic" using st by auto
      assume r: "res = Ok ()"
      show e: "evolves {} (bt_mc b, {?K}) (mc', {?K})" using st by simp
      from st r obtain ps where "\<forall>c\<in>set [0..<?n]. stack_at mc' {?K} (ps c) (tops' ! c)"
        "\<forall>c\<in>set [0..<?n]. \<forall>d\<in>set [0..<?n]. c \<noteq> d \<longrightarrow> span (ps c) 0x10000 \<inter> span (ps d) 0x10000 = {}" by blast
      then show "stacks_ready ?n tops' mc'"
        unfolding stacks_ready_def evolves_regs(1) [OF e] using conjunct1 [OF conjunct2 [OF st]] tops by (intro conjI exI [of _ ps]) simp_all
    qed
  qed (use a in \<open>auto simp: alloc_all_def\<close>)
  have up: "memory_ready hhdm entries mc'" "image_mapped bounds kphys kvirt mc'" "running mc'" if "res = Ok ()"
    using np that memory_ready_evolves [OF ready, of "{}" mc'] image run by blast+
  show ?thesis
    unfolding make_stacks_def a Let_def prod.case
    by (intro runs_try [OF runs_or_die [where Q = "\<lambda>_ b'. res = Ok () \<and> b' = b\<lparr>bt_tops := tops', bt_mc := mc'\<rparr>"]])
      (use np good up in auto)
qed

end
