(* ===== verification/Boot_Progress.thy ===== *)
theory Boot_Progress
  imports Boot_Steps
begin

text \<open>
  The boot as a whole: \<^verbatim>\<open>kmain\<close> leaves the machine as the second half and the other CPUs need it, and the second
  half ends with the line \<^verbatim>\<open>BOOT_OK\<close>.
\<close>

section \<open>The state after kmain\<close>

definition boot_fresh :: "Boot \<Rightarrow> bool" where
  "boot_fresh b \<longleftrightarrow> length (bt_tops b) = MAX_CPUS \<and> length (bt_idt b) = 256 \<and> mc_cr4 (bt_mc b) AND CR4_LA57 = 0"

definition booted :: "Hardware \<Rightarrow> Requests \<Rightarrow> Boot \<Rightarrow> bool" where
  "booted hw rq b \<longleftrightarrow> (\<exists>hhdm exec mm. response (HHDM rq) = Some hhdm \<and> response (EXECUTABLE rq) = Some exec \<and> response (MEMMAP rq) = Some mm \<and>
     memory_ready (hhdm_offset hhdm) (mm_entries mm) (bt_mc b) \<and>
     image_mapped (hw_bounds hw) (physical_base exec) (virtual_base exec) (bt_mc b)) \<and> running (bt_mc b) \<and>
     cpu_count rq \<le> MAX_CPUS \<and> stacks_ready (cpu_count rq) (bt_tops b) (bt_mc b) \<and>
     descriptors_ready (hw_at hw) (bsp_slot rq) b \<and> interrupts_ready (hw_at hw) b"

text \<open>The answers of the boot loader as they are, and when they are complete.\<close>

definition loader_sane :: "Hardware \<Rightarrow> Requests \<Rightarrow> bool" where
  "loader_sane hw rq \<longleftrightarrow> (case (response (HHDM rq), response (EXECUTABLE rq), response (MEMMAP rq)) of
      (Some hhdm, Some exec, Some mm) \<Rightarrow>
        answers_sane (hw_bounds hw) (hhdm_offset hhdm) (physical_base exec) (virtual_base exec) (mm_entries mm)
    | _ \<Rightarrow> True)"

definition loader_complete :: "Hardware \<Rightarrow> Requests \<Rightarrow> bool" where
  "loader_complete hw rq \<longleftrightarrow> (case (response (FIRMWARE rq), response (HHDM rq), response (EXECUTABLE rq), response (MEMMAP rq)) of
      (Some fw, Some hhdm, Some exec, Some mm) \<Rightarrow> firmware_type fw = FIRMWARE_UEFI64 \<and>
        build_ready (hw_bounds hw) (hhdm_offset hhdm) (physical_base exec) (virtual_base exec) (mm_entries mm) \<and>
        (case from_memmap (hhdm_offset hhdm) (mm_entries mm) of
           Some bump \<Rightarrow> room (1 + build_pages (hw_bounds hw) (hhdm_offset hhdm) (physical_base exec) (virtual_base exec) (mm_entries mm) +
             16 * cpu_count rq + 2193) bump
         | None \<Rightarrow> False)
    | _ \<Rightarrow> False) \<and>
    0 < cpu_count rq \<and> cpu_count rq \<le> MAX_CPUS \<and> has_x2apic (hw_features hw)"

lemma position_bound: "position_from n lapic cpus = Some m \<Longrightarrow> m < n + length cpus"
  by (induction n lapic cpus rule: position_from.induct) (auto split: if_splits)

lemma cpu_slot_bound: "response (MP rq) = Some mp \<Longrightarrow> cpu_count rq \<le> MAX_CPUS \<Longrightarrow> cpu_slot mp lapic < MAX_CPUS"
  using position_bound [of 0 lapic "mp_cpus mp"]
  by (auto simp: cpu_slot_def cpu_count_def MAX_CPUS_def split: option.splits)

lemma bsp_slot_bound: "cpu_count rq \<le> MAX_CPUS \<Longrightarrow> bsp_slot rq < MAX_CPUS"
  using cpu_slot_bound [of rq] by (auto simp: bsp_slot_def MAX_CPUS_def split: option.splits)

lemma loader_complete_pool:
  assumes "loader_complete hw rq" and "response (HHDM rq) = Some hhdm" "response (MEMMAP rq) = Some mm"
  shows "from_memmap (hhdm_offset hhdm) (mm_entries mm) \<noteq> None"
    "\<exists>e. e \<in> set (mm_entries mm) \<and> me_kind e = MEMMAP_USABLE \<and> me_length e \<noteq> 0"
proof -
  from assms obtain bump where b: "from_memmap (hhdm_offset hhdm) (mm_entries mm) = Some bump"
    by (auto simp: loader_complete_def split: option.splits)
  then show "from_memmap (hhdm_offset hhdm) (mm_entries mm) \<noteq> None" by simp
  from b obtain e where e: "e \<in> set (mm_entries mm)" "me_kind e = MEMMAP_USABLE" "2 ^ 16 \<le> card (bump_pool bump)"
    "bump_pool bump \<subseteq> {unat (me_base e) ..< unat (me_base e) + unat (me_length e)}" by (rule from_memmap_Some)
  have "me_length e \<noteq> 0" using e(3,4) by auto
  with e show "\<exists>e. e \<in> set (mm_entries mm) \<and> me_kind e = MEMMAP_USABLE \<and> me_length e \<noteq> 0" by blast
qed

text \<open>The parts of \<^verbatim>\<open>kmain\<close> from the switch of the tables on, and from the page tables on.\<close>

lemma kmain_switch_runs:
  assumes resp: "response (HHDM rq) = Some hhdm" "response (EXECUTABLE rq) = Some exec" "response (MEMMAP rq) = Some mm"
    and mem: "memory_ready (hhdm_offset hhdm) (mm_entries mm) (bt_mc b)" "scratch_ready (hhdm_offset hhdm) p (bt_mc b)"
      "image_mapped (hw_bounds hw) (physical_base exec) (virtual_base exec) (bt_mc b)" "pml4 = mc_kernel_pml4 (bt_mc b)"
    and ready: "descriptors_ready (hw_at hw) (bsp_slot rq) b" "interrupts_ready (hw_at hw) b"
    and cpus: "length (bt_tops b) = MAX_CPUS" "cpu_count rq \<le> MAX_CPUS"
    and room: "f \<or> 0 < cpu_count rq \<and> room (2193 + 16 * cpu_count rq) (mc_bump (bt_mc b))"
  shows "runs f (\<lambda>rsp b'. booted hw rq b' \<and> bt_ready b' = bt_ready b \<and> rsp = bt_tops b' ! bsp_slot rq - 8 \<and> (f \<or> room 2193 (mc_bump (bt_mc b'))))
    (try_st (switch_tables pml4 (hhdm_offset hhdm + p) b) (\<lambda>_ b.
     try_st (make_stacks hw rq b) (\<lambda>_ b.
     (Ok (fst (switch_to (stack_top (bt_tops b) (bsp_slot rq)))), b))))"
  apply (rule runs_try [OF switch_tables_runs [OF mem]])
  subgoal premises 1 for u1 b1
  proof -
    from 1 have q1: "quiet (b\<lparr>bt_mc := bt_mc b1\<rparr>) b1" and m1: "memory_ready (hhdm_offset hhdm) (mm_entries mm) (bt_mc b1)"
      "image_mapped (hw_bounds hw) (physical_base exec) (virtual_base exec) (bt_mc b1)" "running (bt_mc b1)" and bump: "mc_bump (bt_mc b1) = mc_bump (bt_mc b)"
      by simp_all
    have c1: "length (bt_tops b1) = MAX_CPUS" "bt_ready b1 = bt_ready b" using cpus quiet_fields [OF q1] by simp_all
    have r1: "descriptors_ready (hw_at hw) (bsp_slot rq) b1" "interrupts_ready (hw_at hw) b1"
      using ready by (simp_all add: ready_quiet [OF q1])
    have rm: "f \<or> 0 < cpu_count rq \<and> room (2193 + 16 * cpu_count rq) (mc_bump (bt_mc b1))" using room by (simp add: bump)
    show ?thesis
      apply (rule runs_try [OF make_stacks_runs [OF m1 c1(1) cpus(2) rm]])
      subgoal premises 2 for u2 b2
      proof -
        from 2 have q2: "quiet (b1\<lparr>bt_tops := bt_tops b2, bt_mc := bt_mc b2\<rparr>) b2" by simp
        have "descriptors_ready (hw_at hw) (bsp_slot rq) b2" "interrupts_ready (hw_at hw) b2" "bt_ready b2 = bt_ready b"
          using r1 c1(2) quiet_fields(10) [OF q2] by (simp_all add: ready_quiet [OF q2])
        with 2 resp cpus(2) bsp_slot_bound [OF cpus(2)] show ?thesis by (simp add: booted_def stack_top_def switch_to_def Let_def)
      qed
      done
  qed
  done

lemma kmain_tables_runs:
  assumes fresh: "boot_fresh b" and sane: "answers_sane (hw_bounds hw) (hhdm_offset hhdm) (physical_base exec) (virtual_base exec) (mm_entries mm)"
    and resp: "response (HHDM rq) = Some hhdm" "response (EXECUTABLE rq) = Some exec" "response (MEMMAP rq) = Some mm"
    and bump: "from_memmap (hhdm_offset hhdm) (mm_entries mm) = Some bump" "alloc_pages 1 bump = Some ((p, v), mc_bump (bt_mc b))" "mc_mem (bt_mc b) p = 0x5A"
    and full: "f \<or> loader_complete hw rq"
  shows "runs f (\<lambda>rsp b'. booted hw rq b' \<and> bt_ready b' = bt_ready b \<and> rsp = bt_tops b' ! bsp_slot rq - 8 \<and> (f \<or> room 2193 (mc_bump (bt_mc b'))))
    (try_st (make_tables hw rq (hhdm_offset hhdm) exec (mm_entries mm) b) (\<lambda>pages b.
     try_st (check_cpus rq b) (\<lambda>_ b.
     try_st (load_descriptors hw (bsp_slot rq) b) (\<lambda>_ b.
     try_st (load_interrupts hw b) (\<lambda>_ b.
     try_st (start_apic hw b) (\<lambda>_ b.
     try_st (switch_tables (pm_pml4_phys pages) v b) (\<lambda>_ b.
     try_st (make_stacks hw rq b) (\<lambda>_ b.
     (Ok (fst (switch_to (stack_top (bt_tops b) (bsp_slot rq)))), b)))))))))"
proof -
  let ?n = "cpu_count rq" and ?h = "hhdm_offset hhdm" and ?es = "mm_entries mm"
  let ?pages = "build_pages (hw_bounds hw) ?h (physical_base exec) (virtual_base exec) ?es"
  have cr4: "mc_cr4 (bt_mc b) AND CR4_LA57 = 0" using fresh by (simp add: boot_fresh_def)
  have cpus: "f \<or> ?n \<le> MAX_CPUS" and pos: "f \<or> 0 < ?n" and apic: "f \<or> has_x2apic (hw_features hw)" using full by (auto simp: loader_complete_def)
  have ready: "f \<or> build_ready (hw_bounds hw) ?h (physical_base exec) (virtual_base exec) ?es \<and> room ((2193 + 16 * ?n) + ?pages) (mc_bump (bt_mc b))"
  proof (cases f)
    case False
    with full resp bump(1) have "build_ready (hw_bounds hw) ?h (physical_base exec) (virtual_base exec) ?es"
      "room (1 + ?pages + 16 * ?n + 2193) bump"
      by (auto simp: loader_complete_def split: option.splits)
    with alloc_pages_Some(1,5,7) [OF from_memmap_fresh(1) [OF bump(1)] bump(2)] show ?thesis by (simp add: room_def)
  qed simp
  show ?thesis
    apply (rule runs_try [OF make_tables_runs [OF sane bump cr4 ready]])
    subgoal premises 1 for pages b1
      apply (rule runs_try [OF check_cpus_runs [OF cpus quiet_refl [of b1]]])
      subgoal premises 2 for u2 b2
        apply (rule runs_try [OF load_descriptors_runs [OF bsp_slot_bound [OF conjunct2 [OF 2]]]])
        subgoal premises 3 for u3 b3
          apply (rule runs_try [OF load_interrupts_runs [where slot = "bsp_slot rq"]])
          subgoal using fresh quiet_fields [OF conjunct1 [OF 2]] 3 1 quiet_fields(5) [of "b\<lparr>bt_mc := bt_mc b1\<rparr>" b1] by (simp add: boot_fresh_def)
          subgoal premises 4 for u4 b4
            apply (rule runs_try [OF start_apic_runs [OF apic]])
            subgoal premises 5 for u5 b5
            proof -
              have q1: "quiet (b\<lparr>bt_mc := bt_mc b1\<rparr>) b1" and q2: "quiet b1 b2" using 1 2 by simp_all
              have mc: "bt_mc b5 = bt_mc b1" "bt_tops b5 = bt_tops b" "bt_ready b5 = bt_ready b"
                using 3 4 quiet_fields [OF q1] quiet_fields [OF q2] quiet_fields [OF 5] by simp_all
              have d5: "descriptors_ready (hw_at hw) (bsp_slot rq) b5" "interrupts_ready (hw_at hw) b5"
                using 3 4 by (simp_all add: ready_quiet [OF 5])
              have v: "v = ?h + p" using 1 by simp
              show ?thesis
                unfolding v mc(3) [symmetric]
                by (rule kmain_switch_runs [OF resp _ _ _ _ d5]) (use 1 2 fresh pos in \<open>auto simp: mc boot_fresh_def\<close>)
            qed
            done
          done
        done
      done
    done
qed

lemma kmain_runs:
  assumes fresh: "boot_fresh b" and sane: "loader_sane hw rq" and full: "f \<or> loader_complete hw rq"
  shows "runs f (\<lambda>rsp b'. booted hw rq b' \<and> bt_ready b' = bt_ready b \<and> rsp = bt_tops b' ! bsp_slot rq - 8 \<and> (f \<or> room 2193 (mc_bump (bt_mc b'))))
    (kmain hw rq b)"
proof -
  have uefi: "f \<or> (\<exists>fw. response (FIRMWARE rq) = Some fw \<and> firmware_type fw = FIRMWARE_UEFI64)" and hhdm: "f \<or> response (HHDM rq) \<noteq> None"
    and exec: "f \<or> response (EXECUTABLE rq) \<noteq> None" and mm: "f \<or> response (MEMMAP rq) \<noteq> None"
    using full by (auto simp: loader_complete_def split: option.splits)
  have usable: "f \<or> (\<exists>mm e. response (MEMMAP rq) = Some mm \<and> e \<in> set (mm_entries mm) \<and> me_kind e = MEMMAP_USABLE \<and> me_length e \<noteq> 0)"
    using full hhdm mm loader_complete_pool(2) [of hw rq] by (cases f) auto
  show ?thesis
    unfolding kmain_def
    apply (rule runs_try [OF check_firmware_runs [OF uefi greet_quiet]])
    apply (rule runs_try [OF find_hhdm_runs [OF hhdm]], assumption)
    apply (elim conjE exE, hypsubst)
    apply (rule runs_try [OF find_memory_runs [OF usable]], assumption)
    apply (elim conjE exE, hypsubst)
    subgoal premises 1 for u1 b1 v b2 h es b3 mm
      apply (rule runs_try [OF start_memory_runs [OF _ 1(4)]])
      subgoal using full loader_complete_pool(1) [OF _ 1(3) 1(5)] by blast
      subgoal premises 2 for a b4
      proof -
        obtain phys virt where a: "a = (phys, virt)" by (rule prod.exhaust)
        from 2 obtain bump bump' where m: "from_memmap (hhdm_offset h) (mm_entries mm) = Some bump" "alloc_pages 1 bump = Some ((phys, virt), bump')"
          and q: "quiet (b\<lparr>bt_mc := (bt_mc b)\<lparr>mc_bump := bump', mc_mem := (mc_mem (bt_mc b))(phys := 0x5A)\<rparr>\<rparr>) b4" by (auto simp: a)
        show ?thesis
          unfolding a prod.case
          apply (rule runs_try [OF find_kernel_runs [OF exec q]])
          subgoal premises 3 for ex b5
          proof -
            from 3 have q5: "quiet (b\<lparr>bt_mc := (bt_mc b)\<lparr>mc_bump := bump', mc_mem := (mc_mem (bt_mc b))(phys := 0x5A)\<rparr>\<rparr>) b5"
              and ex: "response (EXECUTABLE rq) = Some ex" by simp_all
            have s: "answers_sane (hw_bounds hw) (hhdm_offset h) (physical_base ex) (virtual_base ex) (mm_entries mm)"
              using sane 1(3,5) ex by (simp add: loader_sane_def)
            have b5: "boot_fresh b5" "bt_ready b5 = bt_ready b" "mc_bump (bt_mc b5) = bump'" "mc_mem (bt_mc b5) phys = 0x5A"
              using fresh quiet_fields [OF q5] by (simp_all add: boot_fresh_def)
            from kmain_tables_runs [OF b5(1) s 1(3) ex 1(5) m(1) _ b5(4) full] m(2) show ?thesis by (simp add: b5(2,3))
          qed
          done
      qed
      done
    done
qed

section \<open>On the kernel's stack\<close>

text \<open>What a run of the second half has to read: that the CPUs are there, and that the interrupts arrive in time.\<close>

definition landed :: "Wait \<Rightarrow> u32 \<Rightarrow> bool" where
  "landed w want \<longleftrightarrow> wait_from (wt_start w) want (wt_reads w) = Some True"

definition env_sane :: "Env \<Rightarrow> bool" where
  "env_sane env \<longleftrightarrow> (\<forall>ph\<in>set (image_segments (env_app_image env)) \<union> set (image_segments (env_net_image env)). segment_low ph) \<and>
     (case env_stacks env of (s1, s2, s3) \<Rightarrow> length s1 \<le> 8 \<and> length s2 \<le> 8 \<and> length s3 \<le> 8)"

definition env_complete :: "Requests \<Rightarrow> Env \<Rightarrow> bool" where
  "env_complete rq env \<longleftrightarrow> (response (MP rq) = None \<or> spin_ready (expected_aps rq) 0 (env_ready env) = Some (expected_aps rq)) \<and>
     landed (env_self env) 1 \<and> landed (env_timer env) 3 \<and> (expected_aps rq = 0 \<or> landed (env_pongs env) (1 + expected_aps rq)) \<and>
     image_fits (env_app_image env) \<and> image_fits (env_net_image env)"

definition ended_well :: "Requests \<Rightarrow> Boot \<Rightarrow> bool" where
  "ended_well rq b \<longleftrightarrow> (\<exists>before. bt_out b = before @ println (''BOOT_OK cpus='' @ digits (cpu_count rq)) @ qemu_exit_success)"

lemma bootstrap_boot_root: "bootstrap root_new = (Ok (), boot_root)"
  by (simp add: boot_root_def bootstrap_def root_new_def root_create_court_def alloc_object_def root_bind_def mint_def Let_def
      MAX_COURTS_def MAX_CAPS_def MAX_BINDINGS_def eval_nat_numeral)

lemma start_aps_runs:
  assumes "f \<or> response (MP rq) = None \<or> spin_ready (expected_aps rq) 0 (env_ready env) = Some (expected_aps rq)"
  shows "runs f (\<lambda>_ b'. bt_mc b' = bt_mc b \<and> bt_root b' = bt_root b) (start_aps hw rq env b)"
  using assms by (auto simp: start_aps_def Let_def split: option.splits)

lemma wait_atomic_runs:
  assumes "f \<or> landed w want"
  shows "runs f (\<lambda>ok b'. b' = b \<and> (f \<or> ok)) (wait_atomic w want b)"
  using assms by (auto simp: wait_atomic_def landed_def split: option.splits)

lemma test_interrupts_runs:
  assumes "f \<or> landed (env_self env) 1" and "f \<or> landed (env_timer env) 3" and "f \<or> expected_aps rq = 0 \<or> landed (env_pongs env) (1 + expected_aps rq)"
  shows "runs f (\<lambda>_ b'. bt_mc b' = bt_mc b \<and> bt_root b' = bt_root b) (test_interrupts rq env b)"
  unfolding test_interrupts_def Let_def
  apply (rule runs_try [OF wait_atomic_runs [OF assms(1)]])
  apply (rule runs_if, simp)
  apply (rule runs_try [OF wait_atomic_runs [OF assms(2)]])
  apply (rule runs_if, simp)
  apply (rule runs_try [where P = "\<lambda>_ b'. bt_mc b' = bt_mc b \<and> bt_root b' = bt_root b"])
   apply (rule runs_if, simp)
   apply (rule runs_try [OF wait_atomic_runs [where f = f]])
  using assms(3) by auto

lemma run_demo_total:
  assumes ok: "spaces_ok mc S" and regs: "mc_cr4 mc AND CR4_LA57 = 0" "mc_cr3 mc AND PHYS_MASK = mc_cr3 mc" and inv: "root_inv root"
    and low: "\<forall>ph\<in>set (image_segments ai) \<union> set (image_segments ni). segment_low ph" and len: "length s1 \<le> 8" "length s2 \<le> 8" "length s3 \<le> 8"
  shows "fst (run_demo ai ni s1 s2 s3 (mc, root)) \<noteq> Panic"
    and "fst (demo_setup ai ni (mc, root)) = Ok x \<Longrightarrow> fst (run_demo ai ni s1 s2 s3 (mc, root)) = Ok ()"
proof -
  obtain res k' where d: "demo_setup ai ni (mc, root) = (res, k')" by (rule prod.exhaust)
  have np: "res \<noteq> Panic" by (rule demo_setup_total [OF ok low d])
  have good: "fst (run_demo ai ni s1 s2 s3 (mc, root)) = Ok ()" if "res = Ok a" for a
  proof -
    obtain cap ring app net mc1 root1 where "a = (cap, ring, app, net)" "k' = (mc1, root1)" by (metis surj_pair)
    from run_demo_after_setup [OF ok regs inv low len d [unfolded that this]] show ?thesis by auto
  qed
  then show "fst (run_demo ai ni s1 s2 s3 (mc, root)) = Ok ()" if "fst (demo_setup ai ni (mc, root)) = Ok x" using that d by simp
  show "fst (run_demo ai ni s1 s2 s3 (mc, root)) \<noteq> Panic" using np good d by (cases res) (auto simp: run_demo_def)
qed

lemma running_root:
  assumes "memory_ready hhdm entries mc" and "running mc"
  shows "mc_cr3 mc AND PHYS_MASK = mc_cr3 mc"
  using assms frame_id root_page(1,2) [of mc "{mc_kernel_pml4 mc}" "mc_kernel_pml4 mc"] by (simp add: memory_ready_def running_def)

lemma kmain_on_kstack_runs:
  assumes b: "booted hw rq b" and sane: "env_sane env" and full: "f \<or> env_complete rq env \<and> room 2193 (mc_bump (bt_mc b))"
  shows "runs f (\<lambda>_ b'. ended_well rq b') (kmain_on_kstack hw rq env b)"
proof -
  from b obtain h es where mem: "memory_ready h es (bt_mc b)" and run: "running (bt_mc b)" by (auto simp: booted_def)
  then have mc: "spaces_ok (bt_mc b) {mc_kernel_pml4 (bt_mc b)}" "mc_kernel_pml4 (bt_mc b) \<noteq> 0" "mc_cr4 (bt_mc b) AND CR4_LA57 = 0"
    "mc_cr3 (bt_mc b) AND PHYS_MASK = mc_cr3 (bt_mc b)" using running_root by (auto simp: memory_ready_def)
  obtain s1 s2 s3 where st: "env_stacks env = (s1, s2, s3)" by (metis surj_pair)
  let ?ai = "env_app_image env" and ?ni = "env_net_image env"
  have env: "\<forall>ph\<in>set (image_segments ?ai) \<union> set (image_segments ?ni). segment_low ph" "length s1 \<le> 8" "length s2 \<le> 8" "length s3 \<le> 8"
    using sane by (simp_all add: env_sane_def st)
  obtain res mc' root' where d: "run_demo ?ai ?ni s1 s2 s3 (bt_mc b, boot_root) = (res, mc', root')" by (metis surj_pair)
  note total = run_demo_total [OF mc(1,3,4) boot_root_inv env]
  have np: "res \<noteq> Panic" using total(1) d by simp
  have good: "f \<or> res = Ok ()"
    using full demo_setup_room [OF mc(1,2,3), of ?ai ?ni] total(2) d by (auto simp: env_complete_def)
  have waits: "f \<or> response (MP rq) = None \<or> spin_ready (expected_aps rq) 0 (env_ready env) = Some (expected_aps rq)"
    "f \<or> landed (env_self env) 1" "f \<or> landed (env_timer env) 3" "f \<or> expected_aps rq = 0 \<or> landed (env_pongs env) (1 + expected_aps rq)"
    using full by (auto simp: env_complete_def)
  have boot: "on_root bootstrap (mc, root_new) = (Ok (), (mc, boot_root))" for mc by (simp add: on_root_def bootstrap_boot_root)
  show ?thesis
    unfolding kmain_on_kstack_def Let_def boot prod.case or_die_Ok try_st_simps st
    apply (rule runs_try [OF start_aps_runs [OF waits(1)]])
    apply (rule runs_try [OF test_interrupts_runs [OF waits(2-4)]])
    subgoal premises 1 for u1 b1 u2 b2
      using 1 np good by (cases res) (simp_all add: d or_die_def ended_well_def emit_def)
    done
qed

lemma bring_up_runs:
  assumes "boot_fresh b" and "loader_sane hw rq" and "env_sane env" and full: "f \<or> loader_complete hw rq \<and> env_complete rq env"
  shows "runs f (\<lambda>_ b'. ended_well rq b') (bring_up hw rq env b)"
  unfolding bring_up_def
  apply (rule runs_try [OF kmain_runs [OF assms(1,2), where f = f]])
  using full kmain_on_kstack_runs [OF _ assms(3), where f = f] by blast+

section \<open>The other CPUs\<close>

text \<open>The CPU of an entry of the response, and what it runs with when it halts.\<close>

definition ap_up :: "Hardware \<Rightarrow> MpResponse \<Rightarrow> (u32 \<Rightarrow> Features) \<Rightarrow> Boot \<Rightarrow> MpInfo \<Rightarrow> Ap" where
  "ap_up hw mp features b info = (let slot = cpu_slot mp (lapic_id info) in
     \<lparr>ap_cr3 = mc_kernel_pml4 (bt_mc b), ap_regs = loaded (hw_at hw) slot, ap_idtr = idt_load (hw_at hw), ap_rsp = bt_tops b ! slot - 8,
      ap_out = LoadCr3 (mc_kernel_pml4 (bt_mc b)) # snd (enable_x2apic (features (lapic_id info))) @ [Sti, Hlt]\<rparr>)"

lemma position_nth:
  assumes "distinct (map lapic_id cpus)" and "i < length cpus"
  shows "position_from n (lapic_id (cpus ! i)) cpus = Some (n + i)"
  using assms
proof (induction cpus arbitrary: n i)
  case (Cons c cs)
  then show ?case by (cases i) (auto simp: image_iff)
qed simp

lemma cpu_slot_nth: "distinct (map lapic_id (mp_cpus mp)) \<Longrightarrow> i < length (mp_cpus mp) \<Longrightarrow> cpu_slot mp (lapic_id (mp_cpus mp ! i)) = i"
  by (simp add: cpu_slot_def position_nth)

lemma cpu_slot_inj:
  assumes d: "distinct (map lapic_id (mp_cpus mp))" and "x \<in> set (mp_cpus mp)" "y \<in> lapic_id ` set (mp_cpus mp)"
    and "cpu_slot mp (lapic_id x) = cpu_slot mp y"
  shows "lapic_id x = y"
  using assms(2-4) by (auto simp: in_set_conv_nth cpu_slot_nth [OF d] image_iff)

lemma stack_top_nonzero:
  assumes "stacks_ready n tops mc" and "c < n" "n \<le> MAX_CPUS"
  shows "stack_top tops c \<noteq> 0"
proof -
  from assms obtain p where "stack_at mc {mc_kernel_pml4 mc} p (tops ! c)" by (auto simp: stacks_ready_def)
  then have "unat (tops ! c) \<noteq> 0" by (simp add: stack_at_def)
  with assms(2,3) show ?thesis by (auto simp: stack_top_def)
qed

lemma run_aps_up:
  assumes b: "running (bt_mc b)" "mc_kernel_pml4 (bt_mc b) \<noteq> 0" "stacks_ready (length (mp_cpus mp)) (bt_tops b) (bt_mc b)" "length (bt_gdts b) = MAX_CPUS"
    and mp: "response (MP rq) = Some mp" "distinct (map lapic_id (mp_cpus mp))" "length (mp_cpus mp) \<le> MAX_CPUS"
    and infos: "distinct infos" "set infos \<subseteq> set (mp_cpus mp)" "\<forall>info\<in>set infos. bt_gdts b ! cpu_slot mp (lapic_id info) = gdt_of (hw_at hw) (cpu_slot mp (lapic_id info))"
      "\<forall>info\<in>set infos. has_x2apic (features (lapic_id info))"
  shows "\<exists>b'. run_aps hw rq features infos b = (map (\<lambda>info. Ok (ap_up hw mp features b info)) infos, b') \<and>
    bt_ready b' = bt_ready b + of_nat (length infos)"
  using b infos
proof (induction infos arbitrary: b)
  case (Cons info infos)
  define slot where "slot = cpu_slot mp (lapic_id info)"
  from Cons.prems(6) obtain i where "i < length (mp_cpus mp)" "info = mp_cpus mp ! i" by (auto simp: in_set_conv_nth)
  then have i: "slot < length (mp_cpus mp)" using cpu_slot_nth [OF mp(2)] by (simp add: slot_def)
  then have lt: "slot < MAX_CPUS" using mp(3) by simp
  obtain gdt where g: "gdt_load (hw_at hw) slot (bt_gdts b) = (Ok (loaded (hw_at hw) slot), (bt_gdts b)[slot := gdt])"
    using gdt_load_fresh [OF lt _ Cons.prems(4)] Cons.prems(7) by (auto simp: slot_def)
  let ?b = "b\<lparr>bt_gdts := (bt_gdts b)[slot := gdt], bt_ready := bt_ready b + 1\<rparr>"
  have top: "stack_top (bt_tops b) slot \<noteq> 0" "stack_top (bt_tops b) slot = bt_tops b ! slot"
    using stack_top_nonzero [OF Cons.prems(3) i mp(3)] lt by (simp_all add: stack_top_def)
  have x: "has_x2apic (features (lapic_id info))" using Cons.prems(8) by simp
  have entry: "ap_entry hw rq (features (lapic_id info)) info b = (Ok (ap_up hw mp features b info), ?b)"
    using g top Cons.prems(1,2) x mp(1)
    by (simp add: ap_entry_def load_published_def running_def Let_def slot_def [symmetric] ap_up_def switch_to_def enable_x2apic_def)
  have other: "slot \<noteq> cpu_slot mp (lapic_id x)" if "x \<in> set infos" for x
  proof
    assume s: "slot = cpu_slot mp (lapic_id x)"
    have "x \<in> set (mp_cpus mp)" "info \<in> set (mp_cpus mp)" "x \<noteq> info" using that Cons.prems(5,6) by auto
    with cpu_slot_inj [OF mp(2) _ _ s [symmetric, unfolded slot_def]] mp(2) show False by (auto simp: distinct_map inj_on_def)
  qed
  have "\<exists>b'. run_aps hw rq features infos ?b = (map (\<lambda>info. Ok (ap_up hw mp features ?b info)) infos, b') \<and>
      bt_ready b' = bt_ready ?b + of_nat (length infos)"
    by (rule Cons.IH) (use Cons.prems other in \<open>auto simp: nth_list_update_neq\<close>)
  moreover have "ap_up hw mp features ?b = ap_up hw mp features b" by (simp add: ap_up_def fun_eq_iff)
  ultimately show ?case by (auto simp: entry algebra_simps)
qed simp

end
