(* ===== verification/Boot_Properties.thy ===== *)
theory Boot_Properties
  imports Boot_Progress Courtlet_Properties
begin

text \<open>
  The properties of the boot, with a machine of 256 MiB and two CPUs as their instance.
\<close>

section \<open>An instance\<close>

definition sample_features :: Features where
  "sample_features = \<lparr>cpuid1_ecx = 0x200000, apic_base = (0xfee00900, 0), apic_id = (0, 0)\<rparr>"

definition sample_hw :: Hardware where
  "sample_hw = \<lparr>hw_at = \<lparr>gdts_at = 0xffffffff80004000, tsss_at = 0xffffffff80004200, ists_at = 0xffffffff80005000,
       idt_at = 0xffffffff80003000, isr_stub_table = 0xffffffff80001000\<rparr>,
     hw_bounds = (0xffffffff80000000, 0xffffffff80040000), hw_ap_entry = 0xffffffff80000800, hw_features = sample_features,
     hw_limine_rsp = 0xffff800000090000, hw_kernel_rsp = 0\<rparr>"

definition sample_map :: "MemmapEntry list" where
  "sample_map = [\<lparr>me_base = 0x100000, me_length = 0xff00000, me_kind = MEMMAP_USABLE\<rparr>,
     \<lparr>me_base = 0x10000000, me_length = 0x40000, me_kind = MEMMAP_EXECUTABLE_AND_MODULES\<rparr>]"

definition sample_cpu :: "u32 \<Rightarrow> MpInfo" where
  "sample_cpu n = \<lparr>processor_id = n, lapic_id = n, goto_address = 0, extra_argument = 0\<rparr>"

definition sample_mp :: MpResponse where
  "sample_mp = \<lparr>mp_flags = 1, bsp_lapic_id = 0, mp_cpus = [sample_cpu 0, sample_cpu 1]\<rparr>"

definition sample_requests :: Requests where
  "sample_requests = linked_requests\<lparr>
     FIRMWARE := firmware_type_request\<lparr>rq_response := Some \<lparr>firmware_type = FIRMWARE_UEFI64\<rparr>\<rparr>,
     HHDM := hhdm_request\<lparr>rq_response := Some \<lparr>hhdm_offset = 0xffff800000000000\<rparr>\<rparr>,
     EXECUTABLE := executable_address_request\<lparr>rq_response := Some \<lparr>physical_base = 0x10000000, virtual_base = 0xffffffff80000000\<rparr>\<rparr>,
     MEMMAP := memmap_request\<lparr>rq_response := Some \<lparr>mm_entries = sample_map\<rparr>\<rparr>,
     MP := (mp_request MP_X2APIC)\<lparr>rq_response := Some sample_mp\<rparr>\<rparr>"

definition sample_boot :: Boot where
  "sample_boot = \<lparr>bt_mc = sample_machine, bt_tops = TOPS, bt_gdts = [], bt_tsss = [], bt_idt = replicate 256 empty_entry, bt_regs = None,
     bt_idtr = None, bt_root = root_new, bt_mps = [], bt_ready = 0, bt_out = []\<rparr>"

text \<open>The other CPU is there at the second look, and each counter has its value at the first.\<close>

definition sample_env :: Env where
  "sample_env = \<lparr>env_ready = [0, 1, 1], env_self = \<lparr>wt_start = 0, wt_reads = [(0, 1000), (1, 2000)], wt_after = 1\<rparr>,
     env_timer = \<lparr>wt_start = 0, wt_reads = [(3, 1000)], wt_after = 3\<rparr>, env_pongs = \<lparr>wt_start = 0, wt_reads = [(2, 1000)], wt_after = 2\<rparr>,
     env_app_image = sample_image, env_net_image = sample_image, env_stacks = ([], [], [])\<rparr>"

lemma sample_responses:
  "response (FIRMWARE sample_requests) = Some \<lparr>firmware_type = FIRMWARE_UEFI64\<rparr>"
  "response (HHDM sample_requests) = Some \<lparr>hhdm_offset = 0xffff800000000000\<rparr>"
  "response (EXECUTABLE sample_requests) = Some \<lparr>physical_base = 0x10000000, virtual_base = 0xffffffff80000000\<rparr>"
  "response (MEMMAP sample_requests) = Some \<lparr>mm_entries = sample_map\<rparr>"
  "response (MP sample_requests) = Some sample_mp"
  by (simp_all add: sample_requests_def response_def)

lemma sample_entries:
  "map entry_start sample_map = [0x100000, 0x10000000]" "map entry_end sample_map = [0x10000000, 0x10040000]"
  by (simp_all add: sample_map_def entry_start_def entry_end_def align_up_def align_down_def saturating_add_def PAGE_def)

lemma sample_boot_ranges:
  "build_ranges (hw_bounds sample_hw) 0xffff800000000000 0x10000000 0xffffffff80000000 sample_map =
     [(0xffffffff80000000, 0x10000000, 0x40000), (0xffff800000100000, 0x100000, 0xff00000),
      (0xffffffff80000000, 0x10000000, 0x40000), (0xffff800010000000, 0x10000000, 0x40000)]"
  using sample_entries
  by (simp add: sample_map_def build_ranges_def entry_ranges_def sample_hw_def Let_def hhdm_mapped_rev3_def align_up_def saturating_add_def PAGE_def
      MEMMAP_USABLE_def MEMMAP_EXECUTABLE_AND_MODULES_def)

lemma sample_boot_ready: "build_ready (hw_bounds sample_hw) 0xffff800000000000 0x10000000 0xffffffff80000000 sample_map"
  unfolding build_ready_def sample_boot_ranges
  by (simp add: sample_hw_def range_ok_def upper_half_def ranges_agree_def range_span_def dvd_eq_mod_eq_0)

lemma sample_bump_pool:
  "from_memmap 0xffff800000000000 sample_map = Some \<lparr>ba_hhdm = 0xffff800000000000, ba_start = 0x100000, ba_cursor = 0x100000, ba_end = 0x10000000\<rparr>"
proof -
  have "page_up 0x100000 = 0x100000" by (rule page_up_id) simp
  then show ?thesis
    by (simp add: from_memmap_def sample_map_def MEMMAP_USABLE_def MEMMAP_EXECUTABLE_AND_MODULES_def saturating_add_def saturating_sub_def
        PAGE_def MIN_REGION_def)
qed

lemma sample_loader_sane: "loader_sane sample_hw sample_requests"
proof -
  have "upper_half (fst (hw_bounds sample_hw)) (align_up (snd (hw_bounds sample_hw) - fst (hw_bounds sample_hw)) PAGE)"
    by (simp add: sample_hw_def upper_half_def align_up_def saturating_add_def PAGE_def)
  moreover have "entry_high 0xffff800000000000 0x10000000 0xffffffff80000000 e" if "e \<in> set sample_map" for e
    using that sample_entries by (auto simp: sample_map_def entry_high_def upper_half_def)
  moreover have "unat (0xffff800000000000 :: u64) + unat (me_base e) + unat (me_length e) < 2 ^ 64" if "e \<in> set sample_map" for e
    using that by (auto simp: sample_map_def)
  ultimately show ?thesis by (simp add: loader_sane_def sample_responses answers_sane_def dvd_eq_mod_eq_0)
qed

lemma sample_cpu_count: "cpu_count sample_requests = 2" "bsp_slot sample_requests = 0" "expected_aps sample_requests = 1"
  by (simp_all add: cpu_count_def bsp_slot_def cpu_slot_def expected_aps_def sample_responses sample_mp_def sample_cpu_def saturating_sub_def)

lemma sample_loader_complete: "loader_complete sample_hw sample_requests"
proof -
  have "build_pages (hw_bounds sample_hw) 0xffff800000000000 0x10000000 0xffffffff80000000 sample_map = 407"
    unfolding build_pages_def sample_boot_ranges by (simp add: table_pages_def)
  moreover have "has_x2apic (hw_features sample_hw)" by (simp add: has_x2apic_def sample_hw_def sample_features_def)
  ultimately show ?thesis
    using sample_boot_ready by (simp add: loader_complete_def sample_responses sample_bump_pool sample_cpu_count MAX_CPUS_def room_def)
qed

lemma sample_boot_fresh: "boot_fresh sample_boot"
  by (simp add: boot_fresh_def sample_boot_def TOPS_def sample_machine_def)

lemma sample_env_good: "env_sane sample_env" "env_complete sample_requests sample_env"
proof -
  show "env_sane sample_env" by (simp add: env_sane_def sample_env_def sample_image_segments segment_low_def lower_half_def)
  show "env_complete sample_requests sample_env"
    using sample_image_fits by (simp add: env_complete_def sample_env_def landed_def sample_cpu_count)
qed

section \<open>Properties\<close>

text \<open>
  C16. Root Court boots. With complete answers of the boot loader, no more than eight CPUs with x2APIC, a pool that has
  the pages for tables, stacks and Courtlets, images that fit, and interrupts and CPUs that show up
  in time, the whole of \<^verbatim>\<open>kmain\<close> and \<^verbatim>\<open>kmain_on_kstack\<close> runs to its end: its last output is the line
  \<^verbatim>\<open>BOOT_OK\<close> with the number of CPUs, followed by the success exit.
\<close>

theorem boot_succeeds:
  assumes "boot_fresh b" and "loader_sane hw rq" and "loader_complete hw rq" and "env_sane env" and "env_complete rq env"
  shows "\<exists>b'. bring_up hw rq env b = (Ok (), b') \<and> ended_well rq b'"
  using bring_up_runs [OF assms(1,2,4), of False] assms(3,5) by (auto simp: runs_def split: prod.splits result.splits Stop.splits)

theorem boot_succeeds_witness: "\<exists>b'. bring_up sample_hw sample_requests sample_env sample_boot = (Ok (), b') \<and> ended_well sample_requests b'"
  by (rule boot_succeeds [OF sample_boot_fresh sample_loader_sane sample_loader_complete sample_env_good])



text \<open>
  C18. What \<^verbatim>\<open>kmain\<close> leaves. When it returns, the CPU runs on page tables that map the kernel image and, in the
  direct map, every whole page of the regions of revision 3; the allocator and the spaces are well
  formed; every CPU has a zeroed stack of 64 KiB of its own, disjoint from the others; the descriptor
  tables are filled, this CPU has loaded its own and the others' are free to be loaded; each of the
  256 gates leads to its stub. The stack it switches to is that of the boot CPU.
\<close>

theorem kmain_prepares:
  assumes "boot_fresh b" and "loader_sane hw rq" and "kmain hw rq b = (Ok sp, b')"
  shows "booted hw rq b' \<and> sp = bt_tops b' ! bsp_slot rq - 8"
  using kmain_runs [OF assms(1,2), of True] assms(3) by simp

lemma sample_kmain:
  "\<exists>sp b'. kmain sample_hw sample_requests sample_boot = (Ok sp, b')"
  using kmain_runs [OF sample_boot_fresh sample_loader_sane, of False] sample_loader_complete
  by (auto simp: runs_def split: prod.splits result.splits Stop.splits)

theorem kmain_prepares_witness: "\<exists>sp b'. kmain sample_hw sample_requests sample_boot = (Ok sp, b') \<and> booted sample_hw sample_requests b'"
  using sample_kmain kmain_prepares [OF sample_boot_fresh sample_loader_sane] by blast

lemma other_cpus:
  assumes "distinct (map lapic_id cpus)" and "bsp \<in> lapic_id ` set cpus" and "distinct infos" and "set infos = {cpu \<in> set cpus. lapic_id cpu \<noteq> bsp}"
  shows "length infos = length cpus - 1"
proof -
  from assms(2) obtain c where c: "c \<in> set cpus" "lapic_id c = bsp" by auto
  have "set infos = set cpus - {c}" using assms(1,4) c by (auto simp: distinct_map inj_on_def)
  then have "card (set infos) = card (set cpus) - 1" using c(1) by simp
  moreover have "distinct cpus" using assms(1) by (simp add: distinct_map)
  ultimately show ?thesis using assms(3) by (simp add: distinct_card)
qed

lemma pred_cpus:
  assumes "k = n - 1" and "0 < n" "n \<le> MAX_CPUS"
  shows "saturating_sub (of_nat n) 1 = (of_nat k :: u32)"
proof -
  have small: "unat (of_nat m :: u32) = m" if "m \<le> 8" for m using that by (simp add: unat_of_nat)
  have "n \<le> 8" "k \<le> 8" using assms by (simp_all add: MAX_CPUS_def)
  note small [OF this(1)] small [OF this(2)]
  then show ?thesis unfolding word_unat_eq_iff unat_saturating_sub unsigned_1 using assms(1) by metis
qed

text \<open>
  C19. The other CPUs come up, in any order. After \<^verbatim>\<open>kmain\<close> each of them runs \<^verbatim>\<open>ap_entry\<close> to its end on the kernel's page tables,
  with the task state and the stack of its own slot, and no two CPUs have the same slot; \<^verbatim>\<open>AP_READY\<close> grows by
  one for each: once all have run it is the number the boot CPU waits for.
\<close>

theorem aps_come_up:
  assumes "booted hw rq b" and "response (MP rq) = Some mp" "distinct (map lapic_id (mp_cpus mp))" "bsp_lapic_id mp \<in> lapic_id ` set (mp_cpus mp)"
    and "distinct infos" "set infos = {cpu \<in> set (mp_cpus mp). lapic_id cpu \<noteq> bsp_lapic_id mp}" "\<forall>info\<in>set infos. has_x2apic (features (lapic_id info))"
  shows "\<exists>b'. run_aps hw rq features infos b = (map (\<lambda>info. Ok (ap_up hw mp features b info)) infos, b') \<and>
    bt_ready b' = bt_ready b + expected_aps rq \<and> inj_on (\<lambda>info. cpu_slot mp (lapic_id info)) (set (mp_cpus mp))"
proof -
  let ?cpus = "mp_cpus mp"
  have n: "cpu_count rq = length ?cpus" using assms(2) by (simp add: cpu_count_def)
  have b: "running (bt_mc b)" "mc_kernel_pml4 (bt_mc b) \<noteq> 0" "stacks_ready (length ?cpus) (bt_tops b) (bt_mc b)" "length (bt_gdts b) = MAX_CPUS"
    "length ?cpus \<le> MAX_CPUS" "\<forall>cpu<MAX_CPUS. cpu \<noteq> bsp_slot rq \<longrightarrow> bt_gdts b ! cpu = gdt_of (hw_at hw) cpu"
    using assms(1) by (auto simp: booted_def memory_ready_def descriptors_ready_def n)
  have "bt_gdts b ! cpu_slot mp (lapic_id info) = gdt_of (hw_at hw) (cpu_slot mp (lapic_id info))" if "info \<in> set infos" for info
  proof -
    have i: "info \<in> set ?cpus" "lapic_id info \<noteq> bsp_lapic_id mp" using that assms(6) by auto
    with cpu_slot_inj [OF assms(3) i(1) assms(4)] have "cpu_slot mp (lapic_id info) \<noteq> bsp_slot rq" by (auto simp: bsp_slot_def assms(2))
    with b(6) cpu_slot_bound [OF assms(2)] b(5) n show ?thesis by simp
  qed
  then have g: "\<forall>info\<in>set infos. bt_gdts b ! cpu_slot mp (lapic_id info) = gdt_of (hw_at hw) (cpu_slot mp (lapic_id info))" by blast
  have "set infos \<subseteq> set ?cpus" unfolding assms(6) by blast
  from run_aps_up [OF b(1-4) assms(2,3) b(5) assms(5) this g assms(7)] obtain b'
    where r: "run_aps hw rq features infos b = (map (\<lambda>info. Ok (ap_up hw mp features b info)) infos, b')"
      "bt_ready b' = bt_ready b + of_nat (length infos)" by blast
  have "0 < length ?cpus" using assms(4) by (cases ?cpus) simp_all
  from pred_cpus [OF other_cpus [OF assms(3,4,5,6)] this b(5)] have e: "expected_aps rq = of_nat (length infos)"
    unfolding expected_aps_def assms(2) option.case .
  have "inj_on (\<lambda>info. cpu_slot mp (lapic_id info)) (set ?cpus)"
  proof (rule inj_onI)
    fix x y assume xy: "x \<in> set ?cpus" "y \<in> set ?cpus" "cpu_slot mp (lapic_id x) = cpu_slot mp (lapic_id y)"
    then have "lapic_id x = lapic_id y" by (intro cpu_slot_inj [OF assms(3)] imageI)
    with xy(1,2) assms(3) show "x = y" unfolding distinct_map inj_on_def by blast
  qed
  with r show ?thesis unfolding e by blast
qed

theorem aps_come_up_witness:
  "\<exists>sp b b'. kmain sample_hw sample_requests sample_boot = (Ok sp, b) \<and>
    run_aps sample_hw sample_requests (\<lambda>_. sample_features) [sample_cpu 1] b = ([Ok (ap_up sample_hw sample_mp (\<lambda>_. sample_features) b (sample_cpu 1))], b')"
proof -
  from sample_kmain obtain sp b where k: "kmain sample_hw sample_requests sample_boot = (Ok sp, b)" by blast
  then have bt: "booted sample_hw sample_requests b"
    using kmain_runs [OF sample_boot_fresh sample_loader_sane, of True] by simp
  have c: "distinct (map lapic_id (mp_cpus sample_mp))" "bsp_lapic_id sample_mp \<in> lapic_id ` set (mp_cpus sample_mp)"
    "set [sample_cpu 1] = {cpu \<in> set (mp_cpus sample_mp). lapic_id cpu \<noteq> bsp_lapic_id sample_mp}"
    by (auto simp: sample_mp_def sample_cpu_def)
  have x: "\<forall>info\<in>set [sample_cpu 1]. has_x2apic sample_features" by (simp add: has_x2apic_def sample_features_def)
  from aps_come_up [OF bt sample_responses(5) c(1,2) _ c(3) x] k show ?thesis by auto
qed

end
