(* ===== verification/Interrupt_Properties.thy ===== *)
theory Interrupt_Properties
  imports Interrupts
begin

text \<open>
  The properties of the descriptor tables and of the path of an interrupt.
\<close>

text \<open>
  C21. The descriptor tables are well formed, as the processor reads them. \<^verbatim>\<open>idt::init\<close> accepts the stubs and every one of
  the 256 gates is a present interrupt gate in the kernel's code segment whose three offset fields
  give back the address of its vector's stub; only the double fault has a stack of its own. In the
  GDT of every CPU the two words of the TSS descriptor decode to an available TSS with the address
  and the limit of the CPU's own TSS, and that one's first interrupt stack ends at the end of the
  CPU's own 16 KiB.
\<close>

theorem descriptor_tables_wellformed:
  assumes "length idt = 256" and "unat (ists_at at) + MAX_CPUS * IST_BYTES < 2 ^ 64"
  shows "\<exists>idt'. idt_init at idt = (Ok (), idt') \<and>
    (\<forall>vec<256. gate_offset (idt' ! vec) = stub at (of_nat vec) \<and> selector (idt' ! vec) = KERNEL_CS \<and> flags (idt' ! vec) = 0x8E \<and>
      ist (idt' ! vec) = (if vec = 8 then 1 else 0)) \<and>
    (\<forall>cpu<MAX_CPUS. let gdt = fst (gdt_init at) ! cpu; tss = snd (gdt_init at) ! cpu in
      gdt ! 1 = KERNEL_CODE \<and> gdt ! 2 = KERNEL_DATA \<and> desc_type (gdt ! 3) = 9 \<and> bit (gdt ! 3) 47 \<and>
      desc_base (gdt ! 3) (gdt ! 4) = tsss_at at + of_nat (cpu * TSS_SIZE) \<and> desc_limit (gdt ! 3) = of_nat TSS_SIZE - 1 \<and>
      unat (tss_ist tss ! 0) = unat (ists_at at) + Suc cpu * IST_BYTES)"
proof -
  obtain idt' where i: "idt_init at idt = (Ok (), idt')" "length idt' = 256"
    "\<forall>vec<256. idt' ! vec = gate (stub at (of_nat vec)) (if vec = 8 then 1 else 0)" using idt_init_gates [OF assms(1)] by blast
  have g: "gate_offset (idt' ! vec) = stub at (of_nat vec) \<and> selector (idt' ! vec) = KERNEL_CS \<and> flags (idt' ! vec) = 0x8E \<and>
      ist (idt' ! vec) = (if vec = 8 then 1 else 0)" if "vec < 256" for vec
    using i(3) that gate_offset_gate [of "stub at (of_nat vec)"] by (simp add: gate_def)
  have d: "let gdt = gdt_of at cpu in gdt ! 1 = KERNEL_CODE \<and> gdt ! 2 = KERNEL_DATA \<and> desc_type (gdt ! 3) = 9 \<and> bit (gdt ! 3) 47 \<and>
      desc_base (gdt ! 3) (gdt ! 4) = tsss_at at + of_nat (cpu * TSS_SIZE) \<and> desc_limit (gdt ! 3) = of_nat TSS_SIZE - 1" for cpu
  proof -
    let ?b = "tsss_at at + of_nat (cpu * TSS_SIZE)"
    obtain lo hi where t: "tss_descriptor ?b (of_nat TSS_SIZE - 1) = (lo, hi)" by (rule prod.exhaust)
    have "of_nat TSS_SIZE - 1 < (2 ^ 16 :: u64)" by (simp add: TSS_SIZE_def)
    from tss_descriptor_limit [OF this, of ?b] tss_descriptor_base [of ?b "of_nat TSS_SIZE - 1"] tss_descriptor_type [of ?b "of_nat TSS_SIZE - 1"]
    show ?thesis unfolding gdt_of_def t by (simp add: t eval_nat_numeral)
  qed
  have s: "unat (tss_ist (tss_of at cpu) ! 0) = unat (ists_at at) + Suc cpu * IST_BYTES" if "cpu < MAX_CPUS" for cpu
  proof -
    have "ists_at at + of_nat (cpu * IST_BYTES) + of_nat IST_BYTES = ists_at at + of_nat (Suc cpu * IST_BYTES)" by (simp add: algebra_simps)
    moreover have "Suc cpu * IST_BYTES \<le> MAX_CPUS * IST_BYTES" using that by (intro mult_le_mono1) simp
    with assms(2) have "Suc cpu * IST_BYTES < 2 ^ 64" "unat (ists_at at) + Suc cpu * IST_BYTES < 2 ^ 64" by linarith+
    then have "unat (ists_at at + of_nat (Suc cpu * IST_BYTES)) = unat (ists_at at) + Suc cpu * IST_BYTES"
      by (subst unat_add_no_overflow) (simp_all only: unat_of_nat, simp_all)
    ultimately show ?thesis by (simp add: tss_of_def algebra_simps)
  qed
  show ?thesis using i(1) g d s by (intro exI [of _ idt']) (auto simp: gdt_init_def Let_def)
qed

theorem descriptor_tables_wellformed_witness:
  "\<exists>idt'. idt_init \<lparr>gdts_at = 0x1000, tsss_at = 0x2000, ists_at = 0x3000, idt_at = 0x4000, isr_stub_table = 0x5000\<rparr> (replicate 256 empty_entry) = (Ok (), idt') \<and>
    gate_offset (idt' ! 0x20) = 0x5200"
  using descriptor_tables_wellformed [of "replicate 256 empty_entry" "\<lparr>gdts_at = 0x1000, tsss_at = 0x2000, ists_at = 0x3000, idt_at = 0x4000, isr_stub_table = 0x5000\<rparr>"]
  by (auto simp: MAX_CPUS_def IST_BYTES_def stub_def STUB_STRIDE_def)

text \<open>
  C20. An interrupt is transparent to what it interrupts. From the state the processor leaves when it delivers any of the
  256 vectors, with or without an error code, the vector's stub and \<^verbatim>\<open>isr_common\<close> call the handler with
  a stack aligned to 16 bytes and a pointer to a frame that has the interrupted registers, the
  vector, the error code or zero, and the state to return to. Whatever registers the handler
  changes, if it keeps \<^verbatim>\<open>rbp\<close> and the frame, all general registers have their old values at \<^verbatim>\<open>iretq\<close>, which
  returns to the interrupted state.
\<close>

theorem interrupts_transparent:
  assumes "c1 = isr_stub vec (deliver vec err ret c)" and "keeps_frame (isr_enter c1) (dispatch (isr_enter c1))"
  shows "frame_at ((isr_enter c1)\<lparr>rsp := regs (isr_enter c1) RDI\<rparr>) =
      \<lparr>fr_regs = regs c, fr_vector = of_nat vec, fr_error = (if vec \<in> error_code_vectors then err else 0), fr_return = ret\<rparr> \<and>
    16 dvd unat (rsp (isr_enter c1)) \<and> regs (isr_common dispatch c1) = regs c \<and>
    iretq (isr_common dispatch c1) = (ret, (isr_common dispatch c1)\<lparr>rsp := ret_rsp ret\<rparr>)"
proof -
  have "frame_at ((isr_enter c1)\<lparr>rsp := regs (isr_enter c1) RDI\<rparr>) = frame_at (isr_save c1)"
    by (simp add: frame_at_def frame_words_def isr_enter_def Let_def)
  moreover have "(0xF :: u64) = mask 4" by (simp add: mask_eq_exp_minus_1)
  then have "16 dvd unat (rsp (isr_enter c1))" using unat_and_not_mask [of "rsp (isr_save c1)" 4] by (simp add: isr_enter_def Let_def)
  ultimately show ?thesis using isr_frame [OF assms(1)] isr_returns [where dispatch = dispatch, OF assms refl] by simp
qed

text \<open>The instance: a page fault whose handler clobbers a register.\<close>

theorem interrupts_transparent_witness:
  "regs (isr_common (\<lambda>c. c\<lparr>regs := (regs c)(RAX := 7)\<rparr>)
     (isr_stub 14 (deliver 14 2 \<lparr>ret_rip = 0x100, ret_cs = 8, ret_rflags = 2, ret_rsp = 0x8000, ret_ss = 0x10\<rparr>
       \<lparr>regs = (\<lambda>_. 5), rsp = 0x8000, words = (\<lambda>_. 0)\<rparr>))) = (\<lambda>_. 5)"
  using interrupts_transparent [OF refl, where vec = 14 and err = 2 and dispatch = "\<lambda>c. c\<lparr>regs := (regs c)(RAX := 7)\<rparr>"
      and ret = "\<lparr>ret_rip = 0x100, ret_cs = 8, ret_rflags = 2, ret_rsp = 0x8000, ret_ss = 0x10\<rparr>" and c = "\<lparr>regs = (\<lambda>_. 5), rsp = 0x8000, words = (\<lambda>_. 0)\<rparr>"]
  by (simp add: keeps_frame_def)

end
