(* ===== verification/Spec2Isabelle.thy ===== *)
theory Spec2Isabelle
  imports Hosted_Properties Courtlet_Properties Hosted_System Boot_Properties Interrupt_Properties
begin

text \<open>
  \<^bold>\<open>Court Kernel: a verification library.\<close>

  \<^bold>\<open>The program.\<close> Court Kernel has two halves that share a design, capabilities with rights over corridors between
  courts, and no code.

  The hosted half is a reference monitor in one process (\<^verbatim>\<open>crates/court-hosted/src/lib.rs\<close>) with a Linux prototype
  around it (\<^verbatim>\<open>crates/court-hosted-linux/src\<close>). The daemon (\<^verbatim>\<open>root.rs\<close>) validates a manifest and a policy
  (\<^verbatim>\<open>manifest.rs\<close>), builds the monitor's state from them, creates one shared-memory ring per corridor (\<^verbatim>\<open>shm_ring.rs\<close>),
  starts a process per court (\<^verbatim>\<open>app.rs\<close>, \<^verbatim>\<open>net.rs\<close>, \<^verbatim>\<open>bin/\<close>) and takes them through lookup, grant, open, send, receive, revocation
  and fault over a control connection (\<^verbatim>\<open>control.rs\<close>, \<^verbatim>\<open>protocol.rs\<close>).

  The bare-metal half is Root Court (\<^verbatim>\<open>crates/root-court/src\<close>). It boots from Limine (\<^verbatim>\<open>main.rs\<close>, \<^verbatim>\<open>limine_abi.rs\<close>), takes its
  memory from a page allocator (\<^verbatim>\<open>mm.rs\<close>), builds page tables (\<^verbatim>\<open>paging.rs\<close>), stacks (\<^verbatim>\<open>stack.rs\<close>), descriptor tables
  (\<^verbatim>\<open>gdt.rs\<close>, \<^verbatim>\<open>idt.rs\<close>, \<^verbatim>\<open>idt_stubs.s\<close>) and the interrupt controller's set-up (\<^verbatim>\<open>apic.rs\<close>), starts the other CPUs, and runs a demo
  (\<^verbatim>\<open>courtlet.rs\<close>) that loads two Court Images (\<^verbatim>\<open>image.rs\<close>, \<^verbatim>\<open>crates/court-images\<close>, \<^verbatim>\<open>crates/court-abi\<close>) into address
  spaces of their own, with a fixed table of courts and capabilities (\<^verbatim>\<open>object.rs\<close>).

  \<^bold>\<open>Conventions.\<close> \<^verbatim>\<open>CK_Prelude\<close> has the machine integers as words, Rust's \<^verbatim>\<open>Result\<close> with a panic as a third outcome, and the
  early return on state-passing code. A method on a mutable receiver is a function from the state to the result and the new state, so
  an error path keeps what it has already changed. \<^verbatim>\<open>Byte_Buffer\<close> has little-endian fields of byte buffers with an access outside the
  buffer as \<^verbatim>\<open>None\<close>, \<^verbatim>\<open>Phys_Memory\<close> physical memory by 64-bit address, \<^verbatim>\<open>Utf8\<close> the strings. Crates built in the dev profile panic on overflow,
  those built in the release profile wrap.

  \<^bold>\<open>Contracts.\<close> \<^verbatim>\<open>CK_Interfaces\<close> has three locales. \<^verbatim>\<open>monotone_system\<close> is a transition system with an invariant and a relation that only grows; it is
  interpreted on the operations of the monitor (\<^verbatim>\<open>Hosted_Invariant\<close>, \<^verbatim>\<open>Hosted_Audit\<close>), on the object table (\<^verbatim>\<open>Root_Object\<close>), on sequences of
  mappings (\<^verbatim>\<open>Paging_Map\<close>) and on sets of address spaces (\<^verbatim>\<open>Address_Spaces\<close>). \<^verbatim>\<open>bounded_channel\<close> is a first-in-first-out channel of bounded capacity; it is
  interpreted on a corridor of the monitor (\<^verbatim>\<open>Hosted_Corridor\<close>), on the bytes of the mapped ring (\<^verbatim>\<open>Shared_Ring\<close>) and on the ring page of the images
  (\<^verbatim>\<open>Court_Images\<close>). \<^verbatim>\<open>page_source\<close> is an allocator of disjoint pages, interpreted on the bump allocator (\<^verbatim>\<open>Bump_Allocator\<close>).

  \<^bold>\<open>The hosted monitor.\<close> \<^verbatim>\<open>Hosted_Types\<close> has the data, \<^verbatim>\<open>Cap_Registry\<close> minting, delegation, authorization and the worklist loop of \<^verbatim>\<open>revoke\<close>,
  \<^verbatim>\<open>Hosted_Root\<close> the namespace, the corridors and every public operation of \<^verbatim>\<open>HostedRoot\<close>. \<^verbatim>\<open>Hosted_Invariant\<close> shows that every operation
  keeps the invariant. \<^verbatim>\<open>Hosted_Audit\<close> and \<^verbatim>\<open>Hosted_Properties\<close> show that revocation reaches exactly the descendants and is permanent, that
  delegation only attenuates, that every use in the trace was covered by a grant, that a fault is final and contained, what send does on every
  branch, and that names carry no authority. \<^verbatim>\<open>Hosted_Demo\<close> runs the packet scenario, which instantiates the properties.

  \<^bold>\<open>The Linux prototype.\<close> \<^verbatim>\<open>Wire_Protocol\<close>, \<^verbatim>\<open>Manifest\<close> and \<^verbatim>\<open>Shared_Ring\<close> model the three data modules: validation is equivalent to a declarative
  specification; ring operations stay inside a mapping that was validated, whatever its slots hold, and deliver in order. \<^verbatim>\<open>Host_Calls\<close> makes a process a function of
  the answers to its calls, so that a statement for all answers covers every behaviour of the host and of the peers. \<^verbatim>\<open>Root_Daemon\<close> has every
  phase of the daemon. \<^verbatim>\<open>Daemon_Safety\<close> and \<^verbatim>\<open>Daemon_Policy\<close> show, for all answers, that the daemon keeps the monitor's invariant, hands a
  ring only to courts the policy grants, and has carried out the policy when it returns \<^verbatim>\<open>Ok\<close> (\<^verbatim>\<open>Daemon_Properties\<close>). \<^verbatim>\<open>Court_Processes\<close> has
  both courts and the command lines, \<^verbatim>\<open>Court_Safety\<close> what the app court can do to its ring. \<^verbatim>\<open>Packet_Rx\<close> is the daemon's run of the compiled-in scenario, and
  \<^verbatim>\<open>Hosted_System\<close> puts the three processes on one host and shows that the scenario runs to its end.

  \<^bold>\<open>Memory of Root Court.\<close> \<^verbatim>\<open>Bump_Allocator\<close> has the allocator. \<^verbatim>\<open>Page_Entries\<close> and \<^verbatim>\<open>Paging\<close> have the mapper, the kernel's page map and the cloned
  spaces. \<^verbatim>\<open>Paging_Walk\<close> defines what tables mean by the walk of the processor, \<^verbatim>\<open>Paging_Map\<close> shows that mapping implements it, \<^verbatim>\<open>Paging_Progress\<close>
  and \<^verbatim>\<open>Paging_Chunks\<close> when it succeeds. \<^verbatim>\<open>Address_Spaces\<close> shows that spaces share the kernel half and nothing else, \<^verbatim>\<open>Kernel_Space\<close> and \<^verbatim>\<open>Kernel_Build\<close> what
  \<^verbatim>\<open>build\<close> maps and when it succeeds, \<^verbatim>\<open>Data_Pages\<close> that mapping leaves data alone. \<^verbatim>\<open>Paging_Properties\<close> collects the properties.

  \<^bold>\<open>Courtlets.\<close> \<^verbatim>\<open>Elf_Image\<close> has the loader, \<^verbatim>\<open>Court_Images\<close> the two images on the bytes of their pages, \<^verbatim>\<open>Courtlets\<close> spawning, entering and the demo,
  \<^verbatim>\<open>Root_Object\<close> the object table. \<^verbatim>\<open>Courtlet_Memory\<close>, \<^verbatim>\<open>Courtlet_Demo\<close>, \<^verbatim>\<open>Courtlet_Progress\<close> and \<^verbatim>\<open>Courtlet_Properties\<close> show that a
  loaded image reads as its file, that the demo never faults, and that it succeeds when memory and images allow.

  \<^bold>\<open>Boot and interrupts.\<close> \<^verbatim>\<open>Kernel_Stacks\<close>, \<^verbatim>\<open>Descriptor_Tables\<close>, \<^verbatim>\<open>Serial\<close>, \<^verbatim>\<open>Limine\<close> and \<^verbatim>\<open>Interrupts\<close> model the parts, \<^verbatim>\<open>Boot\<close> the two halves of
  \<^verbatim>\<open>kmain\<close> and \<^verbatim>\<open>ap_entry\<close>. \<^verbatim>\<open>Boot_Steps\<close> has a rule for each step, \<^verbatim>\<open>Boot_Progress\<close> and \<^verbatim>\<open>Boot_Properties\<close> show that the boot always ends with a line and an exit or waits,
  that it reaches \<^verbatim>\<open>BOOT_OK\<close> on a complete machine, and that the other CPUs come up on their own stacks and tables. \<^verbatim>\<open>Interrupt_Properties\<close> shows that
  an interrupt is transparent to the code it interrupts and that the tables decode to what the code means.

  \<^bold>\<open>Bounds.\<close> No definition uses fuel. The loop of \<^verbatim>\<open>revoke\<close> is a partial function, shown to return under the invariant. Loops that wait for a device, a clock or a
  peer run over the list of values they read, and are waiting where it ends; the theorems that say they return assume that the list has the value waited for.
  The 100 connection attempts, the 8000000 spins of \<^verbatim>\<open>start_aps\<close> and the 8000000000 ticks of the waits are those of the source. The 2193 pages that the demo
  asks for are enough for two images of any size \<^verbatim>\<open>image_fits\<close> allows, with all their tables.

  \<^bold>\<open>Not modelled.\<close> The JSON text of messages, manifests and traces is serde's: messages and files are values. What operating-system calls, devices and the
  bootloader do is an argument; \<^verbatim>\<open>Hosted_System\<close> states the order of sockets, files and exits it relies on. Ring operations of the two courts happen one at a time, so
  the memory ordering of the atomics is not a subject, nor is the lock of the serial port. The contents of the kernel's own stacks, the addresses of statics and
  linker symbols, and the machine code of the images, as opposed to their sources, are arguments. Freeing of mappings and files at the end of a process (\<^verbatim>\<open>Drop\<close>), the output the demo prints while it
  runs, build scripts, the emulator's script and the tests have no model.
\<close>

end
